(* ===== verification/Prelude.thy ===== *)
theory Prelude
  imports Main "HOL-Library.Word"
begin

text \<open>
  Shared vocabulary of the development: names for the machine integers of the
  C sources, C strings as byte lists, big- and little-endian readings of byte
  sequences, and the generic lemmas on words and lists the component theories
  rely on.
\<close>

unbundle bit_operations_syntax

type_synonym u8 = "8 word"
type_synonym u16 = "16 word"
type_synonym u32 = "32 word"
type_synonym u64 = "64 word"

text \<open>
  A C string is the list of its characters before the terminating NUL.
  Buffers are plain byte lists; \<open>cstr_of\<close> reads the string a buffer holds.
\<close>

type_synonym cstr = "u8 list"

definition cstr_of :: "u8 list \<Rightarrow> cstr" where
  "cstr_of buf = takeWhile (\<lambda>c. c \<noteq> 0) buf"

definition bytes_of :: "string \<Rightarrow> u8 list" where
  "bytes_of s = map of_char s"

named_theorems byte_simps "unfolding of byte packing and unpacking"

section \<open>Byte sequences as numbers\<close>

fun be_val :: "u8 list \<Rightarrow> nat" where
  "be_val [] = 0"
| "be_val (b # bs) = unat b * 256 ^ length bs + be_val bs"

fun le_val :: "u8 list \<Rightarrow> nat" where
  "le_val [] = 0"
| "le_val (b # bs) = unat b + 256 * le_val bs"

definition le32_bytes :: "u32 \<Rightarrow> u8 list" where
  "le32_bytes x = [ucast x, ucast (drop_bit 8 x), ucast (drop_bit 16 x), ucast (drop_bit 24 x)]"

definition be32_bytes :: "u32 \<Rightarrow> u8 list" where
  "be32_bytes x = [ucast (drop_bit 24 x), ucast (drop_bit 16 x), ucast (drop_bit 8 x), ucast x]"

definition be16_bytes :: "u16 \<Rightarrow> u8 list" where
  "be16_bytes x = [ucast (drop_bit 8 x), ucast x]"

definition be32 :: "u8 \<Rightarrow> u8 \<Rightarrow> u8 \<Rightarrow> u8 \<Rightarrow> u32" where
  "be32 a b c d = ucast d OR push_bit 8 (ucast c) OR push_bit 16 (ucast b) OR push_bit 24 (ucast a)"

lemma length_le32_bytes [simp]: "length (le32_bytes x) = 4"
  by (simp add: le32_bytes_def)

lemma length_be32_bytes [simp]: "length (be32_bytes x) = 4"
  by (simp add: be32_bytes_def)

lemma length_be16_bytes [simp]: "length (be16_bytes x) = 2"
  by (simp add: be16_bytes_def)

lemma be_val_append: "be_val (xs @ ys) = be_val xs * 256 ^ length ys + be_val ys"
  by (induction xs) (simp_all add: algebra_simps power_add)

lemma le_val_append: "le_val (xs @ ys) = le_val xs + 256 ^ length xs * le_val ys"
  by (induction xs) (simp_all add: algebra_simps)

lemma be_val_rev: "be_val (rev xs) = le_val xs"
  by (induction xs) (simp_all add: be_val_append)

lemma unat_lt_size: "unat (w :: 'a::len word) < 2 ^ LENGTH('a)"
  by (rule unsigned_less)

lemma unat_u8_less [simp]: "unat (b :: u8) < 256"
  by (rule unat_lt_size [where w = b, simplified])

lemma unat_u8_le [simp]: "unat (b :: u8) \<le> 255"
  using unat_u8_less [of b] by linarith

lemma le_val_less: "le_val xs < 256 ^ length xs"
proof (induction xs)
  case Nil
  show ?case by simp
next
  case (Cons b bs)
  have "unat b < 256" by simp
  moreover have "256 * le_val bs + 256 \<le> 256 * 256 ^ length bs"
    using Cons.IH by simp
  ultimately have "unat b + 256 * le_val bs < 256 * 256 ^ length bs" by linarith
  then show ?case by simp
qed

lemma be_val_less: "be_val xs < 256 ^ length xs"
  using le_val_less [of "rev xs"] be_val_rev [of "rev xs"] by simp

lemma unat_drop_bit_div: "unat (drop_bit n (x :: 'a::len word)) = unat x div 2 ^ n"
  unfolding unat_drop_bit_eq by (rule drop_bit_eq_div)

lemma unat_ucast8: "unat (ucast (x :: 'a::len word) :: u8) = unat x mod 256"
  by (simp add: unsigned_ucast_eq take_bit_eq_mod)

lemma unat_ucast_up: "LENGTH('a) \<le> LENGTH('b) \<Longrightarrow> unat (ucast (x :: 'a::len word) :: 'b::len word) = unat x"
proof -
  assume "LENGTH('a) \<le> LENGTH('b)"
  then have "(2 :: nat) ^ LENGTH('a) \<le> 2 ^ LENGTH('b)" by (rule power_increasing) simp
  with unat_lt_size [of x] have "unat x < 2 ^ LENGTH('b)" by (rule less_le_trans)
  then show ?thesis by (simp add: unsigned_ucast_eq take_bit_nat_eq_self)
qed

lemma nat_bytes4:
  "(n :: nat) mod 256 + 256 * (n div 256 mod 256 + 256 * (n div 65536 mod 256 + 256 * (n div 16777216))) = n"
proof -
  have 1: "n div 65536 = n div 256 div 256" "n div 16777216 = n div 256 div 256 div 256"
    by (simp_all flip: div_mult2_eq)
  show ?thesis unfolding 1 by simp
qed

lemma unat_div_top: "unat (x :: u32) div 16777216 mod 256 = unat x div 16777216"
  using unat_lt_size [of x] by (simp add: less_mult_imp_div_less)

lemma le_val_le32_bytes [simp]: "le_val (le32_bytes x) = unat x"
proof -
  from nat_bytes4 [of "unat x"] show ?thesis
    by (simp add: le32_bytes_def unat_drop_bit_div unat_ucast8 unat_div_top)
qed

lemma be32_bytes_rev: "be32_bytes x = rev (le32_bytes x)"
  by (simp add: be32_bytes_def le32_bytes_def)

lemma be_val_be32_bytes [simp]: "be_val (be32_bytes x) = unat x"
  by (simp add: be32_bytes_rev be_val_rev)

lemma be_val_be16_bytes [simp]: "be_val (be16_bytes x) = unat x"
proof -
  have "unat x < 65536" using unat_lt_size [of x] by simp
  then have "unat x div 256 < 256" by (simp add: less_mult_imp_div_less)
  then show ?thesis
    by (simp add: be16_bytes_def unat_drop_bit_div unat_ucast8)
qed

lemma be32_be32_bytes:
  "be32 (ucast (drop_bit 24 x)) (ucast (drop_bit 16 x)) (ucast (drop_bit 8 x)) (ucast x) = x"
proof (rule bit_word_eqI)
  fix n assume "n < LENGTH(32)"
  then consider "n < 8" | "8 \<le> n" "n < 16" | "16 \<le> n" "n < 24" | "24 \<le> n" "n < 32"
    by fastforce
  then show "bit (be32 (ucast (drop_bit 24 x)) (ucast (drop_bit 16 x)) (ucast (drop_bit 8 x)) (ucast x)) n
      = bit x n"
    by cases (auto simp: be32_def bit_simps)
qed

lemma bit_u8_high: "8 \<le> n \<Longrightarrow> \<not> bit (b :: u8) n"
  using bit_imp_le_length [of b n] by auto

lemma be32_inject_bytes: "be32_bytes (be32 a b c d) = [a, b, c, d]"
  by (auto simp: be32_bytes_def be32_def bit_simps bit_u8_high intro!: bit_word_eqI)

lemma sint_nonneg_unat:
  fixes w :: "'a::len word"
  assumes "0 \<le> sint w"
  shows "sint w = int (unat w)"
proof -
  have "sint w < 2 ^ LENGTH('a)"
    using sint_lt [of w] power_increasing [of "LENGTH('a) - 1" "LENGTH('a)" "2 :: int"] by linarith
  then have "uint (word_of_int (sint w) :: 'a word) = sint w"
    using assms by (simp only: unsigned_of_int take_bit_int_eq_self)
  then show ?thesis by simp
qed

section \<open>Tables of 256 entries\<close>

text \<open>Indexing a table with a byte.\<close>

definition tb :: "'a list \<Rightarrow> u8 \<Rightarrow> 'a" where
  "tb t x = t ! unat x"

text \<open>All bytes, in order.\<close>

definition bytes :: "u8 list" where
  "bytes =
    [0, 1, 2, 3, 4, 5, 6, 7, 8, 9, 10, 11, 12, 13, 14, 15,
     16, 17, 18, 19, 20, 21, 22, 23, 24, 25, 26, 27, 28, 29, 30, 31,
     32, 33, 34, 35, 36, 37, 38, 39, 40, 41, 42, 43, 44, 45, 46, 47,
     48, 49, 50, 51, 52, 53, 54, 55, 56, 57, 58, 59, 60, 61, 62, 63,
     64, 65, 66, 67, 68, 69, 70, 71, 72, 73, 74, 75, 76, 77, 78, 79,
     80, 81, 82, 83, 84, 85, 86, 87, 88, 89, 90, 91, 92, 93, 94, 95,
     96, 97, 98, 99, 100, 101, 102, 103, 104, 105, 106, 107, 108, 109, 110, 111,
     112, 113, 114, 115, 116, 117, 118, 119, 120, 121, 122, 123, 124, 125, 126, 127,
     128, 129, 130, 131, 132, 133, 134, 135, 136, 137, 138, 139, 140, 141, 142, 143,
     144, 145, 146, 147, 148, 149, 150, 151, 152, 153, 154, 155, 156, 157, 158, 159,
     160, 161, 162, 163, 164, 165, 166, 167, 168, 169, 170, 171, 172, 173, 174, 175,
     176, 177, 178, 179, 180, 181, 182, 183, 184, 185, 186, 187, 188, 189, 190, 191,
     192, 193, 194, 195, 196, 197, 198, 199, 200, 201, 202, 203, 204, 205, 206, 207,
     208, 209, 210, 211, 212, 213, 214, 215, 216, 217, 218, 219, 220, 221, 222, 223,
     224, 225, 226, 227, 228, 229, 230, 231, 232, 233, 234, 235, 236, 237, 238, 239,
     240, 241, 242, 243, 244, 245, 246, 247, 248, 249, 250, 251, 252, 253, 254, 255]"

lemma length_bytes [simp]: "length bytes = 256"
  by (simp add: bytes_def)

lemma bytes_upt: "bytes = map word_of_nat [0..<256]"
proof -
  have "map int [0..<256] = [0..255]"
    by (rule nth_equalityI) (simp_all add: nth_upto)
  then have "map (\<lambda>i. word_of_int (int i) :: u8) [0..<256] = map word_of_int [0..255]"
    by (simp only: map_map [symmetric, unfolded comp_def])
  moreover have "bytes = map word_of_int [0..255]"
    by (simp add: bytes_def upto_rec1)
  ultimately show ?thesis by simp
qed

lemma tb_map: "tb (map f bytes) x = f x"
  by (simp add: tb_def bytes_upt)

lemma tb_of_map: "length t = 256 \<Longrightarrow> tb (map f t) x = f (tb t x)"
  by (simp add: tb_def)

lemma bytes_tb: "tb bytes x = x"
  by (simp add: tb_def bytes_upt)

section \<open>Lists\<close>

lemma length_4_cases: "length xs = 4 \<longleftrightarrow> (\<exists>a b c d. xs = [a, b, c, d])"
  by (auto simp: length_Suc_conv numeral_eq_Suc)

lemma nth_in_set_if: "i < length xs \<Longrightarrow> (\<forall>x \<in> set xs. P x) \<Longrightarrow> P (xs ! i)"
  by simp

text \<open>Copying bytes into a buffer at an offset, and clearing part of it.\<close>

definition mem_write :: "nat \<Rightarrow> 'a list \<Rightarrow> 'a list \<Rightarrow> 'a list" where
  "mem_write off xs mem = take off mem @ xs @ drop (off + length xs) mem"

lemma length_mem_write [simp]: "off + length xs \<le> length mem \<Longrightarrow> length (mem_write off xs mem) = length mem"
  by (simp add: mem_write_def)

lemma take_mem_write [simp]:
  "off + length xs \<le> length mem \<Longrightarrow> take (off + length xs) (mem_write off xs mem) = take off mem @ xs"
  by (simp add: mem_write_def)

text \<open>The first element, or a default.\<close>

definition hdo :: "'a list \<Rightarrow> 'a option \<Rightarrow> 'a option" where
  "hdo xs nx = (case xs of [] \<Rightarrow> nx | y # _ \<Rightarrow> Some y)"

lemma hdo_simps [simp]: "hdo [] nx = nx" "hdo (x # xs) nx = Some x" "hdo (xs @ ys) nx = hdo xs (hdo ys nx)"
  by (simp_all add: hdo_def split: list.split)

section \<open>Results\<close>

text \<open>An operation that may fail: \<open>Inl\<close> the error, or \<open>Inr\<close> the result, and the next operation.\<close>

definition bindR :: "'e + 'a \<Rightarrow> ('a \<Rightarrow> 'e + 'b) \<Rightarrow> 'e + 'b" where
  "bindR r f = (case r of Inl e \<Rightarrow> Inl e | Inr x \<Rightarrow> f x)"

lemma bindR_simps [simp]: "bindR (Inl e) f = Inl e" "bindR (Inr x) f = f x"
  by (simp_all add: bindR_def)

lemma bindR_eq_Inr: "bindR r f = Inr y \<longleftrightarrow> (\<exists>x. r = Inr x \<and> f x = Inr y)"
  by (cases r) simp_all

lemma bindR_eq_Inl: "bindR r f = Inl e \<longleftrightarrow> r = Inl e \<or> (\<exists>x. r = Inr x \<and> f x = Inl e)"
  by (cases r) simp_all

section \<open>Codecs\<close>

text \<open>
  An encoder and a fallible decoder that undoes it on the values \<open>ok\<close> accepts.
  Every serialisation of the sources is an instance.
\<close>

locale codec =
  fixes enc :: "'a \<Rightarrow> 'b" and dec :: "'b \<Rightarrow> 'a option" and ok :: "'a \<Rightarrow> bool"
  assumes dec_enc: "ok x \<Longrightarrow> dec (enc x) = Some x"
begin

lemma enc_eq_iff: "ok x \<Longrightarrow> ok y \<Longrightarrow> enc x = enc y \<longleftrightarrow> x = y"
  using dec_enc by (metis option.inject)

lemma enc_inj_on: "inj_on enc {x. ok x}"
  by (rule inj_onI) (simp add: enc_eq_iff)

lemma dec_map_enc: "list_all ok xs \<Longrightarrow> map (\<lambda>x. dec (enc x)) xs = map Some xs"
  by (induction xs) (simp_all add: dec_enc)

end

section \<open>First-in first-out queues\<close>

text \<open>
  Client programs of a queue, what they return on lists, and the runs of an
  implementation.  \<open>q_legal ok\<close> says that every value entered is one the
  implementation accepts at that point.
\<close>

datatype 'a qop = Enq 'a | Deq

fun q_spec :: "'a qop list \<Rightarrow> 'a list \<Rightarrow> 'a option list \<times> 'a list" where
  "q_spec [] xs = ([], xs)"
| "q_spec (Enq x # ops) xs = q_spec ops (xs @ [x])"
| "q_spec (Deq # ops) xs = (let (rs, ys) = q_spec ops (tl xs) in (hdo xs None # rs, ys))"

fun q_legal :: "('a list \<Rightarrow> 'a \<Rightarrow> bool) \<Rightarrow> 'a qop list \<Rightarrow> 'a list \<Rightarrow> bool" where
  "q_legal ok [] xs = True"
| "q_legal ok (Enq x # ops) xs = (ok xs x \<and> q_legal ok ops (xs @ [x]))"
| "q_legal ok (Deq # ops) xs = q_legal ok ops (tl xs)"

fun q_run :: "('s \<Rightarrow> 'a \<Rightarrow> 's option) \<Rightarrow> ('s \<Rightarrow> ('a option \<times> 's) option) \<Rightarrow>
    'a qop list \<Rightarrow> 's \<Rightarrow> ('a option list \<times> 's) option" where
  "q_run enq deq [] s = Some ([], s)"
| "q_run enq deq (Enq x # ops) s = (case enq s x of None \<Rightarrow> None | Some s' \<Rightarrow> q_run enq deq ops s')"
| "q_run enq deq (Deq # ops) s = (case deq s of None \<Rightarrow> None
     | Some (r, s') \<Rightarrow> map_option (\<lambda>(rs, s''). (r # rs, s'')) (q_run enq deq ops s'))"

fun q_entered :: "'a qop list \<Rightarrow> 'a list" where
  "q_entered [] = []"
| "q_entered (Enq x # ops) = x # q_entered ops"
| "q_entered (Deq # ops) = q_entered ops"

text \<open>Nothing is lost, doubled or reordered: what came out and what is left is what went in.\<close>

lemma q_spec_conserves:
  "map the (filter (\<lambda>r. r \<noteq> None) (fst (q_spec ops xs))) @ snd (q_spec ops xs) = xs @ q_entered ops"
proof (induction ops xs rule: q_spec.induct)
  case (3 ops xs)
  then show ?case by (cases xs) (simp_all add: case_prod_beta Let_def)
qed simp_all

locale fifo =
  fixes rep :: "'s \<Rightarrow> 'a list \<Rightarrow> bool"
    and ok :: "'a list \<Rightarrow> 'a \<Rightarrow> bool"
    and enq :: "'s \<Rightarrow> 'a \<Rightarrow> 's option"
    and deq :: "'s \<Rightarrow> ('a option \<times> 's) option"
  assumes enq_rep: "rep s xs \<Longrightarrow> ok xs x \<Longrightarrow> \<exists>s'. enq s x = Some s' \<and> rep s' (xs @ [x])"
    and deq_rep: "rep s xs \<Longrightarrow> \<exists>s'. deq s = Some (hdo xs None, s') \<and> rep s' (tl xs)"
begin

lemma run_spec:
  "rep s xs \<Longrightarrow> q_legal ok ops xs \<Longrightarrow>
     \<exists>s'. q_run enq deq ops s = Some (fst (q_spec ops xs), s') \<and> rep s' (snd (q_spec ops xs))"
proof (induction ops xs arbitrary: s rule: q_spec.induct)
  case (2 x ops xs)
  from 2(2,3) enq_rep [of s xs x] obtain s' where "enq s x = Some s'" "rep s' (xs @ [x])" by auto
  with 2(1) [of s'] 2(3) show ?case by auto
next
  case (3 ops xs)
  from 3(2) deq_rep [of s xs] obtain s' where "deq s = Some (hdo xs None, s')" "rep s' (tl xs)" by auto
  with 3(1) [of s'] 3(3) show ?case by (auto simp: case_prod_beta Let_def)
qed simp

lemma run_conserves:
  assumes "rep s xs" and "q_legal ok ops xs"
  shows "\<exists>rs s' ys. q_run enq deq ops s = Some (rs, s') \<and> rep s' ys \<and>
    map the (filter (\<lambda>r. r \<noteq> None) rs) @ ys = xs @ q_entered ops"
  using run_spec [OF assms] q_spec_conserves [of ops xs] by blast

end

end
