(* ===== verification/Hexcode.thy ===== *)
theory Hexcode
  imports Prelude
begin

text \<open>
  Hexadecimal coding of byte strings (util.c): \<open>__bin2hex\<close>, \<open>bin2hex\<close>,
  \<open>hex2bin\<close>, and the validity checks \<open>_valid_hex\<close> and \<open>_valid_ascii\<close> that guard
  everything a pool sends.  The code's \<open>int\<close> loop counter is only ever used
  below \<open>2 ^ 31\<close>; lists stand for buffers of at most that length.
\<close>

section \<open>The code\<close>

definition hex_chars :: "u8 list" where
  "hex_chars = map of_nat [48, 49, 50, 51, 52, 53, 54, 55, 56, 57, 97, 98, 99, 100, 101, 102]"

text \<open>\<open>__bin2hex\<close> writes two characters per byte and then the terminating NUL.\<close>

fun bin2hex_raw :: "u8 list \<Rightarrow> u8 list" where
  "bin2hex_raw [] = [0]"
| "bin2hex_raw (b # p) =
     hex_chars ! unat (drop_bit 4 b) # hex_chars ! unat (b AND 15) # bin2hex_raw p"

text \<open>\<open>bin2hex\<close> rounds the zeroed allocation up to a multiple of four.\<close>

definition bin2hex :: "u8 list \<Rightarrow> u8 list" where
  "bin2hex p =
     (let slen = length p * 2 + 1;
          slen = (if slen mod 4 \<noteq> 0 then slen + (4 - slen mod 4) else slen)
      in bin2hex_raw p @ replicate (slen - length (bin2hex_raw p)) 0)"

definition hex2bin_tbl :: "int list" where
  "hex2bin_tbl =
    [-1, -1, -1, -1, -1, -1, -1, -1, -1, -1, -1, -1, -1, -1, -1, -1,
     -1, -1, -1, -1, -1, -1, -1, -1, -1, -1, -1, -1, -1, -1, -1, -1,
     -1, -1, -1, -1, -1, -1, -1, -1, -1, -1, -1, -1, -1, -1, -1, -1,
     0, 1, 2, 3, 4, 5, 6, 7, 8, 9, -1, -1, -1, -1, -1, -1,
     -1, 10, 11, 12, 13, 14, 15, -1, -1, -1, -1, -1, -1, -1, -1, -1,
     -1, -1, -1, -1, -1, -1, -1, -1, -1, -1, -1, -1, -1, -1, -1, -1,
     -1, 10, 11, 12, 13, 14, 15, -1, -1, -1, -1, -1, -1, -1, -1, -1,
     -1, -1, -1, -1, -1, -1, -1, -1, -1, -1, -1, -1, -1, -1, -1, -1,
     -1, -1, -1, -1, -1, -1, -1, -1, -1, -1, -1, -1, -1, -1, -1, -1,
     -1, -1, -1, -1, -1, -1, -1, -1, -1, -1, -1, -1, -1, -1, -1, -1,
     -1, -1, -1, -1, -1, -1, -1, -1, -1, -1, -1, -1, -1, -1, -1, -1,
     -1, -1, -1, -1, -1, -1, -1, -1, -1, -1, -1, -1, -1, -1, -1, -1,
     -1, -1, -1, -1, -1, -1, -1, -1, -1, -1, -1, -1, -1, -1, -1, -1,
     -1, -1, -1, -1, -1, -1, -1, -1, -1, -1, -1, -1, -1, -1, -1, -1,
     -1, -1, -1, -1, -1, -1, -1, -1, -1, -1, -1, -1, -1, -1, -1, -1,
     -1, -1, -1, -1, -1, -1, -1, -1, -1, -1, -1, -1, -1, -1, -1, -1]"

text \<open>
  \<open>hex2bin\<close> writes as it scans: the result is the verdict and the bytes
  written so far, which a failing call leaves in the buffer.
\<close>

fun hex2bin :: "cstr \<Rightarrow> nat \<Rightarrow> bool \<times> u8 list" where
  "hex2bin [] len = (len = 0, [])"
| "hex2bin [c] len = (False, [])"
| "hex2bin (c1 # c2 # s) len =
     (if len = 0 then (False, [])
      else let nibble1 = hex2bin_tbl ! unat c1; nibble2 = hex2bin_tbl ! unat c2
           in if nibble1 < 0 \<or> nibble2 < 0 then (False, [])
              else let (ret, out) = hex2bin s (len - 1)
                   in (ret, (push_bit 4 (of_int nibble1) OR of_int nibble2) # out))"

text \<open>\<open>_valid_hex\<close> and \<open>_valid_ascii\<close> take a possibly null string.\<close>

definition valid_hex :: "cstr option \<Rightarrow> bool" where
  "valid_hex s = (case s of None \<Rightarrow> False
     | Some s \<Rightarrow> list_all (\<lambda>c. \<not> hex2bin_tbl ! unat c < 0) s)"

definition valid_ascii :: "cstr option \<Rightarrow> bool" where
  "valid_ascii s = (case s of None \<Rightarrow> False
     | Some s \<Rightarrow> length s \<noteq> 0 \<and> list_all (\<lambda>c. \<not> (unat c < 32 \<or> unat c > 126)) s)"

section \<open>The decoding table\<close>

definition hex_digit_val :: "nat \<Rightarrow> int" where
  "hex_digit_val n =
     (if 48 \<le> n \<and> n \<le> 57 then int n - 48
      else if 65 \<le> n \<and> n \<le> 70 then int n - 55
      else if 97 \<le> n \<and> n \<le> 102 then int n - 87 else -1)"

lemma hex2bin_tbl_eq: "hex2bin_tbl = map hex_digit_val [0..<256]"
  by code_simp

lemma hex2bin_tbl_nth [simp]: "hex2bin_tbl ! unat (c :: u8) = hex_digit_val (unat c)"
  by (simp add: hex2bin_tbl_eq)

lemma hex_digit_val_bound: "hex_digit_val n < 16"
  by (simp add: hex_digit_val_def)

lemma hex_chars_all:
  "list_all (\<lambda>n. hex_digit_val (unat (hex_chars ! n)) = int n \<and> hex_chars ! n \<noteq> 0) [0..<16]"
  by code_simp

lemma hex_chars_val: "n < 16 \<Longrightarrow> hex_digit_val (unat (hex_chars ! n)) = int n"
  using hex_chars_all by (simp add: list_all_iff)

lemma hex_chars_nonzero: "n < 16 \<Longrightarrow> hex_chars ! n \<noteq> 0"
  using hex_chars_all by (simp add: list_all_iff)

lemma nibble_hi_less: "unat (drop_bit 4 (b :: u8)) < 16"
  by (simp add: unat_drop_bit_div less_mult_imp_div_less)

lemma and_15: "(b :: u8) AND 15 = take_bit 4 b"
  by (simp add: take_bit_eq_mask mask_eq_exp_minus_1)

lemma nibble_lo_less: "unat ((b :: u8) AND 15) < 16"
  unfolding and_15 unsigned_take_bit_eq by (simp add: take_bit_eq_mod)

lemma nibbles_join: "push_bit 4 (drop_bit 4 b) OR (b AND 15) = (b :: u8)"
  unfolding and_15 by (rule bit_word_eqI) (auto simp: bit_simps)

section \<open>Encoding, decoding and their inverse\<close>

fun hex_text :: "u8 list \<Rightarrow> cstr" where
  "hex_text [] = []"
| "hex_text (b # p) = hex_chars ! unat (drop_bit 4 b) # hex_chars ! unat (b AND 15) # hex_text p"

lemma bin2hex_raw_eq: "bin2hex_raw p = hex_text p @ [0]"
  by (induction p) simp_all

lemma hex_text_nonzero: "0 \<notin> set (hex_text p)"
  by (induction p)
     (simp_all add: hex_chars_nonzero nibble_hi_less nibble_lo_less not_sym)

lemma cstr_of_nul: "0 \<notin> set s \<Longrightarrow> cstr_of (s @ 0 # rest) = s"
  unfolding cstr_of_def by (induction s) auto

lemma cstr_of_bin2hex [simp]: "cstr_of (bin2hex p) = hex_text p"
  by (simp add: bin2hex_def Let_def bin2hex_raw_eq cstr_of_nul hex_text_nonzero)

lemma length_hex_text [simp]: "length (hex_text p) = 2 * length p"
  by (induction p) simp_all

lemma length_bin2hex_ge: "2 * length p + 1 \<le> length (bin2hex p)" "4 dvd length (bin2hex p)"
  by (auto simp: bin2hex_def Let_def bin2hex_raw_eq) presburger+

lemma hex2bin_hex_text: "hex2bin (hex_text p) (length p) = (True, p)"
  by (induction p)
     (simp_all add: hex_chars_val nibble_hi_less nibble_lo_less nibbles_join)

fun hex_lower :: "u8 \<Rightarrow> u8" where
  "hex_lower c = (if 65 \<le> c \<and> c \<le> 70 then c + 32 else c)"

lemma hex2bin_True_iff:
  "fst (hex2bin s len) \<longleftrightarrow> length s = 2 * len \<and> valid_hex (Some s)"
  by (induction s len rule: hex2bin.induct)
     (auto simp: valid_hex_def Let_def split: prod.splits)

lemma hex2bin_length: "length (snd (hex2bin s len)) \<le> len"
  by (induction s len rule: hex2bin.induct) (force simp: Let_def split: prod.splits)+

text \<open>The byte a pair of nibbles makes, and the nibbles it splits into again.\<close>

definition hex_byte :: "int \<Rightarrow> int \<Rightarrow> u8" where
  "hex_byte n1 n2 = push_bit 4 (of_int n1) OR of_int n2"

lemma hex_byte_all:
  "list_all (\<lambda>n1. list_all (\<lambda>n2. unat (drop_bit 4 (hex_byte (int n1) (int n2))) = n1 \<and>
     unat (hex_byte (int n1) (int n2) AND 15) = n2) [0..<16]) [0..<16]"
  by code_simp

lemma hex_byte_nibbles:
  assumes "0 \<le> n1" "n1 < 16" "0 \<le> n2" "n2 < 16"
  shows "unat (drop_bit 4 (hex_byte n1 n2)) = nat n1" "unat (hex_byte n1 n2 AND 15) = nat n2"
  using hex_byte_all [unfolded list_all_iff, THEN bspec, of "nat n1", THEN bspec, of "nat n2"] assms
  by auto

lemma hex_lower_all:
  "list_all (\<lambda>n. hex_digit_val n < 0 \<or>
     hex_chars ! nat (hex_digit_val n) = hex_lower (word_of_nat n)) [0..<256]"
  by code_simp

lemma hex_chars_of_val:
  "\<not> hex_digit_val (unat c) < 0 \<Longrightarrow> hex_chars ! nat (hex_digit_val (unat c)) = hex_lower c"
  using hex_lower_all [unfolded list_all_iff, THEN bspec, of "unat c"] by simp

lemma hex_text_hex2bin: "hex2bin s len = (True, out) \<Longrightarrow> hex_text out = map hex_lower s \<and> length out = len"
proof (induction s len arbitrary: out rule: hex2bin.induct)
  case (3 c1 c2 s len)
  let ?n1 = "hex_digit_val (unat c1)" and ?n2 = "hex_digit_val (unat c2)"
  from "3.prems" obtain out' where ok: "len \<noteq> 0" "\<not> ?n1 < 0" "\<not> ?n2 < 0"
    and rec: "hex2bin s (len - 1) = (True, out')" and out: "out = hex_byte ?n1 ?n2 # out'"
    by (auto simp: Let_def hex_byte_def split: if_splits prod.splits)
  from ok rec have "hex_text out' = map hex_lower s \<and> length out' = len - 1"
    using "3.IH" [OF _ refl refl] by simp
  with ok out show ?case
    by (simp add: hex_byte_nibbles hex_digit_val_bound hex_chars_of_val del: hex_lower.simps)
qed (auto split: if_splits)

section \<open>The hexadecimal codec\<close>

definition hex_decode :: "cstr \<Rightarrow> u8 list option" where
  "hex_decode s = (case hex2bin s (length s div 2) of (ok, out) \<Rightarrow> if ok then Some out else None)"

interpretation hexc: codec "\<lambda>p. cstr_of (bin2hex p)" hex_decode "\<lambda>_. True"
  by unfold_locales (simp add: hex_decode_def hex2bin_hex_text)

text \<open>Decoding what \<open>bin2hex\<close> prints gives back the bytes: \<open>hex2bin\<close> accepts the string at
  exactly its byte length and writes the original buffer.\<close>

theorem hex2bin_bin2hex: "hex2bin (cstr_of (bin2hex p)) (length p) = (True, p)"
  by (simp add: hex2bin_hex_text)

text \<open>\<open>hex2bin\<close> accepts a string for a buffer of \<open>len\<close> bytes exactly when the string has
  \<open>2 * len\<close> characters and passes \<open>_valid_hex\<close>; whatever the input, at most \<open>len\<close> bytes are
  written; and an accepted string, printed back by \<open>bin2hex\<close>, is the input in lower case.\<close>

theorem hex2bin_spec:
  "(fst (hex2bin s len) \<longleftrightarrow> length s = 2 * len \<and> valid_hex (Some s)) \<and>
   length (snd (hex2bin s len)) \<le> len \<and>
   (fst (hex2bin s len) \<longrightarrow> cstr_of (bin2hex (snd (hex2bin s len))) = map hex_lower s)"
  using hex2bin_True_iff [of s len] hex2bin_length [of s len] hex_text_hex2bin [of s len]
  by (cases "hex2bin s len") (auto simp del: hex_lower.simps)

text \<open>The digits \<open>1f\<close> followed by \<open>A0\<close> are accepted and re-printed as \<open>1fa0\<close>.\<close>

theorem hex2bin_spec_witness:
  "fst (hex2bin (bytes_of ''1fA0'') 2) \<and>
   cstr_of (bin2hex (snd (hex2bin (bytes_of ''1fA0'') 2))) = bytes_of ''1fa0''"
proof -
  have "fst (hex2bin (bytes_of ''1fA0'') 2)" by code_simp
  moreover have "map hex_lower (bytes_of ''1fA0'') = bytes_of ''1fa0''" by code_simp
  ultimately show ?thesis using hex2bin_spec [of "bytes_of ''1fA0''" 2] by simp
qed

end
