(* ===== verification/Scriptser.thy ===== *)
theory Scriptser
  imports Prelude
begin

text \<open>
  Serialisation for the coinbase transaction (util.c): base58 addresses
  (\<open>b58tobin\<close>, \<open>address_to_pubkeyhash\<close>), script numbers (\<open>ser_number\<close>) and
  length-prefixed strings (\<open>ser_string\<close>).
\<close>

section \<open>Base58\<close>

definition b58tobin_tbl :: "int list" where
  "b58tobin_tbl =
    [-1, -1, -1, -1, -1, -1, -1, -1, -1, -1, -1, -1, -1, -1, -1, -1,
     -1, -1, -1, -1, -1, -1, -1, -1, -1, -1, -1, -1, -1, -1, -1, -1,
     -1, -1, -1, -1, -1, -1, -1, -1, -1, -1, -1, -1, -1, -1, -1, -1,
     -1, 0, 1, 2, 3, 4, 5, 6, 7, 8, -1, -1, -1, -1, -1, -1,
     -1, 9, 10, 11, 12, 13, 14, 15, 16, -1, 17, 18, 19, 20, 21, -1,
     22, 23, 24, 25, 26, 27, 28, 29, 30, 31, 32, -1, -1, -1, -1, -1,
     -1, 33, 34, 35, 36, 37, 38, 39, 40, 41, 42, 43, -1, 44, 45, 46,
     47, 48, 49, 50, 51, 52, 53, 54, 55, 56, 57]"

text \<open>
  The inner loop runs \<open>j\<close> from 6 down to 0, so it is written over the reversed
  array: the head is \<open>bin32[j]\<close>, \<open>c\<close> the carry.
\<close>

fun b58_carry :: "u32 list \<Rightarrow> u32 \<Rightarrow> u32 list" where
  "b58_carry [] c = []"
| "b58_carry (x # xs) c =
     (let t = (ucast x :: u64) * 58 + ucast c;
          c' = ucast (drop_bit 32 (t AND 0x3f00000000)) :: u32
      in ucast (t AND 0xffffffff) # b58_carry xs c')"

text \<open>
  The outer loop.  A character beyond the table is a read out of bounds
  (\<open>None\<close>); one without a digit enters as \<open>-1\<close> converted to \<open>uint32_t\<close>.
\<close>

fun b58_loop :: "u32 list \<Rightarrow> cstr \<Rightarrow> u32 list option" where
  "b58_loop bin32 [] = Some bin32"
| "b58_loop bin32 (ch # s) =
     (if unat ch < length b58tobin_tbl
      then b58_loop (rev (b58_carry (rev bin32) (word_of_int (b58tobin_tbl ! unat ch)))) s
      else None)"

definition b58tobin :: "cstr \<Rightarrow> u8 list option" where
  "b58tobin b58 =
     (case b58_loop (replicate 7 0) b58 of
        None \<Rightarrow> None
      | Some bin32 \<Rightarrow> Some (ucast (bin32 ! 0 AND 0xff) # concat (map be32_bytes (tl bin32))))"

definition address_to_pubkeyhash :: "cstr \<Rightarrow> u8 list option" where
  "address_to_pubkeyhash addr =
     (case b58tobin addr of
        None \<Rightarrow> None
      | Some b58bin \<Rightarrow> Some ([0x76, 0xa9, 0x14] @ take 20 (drop 1 b58bin) @ [0x88, 0xac]))"

section \<open>Numbers and strings in scripts\<close>

text \<open>
  \<open>ser_number\<close> stores the four little-endian bytes after the length byte and
  returns the number of bytes that count, length byte included.
\<close>

definition ser_number :: "u32 \<Rightarrow> u8 list \<times> nat" where
  "ser_number val =
     (let len = (if sint val < 128 then 1
                 else if sint val < 16512 then 2
                 else if sint val < 2113664 then 3 else 4)
      in (word_of_nat len # le32_bytes val, len + 1))"

definition ser_string :: "cstr \<Rightarrow> u8 list \<times> nat" where
  "ser_string s =
     (let len = length s in
      if len < 253 then (word_of_nat len # s, len + 1)
      else if len < 0x10000 then (253 # be16_bytes (word_of_nat len) @ s, len + 3)
      else (254 # be32_bytes (word_of_nat len) @ s, len + 5))"

text \<open>The reader of the format \<open>ser_string\<close> writes: the string and what follows it.\<close>

definition deser_string :: "u8 list \<Rightarrow> (cstr \<times> u8 list) option" where
  "deser_string bs =
     (case bs of [] \<Rightarrow> None
      | b # r \<Rightarrow>
          let k = (if b = 253 then 2 else if b = 254 then 4 else 0);
              n = (if k = 0 then unat b else be_val (take k r)); r' = drop k r
          in if length r < k \<or> length r' < n then None else Some (take n r', drop n r'))"

section \<open>Values of base58 strings\<close>

text \<open>The number a valid base58 string denotes, most significant digit first.\<close>

definition b58_digit :: "u8 \<Rightarrow> int" where
  "b58_digit ch = (if unat ch < length b58tobin_tbl then b58tobin_tbl ! unat ch else -1)"

definition b58_valid :: "cstr \<Rightarrow> bool" where
  "b58_valid s = list_all (\<lambda>ch. 0 \<le> b58_digit ch) s"

definition b58_value :: "cstr \<Rightarrow> nat" where
  "b58_value s = foldl (\<lambda>v ch. v * 58 + nat (b58_digit ch)) 0 s"

text \<open>The number an array of 32-bit limbs denotes, least significant limb first.\<close>

fun limbs_val :: "u32 list \<Rightarrow> nat" where
  "limbs_val [] = 0"
| "limbs_val (x # xs) = unat x + 2 ^ 32 * limbs_val xs"

lemma limbs_val_append: "limbs_val (xs @ ys) = limbs_val xs + 2 ^ (32 * length xs) * limbs_val ys"
  by (induction xs) (simp_all add: algebra_simps power_add)

lemma length_b58_carry [simp]: "length (b58_carry xs c) = length xs"
  by (induction xs c rule: b58_carry.induct) (simp_all add: Let_def)

lemma and_ff_mask: "(w :: u32) AND 0xff = take_bit 8 w"
  by (simp add: take_bit_eq_mask mask_eq_exp_minus_1)

lemma carry_mask: "drop_bit 32 ((t :: u64) AND 0x3f00000000) = take_bit 6 (drop_bit 32 t)"
  by (simp add: drop_bit_and take_bit_eq_mask mask_eq_exp_minus_1)

text \<open>One limb: the 64-bit product splits into the new limb and a carry below 58.\<close>

lemma b58_limb:
  fixes x c :: u32
  assumes c: "unat c < 58"
  defines "t \<equiv> (ucast x :: u64) * 58 + ucast c"
  shows "unat (ucast (t AND 0xffffffff) :: u32) = (unat x * 58 + unat c) mod 2 ^ 32"
    and "unat (ucast (drop_bit 32 (t AND 0x3f00000000)) :: u32) = (unat x * 58 + unat c) div 2 ^ 32"
    and "(unat x * 58 + unat c) div 2 ^ 32 < 58"
proof -
  let ?n = "unat x * 58 + unat c"
  have x: "unat x < 2 ^ 32" using unat_lt_size [of x] by simp
  have n: "?n < 58 * 2 ^ 32" using x c by simp
  then show lt: "?n div 2 ^ 32 < 58" by (simp add: less_mult_imp_div_less)
  have t: "unat t = ?n"
  proof -
    have u: "unat (ucast x :: u64) = unat x" "unat (ucast c :: u64) = unat c"
      by (simp_all add: unsigned_ucast_eq take_bit_nat_eq_self_iff unat_lt_size
          order.strict_trans2 [OF unat_lt_size])
    show ?thesis
      unfolding t_def unat_word_ariths u using n by simp
  qed
  show "unat (ucast (t AND 0xffffffff) :: u32) = ?n mod 2 ^ 32"
  proof -
    have "t AND 0xffffffff = take_bit 32 t" by (simp add: take_bit_eq_mask mask_eq_exp_minus_1)
    then have "ucast (t AND 0xffffffff) = (ucast t :: u32)"
      by (auto intro!: bit_word_eqI simp: bit_simps)
    then show ?thesis by (simp add: unsigned_ucast_eq take_bit_eq_mod t)
  qed
  have "drop_bit 32 (t AND 0x3f00000000) = take_bit 6 (drop_bit 32 t)"
    by (rule carry_mask)
  moreover have "unat (take_bit 6 (drop_bit 32 t)) = ?n div 2 ^ 32"
    unfolding unsigned_take_bit_eq unat_drop_bit_div t using lt by (simp add: take_bit_eq_mod)
  ultimately have d: "unat (drop_bit 32 (t AND 0x3f00000000)) = ?n div 2 ^ 32" by simp
  show "unat (ucast (drop_bit 32 (t AND 0x3f00000000)) :: u32) = ?n div 2 ^ 32"
    using lt by (simp only: unsigned_ucast_eq d) (simp add: take_bit_nat_eq_self)
qed

lemma mod_split: "(a :: nat) < b \<Longrightarrow> (a + b * y) mod (b * m) = a + b * (y mod m)"
  by (simp add: mod_mult2_eq)

lemma limbs_val_carry:
  "unat c < 58 \<Longrightarrow> limbs_val (b58_carry xs c) = (limbs_val xs * 58 + unat c) mod 2 ^ (32 * length xs)"
proof (induction xs c rule: b58_carry.induct)
  case (1 c)
  then show ?case by simp
next
  case (2 x xs c)
  let ?n = "unat x * 58 + unat c" and ?m = "(2::nat) ^ (32 * length xs)"
  note limb = b58_limb [OF "2.prems", of x]
  have "limbs_val (b58_carry (x # xs) c) = ?n mod 2 ^ 32 + 2 ^ 32 * ((limbs_val xs * 58 + ?n div 2 ^ 32) mod ?m)"
    using "2.IH" [OF refl refl] limb by (simp add: Let_def)
  also have "\<dots> = (?n mod 2 ^ 32 + 2 ^ 32 * (limbs_val xs * 58 + ?n div 2 ^ 32)) mod (2 ^ 32 * ?m)"
    by (rule mod_split [symmetric]) simp
  also have "?n mod 2 ^ 32 + 2 ^ 32 * (limbs_val xs * 58 + ?n div 2 ^ 32) = limbs_val (x # xs) * 58 + unat c"
    using mod_mult_div_eq [of ?n "2 ^ 32"] by (simp add: algebra_simps)
  finally show ?case by (simp add: power_add)
qed

lemma b58_digit_less: "b58_digit ch < 58"
proof -
  have "list_all (\<lambda>d. d < 58) b58tobin_tbl" by code_simp
  then show ?thesis by (simp add: b58_digit_def list_all_length)
qed

lemma limbs_val_less: "limbs_val xs < 2 ^ (32 * length xs)"
proof (induction xs)
  case (Cons x xs)
  have "unat x < 2 ^ 32" using unat_lt_size [of x] by simp
  moreover have "2 ^ 32 * Suc (limbs_val xs) \<le> 2 ^ 32 * 2 ^ (32 * length xs)"
    using Cons.IH by (intro mult_le_mono2 Suc_leI)
  ultimately have "unat x + 2 ^ 32 * limbs_val xs < 2 ^ 32 * 2 ^ (32 * length xs)"
    unfolding mult_Suc_right by linarith
  then show ?case by (simp only: limbs_val.simps power_add [symmetric] list.size add_Suc_right mult_Suc_right add_0_right)
qed simp

lemma foldl_digits_mod:
  "foldl (\<lambda>v ch. v * 58 + nat (b58_digit ch)) (v mod m) s mod m =
   foldl (\<lambda>v ch. v * 58 + nat (b58_digit ch)) v s mod m"
proof (induction s arbitrary: v)
  case (Cons ch s)
  let ?d = "nat (b58_digit ch)"
  have "(v mod m * 58 + ?d) mod m = (v * 58 + ?d) mod m"
    by (metis mod_add_left_eq mod_mult_left_eq)
  then show ?case
    using Cons.IH [of "v mod m * 58 + ?d"] Cons.IH [of "v * 58 + ?d"] by simp
qed simp

text \<open>The whole loop computes the value of the string modulo the 224 bits it keeps.\<close>

lemma b58_loop_value:
  assumes "b58_valid s" and "length bin32 = 7"
  shows "\<exists>out. b58_loop bin32 s = Some out \<and> length out = 7 \<and>
    limbs_val (rev out) = foldl (\<lambda>v ch. v * 58 + nat (b58_digit ch)) (limbs_val (rev bin32)) s mod 2 ^ 224"
  using assms
proof (induction s arbitrary: bin32)
  case Nil
  have "limbs_val (rev bin32) < 2 ^ 224"
    using limbs_val_less [of "rev bin32"] Nil.prems by simp
  with Nil.prems show ?case by simp
next
  case (Cons ch s)
  let ?d = "b58_digit ch"
  let ?next = "rev (b58_carry (rev bin32) (word_of_int ?d))"
  have d: "0 \<le> ?d" "?d < 58" and in_tbl: "unat ch < length b58tobin_tbl"
    using Cons.prems b58_digit_less [of ch] by (auto simp: b58_valid_def b58_digit_def split: if_splits)
  then have u: "unat (word_of_int ?d :: u32) = nat ?d"
    by (simp add: unsigned_of_int take_bit_int_eq_self)
  have val: "limbs_val (rev ?next) = (limbs_val (rev bin32) * 58 + nat ?d) mod 2 ^ 224"
    using limbs_val_carry [of "word_of_int ?d" "rev bin32"] u d Cons.prems by simp
  obtain out where "b58_loop ?next s = Some out" "length out = 7"
    "limbs_val (rev out) = foldl (\<lambda>v ch. v * 58 + nat (b58_digit ch)) (limbs_val (rev ?next)) s mod 2 ^ 224"
    using Cons.IH [of ?next] Cons.prems by (auto simp: b58_valid_def)
  then show ?case
    unfolding val foldl_digits_mod using in_tbl by (simp add: b58_digit_def)
qed

lemma be_val_concat_be32: "be_val (concat (map be32_bytes ws)) = limbs_val (rev ws)"
proof (induction ws)
  case (Cons w ws)
  have "length (concat (map be32_bytes ws)) = 4 * length ws" by (induction ws) simp_all
  then show ?case using Cons by (simp add: be_val_append limbs_val_append power_mult)
qed simp

lemma limbs_val_zeros: "limbs_val (rev (replicate n 0)) = 0"
  by (induction n) (simp_all add: limbs_val_append)

lemma unat_low_byte: "unat (ucast (w AND 0xff :: u32) :: u8) = unat w mod 2 ^ 8"
proof -
  have "ucast (w AND 0xff) = (ucast w :: u8)"
    by (rule bit_word_eqI) (auto simp: and_ff_mask bit_simps simp del: take_bit_word_eq_self)
  then show ?thesis by (simp add: unat_ucast8)
qed

lemma b58tobin_value_ex:
  assumes "b58_valid s"
  shows "\<exists>out. b58tobin s = Some out \<and> length out = 25 \<and> be_val out = b58_value s mod 2 ^ 200"
proof -
  obtain bin32 where loop: "b58_loop (replicate 7 0) s = Some bin32" and len7: "length bin32 = 7"
    and val: "limbs_val (rev bin32) = b58_value s mod 2 ^ 224"
    using b58_loop_value [OF assms, of "replicate 7 0"]
    unfolding limbs_val_zeros b58_value_def by auto
  then obtain w0 ws where bin32: "bin32 = w0 # ws" and len: "length ws = 6"
    by (cases bin32) auto
  let ?out = "ucast (w0 AND 0xff) # concat (map be32_bytes ws)"
  have blen: "length (concat (map be32_bytes ws)) = 24"
    using len by (simp add: length_concat comp_def sum_list_triv)
  have low: "limbs_val (rev ws) < 2 ^ 192"
    using limbs_val_less [of "rev ws"] len by simp
  have "be_val ?out = limbs_val (rev ws) + 2 ^ 192 * (unat w0 mod 2 ^ 8)"
    by (simp add: blen be_val_concat_be32 unat_low_byte)
  also have "\<dots> = (limbs_val (rev ws) + 2 ^ 192 * unat w0) mod (2 ^ 192 * 2 ^ 8)"
    using low by (rule mod_split [symmetric])
  also have "\<dots> = limbs_val (rev bin32) mod 2 ^ 200"
    using len by (simp add: bin32 limbs_val_append)
  also have "\<dots> = b58_value s mod 2 ^ 200"
    unfolding val by (rule mod_mod_cancel) simp
  finally show ?thesis
    using loop blen by (simp add: b58tobin_def bin32)
qed

text \<open>On a string of valid base58 characters \<open>b58tobin\<close> fills all 25 bytes, and read as a big-endian
  number they are the value of the string modulo \<open>2 ^ 200\<close>.\<close>

theorem b58tobin_value:
  assumes "b58_valid s"
  shows "\<exists>out. b58tobin s = Some out \<and> length out = 25 \<and> be_val out = b58_value s mod 2 ^ 200"
  using assms by (rule b58tobin_value_ex)

theorem b58tobin_value_witness:
  "b58_valid (bytes_of ''15qSxP1SQcUX3o4nhkfdbgyoWEFMomJ4rZ'') \<and>
   (\<exists>out. b58tobin (bytes_of ''15qSxP1SQcUX3o4nhkfdbgyoWEFMomJ4rZ'') = Some out \<and> length out = 25 \<and>
     be_val out = b58_value (bytes_of ''15qSxP1SQcUX3o4nhkfdbgyoWEFMomJ4rZ'') mod 2 ^ 200)"
proof -
  have v: "b58_valid (bytes_of ''15qSxP1SQcUX3o4nhkfdbgyoWEFMomJ4rZ'')" by code_simp
  show ?thesis using v b58tobin_value [OF v] by blast
qed

lemma div_mod_cut: "(v :: nat) mod 2 ^ 200 div 2 ^ 32 mod 2 ^ 160 = v div 2 ^ 32 mod 2 ^ 160"
proof -
  have "v mod (a * b) div a = v div a mod b" if "0 < a" for a b :: nat
    using that by (simp add: mod_mult2_eq)
  from this [of "2 ^ 32" "2 ^ 168"] have "v mod 2 ^ 200 div 2 ^ 32 = v div 2 ^ 32 mod 2 ^ 168"
    by simp
  moreover have "v div 2 ^ 32 mod 2 ^ 168 mod 2 ^ 160 = v div 2 ^ 32 mod 2 ^ 160"
    by (rule mod_mod_cancel) simp
  ultimately show ?thesis by simp
qed

lemma be_val_take_drop:
  assumes "n + k \<le> length bs"
  shows "be_val (take n (drop k bs)) = be_val bs div 256 ^ (length bs - k - n) mod 256 ^ n"
proof -
  let ?a = "take k bs" and ?b = "take n (drop k bs)" and ?c = "drop (k + n) bs"
  have bs: "bs = ?a @ ?b @ ?c"
    by (metis append_take_drop_id drop_drop add.commute)
  have lens: "length ?b = n" "length ?c = length bs - k - n" using assms by auto
  have "be_val bs = (be_val ?a * 256 ^ n + be_val ?b) * 256 ^ length ?c + be_val ?c"
    using arg_cong [OF bs, of be_val] lens(1)
    by (simp only: be_val_append length_append power_add) (simp add: algebra_simps)
  then have "be_val bs div 256 ^ length ?c = be_val ?a * 256 ^ n + be_val ?b"
    using be_val_less [of ?c] by simp
  then show ?thesis
    using be_val_less [of ?b] lens by simp
qed

text \<open>The script built for a valid address is the 25-byte pay-to-pubkey-hash template, and its
  middle twenty bytes are the address value without its 32-bit checksum, cut to 160 bits.\<close>

theorem address_to_pubkeyhash_spec:
  assumes "b58_valid addr"
  shows "\<exists>h. address_to_pubkeyhash addr = Some ([0x76, 0xa9, 0x14] @ h @ [0x88, 0xac]) \<and>
    length h = 20 \<and> be_val h = b58_value addr div 2 ^ 32 mod 2 ^ 160"
proof -
  obtain out where out: "b58tobin addr = Some out" "length out = 25"
    and val: "be_val out = b58_value addr mod 2 ^ 200"
    using b58tobin_value_ex [OF assms] by blast
  have "be_val (take 20 (drop 1 out)) = be_val out div 2 ^ 32 mod 2 ^ 160"
    using be_val_take_drop [of 20 1 out] out(2) by (simp add: power_mult [of 2 8, simplified, symmetric])
  also have "\<dots> = b58_value addr div 2 ^ 32 mod 2 ^ 160"
    unfolding val by (rule div_mod_cut)
  finally show ?thesis using out by (auto simp: address_to_pubkeyhash_def)
qed

theorem address_to_pubkeyhash_spec_witness:
  "b58_valid (bytes_of ''1BoatSLRHtKNngkdXEeobR76b53LETtpyT'') \<and>
   (\<exists>h. address_to_pubkeyhash (bytes_of ''1BoatSLRHtKNngkdXEeobR76b53LETtpyT'') =
      Some ([0x76, 0xa9, 0x14] @ h @ [0x88, 0xac]) \<and> length h = 20)"
proof -
  have v: "b58_valid (bytes_of ''1BoatSLRHtKNngkdXEeobR76b53LETtpyT'')" by code_simp
  show ?thesis using v address_to_pubkeyhash_spec [OF v] by blast
qed

section \<open>Script numbers and strings\<close>

lemma le_val_mod: "le_val (take n bs) = le_val bs mod 256 ^ n"
proof (cases "n \<le> length bs")
  case True
  have "le_val bs = le_val (take n bs) + 256 ^ n * le_val (drop n bs)"
    using True le_val_append [of "take n bs" "drop n bs"] by simp
  then show ?thesis using le_val_less [of "take n bs"] True by simp
next
  case False
  then have "256 ^ length bs \<le> (256 :: nat) ^ n" by (intro power_increasing) auto
  with le_val_less [of bs] have "le_val bs < 256 ^ n" by (rule less_le_trans)
  with False show ?thesis by simp
qed

text \<open>For a non-negative block height \<open>ser_number\<close> writes its own length byte followed by
  that many little-endian bytes of the height, whose top bit is clear, so the height is
  recovered and reads as a positive script number.\<close>

theorem ser_number_roundtrip:
  assumes "0 \<le> sint val" and "ser_number val = (bs, n)"
  shows "n = unat (hd bs) + 1 \<and> n \<le> length bs \<and> le_val (take (n - 1) (tl bs)) = unat val \<and>
    unat val < 128 * 256 ^ (n - 2)"
proof -
  have v: "sint val = int (unat val)" by (rule sint_nonneg_unat [OF assms(1)])
  have "int (unat val) < int (2 ^ 31)"
    using sint_lt [of val] unfolding v by simp
  then have "unat val < 2 ^ 31" unfolding of_nat_less_iff .
  moreover have lt: "sint val < int k \<longleftrightarrow> unat val < k" for k
    unfolding v by (rule of_nat_less_iff)
  have "sint val < 128 \<longleftrightarrow> unat val < 128" "sint val < 16512 \<longleftrightarrow> unat val < 16512"
    "sint val < 2113664 \<longleftrightarrow> unat val < 2113664"
    using lt [of 128] lt [of 16512] lt [of 2113664] by simp_all
  ultimately show ?thesis using assms(2)
    by (auto simp: ser_number_def Let_def le_val_mod split: if_splits)
qed

theorem ser_number_roundtrip_witness:
  "ser_number 840000 = ([3, 0x40, 0xd1, 0x0c, 0], 4) \<and> le_val (take 3 [0x40, 0xd1, 0x0c, 0]) = 840000"
proof -
  have e: "ser_number 840000 = ([3, 0x40, 0xd1, 0x0c, 0], 4)" 
    by (simp add: ser_number_def le32_bytes_def)
  have "0 \<le> sint (840000 :: u32)" by simp
  from ser_number_roundtrip [OF this e]
  have "le_val (take (4 - 1) (tl [3, 0x40, 0xd1, 0x0c, 0])) = unat (840000 :: u32)" by blast
  with e show ?thesis by simp
qed

lemma unat_word_of_nat_small: "n < 2 ^ LENGTH('a) \<Longrightarrow> unat (word_of_nat n :: 'a::len word) = n"
  by (simp add: unsigned_of_nat take_bit_nat_eq_self)

lemma deser_string_ser:
  assumes "length s < 2 ^ 32"
  shows "deser_string (fst (ser_string s) @ rest) = Some (s, rest)"
proof -
  let ?n = "length s"
  consider "?n < 253" | "253 \<le> ?n" "?n < 65536" | "65536 \<le> ?n" "?n < 2 ^ 32"
    using assms by linarith
  then show ?thesis
  proof cases
    case 1
    have u: "unat (word_of_nat ?n :: u8) = ?n"
      using 1 by (intro unat_word_of_nat_small) simp
    then have "(word_of_nat ?n :: u8) \<noteq> 253" "(word_of_nat ?n :: u8) \<noteq> 254"
      using 1 by (auto simp del: unat_eq_zero dest: arg_cong [where f = unat])
    then show ?thesis using 1 u by (simp add: ser_string_def deser_string_def Let_def)
  next
    case 2
    have "unat (word_of_nat ?n :: u16) = ?n"
      using 2 by (intro unat_word_of_nat_small) simp
    then show ?thesis using 2 by (simp add: ser_string_def deser_string_def Let_def)
  next
    case 3
    have "unat (word_of_nat ?n :: u32) = ?n"
      using 3 by (intro unat_word_of_nat_small) simp
    then show ?thesis using 3 by (simp add: ser_string_def deser_string_def Let_def)
  qed
qed

text \<open>The bytes \<open>ser_string\<close> produces are as many as it reports, and a reader of the same
  format gets back the string and whatever was appended behind it.\<close>

theorem ser_string_roundtrip:
  assumes "length s < 2 ^ 32"
  shows "snd (ser_string s) = length (fst (ser_string s)) \<and>
    deser_string (fst (ser_string s) @ rest) = Some (s, rest)"
  using deser_string_ser [OF assms] by (simp add: ser_string_def Let_def)

theorem ser_string_roundtrip_witness:
  "length (bytes_of ''cgminer'') < 2 ^ 32 \<and>
   deser_string (fst (ser_string (bytes_of ''cgminer'')) @ [1, 2]) = Some (bytes_of ''cgminer'', [1, 2])"
proof -
  have h: "length (bytes_of ''cgminer'') < 2 ^ 32" by (simp add: bytes_of_def)
  show ?thesis using h ser_string_roundtrip [OF h] by blast
qed

interpretation strc: codec "\<lambda>s. fst (ser_string s)"
    "\<lambda>bs. map_option fst (deser_string bs)" "\<lambda>s. length s < 2 ^ 32"
  by unfold_locales (use deser_string_ser [of _ "[]"] in simp)

end
