(* ===== verification/Klist.thy ===== *)
theory Klist
  imports Prelude
begin

text \<open>
  The item lists of klist.c: doubly linked lists and stores whose items come
  from bulk allocations, with the head, tail and counters of \<open>K_LIST\<close>.  The
  heap of items is explicit, because every operation works by rewriting
  \<open>prev\<close> and \<open>next\<close> pointers; a pointer that leaves the allocated items is a
  fault.  Each operation refines one on HOL lists of item addresses.
  Memory exhaustion, where the code exits, is not modelled.
\<close>

section \<open>State\<close>

text \<open>Every call of \<open>quithere\<close> ends the process: the error says which check failed.\<close>

datatype k_err = KFault | KStoreAlloc | KBadParam | KWrongItem | KNoTail | KNullItem
  | KWrongList | KIsStore | KNotStore

text \<open>Names are compared as pointers, so a name is the address of its literal.\<close>

type_synonym k_name = nat

record 'd k_item =
  i_name :: k_name
  i_prev :: "int option"
  i_next :: "int option"
  i_data :: 'd

record k_list =
  l_name :: k_name
  is_store :: bool
  l_head :: "int option"
  l_tail :: "int option"
  l_total :: int
  l_count :: int
  l_count_up :: int
  l_allocate :: int
  l_limit :: int
  do_tail :: bool
  item_memory :: "(int \<times> nat) list"
  data_mem_count :: nat

text \<open>The items that exist, and the address the next allocation gets.\<close>

record 'd k_mem =
  k_items :: "int \<rightharpoonup> 'd k_item"
  k_brk :: int

definition k_get :: "'d k_mem \<Rightarrow> int \<Rightarrow> k_err + 'd k_item" where
  "k_get m p = (case k_items m p of None \<Rightarrow> Inl KFault | Some it \<Rightarrow> Inr it)"

definition k_upd :: "'d k_mem \<Rightarrow> int \<Rightarrow> ('d k_item \<Rightarrow> 'd k_item) \<Rightarrow> k_err + 'd k_mem" where
  "k_upd m p f = bindR (k_get m p) (\<lambda>it. Inr (m\<lparr>k_items := (k_items m)(p \<mapsto> f it)\<rparr>))"

text \<open>Writing a field through a pointer that may be null: the code tests it first.\<close>

definition k_upd_opt :: "'d k_mem \<Rightarrow> int option \<Rightarrow> ('d k_item \<Rightarrow> 'd k_item) \<Rightarrow> k_err + 'd k_mem" where
  "k_upd_opt m p f = (case p of None \<Rightarrow> Inr m | Some p \<Rightarrow> k_upd m p f)"

section \<open>Allocation\<close>

text \<open>How many items the next allocation makes.\<close>

definition alloc_n :: "k_list \<Rightarrow> int" where
  "alloc_n l = (if l_limit l > 0 \<and> l_total l + l_allocate l > l_limit l
                then l_limit l - l_total l else l_allocate l)"

text \<open>
  Item \<open>i\<close> of an allocation of \<open>n\<close>: the first is linked forwards, the last is
  written last and overwrites what the first got when \<open>n\<close> is 1.
\<close>

definition alloc_item :: "k_name \<Rightarrow> 'd \<Rightarrow> int \<Rightarrow> int \<Rightarrow> int \<Rightarrow> 'd k_item" where
  "alloc_item name zero base n i =
     (if i = n - 1 then \<lparr>i_name = name, i_prev = Some (base + (n - 2)), i_next = None, i_data = zero\<rparr>
      else if i = 0 then \<lparr>i_name = name, i_prev = None, i_next = Some (base + 1), i_data = zero\<rparr>
      else \<lparr>i_name = name, i_prev = Some (base + (i - 1)), i_next = Some (base + (i + 1)), i_data = zero\<rparr>)"

text \<open>
  Allocations are kept one address apart, so that an address just outside one
  (\<open>&item[-1]\<close>) is no item of another.
\<close>

definition k_alloc_items :: "'d \<Rightarrow> 'd k_mem \<Rightarrow> k_list \<Rightarrow> k_err + ('d k_mem \<times> k_list)" where
  "k_alloc_items zero m l =
     (if is_store l then Inl KStoreAlloc
      else if l_limit l > 0 \<and> l_total l \<ge> l_limit l then Inr (m, l)
      else
        let n = alloc_n l; base = k_brk m
        in Inr (m\<lparr>k_items := (\<lambda>p. if base \<le> p \<and> p < base + n
                      then Some (alloc_item (l_name l) zero base n (p - base)) else k_items m p),
                  k_brk := base + n + 1\<rparr>,
                l\<lparr>l_head := Some base,
                  l_tail := (if do_tail l then Some (base + (n - 1)) else l_tail l),
                  l_total := l_total l + n, l_count := n, l_count_up := n,
                  item_memory := item_memory l @ [(base, nat n)],
                  data_mem_count := data_mem_count l + nat n\<rparr>))"

definition k_new_store :: "k_list \<Rightarrow> k_list" where
  "k_new_store l =
     \<lparr>l_name = l_name l, is_store = True, l_head = None, l_tail = None, l_total = 0, l_count = 0,
      l_count_up = 0, l_allocate = 0, l_limit = 0, do_tail = do_tail l, item_memory = [],
      data_mem_count = 0\<rparr>"

definition k_new_list :: "'d \<Rightarrow> 'd k_mem \<Rightarrow> k_name \<Rightarrow> int \<Rightarrow> int \<Rightarrow> bool \<Rightarrow> k_err + ('d k_mem \<times> k_list)" where
  "k_new_list zero m name allocate limit dtail =
     (if allocate < 1 then Inl KBadParam
      else if limit < 0 then Inl KBadParam
      else k_alloc_items zero m
             \<lparr>l_name = name, is_store = False, l_head = None, l_tail = None, l_total = 0, l_count = 0,
              l_count_up = 0, l_allocate = allocate, l_limit = limit, do_tail = dtail,
              item_memory = [], data_mem_count = 0\<rparr>)"

section \<open>Taking items off\<close>

definition k_unlink_head :: "'d \<Rightarrow> 'd k_mem \<Rightarrow> k_list \<Rightarrow> k_err + (int option \<times> 'd k_mem \<times> k_list)" where
  "k_unlink_head zero m l =
     bindR (if l_head l = None \<and> \<not> is_store l then k_alloc_items zero m l else Inr (m, l)) (\<lambda>(m, l).
     case l_head l of
       None \<Rightarrow> Inr (None, m, l)
     | Some item \<Rightarrow>
         bindR (k_get m item) (\<lambda>it.
         let l1 = l\<lparr>l_head := i_next it\<rparr> in
         bindR (k_upd_opt m (i_next it) (\<lambda>h. h\<lparr>i_prev := None\<rparr>)) (\<lambda>m1.
         let l2 = (if i_next it = None \<and> do_tail l then l1\<lparr>l_tail := None\<rparr> else l1) in
         bindR (k_upd m1 item (\<lambda>x. x\<lparr>i_prev := None, i_next := None\<rparr>)) (\<lambda>m2.
         Inr (Some item, m2, l2\<lparr>l_count := l_count l2 - 1\<rparr>)))))"

definition k_unlink_head_zero :: "'d \<Rightarrow> 'd k_mem \<Rightarrow> k_list \<Rightarrow> k_err + (int option \<times> 'd k_mem \<times> k_list)" where
  "k_unlink_head_zero zero m l =
     bindR (k_unlink_head zero m l) (\<lambda>(item, m, l).
     bindR (k_upd_opt m item (\<lambda>x. x\<lparr>i_data := zero\<rparr>)) (\<lambda>m. Inr (item, m, l)))"

definition k_unlink_tail :: "'d k_mem \<Rightarrow> k_list \<Rightarrow> k_err + (int option \<times> 'd k_mem \<times> k_list)" where
  "k_unlink_tail m l =
     (if \<not> do_tail l then Inl KNoTail
      else case l_tail l of
        None \<Rightarrow> Inr (None, m, l)
      | Some item \<Rightarrow>
          bindR (k_get m item) (\<lambda>it.
          let l1 = l\<lparr>l_tail := i_prev it\<rparr> in
          bindR (k_upd_opt m (i_prev it) (\<lambda>t. t\<lparr>i_next := None\<rparr>)) (\<lambda>m1.
          let l2 = (if i_prev it = None then l1\<lparr>l_head := None\<rparr> else l1) in
          bindR (k_upd m1 item (\<lambda>x. x\<lparr>i_prev := None, i_next := None\<rparr>)) (\<lambda>m2.
          Inr (Some item, m2, l2\<lparr>l_count := l_count l2 - 1\<rparr>)))))"

definition k_unlink_item :: "'d k_mem \<Rightarrow> k_list \<Rightarrow> int \<Rightarrow> k_err + ('d k_mem \<times> k_list)" where
  "k_unlink_item m l item =
     bindR (k_get m item) (\<lambda>it.
     if i_name it \<noteq> l_name l then Inl KWrongItem
     else
       bindR (k_upd_opt m (i_prev it) (\<lambda>x. x\<lparr>i_next := i_next it\<rparr>)) (\<lambda>m1.
       bindR (k_upd_opt m1 (i_next it) (\<lambda>x. x\<lparr>i_prev := i_prev it\<rparr>)) (\<lambda>m2.
       let l1 = (if l_head l = Some item then l\<lparr>l_head := i_next it\<rparr> else l);
           l2 = (if do_tail l1 \<and> l_tail l1 = Some item then l1\<lparr>l_tail := i_prev it\<rparr> else l1) in
       bindR (k_upd m2 item (\<lambda>x. x\<lparr>i_prev := None, i_next := None\<rparr>)) (\<lambda>m3.
       Inr (m3, l2\<lparr>l_count := l_count l2 - 1\<rparr>)))))"

section \<open>Putting items on\<close>

definition k_add_head :: "'d k_mem \<Rightarrow> k_list \<Rightarrow> int \<Rightarrow> k_err + ('d k_mem \<times> k_list)" where
  "k_add_head m l item =
     bindR (k_get m item) (\<lambda>it.
     if i_name it \<noteq> l_name l then Inl KWrongItem
     else
       bindR (k_upd m item (\<lambda>x. x\<lparr>i_prev := None, i_next := l_head l\<rparr>)) (\<lambda>m1.
       bindR (k_upd_opt m1 (l_head l) (\<lambda>h. h\<lparr>i_prev := Some item\<rparr>)) (\<lambda>m2.
       let l1 = l\<lparr>l_head := Some item\<rparr>;
           l2 = (if do_tail l1 \<and> l_tail l1 = None then l1\<lparr>l_tail := Some item\<rparr> else l1)
       in Inr (m2, l2\<lparr>l_count := l_count l2 + 1, l_count_up := l_count_up l2 + 1\<rparr>))))"

definition k_add_tail :: "'d k_mem \<Rightarrow> k_list \<Rightarrow> int \<Rightarrow> k_err + ('d k_mem \<times> k_list)" where
  "k_add_tail m l item =
     bindR (k_get m item) (\<lambda>it.
     if i_name it \<noteq> l_name l then Inl KWrongItem
     else if \<not> do_tail l then Inl KNoTail
     else
       bindR (k_upd m item (\<lambda>x. x\<lparr>i_prev := l_tail l, i_next := None\<rparr>)) (\<lambda>m1.
       bindR (k_upd_opt m1 (l_tail l) (\<lambda>t. t\<lparr>i_next := Some item\<rparr>)) (\<lambda>m2.
       let l1 = l\<lparr>l_tail := Some item\<rparr>;
           l2 = (if l_head l1 = None then l1\<lparr>l_head := Some item\<rparr> else l1)
       in Inr (m2, l2\<lparr>l_count := l_count l2 + 1, l_count_up := l_count_up l2 + 1\<rparr>))))"

definition k_insert_before :: "'d k_mem \<Rightarrow> k_list \<Rightarrow> int \<Rightarrow> int option \<Rightarrow> k_err + ('d k_mem \<times> k_list)" where
  "k_insert_before m l item before =
     bindR (k_get m item) (\<lambda>it.
     if i_name it \<noteq> l_name l then Inl KWrongItem
     else case before of None \<Rightarrow> Inl KNullItem
     | Some b \<Rightarrow>
       bindR (k_get m b) (\<lambda>bt.
       bindR (k_upd m item (\<lambda>x. x\<lparr>i_next := Some b, i_prev := i_prev bt\<rparr>)) (\<lambda>m1.
       bindR (k_upd_opt m1 (i_prev bt) (\<lambda>x. x\<lparr>i_next := Some item\<rparr>)) (\<lambda>m2.
       let l1 = (if i_prev bt = None then l\<lparr>l_head := Some item\<rparr> else l) in
       bindR (k_upd m2 b (\<lambda>x. x\<lparr>i_prev := Some item\<rparr>)) (\<lambda>m3.
       Inr (m3, l1\<lparr>l_count := l_count l1 + 1, l_count_up := l_count_up l1 + 1\<rparr>))))))"

definition k_insert_after :: "'d k_mem \<Rightarrow> k_list \<Rightarrow> int \<Rightarrow> int option \<Rightarrow> k_err + ('d k_mem \<times> k_list)" where
  "k_insert_after m l item after =
     bindR (k_get m item) (\<lambda>it.
     if i_name it \<noteq> l_name l then Inl KWrongItem
     else case after of None \<Rightarrow> Inl KNullItem
     | Some a \<Rightarrow>
       bindR (k_get m a) (\<lambda>at.
       bindR (k_upd m item (\<lambda>x. x\<lparr>i_prev := Some a, i_next := i_next at\<rparr>)) (\<lambda>m1.
       bindR (k_upd_opt m1 (i_next at) (\<lambda>x. x\<lparr>i_prev := Some item\<rparr>)) (\<lambda>m2.
       let l1 = (if i_next at = None \<and> do_tail l then l\<lparr>l_tail := Some item\<rparr> else l) in
       bindR (k_upd m2 a (\<lambda>x. x\<lparr>i_next := Some item\<rparr>)) (\<lambda>m3.
       Inr (m3, l1\<lparr>l_count := l_count l1 + 1, l_count_up := l_count_up l1 + 1\<rparr>))))))"

section \<open>Whole lists\<close>

definition k_list_transfer_to_head ::
  "'d k_mem \<Rightarrow> k_list \<Rightarrow> k_list \<Rightarrow> k_err + ('d k_mem \<times> k_list \<times> k_list)" where
  "k_list_transfer_to_head m from to =
     (if l_name from \<noteq> l_name to then Inl KWrongList
      else if \<not> do_tail from then Inl KNoTail
      else case l_head from of None \<Rightarrow> Inr (m, from, to)
      | Some fh \<Rightarrow>
        bindR (k_upd_opt m (l_head to) (\<lambda>x. x\<lparr>i_prev := l_tail from\<rparr>)) (\<lambda>m1.
        let to1 = (if l_head to = None then to\<lparr>l_tail := l_tail from\<rparr> else to) in
        case l_tail from of None \<Rightarrow> Inl KFault
        | Some ft \<Rightarrow>
          bindR (k_upd m1 ft (\<lambda>x. x\<lparr>i_next := l_head to1\<rparr>)) (\<lambda>m2.
          Inr (m2, from\<lparr>l_head := None, l_tail := None, l_count := 0, l_count_up := 0\<rparr>,
               to1\<lparr>l_head := Some fh, l_count := l_count to1 + l_count from,
                    l_count_up := l_count_up to1 + l_count_up from\<rparr>))))"

definition k_list_transfer_to_tail ::
  "'d k_mem \<Rightarrow> k_list \<Rightarrow> k_list \<Rightarrow> k_err + ('d k_mem \<times> k_list \<times> k_list)" where
  "k_list_transfer_to_tail m from to =
     (if l_name from \<noteq> l_name to then Inl KWrongList
      else if \<not> do_tail from then Inl KNoTail
      else case l_head from of None \<Rightarrow> Inr (m, from, to)
      | Some fh \<Rightarrow>
        bindR (k_upd_opt m (l_tail to) (\<lambda>x. x\<lparr>i_next := Some fh\<rparr>)) (\<lambda>m1.
        let to1 = (if l_tail to = None then to\<lparr>l_head := Some fh\<rparr> else to) in
        bindR (k_upd m1 fh (\<lambda>x. x\<lparr>i_prev := l_tail to1\<rparr>)) (\<lambda>m2.
        Inr (m2, from\<lparr>l_head := None, l_tail := None, l_count := 0, l_count_up := 0\<rparr>,
             to1\<lparr>l_tail := l_tail from, l_count := l_count to1 + l_count from,
                  l_count_up := l_count_up to1 + l_count_up from\<rparr>))))"

text \<open>Freeing a list frees every allocation its items came from; a store only frees itself.\<close>

definition k_free_list :: "'d k_mem \<Rightarrow> k_list \<Rightarrow> k_err + 'd k_mem" where
  "k_free_list m l =
     (if is_store l then Inl KIsStore
      else Inr (m\<lparr>k_items := (\<lambda>p. if \<exists>(base, n) \<in> set (item_memory l). base \<le> p \<and> p < base + int n
                             then None else k_items m p)\<rparr>))"

definition k_free_store :: "'d k_mem \<Rightarrow> k_list \<Rightarrow> k_err + 'd k_mem" where
  "k_free_store m l = (if \<not> is_store l then Inl KNotStore else Inr m)"

section \<open>Linked segments\<close>

text \<open>
  \<open>dseg h pv nx xs\<close>: the addresses \<open>xs\<close> are linked both ways in \<open>h\<close>, the first
  pointing back to \<open>pv\<close> and the last forward to \<open>nx\<close>.
\<close>

definition lasto :: "'a option \<Rightarrow> 'a list \<Rightarrow> 'a option" where
  "lasto pv xs = (if xs = [] then pv else Some (last xs))"

lemma lasto_simps [simp]: "lasto pv [] = pv" "lasto pv (xs @ [x]) = Some x"
    "lasto pv (x # xs) = lasto (Some x) xs" "lasto pv (xs @ ys) = lasto (lasto pv xs) ys"
  by (simp_all add: lasto_def)

lemma hdo_Some_not_None [simp]: "hdo xs (Some y) \<noteq> None" "None \<noteq> hdo xs (Some y)"
  by (simp_all add: hdo_def split: list.split)

lemma lasto_Some_not_None [simp]: "lasto (Some y) xs \<noteq> None" "None \<noteq> lasto (Some y) xs"
  by (simp_all add: lasto_def)

lemma lasto_in_set: "lasto (Some y) xs = Some x \<Longrightarrow> x \<in> set (y # xs)"
  by (auto simp: lasto_def split: if_splits)

fun dseg :: "(int \<rightharpoonup> 'd k_item) \<Rightarrow> int option \<Rightarrow> int option \<Rightarrow> int list \<Rightarrow> bool" where
  "dseg h pv nx [] = True"
| "dseg h pv nx (x # xs) =
     ((\<exists>it. h x = Some it \<and> i_prev it = pv \<and> i_next it = hdo xs nx) \<and> dseg h (Some x) nx xs)"

lemma dseg_append [simp]:
  "dseg h pv nx (xs @ ys) \<longleftrightarrow> dseg h pv (hdo ys nx) xs \<and> dseg h (lasto pv xs) nx ys"
  by (induction xs arbitrary: pv) auto

lemma dseg_upd [simp]: "x \<notin> set xs \<Longrightarrow> dseg (h(x := v)) pv nx xs = dseg h pv nx xs"
  by (induction xs arbitrary: pv) auto

lemma dseg_mono:
  "dseg h pv nx xs \<Longrightarrow> (\<And>x. x \<in> set xs \<Longrightarrow> h' x = h x) \<Longrightarrow> dseg h' pv nx xs"
  by (induction xs arbitrary: pv) auto

lemma dseg_item: "dseg h pv nx xs \<Longrightarrow> x \<in> set xs \<Longrightarrow> \<exists>it. h x = Some it"
  by (induction xs arbitrary: pv) auto

section \<open>What a list represents\<close>

definition klist_rep :: "'d k_mem \<Rightarrow> k_list \<Rightarrow> int list \<Rightarrow> bool" where
  "klist_rep m l xs \<longleftrightarrow>
     distinct xs \<and> dseg (k_items m) None None xs \<and>
     l_head l = hdo xs None \<and> (do_tail l \<longrightarrow> l_tail l = lasto None xs) \<and>
     l_count l = int (length xs) \<and>
     (\<forall>x \<in> set xs. \<forall>it. k_items m x = Some it \<longrightarrow> i_name it = l_name l)"

text \<open>
  What an operation may touch: links of the addresses in \<open>S\<close>; names and data
  of all items, and every item outside \<open>S\<close>, stay.
\<close>

definition k_frame :: "'d k_mem \<Rightarrow> 'd k_mem \<Rightarrow> int set \<Rightarrow> bool" where
  "k_frame m m' S \<longleftrightarrow>
     (\<forall>p. p \<notin> S \<longrightarrow> k_items m' p = k_items m p) \<and>
     (\<forall>p. map_option (\<lambda>it. (i_name it, i_data it)) (k_items m' p) =
          map_option (\<lambda>it. (i_name it, i_data it)) (k_items m p)) \<and>
     k_brk m' = k_brk m"

text \<open>The settings of a list, which no operation on its items changes.\<close>

definition same_conf :: "k_list \<Rightarrow> k_list \<Rightarrow> bool" where
  "same_conf l l' \<longleftrightarrow>
     l_name l' = l_name l \<and> is_store l' = is_store l \<and> do_tail l' = do_tail l \<and>
     l_allocate l' = l_allocate l \<and> l_limit l' = l_limit l"

named_theorems klist_defs "unfolding of the list operations down to heap updates"

lemmas [klist_defs] = k_get_def k_upd_def k_upd_opt_def klist_rep_def k_frame_def same_conf_def Let_def

lemma klist_rep_other:
  assumes "klist_rep m l xs" and "k_frame m m' S" and "set xs \<inter> S = {}"
  shows "klist_rep m' l xs"
proof -
  have eq: "\<And>x. x \<in> set xs \<Longrightarrow> k_items m' x = k_items m x"
    using assms by (auto simp: k_frame_def)
  then have "dseg (k_items m') None None xs"
    using assms(1) by (auto simp: klist_rep_def intro: dseg_mono)
  then show ?thesis using assms(1) eq by (simp add: klist_rep_def)
qed

lemma k_unlink_head_rep:
  assumes rep: "klist_rep m l (x # xs)"
  shows "\<exists>m' l'. k_unlink_head zero m l = Inr (Some x, m', l') \<and> klist_rep m' l' xs \<and>
    k_frame m m' (set (x # xs)) \<and> same_conf l l'"
proof (cases xs)
  case Nil
  with rep show ?thesis by (auto simp: k_unlink_head_def klist_defs)
next
  case (Cons y ys)
  with rep show ?thesis
    by (auto simp: k_unlink_head_def klist_defs)
qed

lemma k_unlink_head_empty_store:
  "klist_rep m l [] \<Longrightarrow> is_store l \<Longrightarrow> k_unlink_head zero m l = Inr (None, m, l)"
  by (auto simp: k_unlink_head_def klist_defs)

lemma k_unlink_tail_rep:
  assumes rep: "klist_rep m l (xs @ [x])" and "do_tail l"
  shows "\<exists>m' l'. k_unlink_tail m l = Inr (Some x, m', l') \<and> klist_rep m' l' xs \<and>
    k_frame m m' (set (xs @ [x])) \<and> same_conf l l'"
proof (cases xs rule: rev_cases)
  case Nil
  with assms show ?thesis by (auto simp: k_unlink_tail_def klist_defs)
next
  case (snoc ys y)
  with assms show ?thesis by (auto simp: k_unlink_tail_def klist_defs)
qed

lemma k_unlink_tail_empty:
  "klist_rep m l [] \<Longrightarrow> do_tail l \<Longrightarrow> k_unlink_tail m l = Inr (None, m, l)"
  by (auto simp: k_unlink_tail_def klist_defs)

lemma k_add_head_rep:
  assumes rep: "klist_rep m l xs" and it: "k_items m x = Some it" "i_name it = l_name l" "x \<notin> set xs"
  shows "\<exists>m' l'. k_add_head m l x = Inr (m', l') \<and> klist_rep m' l' (x # xs) \<and>
    k_frame m m' (set (x # xs)) \<and> same_conf l l'"
proof (cases xs)
  case Nil
  with assms show ?thesis by (auto simp: k_add_head_def klist_defs)
next
  case (Cons y ys)
  with assms show ?thesis by (auto simp: k_add_head_def klist_defs)
qed

lemma k_add_tail_rep:
  assumes rep: "klist_rep m l xs" and it: "k_items m x = Some it" "i_name it = l_name l" "x \<notin> set xs"
    and "do_tail l"
  shows "\<exists>m' l'. k_add_tail m l x = Inr (m', l') \<and> klist_rep m' l' (xs @ [x]) \<and>
    k_frame m m' (set (x # xs)) \<and> same_conf l l'"
proof (cases xs rule: rev_cases)
  case Nil
  with assms show ?thesis by (auto simp: k_add_tail_def klist_defs)
next
  case (snoc ys y)
  with assms show ?thesis by (auto simp: k_add_tail_def klist_defs)
qed


text \<open>The links of an item in the middle of a list.\<close>

lemma klist_rep_item:
  assumes "klist_rep m l (xs @ x # ys)"
  obtains it where "k_items m x = Some it" "i_prev it = lasto None xs" "i_next it = hdo ys None"
    "i_name it = l_name l" "x \<notin> set xs" "x \<notin> set ys"
  using assms by (auto simp: klist_rep_def)

lemmas klist_step = k_get_def k_upd_def k_upd_opt_def Let_def
lemmas klist_goal = klist_rep_def k_frame_def same_conf_def

lemma k_insert_before_rep:
  assumes rep: "klist_rep m l (xs @ b # ys)"
    and it: "k_items m x = Some it" "i_name it = l_name l" "x \<notin> set (xs @ b # ys)"
  shows "\<exists>m' l'. k_insert_before m l x (Some b) = Inr (m', l') \<and> klist_rep m' l' (xs @ x # b # ys) \<and>
    k_frame m m' (set (x # xs @ b # ys)) \<and> same_conf l l'"
proof -
  obtain bt where bt: "k_items m b = Some bt" "i_prev bt = lasto None xs" "i_next bt = hdo ys None"
    by (rule klist_rep_item [OF rep])
  have ne: "x \<noteq> b" "b \<noteq> x" using it(3) by auto
  show ?thesis
  proof (cases xs rule: rev_cases)
    case Nil
    with rep it ne bt show ?thesis
      by (simp add: k_insert_before_def klist_step) (simp add: klist_goal)
  next
    case (snoc zs z)
    obtain zt where zt: "k_items m z = Some zt" "i_prev zt = lasto None zs" "i_next zt = Some b"
      using klist_rep_item [of m l zs z "b # ys"] rep snoc by auto
    have "x \<noteq> z" "z \<noteq> x" "z \<noteq> b" "b \<noteq> z" using it(3) rep snoc by (auto simp: klist_rep_def)
    with rep it ne bt zt snoc show ?thesis
      by (simp add: k_insert_before_def klist_step) (simp add: klist_goal)
  qed
qed

lemma k_insert_after_rep:
  assumes rep: "klist_rep m l (xs @ a # ys)"
    and it: "k_items m x = Some it" "i_name it = l_name l" "x \<notin> set (xs @ a # ys)"
  shows "\<exists>m' l'. k_insert_after m l x (Some a) = Inr (m', l') \<and> klist_rep m' l' (xs @ a # x # ys) \<and>
    k_frame m m' (set (x # xs @ a # ys)) \<and> same_conf l l'"
proof -
  obtain at where at: "k_items m a = Some at" "i_prev at = lasto None xs" "i_next at = hdo ys None"
    by (rule klist_rep_item [OF rep])
  have ne: "x \<noteq> a" "a \<noteq> x" using it(3) by auto
  show ?thesis
  proof (cases ys)
    case Nil
    with rep it ne at show ?thesis
      by (simp add: k_insert_after_def klist_step) (simp add: klist_goal)
  next
    case (Cons z zs)
    obtain zt where zt: "k_items m z = Some zt" "i_prev zt = Some a" "i_next zt = hdo zs None"
      using klist_rep_item [of m l "xs @ [a]" z zs] rep Cons by auto
    have "x \<noteq> z" "z \<noteq> x" "z \<noteq> a" "a \<noteq> z" using it(3) rep Cons by (auto simp: klist_rep_def)
    with rep it ne at zt Cons show ?thesis
      by (simp add: k_insert_after_def klist_step) (simp add: klist_goal)
  qed
qed

lemma k_unlink_item_rep:
  assumes rep: "klist_rep m l (xs @ x # ys)"
  shows "\<exists>m' l'. k_unlink_item m l x = Inr (m', l') \<and> klist_rep m' l' (xs @ ys) \<and>
    k_frame m m' (set (xs @ x # ys)) \<and> same_conf l l'"
proof -
  obtain it where it: "k_items m x = Some it" "i_prev it = lasto None xs" "i_next it = hdo ys None"
    "i_name it = l_name l" "x \<notin> set xs" "x \<notin> set ys"
    by (rule klist_rep_item [OF rep])
  have prev: "\<exists>wt. k_items m w = Some wt \<and> i_prev wt = lasto None ws \<and> i_next wt = Some x \<and> w \<noteq> x \<and> x \<noteq> w"
    if "xs = ws @ [w]" for w ws
    using klist_rep_item [of m l ws w "x # ys"] rep that by auto
  have nxt: "\<exists>zt. k_items m z = Some zt \<and> i_prev zt = Some x \<and> i_next zt = hdo zs None \<and> z \<noteq> x \<and> x \<noteq> z"
    if "ys = z # zs" for z zs
    using klist_rep_item [of m l "xs @ [x]" z zs] rep that by auto
  have head: "l_head l = hdo xs (Some x)" and tail: "do_tail l \<Longrightarrow> l_tail l = lasto (Some x) ys"
    using rep by (auto simp: klist_rep_def)
  have h: "hdo xs (Some x) = Some x \<longleftrightarrow> xs = []" and t: "lasto (Some x) ys = Some x \<longleftrightarrow> ys = []"
    using it(5,6) by (auto simp: hdo_def lasto_def split: list.split)
  show ?thesis
  proof (cases xs rule: rev_cases; cases ys)
    assume "xs = []" "ys = []"
    with rep it head tail show ?thesis
      by (simp add: k_unlink_item_def klist_step) (simp add: klist_goal)
  next
    fix z zs assume ys: "xs = []" "ys = z # zs"
    with nxt obtain zt where "k_items m z = Some zt" "i_prev zt = Some x" "i_next zt = hdo zs None" "z \<noteq> x" "x \<noteq> z"
      by blast
    with ys rep it head tail t show ?thesis
      by (simp add: k_unlink_item_def klist_step) (simp add: klist_goal)
  next
    fix w ws assume xs: "xs = ws @ [w]" "ys = []"
    with prev obtain wt where "k_items m w = Some wt" "i_prev wt = lasto None ws" "i_next wt = Some x" "w \<noteq> x" "x \<noteq> w"
      by blast
    with xs rep it head tail h show ?thesis
      by (simp add: k_unlink_item_def klist_step) (simp add: klist_goal)
  next
    fix w ws z zs assume xs: "xs = ws @ [w]" and ys: "ys = z # zs"
    from prev [OF xs] obtain wt where "k_items m w = Some wt" "i_prev wt = lasto None ws" "i_next wt = Some x" "w \<noteq> x" "x \<noteq> w"
      by blast
    moreover from nxt [OF ys] obtain zt where "k_items m z = Some zt" "i_prev zt = Some x" "i_next zt = hdo zs None" "z \<noteq> x" "x \<noteq> z"
      by blast
    moreover have "w \<noteq> z" "z \<noteq> w" using rep xs ys by (auto simp: klist_rep_def)
    moreover have "\<not> (do_tail l \<and> l_tail l = Some x)" using tail t ys by auto
    ultimately show ?thesis using xs ys rep it head tail h
      by (cases "do_tail l"; simp add: k_unlink_item_def klist_step; simp add: klist_goal)
  qed
qed

lemma k_transfer_to_head_rep:
  assumes from_rep: "klist_rep m from xs" and to_rep: "klist_rep m to ys" and disj: "set xs \<inter> set ys = {}"
    and conf: "l_name from = l_name to" "do_tail from" "do_tail to"
  shows "\<exists>m' from' to'. k_list_transfer_to_head m from to = Inr (m', from', to') \<and>
    klist_rep m' from' [] \<and> klist_rep m' to' (xs @ ys) \<and> k_frame m m' (set xs \<union> set ys)"
proof (cases xs rule: rev_cases)
  case Nil
  with assms show ?thesis
    by (simp add: k_list_transfer_to_head_def klist_step) (simp add: klist_goal)
next
  case (snoc ws w)
  obtain wt where wt: "k_items m w = Some wt" "i_prev wt = lasto None ws" "i_next wt = None"
    using klist_rep_item [of m "from" ws w "[]"] from_rep snoc by auto
  have ends: "l_head from = hdo ws (Some w)" "l_tail from = Some w" "l_head to = hdo ys None"
    using from_rep to_rep conf snoc by (auto simp: klist_rep_def)
  obtain fh where fh: "hdo ws (Some w) = Some fh" by (cases "hdo ws (Some w)") auto
  show ?thesis
  proof (cases ys)
    case Nil
    with snoc assms wt ends fh show ?thesis
      by (simp add: k_list_transfer_to_head_def klist_step) (simp add: klist_goal)
  next
    case (Cons z zs)
    obtain zt where "k_items m z = Some zt" "i_prev zt = None" "i_next zt = hdo zs None"
      using klist_rep_item [of m to "[]" z zs] to_rep Cons by auto
    moreover have "w \<noteq> z" "z \<noteq> w" "w \<notin> set zs" "z \<notin> set ws" using disj snoc Cons by auto
    ultimately show ?thesis using Cons snoc assms wt ends fh
      by (simp add: k_list_transfer_to_head_def klist_step) (simp add: klist_goal, blast)
  qed
qed

lemma k_transfer_to_tail_rep:
  assumes from_rep: "klist_rep m from xs" and to_rep: "klist_rep m to ys" and disj: "set xs \<inter> set ys = {}"
    and conf: "l_name from = l_name to" "do_tail from" "do_tail to"
  shows "\<exists>m' from' to'. k_list_transfer_to_tail m from to = Inr (m', from', to') \<and>
    klist_rep m' from' [] \<and> klist_rep m' to' (ys @ xs) \<and> k_frame m m' (set xs \<union> set ys)"
proof (cases xs)
  case Nil
  with assms show ?thesis
    by (simp add: k_list_transfer_to_tail_def klist_step) (simp add: klist_goal)
next
  case (Cons w ws)
  obtain wt where wt: "k_items m w = Some wt" "i_prev wt = None" "i_next wt = hdo ws None"
    using klist_rep_item [of m "from" "[]" w ws] from_rep Cons by auto
  have ends: "l_head from = Some w" "l_tail from = lasto (Some w) ws" "l_tail to = lasto None ys"
    using from_rep to_rep conf Cons by (auto simp: klist_rep_def)
  show ?thesis
  proof (cases ys rule: rev_cases)
    case Nil
    with Cons assms wt ends show ?thesis
      by (simp add: k_list_transfer_to_tail_def klist_step) (simp add: klist_goal)
  next
    case (snoc zs z)
    obtain zt where "k_items m z = Some zt" "i_prev zt = lasto None zs" "i_next zt = None"
      using klist_rep_item [of m to zs z "[]"] to_rep snoc by auto
    moreover have "w \<noteq> z" "z \<noteq> w" "w \<notin> set zs" "z \<notin> set ws" using disj snoc Cons by auto
    ultimately show ?thesis using Cons snoc assms wt ends
      by (simp add: k_list_transfer_to_tail_def klist_step) (simp add: klist_goal, blast)
  qed
qed

section \<open>Fresh allocations\<close>

definition mem_ok :: "'d k_mem \<Rightarrow> bool" where
  "mem_ok m \<longleftrightarrow> (\<forall>p. k_items m p \<noteq> None \<longrightarrow> p < k_brk m - 1)"

lemma k_frame_None: "k_frame m m' S \<Longrightarrow> k_items m' p = None \<longleftrightarrow> k_items m p = None"
  unfolding k_frame_def
  by (drule conjunct2, drule conjunct1, drule spec [of _ p]) (cases "k_items m' p"; cases "k_items m p"; simp)

lemma mem_ok_frame: "mem_ok m \<Longrightarrow> k_frame m m' S \<Longrightarrow> mem_ok m'"
  by (simp add: mem_ok_def k_frame_None) (simp add: k_frame_def)

text \<open>The addresses of an allocation of \<open>n\<close> items, in order.\<close>

definition addrs :: "int \<Rightarrow> nat \<Rightarrow> int list" where
  "addrs base n = map (\<lambda>i. base + int i) [0..<n]"

lemma set_addrs: "set (addrs base n) = {p. base \<le> p \<and> p < base + int n}"
proof -
  have "p \<in> (\<lambda>i. base + int i) ` {0..<n}" if "base \<le> p" "p < base + int n" for p
    using that by (intro image_eqI [where x = "nat (p - base)"]) auto
  then show ?thesis by (auto simp: addrs_def)
qed

lemma addrs_Suc: "addrs base (Suc n) = base # addrs (base + 1) n"
  by (simp add: addrs_def upt_conv_Cons map_Suc_upt [symmetric] del: upt_Suc)

lemma dseg_addrs:
  assumes "\<And>i. i < n \<Longrightarrow> \<exists>it. h (base + int i) = Some it \<and>
      i_prev it = (if i = 0 then pv else Some (base + int i - 1)) \<and>
      i_next it = (if Suc i = n then None else Some (base + int i + 1))"
  shows "dseg h pv None (addrs base n)"
  using assms
proof (induction n arbitrary: base pv)
  case 0
  show ?case by (simp add: addrs_def)
next
  case (Suc n)
  have tl: "hdo (addrs (base + 1) n) None = (if n = 0 then None else Some (base + 1))"
    by (cases n) (simp add: addrs_def, simp add: addrs_Suc)
  have rest: "dseg h (Some base) None (addrs (base + 1) n)"
  proof (rule Suc.IH)
    fix i assume "i < n"
    then show "\<exists>it. h (base + 1 + int i) = Some it \<and>
        i_prev it = (if i = 0 then Some base else Some (base + 1 + int i - 1)) \<and>
        i_next it = (if Suc i = n then None else Some (base + 1 + int i + 1))"
      using Suc.prems [of "Suc i"] by (auto simp: algebra_simps)
  qed
  show ?case using Suc.prems [of 0] rest by (auto simp: addrs_Suc tl)
qed

definition can_alloc :: "k_list \<Rightarrow> bool" where
  "can_alloc l \<longleftrightarrow> \<not> is_store l \<and> 1 \<le> l_allocate l \<and> (l_limit l > 0 \<longrightarrow> l_total l < l_limit l)"

lemma alloc_n_pos: "can_alloc l \<Longrightarrow> 1 \<le> alloc_n l"
  by (auto simp: can_alloc_def alloc_n_def)

lemma alloc_item_sel [simp]:
  "i_name (alloc_item name zero base n i) = name" "i_data (alloc_item name zero base n i) = zero"
  "i_next (alloc_item name zero base n i) = (if i = n - 1 then None else Some (base + i + 1))"
  "i_prev (alloc_item name zero base n i) = (if i = 0 \<and> n \<noteq> 1 then None else Some (base + i - 1))"
  by (auto simp: alloc_item_def algebra_simps)

lemma k_alloc_items_eq:
  assumes "can_alloc l"
  shows "k_alloc_items zero m l =
    Inr (m\<lparr>k_items := (\<lambda>p. if k_brk m \<le> p \<and> p < k_brk m + alloc_n l
             then Some (alloc_item (l_name l) zero (k_brk m) (alloc_n l) (p - k_brk m)) else k_items m p),
           k_brk := k_brk m + alloc_n l + 1\<rparr>,
         l\<lparr>l_head := Some (k_brk m), l_tail := (if do_tail l then Some (k_brk m + (alloc_n l - 1)) else l_tail l),
           l_total := l_total l + alloc_n l, l_count := alloc_n l, l_count_up := alloc_n l,
           item_memory := item_memory l @ [(k_brk m, nat (alloc_n l))],
           data_mem_count := data_mem_count l + nat (alloc_n l)\<rparr>)"
  using assms by (auto simp: k_alloc_items_def can_alloc_def Let_def)

lemma last_addrs: "0 < n \<Longrightarrow> lasto None (addrs base n) = Some (base + int n - 1)"
  by (cases n) (auto simp: addrs_def lasto_def)

lemma hdo_addrs: "0 < n \<Longrightarrow> hdo (addrs base n) None = Some base"
  by (cases n) (simp_all add: addrs_Suc)

lemma distinct_addrs: "distinct (addrs base n)"
  by (simp add: addrs_def distinct_map inj_on_def)

lemma length_addrs [simp]: "length (addrs base n) = n"
  by (simp add: addrs_def)

text \<open>What an allocation leaves alone.\<close>

definition k_extends :: "'d k_mem \<Rightarrow> 'd k_mem \<Rightarrow> bool" where
  "k_extends m m' \<longleftrightarrow> (\<forall>p it. k_items m p = Some it \<longrightarrow> k_items m' p = Some it)"

lemma k_alloc_items_rep:
  assumes ok: "mem_ok m" and can: "can_alloc l" and two: "2 \<le> alloc_n l"
  shows "\<exists>m' l'. k_alloc_items zero m l = Inr (m', l') \<and>
    klist_rep m' l' (addrs (k_brk m) (nat (alloc_n l))) \<and> mem_ok m' \<and> k_extends m m' \<and> same_conf l l' \<and>
    l_total l' = l_total l + alloc_n l \<and> (l_limit l > 0 \<longrightarrow> l_total l' \<le> l_limit l) \<and>
    (\<forall>x \<in> set (addrs (k_brk m) (nat (alloc_n l))). map_option i_data (k_items m' x) = Some zero)"
proof -
  let ?n = "alloc_n l" and ?b = "k_brk m"
  let ?h = "\<lambda>p. if ?b \<le> p \<and> p < ?b + ?n then Some (alloc_item (l_name l) zero ?b ?n (p - ?b)) else k_items m p"
  have seg: "dseg ?h None None (addrs ?b (nat ?n))"
    using two by (intro dseg_addrs) auto
  have lim: "l_limit l > 0 \<Longrightarrow> l_total l + ?n \<le> l_limit l"
    using can by (auto simp: can_alloc_def alloc_n_def)
  have old: "k_items m p = None" if "?b \<le> p" for p
    using ok that by (force simp: mem_ok_def)
  have ok': "mem_ok (m\<lparr>k_items := ?h, k_brk := ?b + ?n + 1\<rparr>)"
    using ok two by (force simp: mem_ok_def)
  show ?thesis
    unfolding k_alloc_items_eq [OF can]
    using seg lim ok' two old
    by (auto simp: klist_rep_def last_addrs hdo_addrs distinct_addrs set_addrs k_extends_def same_conf_def)
qed

text \<open>
  Taking the first item of a fresh allocation works for every size: the back
  pointer of a single item, which points outside the allocation, is cleared.
\<close>

lemma k_unlink_head_alloc:
  assumes ok: "mem_ok m" and can: "can_alloc l" and empty: "l_head l = None"
  shows "\<exists>m' l'. k_unlink_head zero m l = Inr (Some (k_brk m), m', l') \<and>
    klist_rep m' l' (addrs (k_brk m + 1) (nat (alloc_n l - 1))) \<and> mem_ok m' \<and> k_extends m m' \<and> same_conf l l' \<and>
    (\<exists>it. k_items m' (k_brk m) = Some it \<and> i_name it = l_name l \<and> i_data it = zero) \<and> k_items m (k_brk m) = None"
proof (cases "alloc_n l = 1")
  case True
  have old: "k_items m p = None" if "k_brk m \<le> p" for p
    using ok that by (force simp: mem_ok_def)
  have "\<not> is_store l" using can by (simp add: can_alloc_def)
  with True empty ok old show ?thesis
    by (auto simp: k_unlink_head_def k_alloc_items_eq [OF can] klist_step klist_rep_def addrs_def same_conf_def
        mem_ok_def k_extends_def)
next
  case False
  then have two: "2 \<le> alloc_n l" using alloc_n_pos [OF can] by simp
  obtain m1 l1 where a: "k_alloc_items zero m l = Inr (m1, l1)"
    and rep: "klist_rep m1 l1 (addrs (k_brk m) (nat (alloc_n l)))" and ok1: "mem_ok m1" and ext: "k_extends m m1"
    and conf: "same_conf l l1"
    and zero: "\<forall>x \<in> set (addrs (k_brk m) (nat (alloc_n l))). map_option i_data (k_items m1 x) = Some zero"
    using k_alloc_items_rep [OF ok can two] by blast
  have ad: "addrs (k_brk m) (nat (alloc_n l)) = k_brk m # addrs (k_brk m + 1) (nat (alloc_n l - 1))"
    using two addrs_Suc [of "k_brk m" "nat (alloc_n l - 1)"] by (simp add: Suc_nat_eq_nat_zadd1)
  obtain m2 l2 where u: "k_unlink_head zero m1 l1 = Inr (Some (k_brk m), m2, l2)"
    and rep2: "klist_rep m2 l2 (addrs (k_brk m + 1) (nat (alloc_n l - 1)))"
    and fr: "k_frame m1 m2 (set (addrs (k_brk m) (nat (alloc_n l))))" and conf2: "same_conf l1 l2"
    using k_unlink_head_rep [OF rep [unfolded ad], of zero] unfolding ad by blast
  have head1: "l_head l1 = Some (k_brk m)" using rep ad by (simp add: klist_rep_def)
  have step: "k_unlink_head zero m l = k_unlink_head zero m1 l1"
    using can empty a head1 by (simp add: k_unlink_head_def can_alloc_def)
  have ext2: "k_extends m m2"
    unfolding k_extends_def
  proof (intro allI impI)
    fix p it assume p: "k_items m p = Some it"
    then have "p \<notin> set (addrs (k_brk m) (nat (alloc_n l)))"
      using ok by (force simp: set_addrs mem_ok_def)
    with p ext fr show "k_items m2 p = Some it" by (simp add: k_extends_def k_frame_def)
  qed
  have b: "k_brk m \<in> set (addrs (k_brk m) (nat (alloc_n l)))" using two by (simp add: set_addrs)
  obtain it1 where "k_items m1 (k_brk m) = Some it1" "i_name it1 = l_name l" "i_data it1 = zero"
    using rep ad zero b conf by (auto simp: klist_rep_def same_conf_def)
  moreover have "map_option (\<lambda>it. (i_name it, i_data it)) (k_items m2 (k_brk m)) =
      map_option (\<lambda>it. (i_name it, i_data it)) (k_items m1 (k_brk m))"
    using fr by (simp add: k_frame_def)
  ultimately have it2: "\<exists>it. k_items m2 (k_brk m) = Some it \<and> i_name it = l_name l \<and> i_data it = zero"
    by auto
  have "k_items m (k_brk m) = None" using ok by (force simp: mem_ok_def)
  with step u rep2 ext2 it2 mem_ok_frame [OF ok1 fr] conf conf2 show ?thesis
    by (auto simp: same_conf_def)
qed

section \<open>The list operations as a machine over address lists\<close>

datatype k_op = UnlinkHead | UnlinkTail | AddHead int | AddTail int
  | InsertBefore int int | InsertAfter int int | UnlinkItem int

fun k_exec :: "'d \<Rightarrow> k_op \<Rightarrow> 'd k_mem \<Rightarrow> k_list \<Rightarrow> k_err + ('d k_mem \<times> k_list)" where
  "k_exec zero UnlinkHead m l = bindR (k_unlink_head zero m l) (\<lambda>(_, m, l). Inr (m, l))"
| "k_exec zero UnlinkTail m l = bindR (k_unlink_tail m l) (\<lambda>(_, m, l). Inr (m, l))"
| "k_exec zero (AddHead x) m l = k_add_head m l x"
| "k_exec zero (AddTail x) m l = k_add_tail m l x"
| "k_exec zero (InsertBefore x b) m l = k_insert_before m l x (Some b)"
| "k_exec zero (InsertAfter x a) m l = k_insert_after m l x (Some a)"
| "k_exec zero (UnlinkItem x) m l = k_unlink_item m l x"

fun k_run :: "'d \<Rightarrow> k_op list \<Rightarrow> 'd k_mem \<Rightarrow> k_list \<Rightarrow> k_err + ('d k_mem \<times> k_list)" where
  "k_run zero [] m l = Inr (m, l)"
| "k_run zero (f # fs) m l = bindR (k_exec zero f m l) (\<lambda>(m, l). k_run zero fs m l)"

fun a_exec :: "k_op \<Rightarrow> int list \<Rightarrow> int list" where
  "a_exec UnlinkHead xs = tl xs"
| "a_exec UnlinkTail xs = butlast xs"
| "a_exec (AddHead x) xs = x # xs"
| "a_exec (AddTail x) xs = xs @ [x]"
| "a_exec (InsertBefore x b) xs = takeWhile (\<lambda>y. y \<noteq> b) xs @ x # dropWhile (\<lambda>y. y \<noteq> b) xs"
| "a_exec (InsertAfter x a) xs = takeWhile (\<lambda>y. y \<noteq> a) xs @ a # x # tl (dropWhile (\<lambda>y. y \<noteq> a) xs)"
| "a_exec (UnlinkItem x) xs = remove1 x xs"

text \<open>When an operation may be called: \<open>K\<close> are the items that belong to the list by name.\<close>

fun a_pre :: "int set \<Rightarrow> bool \<Rightarrow> k_op \<Rightarrow> int list \<Rightarrow> bool" where
  "a_pre K store UnlinkHead xs = (xs \<noteq> [] \<or> store)"
| "a_pre K store UnlinkTail xs = True"
| "a_pre K store (AddHead x) xs = (x \<in> K \<and> x \<notin> set xs)"
| "a_pre K store (AddTail x) xs = (x \<in> K \<and> x \<notin> set xs)"
| "a_pre K store (InsertBefore x b) xs = (x \<in> K \<and> x \<notin> set xs \<and> b \<in> set xs)"
| "a_pre K store (InsertAfter x a) xs = (x \<in> K \<and> x \<notin> set xs \<and> a \<in> set xs)"
| "a_pre K store (UnlinkItem x) xs = (x \<in> set xs)"

fun a_run :: "k_op list \<Rightarrow> int list \<Rightarrow> int list" where
  "a_run [] xs = xs"
| "a_run (f # fs) xs = a_run fs (a_exec f xs)"

fun a_ok :: "int set \<Rightarrow> bool \<Rightarrow> k_op list \<Rightarrow> int list \<Rightarrow> bool" where
  "a_ok K store [] xs = True"
| "a_ok K store (f # fs) xs = (a_pre K store f xs \<and> a_ok K store fs (a_exec f xs))"

definition k_known :: "'d k_mem \<Rightarrow> k_list \<Rightarrow> int set \<Rightarrow> bool" where
  "k_known m l K \<longleftrightarrow> (\<forall>x \<in> K. \<exists>it. k_items m x = Some it \<and> i_name it = l_name l)"

definition same_data :: "'d k_mem \<Rightarrow> 'd k_mem \<Rightarrow> bool" where
  "same_data m m' \<longleftrightarrow> (\<forall>p. map_option (\<lambda>it. (i_name it, i_data it)) (k_items m' p) =
     map_option (\<lambda>it. (i_name it, i_data it)) (k_items m p))"

lemma k_frame_same_data: "k_frame m m' S \<Longrightarrow> same_data m m'"
  by (simp add: k_frame_def same_data_def)

lemma k_known_same: "k_known m l K \<Longrightarrow> same_data m m' \<Longrightarrow> same_conf l l' \<Longrightarrow> k_known m' l' K"
proof -
  assume k: "k_known m l K" and d: "same_data m m'" and c: "same_conf l l'"
  have "\<exists>it. k_items m' x = Some it \<and> i_name it = l_name l'" if x: "x \<in> K" for x
  proof -
    obtain it where it: "k_items m x = Some it" "i_name it = l_name l" using k x by (auto simp: k_known_def)
    have "map_option (\<lambda>it. (i_name it, i_data it)) (k_items m' x) = Some (i_name it, i_data it)"
      using d it(1) by (simp add: same_data_def)
    then show ?thesis using it(2) c by (auto simp: same_conf_def)
  qed
  then show ?thesis by (simp add: k_known_def)
qed

lemma split_at:
  assumes "x \<in> set xs" and "distinct xs"
  obtains ys zs where "xs = ys @ x # zs" "takeWhile (\<lambda>y. y \<noteq> x) xs = ys" "dropWhile (\<lambda>y. y \<noteq> x) xs = x # zs"
    "remove1 x xs = ys @ zs"
proof -
  obtain ys zs where xs: "xs = ys @ x # zs" using split_list [OF assms(1)] by blast
  with assms(2) have n: "x \<notin> set ys" by simp
  then have "takeWhile (\<lambda>y. y \<noteq> x) (ys @ x # zs) = ys" "dropWhile (\<lambda>y. y \<noteq> x) (ys @ x # zs) = x # zs"
    by (induction ys) auto
  with xs n show ?thesis by (intro that [of ys zs]) (simp_all add: remove1_append)
qed

lemma k_exec_sim:
  assumes rep: "klist_rep m l xs" and known: "k_known m l K" and tail: "do_tail l"
    and pre: "a_pre K (is_store l) f xs"
  shows "\<exists>m' l'. k_exec zero f m l = Inr (m', l') \<and> klist_rep m' l' (a_exec f xs) \<and> same_data m m' \<and> same_conf l l'"
proof -
  have dist: "distinct xs" using rep by (simp add: klist_rep_def)
  show ?thesis
  proof (cases f)
    case UnlinkHead
    then show ?thesis
      using k_unlink_head_rep [of m l _ _ zero] k_unlink_head_empty_store [of m l zero] rep pre
      by (cases xs) (force simp: same_data_def same_conf_def dest: k_frame_same_data)+
  next
    case UnlinkTail
    then show ?thesis
      using k_unlink_tail_rep [of m l] k_unlink_tail_empty [of m l] rep tail
      by (cases xs rule: rev_cases) (force simp: same_data_def same_conf_def dest: k_frame_same_data)+
  next
    case (AddHead x)
    with pre known obtain it where "k_items m x = Some it" "i_name it = l_name l" "x \<notin> set xs"
      by (auto simp: k_known_def)
    from k_add_head_rep [OF rep this] AddHead show ?thesis by (auto dest: k_frame_same_data)
  next
    case (AddTail x)
    with pre known obtain it where "k_items m x = Some it" "i_name it = l_name l" "x \<notin> set xs"
      by (auto simp: k_known_def)
    from k_add_tail_rep [OF rep this tail] AddTail show ?thesis by (auto dest: k_frame_same_data)
  next
    case (InsertBefore x b)
    with pre known obtain it where it: "k_items m x = Some it" "i_name it = l_name l" "x \<notin> set xs" "b \<in> set xs"
      by (auto simp: k_known_def)
    obtain ys zs where sp: "xs = ys @ b # zs" "takeWhile (\<lambda>y. y \<noteq> b) xs = ys" "dropWhile (\<lambda>y. y \<noteq> b) xs = b # zs"
      by (rule split_at [OF it(4) dist])
    from k_insert_before_rep [OF rep [unfolded sp(1)] it(1,2)] it(3) InsertBefore sp show ?thesis
      by (auto dest: k_frame_same_data)
  next
    case (InsertAfter x a)
    with pre known obtain it where it: "k_items m x = Some it" "i_name it = l_name l" "x \<notin> set xs" "a \<in> set xs"
      by (auto simp: k_known_def)
    obtain ys zs where sp: "xs = ys @ a # zs" "takeWhile (\<lambda>y. y \<noteq> a) xs = ys" "dropWhile (\<lambda>y. y \<noteq> a) xs = a # zs"
      by (rule split_at [OF it(4) dist])
    from k_insert_after_rep [OF rep [unfolded sp(1)] it(1,2)] it(3) InsertAfter sp show ?thesis
      by (auto dest: k_frame_same_data)
  next
    case (UnlinkItem x)
    then obtain ys zs where sp: "xs = ys @ x # zs" "remove1 x xs = ys @ zs"
      using split_at [of x xs] dist pre by (metis a_pre.simps(7))
    from k_unlink_item_rep [OF rep [unfolded sp(1)]] UnlinkItem sp(2) show ?thesis
      by (auto dest: k_frame_same_data)
  qed
qed

lemma k_run_sim:
  assumes "klist_rep m l xs" and "k_known m l K" and "do_tail l" and "a_ok K (is_store l) fs xs"
  shows "\<exists>m' l'. k_run zero fs m l = Inr (m', l') \<and> klist_rep m' l' (a_run fs xs) \<and> same_data m m'"
  using assms
proof (induction fs arbitrary: m l xs)
  case Nil
  then show ?case by (simp add: same_data_def)
next
  case (Cons f fs)
  then obtain m1 l1 where step: "k_exec zero f m l = Inr (m1, l1)" "klist_rep m1 l1 (a_exec f xs)"
      "same_data m m1" "same_conf l l1"
    using k_exec_sim [of m l xs K f zero] by auto
  moreover have "k_known m1 l1 K" by (rule k_known_same [OF Cons.prems(2) step(3,4)])
  moreover have "do_tail l1" "is_store l1 = is_store l" using step(4) Cons.prems(3) by (auto simp: same_conf_def)
  ultimately obtain m' l' where "k_run zero fs m1 l1 = Inr (m', l')" "klist_rep m' l' (a_run fs (a_exec f xs))"
      "same_data m1 m'"
    using Cons.IH [of m1 l1 "a_exec f xs"] Cons.prems(4) by auto
  with step(1,3) show ?case by (auto simp: same_data_def)
qed

section \<open>Interface: a queue of items\<close>

text \<open>
  Items are pushed at the head and taken from the tail, as noncedup.c does.
  \<open>K\<close> are the items that carry the list's name.
\<close>

type_synonym 'd kq = "'d k_mem \<times> k_list"

definition kq_rep :: "int set \<Rightarrow> 'd kq \<Rightarrow> int list \<Rightarrow> bool" where
  "kq_rep K s xs \<longleftrightarrow> klist_rep (fst s) (snd s) (rev xs) \<and> k_known (fst s) (snd s) K \<and> do_tail (snd s)"

definition kq_ok :: "int set \<Rightarrow> int list \<Rightarrow> int \<Rightarrow> bool" where
  "kq_ok K xs x \<longleftrightarrow> x \<in> K \<and> x \<notin> set xs"

definition kq_enq :: "'d kq \<Rightarrow> int \<Rightarrow> 'd kq option" where
  "kq_enq s x = (case k_add_head (fst s) (snd s) x of Inl _ \<Rightarrow> None | Inr s' \<Rightarrow> Some s')"

definition kq_deq :: "'d kq \<Rightarrow> (int option \<times> 'd kq) option" where
  "kq_deq s = (case k_unlink_tail (fst s) (snd s) of Inl _ \<Rightarrow> None | Inr r \<Rightarrow> Some r)"

lemma kq_enq_rep:
  assumes rep: "kq_rep K s xs" and ok: "kq_ok K xs x"
  shows "\<exists>s'. kq_enq s x = Some s' \<and> kq_rep K s' (xs @ [x])"
proof -
  obtain it where "k_items (fst s) x = Some it" "i_name it = l_name (snd s)" "x \<notin> set (rev xs)"
    using rep ok by (auto simp: kq_rep_def kq_ok_def k_known_def)
  then obtain m' l' where "k_add_head (fst s) (snd s) x = Inr (m', l')" "klist_rep m' l' (x # rev xs)"
      "same_data (fst s) m'" "same_conf (snd s) l'"
    using k_add_head_rep [of "fst s" "snd s" "rev xs" x] rep k_frame_same_data by (force simp: kq_rep_def)
  moreover from this have "k_known m' l' K" using rep k_known_same by (auto simp: kq_rep_def)
  ultimately show ?thesis using rep by (auto simp: kq_enq_def kq_rep_def same_conf_def)
qed

lemma kq_deq_rep:
  assumes rep: "kq_rep K s xs"
  shows "\<exists>s'. kq_deq s = Some (hdo xs None, s') \<and> kq_rep K s' (tl xs)"
proof (cases xs)
  case Nil
  with rep k_unlink_tail_empty [of "fst s" "snd s"] show ?thesis by (auto simp: kq_deq_def kq_rep_def)
next
  case (Cons x ys)
  with rep have "klist_rep (fst s) (snd s) (rev ys @ [x])" "do_tail (snd s)" by (simp_all add: kq_rep_def)
  then obtain m' l' where "k_unlink_tail (fst s) (snd s) = Inr (Some x, m', l')" "klist_rep m' l' (rev ys)"
      "same_data (fst s) m'" "same_conf (snd s) l'"
    using k_unlink_tail_rep k_frame_same_data by (smt (verit))
  moreover from this have "k_known m' l' K" using rep k_known_same by (auto simp: kq_rep_def)
  ultimately show ?thesis using rep Cons by (auto simp: kq_deq_def kq_rep_def same_conf_def)
qed

interpretation kq: fifo "kq_rep K" "kq_ok K" kq_enq kq_deq for K
  by unfold_locales (rule kq_enq_rep kq_deq_rep; assumption)+

section \<open>Properties\<close>

text \<open>C2: the pointer operations of klist.c refine operations on lists of items: any sequence of
  them whose calls make sense for the abstract list (an item added is one of the list's and
  not yet linked, a neighbour named is linked) runs without a fault or an exit, ends in a
  doubly linked list of exactly the abstract result, with head, tail and count right, and
  changes no item's name or data.\<close>

theorem klist_run_refines:
  assumes "klist_rep m l xs" and "k_known m l K" and "do_tail l" and "a_ok K (is_store l) fs xs"
  shows "\<exists>m' l'. k_run zero fs m l = Inr (m', l') \<and> klist_rep m' l' (a_run fs xs) \<and> same_data m m'"
  using k_run_sim [OF assms] .

text \<open>A concrete list: three items with addresses 1 to 3, two of them linked.\<close>

definition wit_mem :: "nat k_mem" where
  "wit_mem = \<lparr>k_items = [1 \<mapsto> \<lparr>i_name = 7, i_prev = None, i_next = Some 2, i_data = 10\<rparr>,
                        2 \<mapsto> \<lparr>i_name = 7, i_prev = Some 1, i_next = None, i_data = 20\<rparr>,
                        3 \<mapsto> \<lparr>i_name = 7, i_prev = None, i_next = None, i_data = 30\<rparr>], k_brk = 5\<rparr>"

definition wit_list :: k_list where
  "wit_list = \<lparr>l_name = 7, is_store = True, l_head = Some 1, l_tail = Some 2, l_total = 0, l_count = 2,
     l_count_up = 2, l_allocate = 0, l_limit = 0, do_tail = True, item_memory = [], data_mem_count = 0\<rparr>"

lemma wit_rep: "klist_rep wit_mem wit_list [1, 2]" "k_known wit_mem wit_list {1, 2, 3}" "do_tail wit_list"
    "is_store wit_list" "mem_ok wit_mem"
  by (auto simp: klist_rep_def wit_mem_def wit_list_def k_known_def mem_ok_def lasto_def)

theorem klist_run_refines_witness:
  "\<exists>m' l'. k_run 0 [InsertAfter 3 1, UnlinkTail, UnlinkHead] wit_mem wit_list = Inr (m', l') \<and>
     klist_rep m' l' [3]"
proof -
  have "a_run [InsertAfter 3 1, UnlinkTail, UnlinkHead] [1, 2] = [3]" by simp
  moreover have "a_ok {1, 2, 3} (is_store wit_list) [InsertAfter 3 1, UnlinkTail, UnlinkHead] [1, 2]" by simp
  ultimately show ?thesis
    using klist_run_refines [OF wit_rep(1,2,3), of "[InsertAfter 3 1, UnlinkTail, UnlinkHead]" 0] by metis
qed

text \<open>Items pushed with k_add_head and taken with k_unlink_tail form a first-in first-out
  queue: any interleaving of the two runs without a fault, returns the oldest item or null as the list
  specification says, and the items returned followed by those left are, in order, the ones
  that were there followed by the ones pushed.\<close>

theorem klist_fifo:
  assumes "kq_rep K s xs" and "q_legal (kq_ok K) ops xs"
  shows "\<exists>rs s' ys. q_run kq_enq kq_deq ops s = Some (rs, s') \<and> rs = fst (q_spec ops xs) \<and> kq_rep K s' ys \<and>
    map the (filter (\<lambda>r. r \<noteq> None) rs) @ ys = xs @ q_entered ops"
  using kq.run_spec [OF assms] q_spec_conserves [of ops xs] by blast

theorem klist_fifo_witness:
  "\<exists>s' ys. q_run kq_enq kq_deq [Deq, Enq 3, Deq, Deq, Deq] (wit_mem, wit_list) =
     Some ([Some 2, Some 1, Some 3, None], s') \<and> kq_rep {1, 2, 3} s' ys"
proof -
  have "kq_rep {1, 2, 3} (wit_mem, wit_list) [2, 1]" using wit_rep by (simp add: kq_rep_def)
  moreover have "q_legal (kq_ok {1, 2, 3}) [Deq, Enq 3, Deq, Deq, Deq] [2, 1]" by (simp add: kq_ok_def)
  moreover have "fst (q_spec [Deq, Enq 3, Deq, Deq, Deq] [2, 1 :: int]) = [Some 2, Some 1, Some 3, None]" by simp
  ultimately show ?thesis using klist_fifo by metis
qed

text \<open>Unlinking from an empty list that is not a store allocates within the limit: when the
  limit is reached nothing happens and null is returned; otherwise the first of a fresh block of
  alloc_n items is returned, zeroed and carrying the list's name, the rest of the block is the new list in order, no item that existed is
  touched, and the total never passes the limit.\<close>

theorem k_unlink_head_allocates:
  assumes "mem_ok m" and "klist_rep m l []" and "\<not> is_store l" and "1 \<le> l_allocate l"
  shows "if l_limit l > 0 \<and> l_total l \<ge> l_limit l then k_unlink_head zero m l = Inr (None, m, l)
    else \<exists>m' l' it. k_unlink_head zero m l = Inr (Some (k_brk m), m', l') \<and>
      klist_rep m' l' (addrs (k_brk m + 1) (nat (alloc_n l - 1))) \<and>
      k_items m (k_brk m) = None \<and> k_items m' (k_brk m) = Some it \<and> i_name it = l_name l \<and> i_data it = zero \<and>
      k_extends m m' \<and> (l_limit l > 0 \<longrightarrow> l_total l + alloc_n l \<le> l_limit l)"
proof (cases "l_limit l > 0 \<and> l_total l \<ge> l_limit l")
  case True
  with assms show ?thesis by (simp add: k_unlink_head_def k_alloc_items_def klist_rep_def)
next
  case False
  with assms have can: "can_alloc l" and "l_head l = None" by (auto simp: can_alloc_def klist_rep_def)
  moreover have "l_limit l > 0 \<longrightarrow> l_total l + alloc_n l \<le> l_limit l"
    using can by (auto simp: can_alloc_def alloc_n_def)
  ultimately show ?thesis
    using k_unlink_head_alloc [OF assms(1) can, of zero] False by auto
qed

theorem k_unlink_head_allocates_witness:
  "\<exists>m' l'. k_unlink_head 0 wit_mem (wit_list\<lparr>is_store := False, l_head := None, l_tail := None, l_count := 0,
       l_allocate := 4, l_total := 3, l_limit := 5\<rparr>) = Inr (Some 5, m', l') \<and> klist_rep m' l' [6]"
proof -
  let ?l = "wit_list\<lparr>is_store := False, l_head := None, l_tail := None, l_count := 0,
       l_allocate := 4, l_total := 3, l_limit := 5\<rparr>"
  have n: "alloc_n ?l = 2" "\<not> (l_limit ?l > 0 \<and> l_total ?l \<ge> l_limit ?l)" "k_brk wit_mem = 5"
    by (simp_all add: alloc_n_def wit_mem_def)
  have "klist_rep wit_mem ?l []" "\<not> is_store ?l" "1 \<le> l_allocate ?l" by (auto simp: klist_rep_def)
  from k_unlink_head_allocates [OF wit_rep(5) this, of 0] n(2)
  have "\<exists>m' l'. k_unlink_head 0 wit_mem ?l = Inr (Some (k_brk wit_mem), m', l') \<and>
      klist_rep m' l' (addrs (k_brk wit_mem + 1) (nat (alloc_n ?l - 1)))"
    by (auto split: if_splits)
  moreover have "addrs (k_brk wit_mem + 1) (nat (alloc_n ?l - 1)) = [6]" by (simp add: n addrs_def)
  ultimately show ?thesis by (simp add: n)
qed

text \<open>Transferring a list to the head or the tail of another of the same name joins the two
  item lists in that order, leaves the source empty, and touches only links of the items of the
  two.\<close>

theorem k_list_transfers:
  assumes "klist_rep m from xs" and "klist_rep m to ys" and "set xs \<inter> set ys = {}"
    and "l_name from = l_name to" and "do_tail from" and "do_tail to"
  shows "(\<exists>m' from' to'. k_list_transfer_to_head m from to = Inr (m', from', to') \<and>
      klist_rep m' from' [] \<and> klist_rep m' to' (xs @ ys) \<and> k_frame m m' (set xs \<union> set ys)) \<and>
    (\<exists>m' from' to'. k_list_transfer_to_tail m from to = Inr (m', from', to') \<and>
      klist_rep m' from' [] \<and> klist_rep m' to' (ys @ xs) \<and> k_frame m m' (set xs \<union> set ys))"
  using k_transfer_to_head_rep [OF assms] k_transfer_to_tail_rep [OF assms] by blast

theorem k_list_transfers_witness:
  "\<exists>m' from' to'. k_list_transfer_to_tail wit_mem wit_list
     (wit_list\<lparr>l_head := Some 3, l_tail := Some 3, l_count := 1\<rparr>) = Inr (m', from', to') \<and>
     klist_rep m' to' [3, 1, 2]"
proof -
  have "klist_rep wit_mem (wit_list\<lparr>l_head := Some 3, l_tail := Some 3, l_count := 1\<rparr>) [3]"
    by (auto simp: klist_rep_def wit_mem_def wit_list_def lasto_def)
  from k_list_transfers [OF wit_rep(1) this] wit_rep(3) show ?thesis by auto
qed

text \<open>The block allocator cannot make a list of one item that is usable from the tail: the
  statement that ends the chain of a block writes the address before the block into the item's back pointer, so k_unlink_tail on
  the fresh list follows a pointer outside every allocation.\<close>

theorem k_new_list_single_faults:
  assumes "mem_ok m"
  shows "\<exists>m' l'. k_new_list zero m name 1 0 True = Inr (m', l') \<and> l_count l' = 1 \<and>
    l_head l' = l_tail l' \<and> k_unlink_tail m' l' = Inl KFault"
proof -
  have old: "k_items m p = None" if "k_brk m - 1 \<le> p" for p
    using assms that by (force simp: mem_ok_def)
  show ?thesis
    by (simp add: k_new_list_def k_alloc_items_def alloc_n_def k_unlink_tail_def klist_step old)
qed

theorem k_new_list_single_faults_witness:
  "\<exists>m' l'. k_new_list (0 :: nat) wit_mem 7 1 0 True = Inr (m', l') \<and> k_unlink_tail m' l' = Inl KFault"
  using k_new_list_single_faults [OF wit_rep(5), of 0 7] by blast

end
