(* ===== verification/Timeval.thy ===== *)
theory Timeval
  imports Prelude "HOL-Library.Signed_Division"
begin

text \<open>
  Times of util.c: \<open>struct timeval\<close> and \<open>struct timespec\<close> with their arithmetic,
  comparisons, conversions and the deadline of a sleep.  Seconds and
  fractions are \<open>long\<close> and \<open>time_t\<close>; the model takes them as integers, so it holds as long as the 64-bit
  sums do not overflow.  C's division is the truncating one.  The seconds a
  \<open>double\<close> holds are kept as the exact number of microseconds.
\<close>

section \<open>State\<close>

record timeval =
  tv_sec :: int
  tv_usec :: int

record timespec =
  ts_sec :: int
  ts_nsec :: int

section \<open>Operations\<close>

text \<open>The macros of sys/time.h that the code calls.\<close>

definition timersub :: "timeval \<Rightarrow> timeval \<Rightarrow> timeval" where
  "timersub a b =
     (let s = tv_sec a - tv_sec b; u = tv_usec a - tv_usec b
      in if u < 0 then \<lparr>tv_sec = s - 1, tv_usec = u + 1000000\<rparr> else \<lparr>tv_sec = s, tv_usec = u\<rparr>)"

definition timeradd :: "timeval \<Rightarrow> timeval \<Rightarrow> timeval" where
  "timeradd a b =
     (let s = tv_sec a + tv_sec b; u = tv_usec a + tv_usec b
      in if u \<ge> 1000000 then \<lparr>tv_sec = s + 1, tv_usec = u - 1000000\<rparr> else \<lparr>tv_sec = s, tv_usec = u\<rparr>)"

definition timercmp :: "timeval \<Rightarrow> timeval \<Rightarrow> (int \<Rightarrow> int \<Rightarrow> bool) \<Rightarrow> bool" where
  "timercmp a b cmp = (if tv_sec a = tv_sec b then cmp (tv_usec a) (tv_usec b) else cmp (tv_sec a) (tv_sec b))"

text \<open>Both write the result through their second argument.\<close>

definition subtime :: "timeval \<Rightarrow> timeval \<Rightarrow> timeval" where
  "subtime a b = timersub a b"

definition addtime :: "timeval \<Rightarrow> timeval \<Rightarrow> timeval" where
  "addtime a b = timeradd a b"

definition time_more :: "timeval \<Rightarrow> timeval \<Rightarrow> bool" where
  "time_more a b = timercmp a b (>)"

definition time_less :: "timeval \<Rightarrow> timeval \<Rightarrow> bool" where
  "time_less a b = timercmp a b (<)"

definition timespec_to_val :: "timespec \<Rightarrow> timeval" where
  "timespec_to_val spec = \<lparr>tv_sec = ts_sec spec, tv_usec = ts_nsec spec sdiv 1000\<rparr>"

definition timeval_to_spec :: "timeval \<Rightarrow> timespec" where
  "timeval_to_spec val = \<lparr>ts_sec = tv_sec val, ts_nsec = tv_usec val * 1000\<rparr>"

definition us_to_timeval :: "int \<Rightarrow> timeval" where
  "us_to_timeval us = \<lparr>tv_sec = us sdiv 1000000, tv_usec = us smod 1000000\<rparr>"

definition us_to_timespec :: "int \<Rightarrow> timespec" where
  "us_to_timespec us = \<lparr>ts_sec = us sdiv 1000000, ts_nsec = us smod 1000000 * 1000\<rparr>"

definition ms_to_timespec :: "int \<Rightarrow> timespec" where
  "ms_to_timespec ms = \<lparr>ts_sec = ms sdiv 1000, ts_nsec = ms smod 1000 * 1000000\<rparr>"

definition ms_to_timeval :: "int \<Rightarrow> timeval" where
  "ms_to_timeval ms = \<lparr>tv_sec = ms sdiv 1000, tv_usec = ms smod 1000 * 1000\<rparr>"

text \<open>The two loops that normalise the nanoseconds.\<close>

function ns_down :: "timespec \<Rightarrow> timespec" where
  "ns_down ts = (if ts_nsec ts \<ge> 1000000000
     then ns_down \<lparr>ts_sec = ts_sec ts + 1, ts_nsec = ts_nsec ts - 1000000000\<rparr> else ts)"
  by pat_completeness auto
termination by (relation "measure (\<lambda>ts. nat (ts_nsec ts))") auto

function ns_up :: "timespec \<Rightarrow> timespec" where
  "ns_up ts = (if ts_nsec ts < 0
     then ns_up \<lparr>ts_sec = ts_sec ts - 1, ts_nsec = ts_nsec ts + 1000000000\<rparr> else ts)"
  by pat_completeness auto
termination by (relation "measure (\<lambda>ts. nat (- ts_nsec ts))") auto

declare ns_down.simps [simp del] ns_up.simps [simp del]

definition spec_nscheck :: "timespec \<Rightarrow> timespec" where
  "spec_nscheck ts = ns_up (ns_down ts)"

definition timeraddspec :: "timespec \<Rightarrow> timespec \<Rightarrow> timespec" where
  "timeraddspec a b = spec_nscheck \<lparr>ts_sec = ts_sec a + ts_sec b, ts_nsec = ts_nsec a + ts_nsec b\<rparr>"

definition timespec_to_ms :: "timespec \<Rightarrow> int" where
  "timespec_to_ms ts = ts_sec ts * 1000 + ts_nsec ts sdiv 1000000"

definition timersubspec :: "timespec \<Rightarrow> timespec \<Rightarrow> timespec" where
  "timersubspec a b = spec_nscheck \<lparr>ts_sec = ts_sec a - ts_sec b, ts_nsec = ts_nsec a - ts_nsec b\<rparr>"

definition cgtimer_sub :: "timespec \<Rightarrow> timespec \<Rightarrow> timespec" where
  "cgtimer_sub a b =
     (let s = ts_sec a - ts_sec b; n = ts_nsec a - ts_nsec b
      in if n < 0 then \<lparr>ts_sec = s - 1, ts_nsec = n + 1000000000\<rparr> else \<lparr>ts_sec = s, ts_nsec = n\<rparr>)"

text \<open>The absolute time a sleep asks the clock for, from its start and its length.\<close>

definition cgsleep_ms_r :: "timespec \<Rightarrow> int \<Rightarrow> timespec" where
  "cgsleep_ms_r ts_start ms = timeraddspec (ms_to_timespec ms) ts_start"

definition cgsleep_us_r :: "timespec \<Rightarrow> int \<Rightarrow> timespec" where
  "cgsleep_us_r ts_start us = timeraddspec (us_to_timespec us) ts_start"

text \<open>Where there is no absolute sleep: the relative one, or none when the time has passed.\<close>

definition cgsleep_spec :: "timespec \<Rightarrow> timespec \<Rightarrow> timespec \<Rightarrow> timespec option" where
  "cgsleep_spec ts_diff ts_start now =
     (let d = timersubspec (timeraddspec ts_diff ts_start) now
      in if ts_sec d < 0 then None else Some d)"

definition us_tdiff :: "timeval \<Rightarrow> timeval \<Rightarrow> int" where
  "us_tdiff stop start =
     (if tv_sec stop - tv_sec start > 60 then 60000000
      else (tv_sec stop - tv_sec start) * 1000000 + (tv_usec stop - tv_usec start))"

definition ms_tdiff :: "timeval \<Rightarrow> timeval \<Rightarrow> int" where
  "ms_tdiff stop start =
     (if tv_sec stop - tv_sec start > 3600 then 3600000
      else (tv_sec stop - tv_sec start) * 1000 + (tv_usec stop - tv_usec start) sdiv 1000)"

text \<open>\<open>tdiff\<close> in microseconds.\<close>

definition tdiff :: "timeval \<Rightarrow> timeval \<Rightarrow> int" where
  "tdiff stop start = (tv_sec stop - tv_sec start) * 1000000 + (tv_usec stop - tv_usec start)"

section \<open>Lemmas\<close>

definition val_us :: "timeval \<Rightarrow> int" where
  "val_us t = tv_sec t * 1000000 + tv_usec t"

definition spec_ns :: "timespec \<Rightarrow> int" where
  "spec_ns t = ts_sec t * 1000000000 + ts_nsec t"

definition val_norm :: "timeval \<Rightarrow> bool" where
  "val_norm t \<longleftrightarrow> 0 \<le> tv_usec t \<and> tv_usec t < 1000000"

definition spec_norm :: "timespec \<Rightarrow> bool" where
  "spec_norm t \<longleftrightarrow> 0 \<le> ts_nsec t \<and> ts_nsec t < 1000000000"

lemma ns_down_spec: "spec_ns (ns_down ts) = spec_ns ts \<and> ts_nsec (ns_down ts) < 1000000000 \<and>
    (0 \<le> ts_nsec ts \<longrightarrow> 0 \<le> ts_nsec (ns_down ts)) \<and> (ts_nsec ts < 0 \<longrightarrow> ns_down ts = ts)"
proof (induction ts rule: ns_down.induct)
  case (1 ts)
  show ?case
  proof (cases "ts_nsec ts \<ge> 1000000000")
    case True
    with 1 [OF True] show ?thesis
      unfolding ns_down.simps [of ts] by (simp add: spec_ns_def)
  next
    case False
    then show ?thesis by (simp add: ns_down.simps [of ts])
  qed
qed

lemma ns_up_spec: "spec_ns (ns_up ts) = spec_ns ts \<and> 0 \<le> ts_nsec (ns_up ts) \<and>
    (ts_nsec ts < 1000000000 \<longrightarrow> ts_nsec (ns_up ts) < 1000000000)"
proof (induction ts rule: ns_up.induct)
  case (1 ts)
  show ?case
  proof (cases "ts_nsec ts < 0")
    case True
    with 1 [OF True] show ?thesis
      unfolding ns_up.simps [of ts] by (simp add: spec_ns_def)
  next
    case False
    then show ?thesis by (simp add: ns_up.simps [of ts])
  qed
qed

lemma spec_nscheck_ns [simp]: "spec_ns (spec_nscheck ts) = spec_ns ts"
  by (simp add: spec_nscheck_def ns_up_spec ns_down_spec)

lemma spec_nscheck_norm [simp]: "spec_norm (spec_nscheck ts)"
  by (simp add: spec_nscheck_def spec_norm_def ns_up_spec ns_down_spec)

text \<open>Two times with the same fraction range are equal when their totals are.\<close>

lemma spec_norm_parts: "spec_norm a \<Longrightarrow> ts_sec a = spec_ns a div 1000000000 \<and> ts_nsec a = spec_ns a mod 1000000000"
  by (simp add: spec_norm_def spec_ns_def)

lemma spec_norm_unique: "spec_norm a \<Longrightarrow> spec_norm b \<Longrightarrow> spec_ns a = spec_ns b \<Longrightarrow> a = (b :: timespec)"
  by (rule timespec.equality) (simp_all add: spec_norm_parts)

lemma smod_sdiv_total: "(a sdiv k) * k + a smod k = (a :: int)"
  by (simp add: sdiv_mult_smod_eq)

lemma spec_ns_us [simp]: "spec_ns (us_to_timespec us) = us * 1000"
  using smod_sdiv_total [of us 1000000] by (simp add: us_to_timespec_def spec_ns_def)

lemma spec_ns_ms [simp]: "spec_ns (ms_to_timespec ms) = ms * 1000000"
  using smod_sdiv_total [of ms 1000] by (simp add: ms_to_timespec_def spec_ns_def)

lemma val_us_less: "val_norm a \<Longrightarrow> val_norm b \<Longrightarrow> val_us a < val_us b \<longleftrightarrow>
    tv_sec a < tv_sec b \<or> tv_sec a = tv_sec b \<and> tv_usec a < tv_usec b"
  by (auto simp: val_norm_def val_us_def)

lemma tdiff_val_us: "tdiff a b = val_us a - val_us b"
  by (simp add: tdiff_def val_us_def algebra_simps)

section \<open>Properties\<close>

text \<open>Normalising a timespec terminates, keeps the time it stands for and brings the
  nanoseconds into range; so timeraddspec, timersubspec and cgtimer_sub are exact, the last agrees with the second on
  normalised arguments, and a sleep's deadline is its start plus its length to the nanosecond, for negative lengths
  too.\<close>

theorem timespec_arithmetic:
  "spec_ns (timeraddspec a b) = spec_ns a + spec_ns b \<and> spec_norm (timeraddspec a b) \<and>
   spec_ns (timersubspec a b) = spec_ns a - spec_ns b \<and> spec_norm (timersubspec a b) \<and>
   (spec_norm a \<and> spec_norm b \<longrightarrow> cgtimer_sub a b = timersubspec a b) \<and>
   spec_ns (cgsleep_ms_r a ms) = spec_ns a + ms * 1000000 \<and>
   spec_ns (cgsleep_us_r a us) = spec_ns a + us * 1000 \<and> spec_norm (cgsleep_us_r a us)"
proof (intro conjI impI)
  show add: "spec_ns (timeraddspec a b) = spec_ns a + spec_ns b" for a b
    by (simp add: timeraddspec_def) (simp add: spec_ns_def)
  show sub: "spec_ns (timersubspec a b) = spec_ns a - spec_ns b"
    by (simp add: timersubspec_def) (simp add: spec_ns_def)
  show "spec_norm (timeraddspec a b)" "spec_norm (timersubspec a b)" "spec_norm (cgsleep_us_r a us)"
    by (simp_all add: timeraddspec_def timersubspec_def cgsleep_us_r_def)
  show "spec_ns (cgsleep_ms_r a ms) = spec_ns a + ms * 1000000" "spec_ns (cgsleep_us_r a us) = spec_ns a + us * 1000"
    by (simp_all add: cgsleep_ms_r_def cgsleep_us_r_def add)
  assume n: "spec_norm a \<and> spec_norm b"
  have "spec_norm (cgtimer_sub a b)" "spec_ns (cgtimer_sub a b) = spec_ns a - spec_ns b"
    using n by (auto simp: cgtimer_sub_def spec_norm_def spec_ns_def Let_def)
  then show "cgtimer_sub a b = timersubspec a b"
    by (intro spec_norm_unique) (simp_all add: sub, simp add: timersubspec_def)
qed

theorem timespec_arithmetic_witness:
  "cgtimer_sub \<lparr>ts_sec = 5, ts_nsec = 100\<rparr> \<lparr>ts_sec = 2, ts_nsec = 200\<rparr> =
   timersubspec \<lparr>ts_sec = 5, ts_nsec = 100\<rparr> \<lparr>ts_sec = 2, ts_nsec = 200\<rparr>"
  using timespec_arithmetic [of "\<lparr>ts_sec = 5, ts_nsec = 100\<rparr>" "\<lparr>ts_sec = 2, ts_nsec = 200\<rparr>"]
  by (simp add: spec_norm_def)

text \<open>On normalised times the comparisons are those of the microseconds the times stand for,
  and addtime and subtime are exact and normalised.\<close>

theorem timeval_arithmetic:
  assumes "val_norm a" and "val_norm b"
  shows "(time_more a b \<longleftrightarrow> val_us a > val_us b) \<and> (time_less a b \<longleftrightarrow> val_us a < val_us b) \<and>
    val_us (addtime a b) = val_us a + val_us b \<and> val_norm (addtime a b) \<and>
    val_us (subtime a b) = val_us a - val_us b \<and> val_norm (subtime a b) \<and>
    (0 < tdiff a b \<longleftrightarrow> time_more a b)"
proof (intro conjI)
  show more: "time_more a b \<longleftrightarrow> val_us a > val_us b" and "time_less a b \<longleftrightarrow> val_us a < val_us b"
    using val_us_less assms by (auto simp: time_more_def time_less_def timercmp_def)
  show "0 < tdiff a b \<longleftrightarrow> time_more a b" unfolding more by (simp add: tdiff_val_us)
qed (use assms in \<open>auto simp: addtime_def subtime_def timeradd_def timersub_def Let_def val_norm_def val_us_def algebra_simps\<close>)

theorem timeval_arithmetic_witness:
  "val_us (subtime \<lparr>tv_sec = 5, tv_usec = 1\<rparr> \<lparr>tv_sec = 2, tv_usec = 2\<rparr>) = 2999999"
  using timeval_arithmetic [of "\<lparr>tv_sec = 5, tv_usec = 1\<rparr>" "\<lparr>tv_sec = 2, tv_usec = 2\<rparr>"]
  by (simp add: val_norm_def) (simp add: val_us_def)

end
