(* ===== verification/NonceDup.thy ===== *)
theory NonceDup
  imports Klist Timeval
begin

text \<open>
  Duplicate nonces (noncedup.c): the nonces seen lately, in a store of items
  taken from a free list.  The loops follow the pointers of the items, so
  they may run forever on a heap that is no list: they are partial, and the
  theorems show that they return.
\<close>

section \<open>State\<close>

record nitem =
  work_id :: u32
  nonce :: u32
  when_seen :: timeval

record dupdata =
  timelimit :: int
  nfree_list :: k_list
  nonce_list :: k_list
  checked :: u64
  dups :: u64

definition nitem_zero :: nitem where
  "nitem_zero = \<lparr>work_id = 0, nonce = 0, when_seen = \<lparr>tv_sec = 0, tv_usec = 0\<rparr>\<rparr>"

section \<open>Operations\<close>

text \<open>\<open>name\<close> is the address of the literal ''Nonces''.\<close>

definition dupalloc :: "k_name \<Rightarrow> nitem k_mem \<Rightarrow> int \<Rightarrow> k_err + (nitem k_mem \<times> dupdata)" where
  "dupalloc name m limit =
     bindR (k_new_list nitem_zero m name 1024 0 True) (\<lambda>(m, nfree).
     Inr (m, \<lparr>timelimit = limit, nfree_list = nfree, nonce_list = k_new_store nfree,
              checked = 0, dups = 0\<rparr>))"

definition dupcounters :: "dupdata option \<Rightarrow> u64 \<times> u64" where
  "dupcounters dup = (case dup of None \<Rightarrow> (0, 0) | Some d \<Rightarrow> (checked d, dups d))"

text \<open>The search from the tail: \<open>True\<close> when a duplicate is found.\<close>

partial_function (option) dup_search ::
  "nitem k_mem \<Rightarrow> u32 \<times> u32 \<Rightarrow> int option \<Rightarrow> (k_err + bool) option" where
  "dup_search m key item =
     (case item of None \<Rightarrow> Some (Inr False)
      | Some p \<Rightarrow> (case k_items m p of None \<Rightarrow> Some (Inl KFault)
          | Some it \<Rightarrow> if (work_id (i_data it), nonce (i_data it)) = key then Some (Inr True)
                     else dup_search m key (i_prev it)))"

text \<open>A new nonce goes to the head of the store.\<close>

definition dup_record :: "u32 \<Rightarrow> u32 \<Rightarrow> timeval \<Rightarrow> nitem k_mem \<Rightarrow> dupdata \<Rightarrow> k_err + (nitem k_mem \<times> dupdata)" where
  "dup_record wid n now m dup =
     bindR (k_unlink_head nitem_zero m (nfree_list dup)) (\<lambda>(item, m, nfree).
     case item of None \<Rightarrow> Inl KFault
     | Some p \<Rightarrow>
       bindR (k_upd m p (\<lambda>x. x\<lparr>i_data := \<lparr>work_id = wid, nonce = n, when_seen = now\<rparr>\<rparr>)) (\<lambda>m.
       bindR (k_add_head m (nonce_list dup) p) (\<lambda>(m, store).
       Inr (m, dup\<lparr>nfree_list := nfree, nonce_list := store\<rparr>))))"

text \<open>Old nonces go back from the tail to the free list.\<close>

definition dup_release :: "nitem k_mem \<Rightarrow> dupdata \<Rightarrow> k_err + (nitem k_mem \<times> dupdata)" where
  "dup_release m dup =
     bindR (k_unlink_tail m (nonce_list dup)) (\<lambda>(item, m, store).
     case item of None \<Rightarrow> Inl KFault
     | Some p \<Rightarrow>
       bindR (k_add_head m (nfree_list dup) p) (\<lambda>(m, nfree).
       Inr (m, dup\<lparr>nfree_list := nfree, nonce_list := store\<rparr>)))"

definition dup_old :: "dupdata \<Rightarrow> timeval \<Rightarrow> nitem \<Rightarrow> bool" where
  "dup_old dup now e \<longleftrightarrow> tdiff (when_seen e) now > timelimit dup * 1000000"

partial_function (option) dup_expire ::
  "timeval \<Rightarrow> nitem k_mem \<Rightarrow> dupdata \<Rightarrow> (k_err + (nitem k_mem \<times> dupdata)) option" where
  "dup_expire now m dup =
     (case l_tail (nonce_list dup) of None \<Rightarrow> Some (Inr (m, dup))
      | Some p \<Rightarrow> (case k_items m p of None \<Rightarrow> Some (Inl KFault)
          | Some it \<Rightarrow> if dup_old dup now (i_data it)
                     then (case dup_release m dup of Inl e \<Rightarrow> Some (Inl e) | Inr (m, dup) \<Rightarrow> dup_expire now m dup)
                     else Some (Inr (m, dup))))"

definition isdupnonce :: "timeval \<Rightarrow> u32 \<Rightarrow> u32 \<Rightarrow> nitem k_mem \<Rightarrow> dupdata \<Rightarrow>
    (k_err + (bool \<times> nitem k_mem \<times> dupdata)) option" where
  "isdupnonce now wid n m dup =
     (let dup = dup\<lparr>checked := checked dup + 1\<rparr> in
      case dup_search m (wid, n) (l_tail (nonce_list dup)) of None \<Rightarrow> None
      | Some (Inl e) \<Rightarrow> Some (Inl e)
      | Some (Inr found) \<Rightarrow>
        (case (if found then Inr (m, dup) else dup_record wid n now m dup) of Inl e \<Rightarrow> Some (Inl e)
         | Inr (m, dup) \<Rightarrow>
           (case dup_expire now m dup of None \<Rightarrow> None
            | Some (Inl e) \<Rightarrow> Some (Inl e)
            | Some (Inr (m, dup)) \<Rightarrow>
                Some (Inr (found, m, if found then dup\<lparr>dups := dups dup + 1\<rparr> else dup)))))"

text \<open>Without \<open>dupalloc\<close> nothing is a duplicate.\<close>

definition isdupnonce_opt :: "timeval \<Rightarrow> u32 \<Rightarrow> u32 \<Rightarrow> nitem k_mem \<Rightarrow> dupdata option \<Rightarrow>
    (k_err + (bool \<times> nitem k_mem \<times> dupdata option)) option" where
  "isdupnonce_opt now wid n m dup =
     (case dup of None \<Rightarrow> Some (Inr (False, m, None))
      | Some d \<Rightarrow> map_option (\<lambda>r. bindR r (\<lambda>(b, m, d). Inr (b, m, Some d))) (isdupnonce now wid n m d))"

section \<open>What the lists hold\<close>

definition dup_rep :: "nitem k_mem \<Rightarrow> dupdata \<Rightarrow> int list \<Rightarrow> nitem list \<Rightarrow> bool" where
  "dup_rep m dup xs es \<longleftrightarrow>
     mem_ok m \<and> klist_rep m (nonce_list dup) xs \<and> map (\<lambda>x. map_option i_data (k_items m x)) xs = map Some es \<and>
     do_tail (nonce_list dup) \<and> do_tail (nfree_list dup) \<and> l_name (nonce_list dup) = l_name (nfree_list dup) \<and>
     \<not> is_store (nfree_list dup) \<and> 1 \<le> l_allocate (nfree_list dup) \<and> l_limit (nfree_list dup) = 0 \<and>
     (\<exists>ys. klist_rep m (nfree_list dup) ys \<and> set xs \<inter> set ys = {})"

definition dup_inv :: "nitem k_mem \<Rightarrow> dupdata \<Rightarrow> nitem list \<Rightarrow> bool" where
  "dup_inv m dup es \<longleftrightarrow> (\<exists>xs. dup_rep m dup xs es)"

text \<open>The same on a list of entries, newest first.\<close>

definition a_found :: "u32 \<Rightarrow> u32 \<Rightarrow> nitem list \<Rightarrow> bool" where
  "a_found wid n es \<longleftrightarrow> (\<exists>e \<in> set es. work_id e = wid \<and> nonce e = n)"

definition a_expire :: "int \<Rightarrow> timeval \<Rightarrow> nitem list \<Rightarrow> nitem list" where
  "a_expire limit now es = rev (dropWhile (\<lambda>e. tdiff (when_seen e) now > limit * 1000000) (rev es))"

definition a_isdup :: "int \<Rightarrow> timeval \<Rightarrow> u32 \<Rightarrow> u32 \<Rightarrow> nitem list \<Rightarrow> bool \<times> nitem list" where
  "a_isdup limit now wid n es =
     (let found = a_found wid n es
      in (found, a_expire limit now
           (if found then es else \<lparr>work_id = wid, nonce = n, when_seen = now\<rparr> # es)))"

lemma dup_search_rep:
  assumes "dseg (k_items m) None nx xs" and "map (\<lambda>x. map_option i_data (k_items m x)) xs = map Some es"
  shows "dup_search m (wid, n) (lasto None xs) = Some (Inr (a_found wid n es))"
  using assms
proof (induction xs arbitrary: nx es rule: rev_induct)
  case Nil
  then show ?case by (subst dup_search.simps) (simp add: a_found_def)
next
  case (snoc x xs)
  then obtain es' e it where es: "es = es' @ [e]" "k_items m x = Some it" "i_data it = e" "i_prev it = lasto None xs"
      "dseg (k_items m) None (Some x) xs" "map (\<lambda>x. map_option i_data (k_items m x)) xs = map Some es'"
    by (cases es rule: rev_cases) auto
  show ?case
  proof (cases "work_id e = wid \<and> nonce e = n")
    case True
    with es show ?thesis by (subst dup_search.simps) (simp add: k_get_def a_found_def)
  next
    case False
    with es snoc.IH [OF es(5,6)] show ?thesis
      by (subst dup_search.simps) (auto simp add: k_get_def a_found_def)
  qed
qed

lemma klist_rep_member: "klist_rep m l xs \<Longrightarrow> x \<in> set xs \<Longrightarrow> \<exists>it. k_items m x = Some it"
  unfolding klist_rep_def by (blast intro: dseg_item)

lemma same_data_map:
  assumes "same_data m m'"
  shows "map (\<lambda>x. map_option i_data (k_items m' x)) xs = map (\<lambda>x. map_option i_data (k_items m x)) xs"
proof -
  have "map_option i_data (k_items m' x) = map_option i_data (k_items m x)" for x
  proof -
    have "map_option (\<lambda>it. (i_name it, i_data it)) (k_items m' x) = map_option (\<lambda>it. (i_name it, i_data it)) (k_items m x)"
      using assms by (simp add: same_data_def)
    from arg_cong [OF this, of "map_option snd"] show ?thesis by (simp add: option.map_comp comp_def)
  qed
  then show ?thesis by simp
qed

lemma klist_rep_extends:
  assumes rep: "klist_rep m l xs" and ext: "k_extends m m'"
  shows "klist_rep m' l xs" and "\<And>x. x \<in> set xs \<Longrightarrow> k_items m' x = k_items m x"
proof -
  show eq: "k_items m' x = k_items m x" if "x \<in> set xs" for x
    using klist_rep_member [OF rep that] ext by (auto simp: k_extends_def)
  then have "dseg (k_items m') None None xs" using rep by (auto simp: klist_rep_def intro: dseg_mono)
  then show "klist_rep m' l xs" using rep eq by (simp add: klist_rep_def)
qed

text \<open>An item for a new nonce comes from the free list, which allocates when it is empty.\<close>

lemma nfree_unlink:
  assumes ok: "mem_ok m" and rep: "klist_rep m l ys" and conf: "\<not> is_store l" "1 \<le> l_allocate l" "l_limit l = 0"
    and other: "klist_rep m l2 xs" "set xs \<inter> set ys = {}"
  shows "\<exists>p m' l' ys' it. k_unlink_head zero m l = Inr (Some p, m', l') \<and> mem_ok m' \<and> klist_rep m' l' ys' \<and>
    same_conf l l' \<and> klist_rep m' l2 xs \<and> set xs \<inter> set (p # ys') = {} \<and> p \<notin> set ys' \<and>
    (\<forall>x \<in> set xs. k_items m' x = k_items m x) \<and> k_items m' p = Some it \<and> i_name it = l_name l"
proof (cases ys)
  case (Cons y zs)
  obtain m' l' where u: "k_unlink_head zero m l = Inr (Some y, m', l')" "klist_rep m' l' zs"
      "k_frame m m' (set (y # zs))" "same_conf l l'"
    using k_unlink_head_rep [OF rep [unfolded Cons], of zero] Cons by auto
  obtain it where it: "k_items m y = Some it" "i_name it = l_name l" "y \<notin> set zs"
    using rep Cons by (auto simp: klist_rep_def)
  have "map_option (\<lambda>it. (i_name it, i_data it)) (k_items m' y) = Some (i_name it, i_data it)"
    using u(3) it(1) by (simp add: k_frame_def)
  then have "\<exists>it'. k_items m' y = Some it' \<and> i_name it' = l_name l" using it(2) by auto
  moreover have "klist_rep m' l2 xs" using klist_rep_other [OF other(1) u(3)] other(2) Cons by simp
  moreover have "mem_ok m'" by (rule mem_ok_frame [OF ok u(3)])
  moreover have "\<forall>x \<in> set xs. k_items m' x = k_items m x" using u(3) other(2) Cons by (auto simp: k_frame_def)
  moreover have "set xs \<inter> set (y # zs) = {}" using other(2) Cons by simp
  ultimately show ?thesis using u(1,2,4) it(3) by blast
next
  case Nil
  then have can: "can_alloc l" and empty: "l_head l = None"
    using conf rep by (auto simp: can_alloc_def klist_rep_def)
  obtain m' l' where a: "k_unlink_head zero m l = Inr (Some (k_brk m), m', l')"
      "klist_rep m' l' (addrs (k_brk m + 1) (nat (alloc_n l - 1)))" "mem_ok m'" "k_extends m m'" "same_conf l l'"
      "\<exists>it. k_items m' (k_brk m) = Some it \<and> i_name it = l_name l \<and> i_data it = zero"
    using k_unlink_head_alloc [OF ok can empty, of zero] by blast
  have "x < k_brk m" if x: "x \<in> set xs" for x
  proof -
    obtain it where "k_items m x = Some it"
      using klist_rep_member [OF other(1) x] by blast
    then show ?thesis using ok by (force simp: mem_ok_def)
  qed
  then have "set xs \<inter> set (k_brk m # addrs (k_brk m + 1) (nat (alloc_n l - 1))) = {}"
    by (force simp: set_addrs)
  moreover have "k_brk m \<notin> set (addrs (k_brk m + 1) (nat (alloc_n l - 1)))" by (simp add: set_addrs)
  ultimately show ?thesis
    using a klist_rep_extends [OF other(1) a(4)] by blast
qed

lemma dup_record_rep:
  assumes rep: "dup_rep m dup xs es"
  shows "\<exists>p m' dup'. dup_record wid n now m dup = Inr (m', dup') \<and>
    dup_rep m' dup' (p # xs) (\<lparr>work_id = wid, nonce = n, when_seen = now\<rparr> # es) \<and>
    timelimit dup' = timelimit dup \<and> checked dup' = checked dup \<and> dups dup' = dups dup"
proof -
  let ?e = "\<lparr>work_id = wid, nonce = n, when_seen = now\<rparr>"
  obtain ys where ys: "klist_rep m (nfree_list dup) ys" "set xs \<inter> set ys = {}"
    using rep by (auto simp: dup_rep_def)
  have ok: "mem_ok m" "klist_rep m (nonce_list dup) xs"
    and conf: "\<not> is_store (nfree_list dup)" "1 \<le> l_allocate (nfree_list dup)" "l_limit (nfree_list dup) = 0"
    using rep by (auto simp: dup_rep_def)
  obtain p m1 l1 ys1 it where u: "k_unlink_head nitem_zero m (nfree_list dup) = Inr (Some p, m1, l1)" "mem_ok m1"
      "klist_rep m1 l1 ys1" "same_conf (nfree_list dup) l1" "klist_rep m1 (nonce_list dup) xs"
      "set xs \<inter> set (p # ys1) = {}" "p \<notin> set ys1" "\<forall>x \<in> set xs. k_items m1 x = k_items m x"
      "k_items m1 p = Some it" "i_name it = l_name (nfree_list dup)"
    using nfree_unlink [OF ok(1) ys(1) conf ok(2) ys(2), of nitem_zero] by blast
  define m2 where "m2 = m1\<lparr>k_items := (k_items m1)(p \<mapsto> it\<lparr>i_data := ?e\<rparr>)\<rparr>"
  have out: "p \<notin> set xs" "p \<notin> set ys1" using u(6,7) by auto
  have r2: "klist_rep m2 l1 ys1" "klist_rep m2 (nonce_list dup) xs" "mem_ok m2"
    using u out by (auto simp: klist_rep_def m2_def mem_ok_def)
  have p2: "k_items m2 p = Some (it\<lparr>i_data := ?e\<rparr>)" "i_name (it\<lparr>i_data := ?e\<rparr>) = l_name (nonce_list dup)"
    using u(10) rep by (simp_all add: m2_def dup_rep_def)
  obtain m3 l3 where a: "k_add_head m2 (nonce_list dup) p = Inr (m3, l3)" "klist_rep m3 l3 (p # xs)"
      "k_frame m2 m3 (set (p # xs))" "same_conf (nonce_list dup) l3"
    using k_add_head_rep [OF r2(2) p2 out(1)] by blast
  have step: "dup_record wid n now m dup = Inr (m3, dup\<lparr>nfree_list := l1, nonce_list := l3\<rparr>)"
    using u(1,9) a(1) by (simp add: dup_record_def k_upd_def k_get_def m2_def)
  have data: "map (\<lambda>x. map_option i_data (k_items m3 x)) (p # xs) = map Some (?e # es)"
  proof -
    have "map (\<lambda>x. map_option i_data (k_items m2 x)) xs = map (\<lambda>x. map_option i_data (k_items m x)) xs"
      using out u(8) by (auto simp: m2_def)
    then have "map (\<lambda>x. map_option i_data (k_items m2 x)) xs = map Some es"
      using rep by (simp only: dup_rep_def)
    then have "map (\<lambda>x. map_option i_data (k_items m2 x)) (p # xs) = map Some (?e # es)"
      using p2(1) by simp
    then show ?thesis by (simp only: same_data_map [OF k_frame_same_data [OF a(3)]])
  qed
  have "klist_rep m3 l1 ys1" "set (p # xs) \<inter> set ys1 = {}"
    using klist_rep_other [OF r2(1) a(3)] u(6) out by auto
  then have "dup_rep m3 (dup\<lparr>nfree_list := l1, nonce_list := l3\<rparr>) (p # xs) (?e # es)"
    using data a(2,4) mem_ok_frame [OF r2(3) a(3)] rep u(4) unfolding dup_rep_def same_conf_def
    by (simp del: list.map, blast)
  with step show ?thesis by auto
qed

lemma dup_release_rep:
  assumes rep: "dup_rep m dup (xs @ [x]) es"
  shows "\<exists>m' dup'. dup_release m dup = Inr (m', dup') \<and> dup_rep m' dup' xs (butlast es) \<and>
    timelimit dup' = timelimit dup \<and> checked dup' = checked dup \<and> dups dup' = dups dup"
proof -
  obtain ys where ys: "klist_rep m (nfree_list dup) ys" "set (xs @ [x]) \<inter> set ys = {}"
    using rep by (auto simp: dup_rep_def)
  have r: "klist_rep m (nonce_list dup) (xs @ [x])" "do_tail (nonce_list dup)" "mem_ok m"
      "map (\<lambda>x. map_option i_data (k_items m x)) (xs @ [x]) = map Some es"
    using rep by (auto simp: dup_rep_def)
  obtain m1 l1 where u: "k_unlink_tail m (nonce_list dup) = Inr (Some x, m1, l1)" "klist_rep m1 l1 xs"
      "k_frame m m1 (set (xs @ [x]))" "same_conf (nonce_list dup) l1"
    using k_unlink_tail_rep [OF r(1,2)] by blast
  have y1: "klist_rep m1 (nfree_list dup) ys" using klist_rep_other [OF ys(1) u(3)] ys(2) by auto
  obtain it where it: "k_items m x = Some it" "i_name it = l_name (nfree_list dup)" "x \<notin> set xs"
    using rep by (auto simp: dup_rep_def klist_rep_def)
  have "map_option (\<lambda>it. (i_name it, i_data it)) (k_items m1 x) = Some (i_name it, i_data it)"
    using u(3) it(1) by (simp add: k_frame_def)
  then obtain it1 where it1: "k_items m1 x = Some it1" "i_name it1 = l_name (nfree_list dup)" using it(2) by auto
  have xy: "x \<notin> set ys" using ys(2) by auto
  obtain m2 l2 where a: "k_add_head m1 (nfree_list dup) x = Inr (m2, l2)" "klist_rep m2 l2 (x # ys)"
      "k_frame m1 m2 (set (x # ys))" "same_conf (nfree_list dup) l2"
    using k_add_head_rep [OF y1 it1 xy] by blast
  have "set xs \<inter> set (x # ys) = {}" using ys(2) it(3) by auto
  then have x2: "klist_rep m2 l1 xs" "set xs \<inter> set (x # ys) = {}" using klist_rep_other [OF u(2) a(3)] by auto
  have data: "map (\<lambda>x. map_option i_data (k_items m2 x)) xs = map Some (butlast es)"
  proof -
    have "map (\<lambda>x. map_option i_data (k_items m x)) xs = map Some (butlast es)"
      using arg_cong [OF r(4), of butlast] by (simp add: map_butlast)
    then show ?thesis
      by (simp only: same_data_map [OF k_frame_same_data [OF a(3)]] same_data_map [OF k_frame_same_data [OF u(3)]])
  qed
  have "dup_rep m2 (dup\<lparr>nfree_list := l2, nonce_list := l1\<rparr>) xs (butlast es)"
    using rep a(2,4) u(4) x2 data mem_ok_frame [OF mem_ok_frame [OF r(3) u(3)] a(3)]
    unfolding dup_rep_def same_conf_def by (simp, blast)
  moreover have "dup_release m dup = Inr (m2, dup\<lparr>nfree_list := l2, nonce_list := l1\<rparr>)"
    using u(1) a(1) by (simp add: dup_release_def)
  ultimately show ?thesis by auto
qed

lemma a_expire_snoc:
  "a_expire limit now [] = []"
  "a_expire limit now (es @ [e]) =
     (if tdiff (when_seen e) now > limit * 1000000 then a_expire limit now es else es @ [e])"
  by (simp_all add: a_expire_def)

lemma dup_expire_rep:
  assumes "dup_rep m dup xs es"
  shows "\<exists>xs' m' dup'. dup_expire now m dup = Some (Inr (m', dup')) \<and>
    dup_rep m' dup' xs' (a_expire (timelimit dup) now es) \<and>
    timelimit dup' = timelimit dup \<and> checked dup' = checked dup \<and> dups dup' = dups dup"
  using assms
proof (induction xs arbitrary: m dup es rule: rev_induct)
  case Nil
  then have "es = []" "l_tail (nonce_list dup) = None" by (auto simp: dup_rep_def klist_rep_def)
  with Nil show ?case by (subst dup_expire.simps) (auto simp: a_expire_snoc)
next
  case (snoc x xs)
  then have "map (\<lambda>x. map_option i_data (k_items m x)) (xs @ [x]) = map Some es"
      "l_tail (nonce_list dup) = Some x"
    by (auto simp: dup_rep_def klist_rep_def)
  then obtain es' e it where es: "es = es' @ [e]" "k_items m x = Some it" "i_data it = e"
    by (cases es rule: rev_cases) auto
  show ?case
  proof (cases "dup_old dup now e")
    case False
    with es snoc.prems \<open>l_tail _ = _\<close> show ?thesis
      by (subst dup_expire.simps) (auto simp: dup_old_def a_expire_snoc)
  next
    case True
    obtain m1 dup1 where r: "dup_release m dup = Inr (m1, dup1)" "dup_rep m1 dup1 xs es'"
        "timelimit dup1 = timelimit dup" "checked dup1 = checked dup" "dups dup1 = dups dup"
      using dup_release_rep [OF snoc.prems] es(1) by auto
    from snoc.IH [OF r(2)] r(3-5) True es r(1) \<open>l_tail _ = _\<close> show ?thesis
      by (subst dup_expire.simps) (auto simp: dup_old_def a_expire_snoc)
  qed
qed

lemma dup_search_inv:
  assumes "dup_rep m dup xs es"
  shows "dup_search m (wid, n) (l_tail (nonce_list dup)) = Some (Inr (a_found wid n es))"
  using dup_search_rep [of m None xs es wid n] assms by (auto simp: dup_rep_def klist_rep_def)

text \<open>Counters are no part of what the lists hold.\<close>

lemma dup_rep_counters [simp]:
  "dup_rep m (dup\<lparr>checked := c\<rparr>) xs es = dup_rep m dup xs es"
  "dup_rep m (dup\<lparr>dups := c\<rparr>) xs es = dup_rep m dup xs es"
  by (simp_all add: dup_rep_def)

lemma isdupnonce_rep:
  assumes inv: "dup_inv m dup es"
  shows "\<exists>m' dup'. isdupnonce now wid n m dup = Some (Inr (a_found wid n es, m', dup')) \<and>
    dup_inv m' dup' (snd (a_isdup (timelimit dup) now wid n es)) \<and> timelimit dup' = timelimit dup \<and>
    checked dup' = checked dup + 1 \<and> dups dup' = dups dup + (if a_found wid n es then 1 else 0)"
proof -
  let ?d = "dup\<lparr>checked := checked dup + 1\<rparr>"
  obtain xs where rep: "dup_rep m ?d xs es" using inv by (auto simp: dup_inv_def)
  note search = dup_search_inv [OF rep, of wid n]
  show ?thesis
  proof (cases "a_found wid n es")
    case True
    obtain xs' m' d' where "dup_expire now m ?d = Some (Inr (m', d'))" "dup_rep m' d' xs' (a_expire (timelimit dup) now es)"
        "timelimit d' = timelimit dup" "checked d' = checked dup + 1" "dups d' = dups dup"
      using dup_expire_rep [OF rep, of now] by auto
    with True search show ?thesis by (auto simp: isdupnonce_def a_isdup_def dup_inv_def Let_def)
  next
    case False
    obtain p m1 d1 where r: "dup_record wid n now m ?d = Inr (m1, d1)"
        "dup_rep m1 d1 (p # xs) (\<lparr>work_id = wid, nonce = n, when_seen = now\<rparr> # es)"
        "timelimit d1 = timelimit dup" "checked d1 = checked dup + 1" "dups d1 = dups dup"
      using dup_record_rep [OF rep, of wid n now] by auto
    obtain xs' m' d' where "dup_expire now m1 d1 = Some (Inr (m', d'))"
        "dup_rep m' d' xs' (a_expire (timelimit dup) now (\<lparr>work_id = wid, nonce = n, when_seen = now\<rparr> # es))"
        "timelimit d' = timelimit dup" "checked d' = checked dup + 1" "dups d' = dups dup"
      using dup_expire_rep [OF r(2), of now] r(3-5) by auto
    with False search r(1) show ?thesis by (auto simp: isdupnonce_def a_isdup_def dup_inv_def Let_def)
  qed
qed

lemma dupalloc_rep:
  assumes ok: "mem_ok m"
  shows "\<exists>m' dup. dupalloc name m limit = Inr (m', dup) \<and> dup_inv m' dup [] \<and> timelimit dup = limit \<and>
    checked dup = 0 \<and> dups dup = 0"
proof -
  let ?l = "\<lparr>l_name = name, is_store = False, l_head = None, l_tail = None, l_total = 0, l_count = 0,
              l_count_up = 0, l_allocate = 1024, l_limit = 0, do_tail = True,
              item_memory = [], data_mem_count = 0\<rparr>"
  have "can_alloc ?l" "2 \<le> alloc_n ?l" by (simp_all add: can_alloc_def alloc_n_def)
  then obtain m' l' where a: "k_alloc_items nitem_zero m ?l = Inr (m', l')"
      "klist_rep m' l' (addrs (k_brk m) (nat (alloc_n ?l)))" "mem_ok m'" "same_conf ?l l'"
    using k_alloc_items_rep [OF ok, of ?l nitem_zero] by blast
  have "klist_rep m' (k_new_store l') []" by (simp add: klist_rep_def k_new_store_def)
  with a have "dup_rep m' \<lparr>timelimit = limit, nfree_list = l', nonce_list = k_new_store l', checked = 0, dups = 0\<rparr> [] []"
    by (auto simp: dup_rep_def same_conf_def k_new_store_def)
  with a(1) show ?thesis by (auto simp: dupalloc_def k_new_list_def dup_inv_def)
qed

section \<open>A session\<close>

fun dup_run :: "(timeval \<times> u32 \<times> u32) list \<Rightarrow> nitem k_mem \<Rightarrow> dupdata \<Rightarrow> (k_err + (bool list \<times> nitem k_mem \<times> dupdata)) option" where
  "dup_run [] m dup = Some (Inr ([], m, dup))"
| "dup_run ((now, wid, n) # qs) m dup =
     (case isdupnonce now wid n m dup of None \<Rightarrow> None
      | Some (Inl e) \<Rightarrow> Some (Inl e)
      | Some (Inr (b, m, dup)) \<Rightarrow> map_option (\<lambda>r. bindR r (\<lambda>(bs, m, dup). Inr (b # bs, m, dup))) (dup_run qs m dup))"

text \<open>The intent: a pair is a duplicate when it came before.\<close>

fun seen_before :: "(u32 \<times> u32) set \<Rightarrow> (timeval \<times> u32 \<times> u32) list \<Rightarrow> bool list" where
  "seen_before S [] = []"
| "seen_before S ((now, wid, n) # qs) = ((wid, n) \<in> S) # seen_before (insert (wid, n) S) qs"

definition dup_keys :: "nitem list \<Rightarrow> (u32 \<times> u32) set" where
  "dup_keys es = (\<lambda>e. (work_id e, nonce e)) ` set es"

lemma a_found_keys: "a_found wid n es \<longleftrightarrow> (wid, n) \<in> dup_keys es"
  by (auto simp: a_found_def dup_keys_def)

lemma a_expire_none:
  assumes "0 \<le> limit" and "\<forall>e \<in> set es. val_us (when_seen e) \<le> val_us now"
  shows "a_expire limit now es = es"
proof -
  have "\<not> tdiff (when_seen e) now > limit * 1000000" if "e \<in> set (rev es)" for e
    using assms that by (simp add: tdiff_val_us) (smt (verit))
  then have "dropWhile (\<lambda>e. tdiff (when_seen e) now > limit * 1000000) (rev es) = rev es"
    by (cases "rev es") auto
  then show ?thesis by (simp add: a_expire_def)
qed

lemma dup_run_rep:
  assumes "dup_inv m dup es" and "0 \<le> timelimit dup"
    and "sorted (map (val_us \<circ> fst) qs)" and "\<forall>e \<in> set es. \<forall>q \<in> set qs. val_us (when_seen e) \<le> val_us (fst q)"
  shows "\<exists>m' dup' es'. dup_run qs m dup = Some (Inr (seen_before (dup_keys es) qs, m', dup')) \<and>
    dup_inv m' dup' es' \<and> dup_keys es' = dup_keys es \<union> snd ` set qs"
  using assms
proof (induction qs arbitrary: m dup es)
  case Nil
  then show ?case by auto
next
  case (Cons q qs)
  obtain now wid n where q: "q = (now, wid, n)" by (cases q) auto
  let ?es = "if a_found wid n es then es else \<lparr>work_id = wid, nonce = n, when_seen = now\<rparr> # es"
  obtain m1 d1 where r: "isdupnonce now wid n m dup = Some (Inr (a_found wid n es, m1, d1))"
      "dup_inv m1 d1 (snd (a_isdup (timelimit dup) now wid n es))" "timelimit d1 = timelimit dup"
    using isdupnonce_rep [OF Cons.prems(1), of now wid n] by blast
  have "a_expire (timelimit dup) now ?es = ?es"
    by (rule a_expire_none) (use Cons.prems q in auto)
  then have inv1: "dup_inv m1 d1 ?es" using r(2) by (simp add: a_isdup_def Let_def)
  have keys: "dup_keys ?es = insert (wid, n) (dup_keys es)"
    using a_found_keys by (auto simp: dup_keys_def)
  have "\<forall>e \<in> set ?es. \<forall>q \<in> set qs. val_us (when_seen e) \<le> val_us (fst q)"
    using Cons.prems(3,4) q by auto
  from Cons.IH [OF inv1 _ _ this] Cons.prems(2,3) r(3) obtain m' d' es' where
    "dup_run qs m1 d1 = Some (Inr (seen_before (dup_keys ?es) qs, m', d'))" "dup_inv m' d' es'"
    "dup_keys es' = dup_keys ?es \<union> snd ` set qs"
    by auto
  with r(1) q keys show ?case by (auto simp: a_found_keys)
qed

section \<open>Properties\<close>

text \<open>C24: one check returns, whatever the list holds: it reports exactly whether the work and
  nonce are listed, lists them at the head when not, drops from the tail the entries for which
  the code's time test holds, and counts the check and the duplicate.\<close>

theorem isdupnonce_refines:
  assumes "dup_inv m dup es"
  shows "\<exists>m' dup'. isdupnonce now wid n m dup = Some (Inr (fst (a_isdup (timelimit dup) now wid n es), m', dup')) \<and>
    dup_inv m' dup' (snd (a_isdup (timelimit dup) now wid n es)) \<and> timelimit dup' = timelimit dup \<and>
    checked dup' = checked dup + 1 \<and> dups dup' = dups dup + (if a_found wid n es then 1 else 0)"
  using isdupnonce_rep [OF assms, of now wid n] by (simp add: a_isdup_def Let_def)

definition wit_dup_mem :: "nitem k_mem" where
  "wit_dup_mem = \<lparr>k_items = Map.empty, k_brk = 0\<rparr>"

lemma wit_dup_mem_ok: "mem_ok wit_dup_mem"
  by (simp add: wit_dup_mem_def mem_ok_def)

theorem isdupnonce_refines_witness:
  "\<exists>m dup m' dup'. dupalloc 7 wit_dup_mem 10 = Inr (m, dup) \<and>
     isdupnonce \<lparr>tv_sec = 1, tv_usec = 0\<rparr> 3 4 m dup = Some (Inr (False, m', dup')) \<and>
     dup_inv m' dup' [\<lparr>work_id = 3, nonce = 4, when_seen = \<lparr>tv_sec = 1, tv_usec = 0\<rparr>\<rparr>]"
proof -
  obtain m dup where d: "dupalloc 7 wit_dup_mem 10 = Inr (m, dup)" "dup_inv m dup []" "timelimit dup = 10"
    using dupalloc_rep [OF wit_dup_mem_ok, of 7 10] by blast
  have "a_isdup 10 \<lparr>tv_sec = 1, tv_usec = 0\<rparr> 3 4 [] =
      (False, [\<lparr>work_id = 3, nonce = 4, when_seen = \<lparr>tv_sec = 1, tv_usec = 0\<rparr>\<rparr>])"
    by (simp add: a_isdup_def a_found_def a_expire_def tdiff_def)
  with isdupnonce_refines [OF d(2), of "\<lparr>tv_sec = 1, tv_usec = 0\<rparr>" 3 4] d(1,3) show ?thesis by auto
qed

text \<open>C21: with a clock that does not go back, a session from dupalloc on reports a nonce as
  duplicate exactly when the same work and nonce came before, and the list then
  holds every pair of the session: no limit of zero or more ever expires an entry, because the
  time test subtracts the present from the entry's time.\<close>

theorem dup_session:
  assumes "mem_ok m" and "0 \<le> limit" and "sorted (map (val_us \<circ> fst) qs)"
  shows "\<exists>m1 dup m' dup' es. dupalloc name m limit = Inr (m1, dup) \<and>
    dup_run qs m1 dup = Some (Inr (seen_before {} qs, m', dup')) \<and>
    dup_inv m' dup' es \<and> dup_keys es = snd ` set qs"
proof -
  obtain m1 dup where d: "dupalloc name m limit = Inr (m1, dup)" "dup_inv m1 dup []" "timelimit dup = limit"
    using dupalloc_rep [OF assms(1), of name limit] by blast
  have "dup_keys [] = {}" by (simp add: dup_keys_def)
  with dup_run_rep [OF d(2) _ assms(3)] d(1,3) assms(2) show ?thesis by auto
qed

theorem dup_session_witness:
  "\<exists>m1 dup m' dup'. dupalloc 7 wit_dup_mem 10 = Inr (m1, dup) \<and>
    dup_run [(\<lparr>tv_sec = 1, tv_usec = 0\<rparr>, 3, 4), (\<lparr>tv_sec = 900, tv_usec = 0\<rparr>, 3, 5), (\<lparr>tv_sec = 900, tv_usec = 1\<rparr>, 3, 4)] m1 dup =
      Some (Inr ([False, False, True], m', dup'))"
proof -
  let ?qs = "[(\<lparr>tv_sec = 1, tv_usec = 0\<rparr>, 3, 4), (\<lparr>tv_sec = 900, tv_usec = 0\<rparr>, 3, 5), (\<lparr>tv_sec = 900, tv_usec = 1\<rparr>, 3, 4)]"
  have "sorted (map (val_us \<circ> fst) ?qs)" by (simp add: val_us_def)
  moreover have "seen_before {} ?qs = [False, False, True]" by simp
  ultimately show ?thesis using dup_session [OF wit_dup_mem_ok, of 10 ?qs 7] by auto
qed

end
