(* ===== verification/Sha256.thy ===== *)
theory Sha256
  imports Prelude
begin

text \<open>
  SHA-256 as sha2.c computes it: a context that is initialised, fed with
  any number of byte strings and finished.  The reference is the hash of
  FIPS 180 on a whole message: padding, message schedule and 64 rounds per block.
\<close>

section \<open>Functions of words\<close>

definition SHFR :: "u32 \<Rightarrow> nat \<Rightarrow> u32" where
  "SHFR x n = drop_bit n x"

definition ROTR :: "u32 \<Rightarrow> nat \<Rightarrow> u32" where
  "ROTR x n = drop_bit n x OR push_bit (32 - n) x"

definition CH :: "u32 \<Rightarrow> u32 \<Rightarrow> u32 \<Rightarrow> u32" where
  "CH x y z = (x AND y) XOR (NOT x AND z)"

definition MAJ :: "u32 \<Rightarrow> u32 \<Rightarrow> u32 \<Rightarrow> u32" where
  "MAJ x y z = (x AND y) XOR (x AND z) XOR (y AND z)"

definition SHA256_F1 :: "u32 \<Rightarrow> u32" where
  "SHA256_F1 x = ROTR x 2 XOR ROTR x 13 XOR ROTR x 22"

definition SHA256_F2 :: "u32 \<Rightarrow> u32" where
  "SHA256_F2 x = ROTR x 6 XOR ROTR x 11 XOR ROTR x 25"

definition SHA256_F3 :: "u32 \<Rightarrow> u32" where
  "SHA256_F3 x = ROTR x 7 XOR ROTR x 18 XOR SHFR x 3"

definition SHA256_F4 :: "u32 \<Rightarrow> u32" where
  "SHA256_F4 x = ROTR x 17 XOR ROTR x 19 XOR SHFR x 10"

definition UNPACK32 :: "u32 \<Rightarrow> u8 list" where
  "UNPACK32 x = be32_bytes x"

definition PACK32 :: "u8 list \<Rightarrow> u32" where
  "PACK32 str = be32 (str ! 0) (str ! 1) (str ! 2) (str ! 3)"

text \<open>The tables of the code, which writes them in hexadecimal.\<close>

definition sha256_h0 :: "u32 list" where
  "sha256_h0 = [1779033703, 3144134277, 1013904242, 2773480762, 1359893119, 2600822924, 528734635, 1541459225]"

definition sha256_k :: "u32 list" where
  "sha256_k =
    [1116352408, 1899447441, 3049323471, 3921009573, 961987163, 1508970993, 2453635748, 2870763221,
     3624381080, 310598401, 607225278, 1426881987, 1925078388, 2162078206, 2614888103, 3248222580,
     3835390401, 4022224774, 264347078, 604807628, 770255983, 1249150122, 1555081692, 1996064986,
     2554220882, 2821834349, 2952996808, 3210313671, 3336571891, 3584528711, 113926993, 338241895,
     666307205, 773529912, 1294757372, 1396182291, 1695183700, 1986661051, 2177026350, 2456956037,
     2730485921, 2820302411, 3259730800, 3345764771, 3516065817, 3600352804, 4094571909, 275423344,
     430227734, 506948616, 659060556, 883997877, 958139571, 1322822218, 1537002063, 1747873779,
     1955562222, 2024104815, 2227730452, 2361852424, 2428436474, 2756734187, 3204031479, 3329325298]"

text \<open>
  Where the constants come from: \<open>frac_root d p k\<close> says that \<open>k\<close> are the first 32
  bits of the fractional part of the \<open>d\<close>-th root of \<open>p\<close>, whose integer part is below 8.
\<close>

definition frac_root :: "nat \<Rightarrow> int \<Rightarrow> u32 \<Rightarrow> bool" where
  "frac_root d p k \<longleftrightarrow> (let a = int (length (filter (\<lambda>a. a ^ d \<le> p) [1, 2, 3, 4, 5, 6]));
     c = a * 2 ^ 32 + uint k in c ^ d \<le> p * 2 ^ (32 * d) \<and> p * 2 ^ (32 * d) < (c + 1) ^ d)"

definition first_primes :: "int list" where
  "first_primes =
    [2, 3, 5, 7, 11, 13, 17, 19, 23, 29, 31, 37, 41, 43, 47, 53,
     59, 61, 67, 71, 73, 79, 83, 89, 97, 101, 103, 107, 109, 113, 127, 131,
     137, 139, 149, 151, 157, 163, 167, 173, 179, 181, 191, 193, 197, 199, 211, 223,
     227, 229, 233, 239, 241, 251, 257, 263, 269, 271, 277, 281, 283, 293, 307, 311]"

section \<open>The transform\<close>

text \<open>The schedule: 16 words of the block, then 48 more, each from the ones before.\<close>

definition SHA256_SCR :: "u32 list \<Rightarrow> u32 list" where
  "SHA256_SCR w = (let i = length w in
     w @ [SHA256_F4 (w ! (i - 2)) + w ! (i - 7) + SHA256_F3 (w ! (i - 15)) + w ! (i - 16)])"

definition sha_schedule :: "u8 list \<Rightarrow> u32 list" where
  "sha_schedule blk = (SHA256_SCR ^^ 48) (map (\<lambda>j. PACK32 (drop (4 * j) blk)) [0..<16])"

text \<open>One round on the eight working variables.\<close>

definition sha_round :: "u32 list \<Rightarrow> nat \<Rightarrow> u32 list \<Rightarrow> u32 list" where
  "sha_round w j wv =
     (let t1 = wv ! 7 + SHA256_F2 (wv ! 4) + CH (wv ! 4) (wv ! 5) (wv ! 6) + sha256_k ! j + w ! j;
          t2 = SHA256_F1 (wv ! 0) + MAJ (wv ! 0) (wv ! 1) (wv ! 2)
      in [t1 + t2, wv ! 0, wv ! 1, wv ! 2, wv ! 3 + t1, wv ! 4, wv ! 5, wv ! 6])"

definition sha_block :: "u8 list \<Rightarrow> u32 list \<Rightarrow> u32 list" where
  "sha_block blk h = map2 (+) h (fold (sha_round (sha_schedule blk)) [0..<64] h)"

definition sha256_transf :: "u32 list \<Rightarrow> u8 list \<Rightarrow> nat \<Rightarrow> u32 list" where
  "sha256_transf h message block_nb = fold (\<lambda>i. sha_block (take 64 (drop (64 * i) message))) [0..<block_nb] h"

section \<open>The context\<close>

record sha256_ctx =
  tot_len :: u32
  ctx_len :: u32
  ctx_block :: "u8 list"
  ctx_h :: "u32 list"

text \<open>The context is on the stack: what its block holds before is whatever was there.\<close>

definition sha256_init :: "sha256_ctx \<Rightarrow> sha256_ctx" where
  "sha256_init ctx = ctx\<lparr>ctx_h := sha256_h0, ctx_len := 0, tot_len := 0\<rparr>"

definition sha256_update :: "sha256_ctx \<Rightarrow> u8 list \<Rightarrow> sha256_ctx" where
  "sha256_update ctx message =
     (let len = of_nat (length message) :: u32;
          tmp_len = 64 - ctx_len ctx;
          rem_len = (if len < tmp_len then len else tmp_len);
          blk = mem_write (unat (ctx_len ctx)) (take (unat rem_len) message) (ctx_block ctx)
      in if ctx_len ctx + len < 64 then ctx\<lparr>ctx_block := blk, ctx_len := ctx_len ctx + len\<rparr>
      else
        let new_len = len - rem_len; block_nb = new_len div 64;
            shifted_message = drop (unat rem_len) message;
            h1 = sha256_transf (ctx_h ctx) blk 1;
            h2 = sha256_transf h1 shifted_message (unat block_nb);
            rem_len2 = new_len mod 64;
            blk2 = mem_write 0 (take (unat rem_len2) (drop (unat (push_bit 6 block_nb)) shifted_message)) blk
        in ctx\<lparr>ctx_h := h2, ctx_block := blk2, ctx_len := rem_len2,
               tot_len := tot_len ctx + push_bit 6 (block_nb + 1)\<rparr>)"

definition sha256_final :: "sha256_ctx \<Rightarrow> u8 list" where
  "sha256_final ctx =
     (let block_nb = (if 64 - 9 < ctx_len ctx mod 64 then 2 else 1) :: u32;
          len_b = push_bit 3 (tot_len ctx + ctx_len ctx);
          pm_len = unat (push_bit 6 block_nb);
          len = unat (ctx_len ctx);
          b1 = mem_write len (replicate (pm_len - len) 0) (ctx_block ctx);
          b2 = b1[len := 0x80];
          b3 = mem_write (pm_len - 4) (UNPACK32 len_b) b2;
          h = sha256_transf (ctx_h ctx) b3 (unat block_nb)
      in concat (map UNPACK32 h))"

definition sha256 :: "sha256_ctx \<Rightarrow> u8 list \<Rightarrow> u8 list" where
  "sha256 stack message = sha256_final (sha256_update (sha256_init stack) message)"

section \<open>The reference\<close>

text \<open>FIPS 180: rotations, the schedule by its recurrence, and the eight variables by name.\<close>

definition fips_s0 :: "u32 \<Rightarrow> u32" where
  "fips_s0 x = word_rotr 7 x XOR word_rotr 18 x XOR drop_bit 3 x"

definition fips_s1 :: "u32 \<Rightarrow> u32" where
  "fips_s1 x = word_rotr 17 x XOR word_rotr 19 x XOR drop_bit 10 x"

definition fips_S0 :: "u32 \<Rightarrow> u32" where
  "fips_S0 x = word_rotr 2 x XOR word_rotr 13 x XOR word_rotr 22 x"

definition fips_S1 :: "u32 \<Rightarrow> u32" where
  "fips_S1 x = word_rotr 6 x XOR word_rotr 11 x XOR word_rotr 25 x"

fun fips_W :: "u8 list \<Rightarrow> nat \<Rightarrow> u32" where
  "fips_W M t =
     (if t < 16 then word_of_nat (be_val (take 4 (drop (4 * t) M)))
      else fips_s1 (fips_W M (t - 2)) + fips_W M (t - 7) + fips_s0 (fips_W M (t - 15)) + fips_W M (t - 16))"

declare fips_W.simps [simp del]

type_synonym fips_vars = "u32 \<times> u32 \<times> u32 \<times> u32 \<times> u32 \<times> u32 \<times> u32 \<times> u32"

fun fips_round :: "u8 list \<Rightarrow> nat \<Rightarrow> fips_vars \<Rightarrow> fips_vars" where
  "fips_round M t (a, b, c, d, e, f, g, h) =
     (let T1 = h + fips_S1 e + ((e AND f) XOR (NOT e AND g)) + sha256_k ! t + fips_W M t;
          T2 = fips_S0 a + ((a AND b) XOR (a AND c) XOR (b AND c))
      in (T1 + T2, a, b, c, d + T1, e, f, g))"

definition fips_rounds :: "u8 list \<Rightarrow> nat \<Rightarrow> fips_vars \<Rightarrow> fips_vars" where
  "fips_rounds M n v = fold (fips_round M) [0..<n] v"

fun fips_add :: "fips_vars \<Rightarrow> fips_vars \<Rightarrow> fips_vars" where
  "fips_add (a, b, c, d, e, f, g, h) (a', b', c', d', e', f', g', h') =
     (a + a', b + b', c + c', d + d', e + e', f + f', g + g', h + h')"

definition fips_compress :: "u8 list \<Rightarrow> fips_vars \<Rightarrow> fips_vars" where
  "fips_compress M v = fips_add v (fips_rounds M 64 v)"

text \<open>Big-endian bytes of a number.\<close>

fun be_nat_bytes :: "nat \<Rightarrow> nat \<Rightarrow> u8 list" where
  "be_nat_bytes 0 n = []"
| "be_nat_bytes (Suc k) n = be_nat_bytes k (n div 256) @ [word_of_nat n]"

definition fips_pad :: "u8 list \<Rightarrow> u8 list" where
  "fips_pad M = M @ [0x80] @ replicate ((119 - length M mod 64) mod 64) 0 @ be_nat_bytes 8 (8 * length M)"

fun fips_blocks :: "nat \<Rightarrow> u8 list \<Rightarrow> fips_vars \<Rightarrow> fips_vars" where
  "fips_blocks 0 M v = v"
| "fips_blocks (Suc n) M v = fips_blocks n (drop 64 M) (fips_compress (take 64 M) v)"

fun fips_bytes :: "fips_vars \<Rightarrow> u8 list" where
  "fips_bytes (a, b, c, d, e, f, g, h) =
     concat (map (\<lambda>x. be_nat_bytes 4 (unat x)) [a, b, c, d, e, f, g, h])"

definition fips_init :: fips_vars where
  "fips_init = (sha256_h0 ! 0, sha256_h0 ! 1, sha256_h0 ! 2, sha256_h0 ! 3,
     sha256_h0 ! 4, sha256_h0 ! 5, sha256_h0 ! 6, sha256_h0 ! 7)"

definition fips_sha256 :: "u8 list \<Rightarrow> u8 list" where
  "fips_sha256 M = fips_bytes (fips_blocks (length (fips_pad M) div 64) (fips_pad M) fips_init)"

section \<open>The transform against the reference\<close>

fun vars_of :: "fips_vars \<Rightarrow> u32 list" where
  "vars_of (a, b, c, d, e, f, g, h) = [a, b, c, d, e, f, g, h]"

lemma length_vars [simp]: "length (vars_of v) = 8"
  by (cases v rule: vars_of.cases) simp

lemma ROTR_rotr: "0 < n \<Longrightarrow> n < 32 \<Longrightarrow> ROTR x n = word_rotr n x"
proof (rule bit_word_eqI)
  fix k assume n: "0 < n" "n < 32" and k: "k < LENGTH(32)"
  then have "(k + n) mod 32 = (if k + n < 32 then k + n else k + n - 32)" by (auto simp: mod_if)
  moreover have "\<not> bit x (k + n)" if "\<not> k + n < 32" using that bit_imp_le_length [of x "k + n"] by auto
  ultimately show "bit (ROTR x n) k = bit (word_rotr n x) k"
    using n k by (auto simp: ROTR_def bit_simps ac_simps)
qed

lemmas sha_funs = SHA256_F1_def SHA256_F2_def SHA256_F3_def SHA256_F4_def SHFR_def CH_def MAJ_def
  fips_s0_def fips_s1_def fips_S0_def fips_S1_def ROTR_rotr

lemma length_SCR [simp]: "length ((SHA256_SCR ^^ n) w) = length w + n"
  by (induction n) (simp_all add: SHA256_SCR_def Let_def)

lemma SCR_nth: "t < length w \<Longrightarrow> SHA256_SCR w ! t = w ! t"
  by (simp add: SHA256_SCR_def Let_def nth_append)

lemma SCR_nth_last: "length w = t \<Longrightarrow> SHA256_SCR w ! t =
    SHA256_F4 (w ! (t - 2)) + w ! (t - 7) + SHA256_F3 (w ! (t - 15)) + w ! (t - 16)"
  by (simp add: SHA256_SCR_def Let_def nth_append)

lemma be32_word: "be32 a b c d = word_of_nat (be_val [a, b, c, d])"
proof -
  have "be_val [a, b, c, d] = unat (be32 a b c d)"
    using be_val_be32_bytes [of "be32 a b c d"] unfolding be32_inject_bytes .
  then show ?thesis by simp
qed

lemma PACK32_word: "4 \<le> length bs \<Longrightarrow> PACK32 bs = word_of_nat (be_val (take 4 bs))"
proof -
  assume "4 \<le> length bs"
  then obtain a b c d where "take 4 bs = [a, b, c, d]"
    using length_4_cases [of "take 4 bs"] by auto
  moreover from this have "bs ! 0 = a" "bs ! 1 = b" "bs ! 2 = c" "bs ! 3 = d"
    using nth_take [of 0 4 bs] nth_take [of 1 4 bs] nth_take [of 2 4 bs] nth_take [of 3 4 bs] by simp_all
  ultimately show ?thesis by (simp add: PACK32_def be32_word)
qed

lemma schedule_nth:
  assumes "length M = 64"
  shows "t < 16 + n \<Longrightarrow> (SHA256_SCR ^^ n) (map (\<lambda>j. PACK32 (drop (4 * j) M)) [0..<16]) ! t = fips_W M t"
proof (induction n arbitrary: t)
  case 0
  with assms show ?case by (simp add: fips_W.simps [of M t] PACK32_word)
next
  case (Suc n)
  let ?w = "(SHA256_SCR ^^ n) (map (\<lambda>j. PACK32 (drop (4 * j) M)) [0..<16])"
  show ?case
  proof (cases "t < 16 + n")
    case True
    with Suc show ?thesis by (simp add: SCR_nth)
  next
    case False
    with Suc.prems have t: "t = 16 + n" by simp
    have "(SHA256_SCR ^^ Suc n) (map (\<lambda>j. PACK32 (drop (4 * j) M)) [0..<16]) ! t =
        SHA256_F4 (?w ! (t - 2)) + ?w ! (t - 7) + SHA256_F3 (?w ! (t - 15)) + ?w ! (t - 16)"
      by (simp add: t SCR_nth_last)
    also have "\<dots> = fips_W M t"
      by (subst fips_W.simps) (simp add: t Suc.IH sha_funs)
    finally show ?thesis .
  qed
qed

lemma sha_schedule_nth: "length M = 64 \<Longrightarrow> t < 64 \<Longrightarrow> sha_schedule M ! t = fips_W M t"
  using schedule_nth [of M t 48] by (simp add: sha_schedule_def)

lemma sha_round_vars:
  assumes "length M = 64" and "t < 64"
  shows "sha_round (sha_schedule M) t (vars_of v) = vars_of (fips_round M t v)"
  by (cases v rule: vars_of.cases) (simp add: sha_round_def Let_def sha_funs sha_schedule_nth [OF assms] numeral_eq_Suc)

lemma sha_rounds_vars:
  assumes "length M = 64" and "n \<le> 64"
  shows "fold (sha_round (sha_schedule M)) [0..<n] (vars_of v) = vars_of (fips_rounds M n v)"
  using assms(2)
proof (induction n)
  case 0
  show ?case by (simp add: fips_rounds_def)
next
  case (Suc n)
  then show ?case by (simp add: fips_rounds_def sha_round_vars [OF assms(1)])
qed

lemma vars_of_add: "map2 (+) (vars_of v) (vars_of w) = vars_of (fips_add v w)"
  by (cases v rule: vars_of.cases; cases w rule: vars_of.cases) simp

lemma sha_block_vars: "length M = 64 \<Longrightarrow> sha_block M (vars_of v) = vars_of (fips_compress M v)"
  unfolding sha_block_def fips_compress_def by (simp add: sha_rounds_vars vars_of_add)

lemma transf_vars:
  "64 * n \<le> length M \<Longrightarrow> sha256_transf (vars_of v) M n = vars_of (fips_blocks n M v)"
proof (induction n arbitrary: M v)
  case 0
  show ?case by (simp add: sha256_transf_def)
next
  case (Suc n)
  have "[0..<Suc n] = 0 # map Suc [0..<n]" by (simp add: map_Suc_upt upt_conv_Cons)
  then have "sha256_transf (vars_of v) M (Suc n) =
      sha256_transf (sha_block (take 64 M) (vars_of v)) (drop 64 M) n"
    unfolding sha256_transf_def by (simp add: fold_map comp_def add.commute del: upt_Suc)
  with Suc show ?case by (simp add: sha_block_vars)
qed

lemma fips_blocks_add:
  "64 * m \<le> length M \<Longrightarrow> fips_blocks (m + n) M v = fips_blocks n (drop (64 * m) M) (fips_blocks m M v)"
proof (induction m arbitrary: M v)
  case (Suc m)
  then show ?case by (simp add: add.commute)
qed simp

lemma fips_blocks_prefix: "64 * n \<le> length M \<Longrightarrow> fips_blocks n (M @ N) v = fips_blocks n M v"
proof (induction n arbitrary: M v)
  case (Suc n)
  then have "64 * n \<le> length (drop 64 M)" "64 \<le> length M" by simp_all
  with Suc.IH [of "drop 64 M"] show ?case by simp
qed simp

section \<open>The context against the message so far\<close>

definition ctx_rep :: "sha256_ctx \<Rightarrow> u8 list \<Rightarrow> bool" where
  "ctx_rep ctx M \<longleftrightarrow>
     length (ctx_block ctx) = 128 \<and>
     ctx_h ctx = vars_of (fips_blocks (length M div 64) M fips_init) \<and>
     take (length M mod 64) (ctx_block ctx) = drop (64 * (length M div 64)) M \<and>
     unat (ctx_len ctx) = length M mod 64 \<and> unat (tot_len ctx) = 64 * (length M div 64)"

lemma ctx_rep_update:
  "ctx_rep (ctx\<lparr>ctx_h := h, ctx_block := b, ctx_len := l, tot_len := t\<rparr>) M \<longleftrightarrow>
     length b = 128 \<and> h = vars_of (fips_blocks (length M div 64) M fips_init) \<and>
     take (length M mod 64) b = drop (64 * (length M div 64)) M \<and>
     unat l = length M mod 64 \<and> unat t = 64 * (length M div 64)"
  by (simp add: ctx_rep_def)

lemma ctx_rep_init: "length (ctx_block ctx) = 128 \<Longrightarrow> ctx_rep (sha256_init ctx) []"
  by (simp add: ctx_rep_def sha256_init_def fips_init_def sha256_h0_def)

lemma unat32_of_nat: "n < 2 ^ 32 \<Longrightarrow> unat (word_of_nat n :: u32) = n"
  by (simp add: unsigned_of_nat take_bit_nat_eq_self)

lemma unat_of_length: "length M < 2 ^ 32 \<Longrightarrow> unat (word_of_nat (length M) :: u32) = length M"
  by (rule unat32_of_nat)

lemma unat_push_bit32:
  assumes "2 ^ k * unat (w :: u32) < 2 ^ 32"
  shows "unat (push_bit k w) = 2 ^ k * unat w"
proof -
  have "unat (push_bit k w) = take_bit 32 (push_bit k (unat w))" by (simp add: unsigned_push_bit_eq)
  also have "\<dots> = push_bit k (unat w)" using assms by (simp add: push_bit_eq_mult take_bit_nat_eq_self mult.commute)
  finally show ?thesis by (simp add: push_bit_eq_mult mult.commute)
qed

lemma block_add:
  fixes m n :: nat
  assumes "m mod 64 + n < 64"
  shows "(m + n) div 64 = m div 64" and "(m + n) mod 64 = m mod 64 + n"
proof -
  have "(m + n) mod 64 = (m mod 64 + n) mod 64" by (simp add: mod_add_left_eq)
  also have "\<dots> = m mod 64 + n" using assms by (rule mod_less)
  finally show "(m + n) mod 64 = m mod 64 + n" .
  with div_mult_mod_eq [of "m + n" 64] div_mult_mod_eq [of m 64] show "(m + n) div 64 = m div 64" by linarith
qed

lemma block_fill_aux: "(l :: nat) < 64 \<Longrightarrow> 64 \<le> l + n \<Longrightarrow> 64 * q + l + n = (n - (64 - l)) + 64 * (q + 1)"
  by simp

lemma block_rest: "64 * (m div 64) + 64 - m = 64 - m mod (64 :: nat)" "64 + 64 * (m div 64) - m = 64 - m mod (64 :: nat)"
proof -
  have "m = 64 * q + l \<Longrightarrow> l < 64 \<Longrightarrow> 64 * q + 64 - m = 64 - l" for q l :: nat by simp
  from this [of "m div 64" "m mod 64"] show "64 * (m div 64) + 64 - m = 64 - m mod 64" by simp
  then show "64 + 64 * (m div 64) - m = 64 - m mod (64 :: nat)" by (simp only: add.commute)
qed

lemma mem_write_start:
  assumes "length ys = k" and "k \<le> length mem"
  shows "length (mem_write 0 ys mem) = length mem" and "take k (mem_write 0 ys mem) = ys"
  using assms by (auto simp: mem_write_def)

lemma block_shift: "x = y + 64 * z \<Longrightarrow> x div 64 = z + y div 64 \<and> x mod 64 = y mod (64 :: nat)"
  by simp

lemma block_fill:
  fixes m n :: nat
  assumes "64 \<le> m mod 64 + n"
  shows "(m + n) div 64 = m div 64 + 1 + (n - (64 - m mod 64)) div 64"
    and "(m + n) mod 64 = (n - (64 - m mod 64)) mod 64"
proof -
  define q l where "q = m div 64" and "l = m mod 64"
  have "l < 64" "m = 64 * q + l" by (simp_all add: q_def l_def)
  with assms have "m + n = (n - (64 - m mod 64)) + 64 * (m div 64 + 1)"
    by (metis q_def l_def block_fill_aux)
  from block_shift [OF this] show "(m + n) div 64 = m div 64 + 1 + (n - (64 - m mod 64)) div 64"
      "(m + n) mod 64 = (n - (64 - m mod 64)) mod 64"
    by blast+
qed

lemma sha256_update_small:
  assumes rep: "ctx_rep ctx M" and small: "length M mod 64 + length N < 64"
  shows "ctx_rep (sha256_update ctx N) (M @ N)"
proof -
  let ?l = "length M mod 64" and ?q = "length M div 64"
  have l: "unat (ctx_len ctx) = ?l" and blk: "length (ctx_block ctx) = 128"
    and tk: "take ?l (ctx_block ctx) = drop (64 * ?q) M"
    using rep by (auto simp: ctx_rep_def)
  have n: "unat (word_of_nat (length N) :: u32) = length N" using small by (intro unat_of_length) simp
  have c: "unat (ctx_len ctx + word_of_nat (length N)) = ?l + length N"
    using l n small by (subst unat_word_ariths) simp
  have tmp: "unat (64 - ctx_len ctx) = 64 - ?l"
    using l small by (simp add: unat_sub_if')
  have lt: "(word_of_nat (length N) :: u32) < 64 - ctx_len ctx"
    unfolding word_less_nat_alt n tmp using small by simp
  have lt64: "ctx_len ctx + word_of_nat (length N) < 64"
    unfolding word_less_nat_alt c using small by simp
  have "sha256_update ctx N = ctx\<lparr>ctx_block := mem_write ?l N (ctx_block ctx), ctx_len := ctx_len ctx + word_of_nat (length N)\<rparr>"
    using lt lt64 by (simp add: sha256_update_def Let_def l n)
  moreover have "length (M @ N) div 64 = ?q" "length (M @ N) mod 64 = ?l + length N"
    using block_add [OF small] by simp_all
  moreover have "take (?l + length N) (mem_write ?l N (ctx_block ctx)) = drop (64 * ?q) M @ N"
    using small blk tk by simp
  moreover have "length (mem_write ?l N (ctx_block ctx)) = 128" using small blk by simp
  moreover have "fips_blocks ?q (M @ N) fips_init = fips_blocks ?q M fips_init"
    by (rule fips_blocks_prefix) simp
  ultimately show ?thesis using rep c by (simp add: ctx_rep_def)
qed

lemma sha256_update_fill:
  assumes rep: "ctx_rep ctx M" and fill: "64 \<le> length M mod 64 + length N"
    and bound: "length M + length N + 64 < 2 ^ 32"
  shows "ctx_rep (sha256_update ctx N) (M @ N)"
proof -
  let ?l = "length M mod 64" and ?q = "length M div 64"
  let ?r = "64 - ?l" and ?n = "length N"
  let ?s = "drop ?r N"
  let ?b = "(?n - ?r) div 64"
  let ?blk = "mem_write ?l (take ?r N) (ctx_block ctx)"
  have l: "unat (ctx_len ctx) = ?l" and blk: "length (ctx_block ctx) = 128" and tot: "unat (tot_len ctx) = 64 * ?q"
    and tk: "take ?l (ctx_block ctx) = drop (64 * ?q) M" and h: "ctx_h ctx = vars_of (fips_blocks ?q M fips_init)"
    using rep by (auto simp: ctx_rep_def)
  have l64: "?l < 64" by simp
  have rn: "?r \<le> ?n" using fill by linarith
  have n: "unat (word_of_nat ?n :: u32) = ?n" using bound by (intro unat_of_length) simp
  have tmp: "unat (64 - ctx_len ctx) = ?r"
    using l l64 by (simp add: unat_sub_if')
  have c: "unat (ctx_len ctx + word_of_nat ?n) = ?l + ?n"
    using l n bound by (subst unat_word_ariths) simp
  have ge: "\<not> (word_of_nat ?n :: u32) < 64 - ctx_len ctx"
    unfolding word_less_nat_alt n tmp using rn by simp
  have ge64: "\<not> ctx_len ctx + word_of_nat ?n < 64"
    unfolding word_less_nat_alt c using fill by simp
  have new: "unat (word_of_nat ?n - (64 - ctx_len ctx)) = ?n - ?r"
    by (subst unat_sub) (simp_all only: word_le_nat_alt n tmp rn)
  have nb: "unat ((word_of_nat ?n - (64 - ctx_len ctx)) div 64) = ?b"
    by (simp add: unat_div_distrib new)
  have nm: "unat ((word_of_nat ?n - (64 - ctx_len ctx)) mod 64) = (?n - ?r) mod 64"
    by (simp add: unat_mod_distrib new)
  have b6: "64 * ?b \<le> ?n - ?r" by simp
  have sh: "unat (push_bit 6 ((word_of_nat ?n - (64 - ctx_len ctx)) div 64)) = 64 * ?b"
    using b6 bound by (subst unat_push_bit32) (simp_all only: nb, simp_all)
  have lens: "length (M @ N) div 64 = ?q + 1 + ?b" "length (M @ N) mod 64 = (?n - ?r) mod 64"
    using block_fill [OF fill] by simp_all
  have fit: "64 * (?q + 1 + ?b) \<le> length (M @ N)"
    using times_div_less_eq_dividend [of 64 "length (M @ N)"] unfolding lens .
  have tot': "unat (tot_len ctx + push_bit 6 ((word_of_nat ?n - (64 - ctx_len ctx)) div 64 + 1)) = 64 * (?q + 1 + ?b)"
  proof -
    have "?b + 1 < 2 ^ 32" using b6 bound by linarith
    then have "unat ((word_of_nat ?n - (64 - ctx_len ctx)) div 64 + 1) = ?b + 1"
      using nb by (subst unat_word_ariths) simp
    moreover have s: "64 * (?q + 1 + ?b) < 2 ^ 32"
      using fit bound by (simp only: length_append)
    ultimately have "unat (push_bit 6 ((word_of_nat ?n - (64 - ctx_len ctx)) div 64 + 1)) = 64 * (?b + 1)"
      by (subst unat_push_bit32) simp_all
    with tot s show ?thesis by (subst unat_word_ariths) simp
  qed
  have tail: "take (unat ((word_of_nat ?n - (64 - ctx_len ctx)) mod 64)) (drop (64 * ?b) ?s) = drop (64 * ?b) ?s"
  proof -
    have "length (drop (64 * ?b) ?s) = (?n - ?r) mod 64"
      by (simp only: length_drop minus_mult_div_eq_mod)
    then show ?thesis unfolding nm by (intro take_all) (simp only: order_refl)
  qed
  have upd: "sha256_update ctx N = ctx\<lparr>ctx_h := sha256_transf (sha256_transf (ctx_h ctx) ?blk 1) ?s ?b,
      ctx_block := mem_write 0 (drop (64 * ?b) ?s) ?blk,
      ctx_len := (word_of_nat ?n - (64 - ctx_len ctx)) mod 64,
      tot_len := tot_len ctx + push_bit 6 ((word_of_nat ?n - (64 - ctx_len ctx)) div 64 + 1)\<rparr>"
    by (simp only: sha256_update_def Let_def ge ge64 if_False l tmp nb sh tail)
  have first: "take 64 ?blk = take 64 (drop (64 * ?q) (M @ N))"
    using take_mem_write [of ?l "take ?r N" "ctx_block ctx"] blk rn l64 tk by (simp add: block_rest)
  have "sha256_transf (ctx_h ctx) ?blk 1 = vars_of (fips_blocks 1 ?blk (fips_blocks ?q M fips_init))"
    unfolding h by (rule transf_vars) (use blk l64 in simp)
  also have "fips_blocks 1 ?blk (fips_blocks ?q M fips_init) =
      fips_blocks 1 (drop (64 * ?q) (M @ N)) (fips_blocks ?q (M @ N) fips_init)"
    using first fips_blocks_prefix [of ?q M N fips_init] by simp
  also have "\<dots> = fips_blocks (?q + 1) (M @ N) fips_init"
    by (rule fips_blocks_add [symmetric]) simp
  finally have h1: "sha256_transf (ctx_h ctx) ?blk 1 = vars_of (fips_blocks (?q + 1) (M @ N) fips_init)" .
  have s: "?s = drop (64 * (?q + 1)) (M @ N)"
    using l64 by (simp add: drop_append block_rest)
  have h2: "sha256_transf (vars_of (fips_blocks (?q + 1) (M @ N) fips_init)) ?s ?b =
      vars_of (fips_blocks (?q + 1 + ?b) (M @ N) fips_init)"
  proof -
    have A: "64 * (?q + 1) \<le> length (M @ N)"
      by (rule order_trans [OF _ fit]) simp
    show ?thesis unfolding fips_blocks_add [OF A] s [symmetric]
      by (rule transf_vars) (simp only: length_drop b6)
  qed
  have rest: "drop (64 * ?b) ?s = drop (64 * (?q + 1 + ?b)) (M @ N)"
    unfolding s drop_drop by (simp only: add_mult_distrib2 ac_simps)
  have len_rest: "length (drop (64 * ?b) ?s) = (?n - ?r) mod 64"
    by (simp only: length_drop minus_mult_div_eq_mod)
  have m64: "(?n - ?r) mod 64 < 64" by simp
  have "length ?blk = 128" using blk l64 by simp
  with m64 have "(?n - ?r) mod 64 \<le> length ?blk" by linarith
  note buf = mem_write_start [OF len_rest this, unfolded \<open>length ?blk = 128\<close>]
  show ?thesis
    unfolding upd ctx_rep_update lens h1 h2 rest [symmetric]
    using buf nm tot' by (simp only: simp_thms)
qed

lemma ctx_rep_step:
  assumes "ctx_rep ctx M" and "length M + length N + 64 < 2 ^ 32"
  shows "ctx_rep (sha256_update ctx N) (M @ N)"
  using sha256_update_small [OF assms(1)] sha256_update_fill [OF assms(1) _ assms(2)] by (meson not_le)

section \<open>Finishing\<close>

lemma be_nat_bytes_unat: "be_nat_bytes 4 (unat x) = UNPACK32 x"
proof -
  have four: "(4 :: nat) = Suc (Suc (Suc (Suc 0)))" by simp
  have "be_nat_bytes 4 (unat x) = [word_of_nat (unat x div 256 div 256 div 256), word_of_nat (unat x div 256 div 256),
      word_of_nat (unat x div 256), word_of_nat (unat x)]"
    by (subst four) simp
  also have "\<dots> = UNPACK32 x"
  proof -
    have "unat x div 256 div 256 div 256 = unat (drop_bit 24 x)" "unat x div 256 div 256 = unat (drop_bit 16 x)"
        "unat x div 256 = unat (drop_bit 8 x)"
      by (simp_all add: unat_drop_bit_div flip: div_mult2_eq)
    then show ?thesis by (simp add: UNPACK32_def be32_bytes_def)
  qed
  finally show ?thesis .
qed

lemma be_nat_bytes_small: "n < 256 ^ k \<Longrightarrow> be_nat_bytes (j + k) n = replicate j 0 @ be_nat_bytes k n"
proof (induction k arbitrary: n)
  case 0
  then have "n = 0" by simp
  have "be_nat_bytes j 0 = replicate j 0" by (induction j) (simp_all add: replicate_append_same)
  with \<open>n = 0\<close> show ?case by simp
next
  case (Suc k)
  then have "n div 256 < 256 ^ k" by (simp add: less_mult_imp_div_less mult.commute)
  with Suc.IH show ?case by simp
qed

text \<open>The length field: the code writes the low 32 bits of the eight bytes.\<close>

lemma length_field:
  assumes "8 * n < 2 ^ 32"
  shows "be_nat_bytes 8 (8 * n) = replicate 4 0 @ UNPACK32 (word_of_nat (8 * n))"
proof -
  have "unat (word_of_nat (8 * n) :: u32) = 8 * n" using assms by (rule unat32_of_nat)
  moreover have "be_nat_bytes (4 + 4) (8 * n) = replicate 4 0 @ be_nat_bytes 4 (8 * n)"
    by (rule be_nat_bytes_small) (use assms in simp)
  ultimately show ?thesis using be_nat_bytes_unat [of "word_of_nat (8 * n)"] by (simp del: of_nat_mult)
qed

lemma fips_bytes_vars: "fips_bytes v = concat (map UNPACK32 (vars_of v))"
  by (cases v rule: vars_of.cases) (simp add: be_nat_bytes_unat)

lemma mem_write_mid: "length A = k \<Longrightarrow> length R = length U \<Longrightarrow> mem_write k U (A @ R @ T) = A @ U @ T"
  by (simp add: mem_write_def)

lemma final_block:
  assumes "length blk = 128" and "l + 9 \<le> pm" and "pm \<le> 128" and "length U = 4"
  shows "take pm (mem_write (pm - 4) U ((mem_write l (replicate (pm - l) 0) blk)[l := x])) =
      take l blk @ x # replicate (pm - l - 5) 0 @ U"
    and "length (mem_write (pm - 4) U ((mem_write l (replicate (pm - l) 0) blk)[l := x])) = 128"
proof -
  have pm: "pm - l = Suc (pm - l - 5 + 4)" using assms(2) by simp
  have "(mem_write l (replicate (pm - l) 0) blk)[l := x] = take l blk @ x # replicate (pm - l - 5 + 4) 0 @ drop pm blk"
    using assms pm by (simp add: mem_write_def list_update_append replicate_add del: Suc_diff_Suc)
  moreover have "mem_write (pm - 4) U (take l blk @ x # replicate (pm - l - 5 + 4) 0 @ drop pm blk) =
      take l blk @ x # replicate (pm - l - 5) 0 @ U @ drop pm blk"
  proof -
    have "length (take l blk @ x # replicate (pm - l - 5) 0) = pm - 4" using assms by simp
    from mem_write_mid [OF this, of "replicate 4 0" U "drop pm blk"] assms(4) show ?thesis
      by (simp add: replicate_add)
  qed
  ultimately have all: "mem_write (pm - 4) U ((mem_write l (replicate (pm - l) 0) blk)[l := x]) =
      take l blk @ x # replicate (pm - l - 5) 0 @ U @ drop pm blk" by simp
  show "length (mem_write (pm - 4) U ((mem_write l (replicate (pm - l) 0) blk)[l := x])) = 128"
    unfolding all using assms by simp
  let ?X = "take l blk @ x # replicate (pm - l - 5) 0 @ U"
  have "length ?X = pm" using assms by simp
  moreover have "?X @ drop pm blk = take l blk @ x # replicate (pm - l - 5) 0 @ U @ drop pm blk" by simp
  ultimately show "take pm (mem_write (pm - 4) U ((mem_write l (replicate (pm - l) 0) blk)[l := x])) = ?X"
    unfolding all by (metis append_eq_conv_conj)
qed

lemma ctx_rep_final:
  assumes rep: "ctx_rep ctx M" and bound: "8 * length M < 2 ^ 32"
  shows "sha256_final ctx = fips_sha256 M"
proof -
  define l q nb where "l = length M mod 64" and "q = length M div 64" and "nb = (if 55 < l then 2 else 1 :: nat)"
  have len: "length M = 64 * q + l" and l64: "l < 64" by (simp_all add: l_def q_def)
  have cl: "unat (ctx_len ctx) = l" and tot: "unat (tot_len ctx) = 64 * q" and blk: "length (ctx_block ctx) = 128"
    and tk: "take l (ctx_block ctx) = drop (64 * q) M" and h: "ctx_h ctx = vars_of (fips_blocks q M fips_init)"
    using rep by (auto simp: ctx_rep_def l_def q_def)
  have nbw: "unat (if 64 - 9 < ctx_len ctx mod 64 then 2 else 1 :: u32) = nb"
    using cl l64 by (simp add: nb_def word_less_nat_alt unat_mod_distrib)
  have pm: "unat (push_bit 6 (if 64 - 9 < ctx_len ctx mod 64 then 2 else 1 :: u32)) = 64 * nb"
    using nbw by (subst unat_push_bit32) (simp_all add: nb_def)
  have sum: "unat (tot_len ctx + ctx_len ctx) = length M"
    using cl tot len bound by (subst unat_word_ariths) simp
  have lenb: "push_bit 3 (tot_len ctx + ctx_len ctx) = word_of_nat (8 * length M)"
  proof (rule word_unat_eq_iff [THEN iffD2])
    have "unat (push_bit 3 (tot_len ctx + ctx_len ctx)) = 2 ^ 3 * unat (tot_len ctx + ctx_len ctx)"
      by (rule unat_push_bit32) (use sum bound in simp)
    also have "\<dots> = 8 * length M" using sum by simp
    also have "\<dots> = unat (word_of_nat (8 * length M) :: u32)" by (rule unat32_of_nat [OF bound, symmetric])
    finally show "unat (push_bit 3 (tot_len ctx + ctx_len ctx)) = unat (word_of_nat (8 * length M) :: u32)" .
  qed
  define b3 where "b3 = mem_write (64 * nb - 4) (UNPACK32 (word_of_nat (8 * length M)))
     ((mem_write l (replicate (64 * nb - l) 0) (ctx_block ctx))[l := 0x80])"
  have fin: "sha256_final ctx = concat (map UNPACK32 (sha256_transf (ctx_h ctx) b3 nb))"
    unfolding sha256_final_def Let_def nbw pm lenb cl b3_def ..
  have u4: "length (UNPACK32 (word_of_nat (8 * length M))) = 4" by (simp add: UNPACK32_def)
  have fits: "l + 9 \<le> 64 * nb" "64 * nb \<le> 128" using l64 by (auto simp: nb_def)
  note fb = final_block [OF blk fits u4, of "0x80", folded b3_def]
  have z: "(119 - length M mod 64) mod 64 + 4 = 64 * nb - l - 5"
    using l64 unfolding l_def [symmetric] by (cases "55 < l") (auto simp: nb_def mod_if)
  have pad: "fips_pad M = M @ 0x80 # replicate (64 * nb - l - 5) 0 @ UNPACK32 (word_of_nat (8 * length M))"
  proof -
    have "replicate ((119 - length M mod 64) mod 64) 0 @ replicate 4 0 = replicate (64 * nb - l - 5) (0 :: u8)"
      unfolding z [symmetric] by (rule replicate_add [symmetric])
    then show ?thesis unfolding fips_pad_def length_field [OF bound] by simp
  qed
  have last: "take (64 * nb) b3 = drop (64 * q) (fips_pad M)"
    unfolding fb(1) pad tk using len by simp
  have plen: "length (fips_pad M) = 64 * (q + nb)"
    unfolding pad using len fits u4 by (simp del: of_nat_mult)
  have q: "64 * q \<le> length M" using len by simp
  have "fips_sha256 M = fips_bytes (fips_blocks nb (drop (64 * q) (fips_pad M)) (fips_blocks q (fips_pad M) fips_init))"
    unfolding fips_sha256_def plen using fips_blocks_add [of q "fips_pad M" nb fips_init] plen by simp
  also have "fips_blocks q (fips_pad M) fips_init = fips_blocks q M fips_init"
    unfolding pad by (rule fips_blocks_prefix [OF q])
  also have "fips_blocks nb (drop (64 * q) (fips_pad M)) (fips_blocks q M fips_init) =
      fips_blocks nb b3 (fips_blocks q M fips_init)"
  proof -
    have "64 * nb \<le> length (take (64 * nb) b3)" using fb(2) fits by simp
    from fips_blocks_prefix [OF this, of "drop (64 * nb) b3"] show ?thesis unfolding last [symmetric] by simp
  qed
  finally have "fips_sha256 M = fips_bytes (fips_blocks nb b3 (fips_blocks q M fips_init))" .
  moreover have "sha256_transf (ctx_h ctx) b3 nb = vars_of (fips_blocks nb b3 (fips_blocks q M fips_init))"
    unfolding h by (rule transf_vars) (use fb(2) fits in simp)
  ultimately show ?thesis using fin by (simp add: fips_bytes_vars)
qed

lemma ctx_rep_updates:
  "ctx_rep ctx M \<Longrightarrow> length M + length (concat Ns) + 64 < 2 ^ 32 \<Longrightarrow>
     ctx_rep (foldl sha256_update ctx Ns) (M @ concat Ns)"
proof (induction Ns arbitrary: ctx M)
  case (Cons N Ns)
  then have "ctx_rep (sha256_update ctx N) (M @ N)" by (intro ctx_rep_step) auto
  from Cons.IH [OF this] Cons.prems(2) show ?case by simp
qed simp

section \<open>Properties\<close>

text \<open>C7: feeding a message in any number of pieces of any lengths and finishing gives the
  SHA-256 of the whole message as FIPS 180 defines it, whatever the context's memory held
  before, for messages below 2^29 bytes, the code's limit since it keeps the bit length in 32 bits.\<close>

theorem sha256_incremental:
  assumes "length (ctx_block stack) = 128" and "length (concat Ns) < 2 ^ 29"
  shows "sha256_final (foldl sha256_update (sha256_init stack) Ns) = fips_sha256 (concat Ns)"
proof -
  have "ctx_rep (foldl sha256_update (sha256_init stack) Ns) (concat Ns)"
    using ctx_rep_updates [OF ctx_rep_init [OF assms(1)], of Ns] assms(2) by simp
  from ctx_rep_final [OF this] assms(2) show ?thesis by simp
qed

definition wit_stack :: sha256_ctx where
  "wit_stack = \<lparr>tot_len = 9, ctx_len = 9, ctx_block = replicate 128 0xAA, ctx_h = []\<rparr>"

theorem sha256_incremental_witness:
  "sha256_final (foldl sha256_update (sha256_init wit_stack) [[0x61], [], [0x62, 0x63]]) = fips_sha256 [0x61, 0x62, 0x63]"
  using sha256_incremental [of wit_stack "[[0x61], [], [0x62, 0x63]]"] by (simp add: wit_stack_def)

text \<open>The tables are the standard's: the round constants are the fractional bits of the cube
  roots of the first 64 primes and the initial hash those of the square roots of the first 8.\<close>

theorem sha256_constants:
  "length first_primes = 64 \<and> list_all2 (frac_root 3) first_primes sha256_k \<and>
   list_all2 (frac_root 2) (take 8 first_primes) sha256_h0"
proof (intro conjI)
  show "length first_primes = 64" by (simp add: first_primes_def)
  show "list_all2 (frac_root 3) first_primes sha256_k"
    unfolding first_primes_def sha256_k_def by (simp add: frac_root_def Let_def)
  show "list_all2 (frac_root 2) (take 8 first_primes) sha256_h0"
    unfolding first_primes_def sha256_h0_def by (simp add: frac_root_def Let_def)
qed

end
