(* ===== verification/AesT4.thy ===== *)
theory AesT4
  imports AesTables
begin

text \<open>
  AES-128 of mcompat_aes.c, which decrypts the machine's configuration file:
  table-driven rounds, the key schedule and the block loops over a buffer of
  1024 bytes.  The reference is the cipher of FIPS 197 written with its four round functions.
\<close>

section \<open>Round functions\<close>

text \<open>A state is 16 bytes, column by column.  The updates are in the order of the code.\<close>

definition ShiftRows :: "u8 list \<Rightarrow> u8 list" where
  "ShiftRows s =
     (let s = s[0 := tb Sbox (s ! 0)]; s = s[4 := tb Sbox (s ! 4)];
          s = s[8 := tb Sbox (s ! 8)]; s = s[12 := tb Sbox (s ! 12)];
          tmp = tb Sbox (s ! 1); s = s[1 := tb Sbox (s ! 5)];
          s = s[5 := tb Sbox (s ! 9)]; s = s[9 := tb Sbox (s ! 13)]; s = s[13 := tmp];
          tmp = tb Sbox (s ! 2); s = s[2 := tb Sbox (s ! 10)]; s = s[10 := tmp];
          tmp = tb Sbox (s ! 6); s = s[6 := tb Sbox (s ! 14)]; s = s[14 := tmp];
          tmp = tb Sbox (s ! 15); s = s[15 := tb Sbox (s ! 11)];
          s = s[11 := tb Sbox (s ! 7)]; s = s[7 := tb Sbox (s ! 3)]; s = s[3 := tmp]
      in s)"

definition InvShiftRows :: "u8 list \<Rightarrow> u8 list" where
  "InvShiftRows s =
     (let s = s[0 := tb InvSbox (s ! 0)]; s = s[4 := tb InvSbox (s ! 4)];
          s = s[8 := tb InvSbox (s ! 8)]; s = s[12 := tb InvSbox (s ! 12)];
          tmp = tb InvSbox (s ! 13); s = s[13 := tb InvSbox (s ! 9)];
          s = s[9 := tb InvSbox (s ! 5)]; s = s[5 := tb InvSbox (s ! 1)]; s = s[1 := tmp];
          tmp = tb InvSbox (s ! 2); s = s[2 := tb InvSbox (s ! 10)]; s = s[10 := tmp];
          tmp = tb InvSbox (s ! 6); s = s[6 := tb InvSbox (s ! 14)]; s = s[14 := tmp];
          tmp = tb InvSbox (s ! 3); s = s[3 := tb InvSbox (s ! 7)];
          s = s[7 := tb InvSbox (s ! 11)]; s = s[11 := tb InvSbox (s ! 15)]; s = s[15 := tmp]
      in s)"

definition MixSubColumns :: "u8 list \<Rightarrow> u8 list" where
  "MixSubColumns s =
     [tb Xtime2Sbox (s ! 0) XOR tb Xtime3Sbox (s ! 5) XOR tb Sbox (s ! 10) XOR tb Sbox (s ! 15),
      tb Sbox (s ! 0) XOR tb Xtime2Sbox (s ! 5) XOR tb Xtime3Sbox (s ! 10) XOR tb Sbox (s ! 15),
      tb Sbox (s ! 0) XOR tb Sbox (s ! 5) XOR tb Xtime2Sbox (s ! 10) XOR tb Xtime3Sbox (s ! 15),
      tb Xtime3Sbox (s ! 0) XOR tb Sbox (s ! 5) XOR tb Sbox (s ! 10) XOR tb Xtime2Sbox (s ! 15),
      tb Xtime2Sbox (s ! 4) XOR tb Xtime3Sbox (s ! 9) XOR tb Sbox (s ! 14) XOR tb Sbox (s ! 3),
      tb Sbox (s ! 4) XOR tb Xtime2Sbox (s ! 9) XOR tb Xtime3Sbox (s ! 14) XOR tb Sbox (s ! 3),
      tb Sbox (s ! 4) XOR tb Sbox (s ! 9) XOR tb Xtime2Sbox (s ! 14) XOR tb Xtime3Sbox (s ! 3),
      tb Xtime3Sbox (s ! 4) XOR tb Sbox (s ! 9) XOR tb Sbox (s ! 14) XOR tb Xtime2Sbox (s ! 3),
      tb Xtime2Sbox (s ! 8) XOR tb Xtime3Sbox (s ! 13) XOR tb Sbox (s ! 2) XOR tb Sbox (s ! 7),
      tb Sbox (s ! 8) XOR tb Xtime2Sbox (s ! 13) XOR tb Xtime3Sbox (s ! 2) XOR tb Sbox (s ! 7),
      tb Sbox (s ! 8) XOR tb Sbox (s ! 13) XOR tb Xtime2Sbox (s ! 2) XOR tb Xtime3Sbox (s ! 7),
      tb Xtime3Sbox (s ! 8) XOR tb Sbox (s ! 13) XOR tb Sbox (s ! 2) XOR tb Xtime2Sbox (s ! 7),
      tb Xtime2Sbox (s ! 12) XOR tb Xtime3Sbox (s ! 1) XOR tb Sbox (s ! 6) XOR tb Sbox (s ! 11),
      tb Sbox (s ! 12) XOR tb Xtime2Sbox (s ! 1) XOR tb Xtime3Sbox (s ! 6) XOR tb Sbox (s ! 11),
      tb Sbox (s ! 12) XOR tb Sbox (s ! 1) XOR tb Xtime2Sbox (s ! 6) XOR tb Xtime3Sbox (s ! 11),
      tb Xtime3Sbox (s ! 12) XOR tb Sbox (s ! 1) XOR tb Sbox (s ! 6) XOR tb Xtime2Sbox (s ! 11)]"

definition InvMixSubColumns :: "u8 list \<Rightarrow> u8 list" where
  "InvMixSubColumns s = map (tb InvSbox)
     [tb XtimeE (s ! 0) XOR tb XtimeB (s ! 1) XOR tb XtimeD (s ! 2) XOR tb Xtime9 (s ! 3),
      tb Xtime9 (s ! 12) XOR tb XtimeE (s ! 13) XOR tb XtimeB (s ! 14) XOR tb XtimeD (s ! 15),
      tb XtimeD (s ! 8) XOR tb Xtime9 (s ! 9) XOR tb XtimeE (s ! 10) XOR tb XtimeB (s ! 11),
      tb XtimeB (s ! 4) XOR tb XtimeD (s ! 5) XOR tb Xtime9 (s ! 6) XOR tb XtimeE (s ! 7),
      tb XtimeE (s ! 4) XOR tb XtimeB (s ! 5) XOR tb XtimeD (s ! 6) XOR tb Xtime9 (s ! 7),
      tb Xtime9 (s ! 0) XOR tb XtimeE (s ! 1) XOR tb XtimeB (s ! 2) XOR tb XtimeD (s ! 3),
      tb XtimeD (s ! 12) XOR tb Xtime9 (s ! 13) XOR tb XtimeE (s ! 14) XOR tb XtimeB (s ! 15),
      tb XtimeB (s ! 8) XOR tb XtimeD (s ! 9) XOR tb Xtime9 (s ! 10) XOR tb XtimeE (s ! 11),
      tb XtimeE (s ! 8) XOR tb XtimeB (s ! 9) XOR tb XtimeD (s ! 10) XOR tb Xtime9 (s ! 11),
      tb Xtime9 (s ! 4) XOR tb XtimeE (s ! 5) XOR tb XtimeB (s ! 6) XOR tb XtimeD (s ! 7),
      tb XtimeD (s ! 0) XOR tb Xtime9 (s ! 1) XOR tb XtimeE (s ! 2) XOR tb XtimeB (s ! 3),
      tb XtimeB (s ! 12) XOR tb XtimeD (s ! 13) XOR tb Xtime9 (s ! 14) XOR tb XtimeE (s ! 15),
      tb XtimeE (s ! 12) XOR tb XtimeB (s ! 13) XOR tb XtimeD (s ! 14) XOR tb Xtime9 (s ! 15),
      tb Xtime9 (s ! 8) XOR tb XtimeE (s ! 9) XOR tb XtimeB (s ! 10) XOR tb XtimeD (s ! 11),
      tb XtimeD (s ! 4) XOR tb Xtime9 (s ! 5) XOR tb XtimeE (s ! 6) XOR tb XtimeB (s ! 7),
      tb XtimeB (s ! 0) XOR tb XtimeD (s ! 1) XOR tb Xtime9 (s ! 2) XOR tb XtimeE (s ! 3)]"

text \<open>Four words at a time in the code; by bytes it is the same in either byte order.\<close>

definition AddRoundKey :: "u8 list \<Rightarrow> u8 list \<Rightarrow> u8 list" where
  "AddRoundKey s key = map2 (XOR) s (take 16 key)"

section \<open>Key schedule\<close>

text \<open>One word of the expanded key, from the words before.\<close>

definition expand_step :: "nat \<Rightarrow> u8 list \<Rightarrow> u8 list" where
  "expand_step idx e =
     (let tmp0 = e ! (4 * idx - 4); tmp1 = e ! (4 * idx - 3); tmp2 = e ! (4 * idx - 2); tmp3 = e ! (4 * idx - 1);
          (t0, t1, t2, t3) =
            (if idx mod 4 = 0 then (tb Sbox tmp1 XOR Rcon ! (idx div 4), tb Sbox tmp2, tb Sbox tmp3, tb Sbox tmp0)
             else (tmp0, tmp1, tmp2, tmp3))
      in e @ [e ! (4 * idx - 16 + 0) XOR t0, e ! (4 * idx - 16 + 1) XOR t1,
              e ! (4 * idx - 16 + 2) XOR t2, e ! (4 * idx - 16 + 3) XOR t3])"

definition ExpandKey :: "u8 list \<Rightarrow> u8 list" where
  "ExpandKey key = fold expand_step [4..<44] (take 16 key)"

section \<open>Blocks\<close>

definition round_key :: "u8 list \<Rightarrow> nat \<Rightarrow> u8 list" where
  "round_key ExpKey round = drop (16 * round) ExpKey"

definition enc_round :: "u8 list \<Rightarrow> nat \<Rightarrow> u8 list \<Rightarrow> u8 list" where
  "enc_round ExpKey round s =
     AddRoundKey (if round < 10 then MixSubColumns s else ShiftRows s) (round_key ExpKey round)"

definition Encrypt :: "u8 list \<Rightarrow> u8 list \<Rightarrow> u8 list" where
  "Encrypt ExpKey InText = fold (enc_round ExpKey) [1..<11] (AddRoundKey (take 16 InText) ExpKey)"

definition dec_round :: "u8 list \<Rightarrow> nat \<Rightarrow> u8 list \<Rightarrow> u8 list" where
  "dec_round ExpKey round s =
     (let s = AddRoundKey s (round_key ExpKey round) in if round \<noteq> 0 then InvMixSubColumns s else s)"

definition Decrypt :: "u8 list \<Rightarrow> u8 list \<Rightarrow> u8 list" where
  "Decrypt ExpKey InText =
     fold (dec_round ExpKey) (rev [0..<10]) (InvShiftRows (AddRoundKey (take 16 InText) (round_key ExpKey 10)))"

section \<open>Messages\<close>

definition aes_tmp_len :: "nat \<Rightarrow> nat" where
  "aes_tmp_len len = (if len AND 0x0f = 0 then len else (len AND 0xfff0) + 0x10)"

text \<open>The block loop: \<open>str2\<close> is written 16 bytes at a time.\<close>

definition aes_blocks :: "(u8 list \<Rightarrow> u8 list) \<Rightarrow> u8 list \<Rightarrow> nat \<Rightarrow> u8 list" where
  "aes_blocks f str1 n = fold (\<lambda>i str2. mem_write (16 * i) (f (take 16 (drop (16 * i) str1))) str2)
     [0..<n] (replicate 1024 0)"

text \<open>
  Both copy the input into a buffer of 1024 bytes without checking its length: a longer one
  overwrites the stack, \<open>None\<close>.
\<close>

definition aes_run :: "(u8 list \<Rightarrow> u8 list \<Rightarrow> u8 list) \<Rightarrow> u8 list \<Rightarrow> u8 list \<Rightarrow> u8 list option" where
  "aes_run cipher Key InText =
     (let len = length InText; tmp_len = aes_tmp_len len in
      if len > 1024 then None
      else
        let str1 = mem_write 0 InText (replicate 1024 0);
            ExpKey = ExpandKey Key;
            str2 = aes_blocks (cipher ExpKey) str1 (tmp_len div 16)
        in Some (take tmp_len str2))"

definition AES_Encrypt :: "u8 list \<Rightarrow> u8 list \<Rightarrow> u8 list option" where
  "AES_Encrypt = aes_run Encrypt"

definition AES_Decrypt :: "u8 list \<Rightarrow> u8 list \<Rightarrow> u8 list option" where
  "AES_Decrypt = aes_run Decrypt"

section \<open>Rounds undo each other\<close>

lemma length_16_cases: "length xs = 16 \<longleftrightarrow>
    (\<exists>a b c d e f g h i j k l m n p q. xs = [a, b, c, d, e, f, g, h, i, j, k, l, m, n, p, q])"
  by (simp only: length_Suc_conv numeral_eq_Suc pred_numeral_simps BitM.simps arith_simps) auto

lemma xtime_gm [simp]: "gm3 (x XOR y) = gm3 x XOR gm3 y" "gm9 (x XOR y) = gm9 x XOR gm9 y"
    "gmB (x XOR y) = gmB x XOR gmB y" "gmD (x XOR y) = gmD x XOR gmD y" "gmE (x XOR y) = gmE x XOR gmE y"
  by (simp_all add: gm3_def gm9_def gmB_def gmD_def gmE_def xtime_xor ac_simps)

lemma xor_cancel [simp]: "(x :: u8) XOR (x XOR y) = y"
  by (simp flip: xor.assoc)

lemmas gm_norm = gm3_def gm9_def gmB_def gmD_def gmE_def xtime_xor xor.assoc xor.commute xor.left_commute

text \<open>The matrix of the inverse mixing undoes the matrix of the mixing, row by row.\<close>

lemma unmix:
  "gmE (xtime a XOR gm3 b XOR c XOR d) XOR gmB (a XOR xtime b XOR gm3 c XOR d) XOR
   gmD (a XOR b XOR xtime c XOR gm3 d) XOR gm9 (gm3 a XOR b XOR c XOR xtime d) = a"
  "gm9 (xtime a XOR gm3 b XOR c XOR d) XOR gmE (a XOR xtime b XOR gm3 c XOR d) XOR
   gmB (a XOR b XOR xtime c XOR gm3 d) XOR gmD (gm3 a XOR b XOR c XOR xtime d) = b"
  "gmD (xtime a XOR gm3 b XOR c XOR d) XOR gm9 (a XOR xtime b XOR gm3 c XOR d) XOR
   gmE (a XOR b XOR xtime c XOR gm3 d) XOR gmB (gm3 a XOR b XOR c XOR xtime d) = c"
  "gmB (xtime a XOR gm3 b XOR c XOR d) XOR gmD (a XOR xtime b XOR gm3 c XOR d) XOR
   gm9 (a XOR b XOR xtime c XOR gm3 d) XOR gmE (gm3 a XOR b XOR c XOR xtime d) = d"
  by (simp_all add: gm_norm del: xtime_gm)

lemma InvMixSub_MixSub:
  assumes "length s = 16"
  shows "InvMixSubColumns (MixSubColumns s) = s"
proof -
  from assms obtain a b c d e f g h i j k l m n q r where s: "s = [a, b, c, d, e, f, g, h, i, j, k, l, m, n, q, r]"
    unfolding length_16_cases by blast
  show ?thesis
    unfolding s MixSubColumns_def InvMixSubColumns_def by (simp add: unmix del: xtime_gm)
qed

lemma InvShift_Shift:
  assumes "length s = 16"
  shows "InvShiftRows (ShiftRows s) = s"
proof -
  from assms obtain a b c d e f g h i j k l m n q r where s: "s = [a, b, c, d, e, f, g, h, i, j, k, l, m, n, q, r]"
    unfolding length_16_cases by blast
  show ?thesis unfolding s by (simp add: ShiftRows_def InvShiftRows_def Let_def)
qed

lemma length_rounds [simp]:
  "length (ShiftRows s) = length s" "length (InvShiftRows s) = length s" "length (MixSubColumns s) = 16"
  "length (InvMixSubColumns s) = 16" "length (AddRoundKey s k) = min (length s) (min (length k) 16)"
  by (simp_all add: ShiftRows_def InvShiftRows_def MixSubColumns_def InvMixSubColumns_def AddRoundKey_def Let_def)

lemma AddRoundKey_twice:
  assumes "length s = 16" and "16 \<le> length k"
  shows "AddRoundKey (AddRoundKey s k) k = s"
  using assms by (intro nth_equalityI) (simp_all add: AddRoundKey_def xor.assoc)

section \<open>Decryption undoes encryption\<close>

lemma length_enc_round [simp]:
  "length s = 16 \<Longrightarrow> 16 * r + 16 \<le> length k \<Longrightarrow> length (enc_round k r s) = 16"
  by (simp add: enc_round_def round_key_def)

definition enc_state :: "u8 list \<Rightarrow> u8 list \<Rightarrow> nat \<Rightarrow> u8 list" where
  "enc_state k s r = fold (enc_round k) [1..<Suc r] (AddRoundKey s k)"

lemma enc_state_simps: "enc_state k s 0 = AddRoundKey s k" "enc_state k s (Suc r) = enc_round k (Suc r) (enc_state k s r)"
  by (simp_all add: enc_state_def)

lemma length_enc_state [simp]: "length s = 16 \<Longrightarrow> 16 * r + 16 \<le> length k \<Longrightarrow> length (enc_state k s r) = 16"
  by (induction r) (simp_all add: enc_state_simps)

lemma AddRoundKey_round_key:
  "length s = 16 \<Longrightarrow> 16 * r + 16 \<le> length k \<Longrightarrow> AddRoundKey (AddRoundKey s (round_key k r)) (round_key k r) = s"
  by (rule AddRoundKey_twice) (simp_all add: round_key_def)

lemma dec_rounds:
  "length s = 16 \<Longrightarrow> r < 10 \<Longrightarrow> 16 * r + 16 \<le> length k \<Longrightarrow>
     fold (dec_round k) (rev [0..<Suc r]) (enc_state k s r) = s"
proof (induction r)
  case 0
  then have "AddRoundKey (AddRoundKey s k) k = s" by (intro AddRoundKey_twice) simp_all
  then show ?case by (simp add: dec_round_def enc_state_simps round_key_def)
next
  case (Suc r)
  have len: "length (enc_state k s r) = 16" using Suc.prems by simp
  have "AddRoundKey (enc_state k s (Suc r)) (round_key k (Suc r)) = MixSubColumns (enc_state k s r)"
    using Suc.prems by (simp add: enc_state_simps enc_round_def AddRoundKey_round_key)
  then have "dec_round k (Suc r) (enc_state k s (Suc r)) = enc_state k s r"
    using len by (simp add: dec_round_def InvMixSub_MixSub)
  with Suc show ?case by simp
qed

lemma Decrypt_Encrypt_block:
  assumes "length s = 16" and "176 \<le> length k"
  shows "Decrypt k (Encrypt k s) = s" and "length (Encrypt k s) = 16"
proof -
  have e: "Encrypt k s = enc_state k s 10"
    unfolding Encrypt_def enc_state_def using assms(1) by simp
  show l: "length (Encrypt k s) = 16" unfolding e using assms by simp
  have len: "length (enc_state k s 9) = 16" using assms by simp
  have "enc_state k s 10 = AddRoundKey (ShiftRows (enc_state k s 9)) (round_key k 10)"
    using enc_state_simps(2) [of k s 9] by (simp add: enc_round_def)
  then have "AddRoundKey (enc_state k s 10) (round_key k 10) = ShiftRows (enc_state k s 9)"
    using len assms by (simp add: AddRoundKey_round_key)
  then have "InvShiftRows (AddRoundKey (enc_state k s 10) (round_key k 10)) = enc_state k s 9"
    using len by (simp add: InvShift_Shift)
  with dec_rounds [of s 9 k] assms l show "Decrypt k (Encrypt k s) = s"
    by (simp add: Decrypt_def e del: upt_Suc) 
qed

lemma length_expand_step [simp]: "length (expand_step i e) = length e + 4"
  by (simp add: expand_step_def Let_def split: prod.split)

lemma length_ExpandKey [simp]: "16 \<le> length key \<Longrightarrow> length (ExpandKey key) = 176"
proof -
  have "length (fold expand_step xs e) = length e + 4 * length xs" for xs e
    by (induction xs arbitrary: e) simp_all
  moreover assume "16 \<le> length key"
  ultimately show ?thesis by (simp add: ExpandKey_def)
qed

section \<open>Interface: a block cipher used block by block\<close>

locale block_cipher =
  fixes enc dec :: "'k \<Rightarrow> u8 list \<Rightarrow> u8 list" and key_ok :: "'k \<Rightarrow> bool"
  assumes enc_length: "key_ok k \<Longrightarrow> length b = 16 \<Longrightarrow> length (enc k b) = 16"
    and dec_enc: "key_ok k \<Longrightarrow> length b = 16 \<Longrightarrow> dec k (enc k b) = b"
begin

lemma blocks_out:
  assumes "key_ok k" and "length str = 1024" and "n \<le> 64"
  shows "length (aes_blocks (enc k) str n) = 1024 \<and>
    (\<forall>i < n. take 16 (drop (16 * i) (aes_blocks (enc k) str n)) = enc k (take 16 (drop (16 * i) str)))"
  using assms(3)
proof (induction n)
  case 0
  show ?case by (simp add: aes_blocks_def)
next
  case (Suc n)
  let ?s = "aes_blocks (enc k) str n" and ?b = "enc k (take 16 (drop (16 * n) str))"
  have b: "length ?b = 16" using assms(1,2) Suc.prems by (intro enc_length) simp_all
  have step: "aes_blocks (enc k) str (Suc n) = mem_write (16 * n) ?b ?s" by (simp add: aes_blocks_def)
  have len: "length ?s = 1024" using Suc by simp
  have "take 16 (drop (16 * i) (mem_write (16 * n) ?b ?s)) = enc k (take 16 (drop (16 * i) str))" if "i < Suc n" for i
  proof (cases "i = n")
    case True
    then show ?thesis using b len Suc.prems by (simp add: mem_write_def)
  next
    case False
    with that have i: "16 * i + 16 \<le> 16 * n" by simp
    then have "take 16 (drop (16 * i) (mem_write (16 * n) ?b ?s)) = take 16 (drop (16 * i) ?s)"
      using len Suc.prems by (simp add: mem_write_def take_drop)
    with Suc i show ?thesis by simp
  qed
  with b len Suc.prems step show ?case by simp
qed

lemma blocks_undo:
  assumes ok: "key_ok k" and len: "length str = 1024" and n: "n \<le> 64"
    and str': "length str' = 1024" "take (16 * n) str' = take (16 * n) (aes_blocks (enc k) str n)"
  shows "take (16 * n) (aes_blocks (dec k) str' n) = take (16 * n) str"
  using n str'(2)
proof (induction n)
  case 0
  show ?case by simp
next
  case (Suc n)
  have out: "length (aes_blocks (enc k) str (Suc n)) = 1024"
    "\<forall>i < Suc n. take 16 (drop (16 * i) (aes_blocks (enc k) str (Suc n))) = enc k (take 16 (drop (16 * i) str))"
    using blocks_out [OF ok len Suc.prems(1)] by blast+
  have blk: "take 16 (drop (16 * i) str') = enc k (take 16 (drop (16 * i) str))" if "i < Suc n" for i
  proof -
    have "take 16 (drop (16 * i) str') = drop (16 * i) (take (16 * i + 16) (take (16 * Suc n) str'))"
      using that by (simp add: take_drop add.commute)
    also have "\<dots> = take 16 (drop (16 * i) (aes_blocks (enc k) str (Suc n)))"
      unfolding Suc.prems(2) using that by (simp add: take_drop add.commute)
    finally show ?thesis using out(2) that by simp
  qed
  have "take (16 * n) str' = take (16 * n) (aes_blocks (enc k) str n)"
  proof -
    have "take (16 * n) (take (16 * Suc n) str') = take (16 * n) (take (16 * Suc n) (aes_blocks (enc k) str (Suc n)))"
      using Suc.prems(2) by simp
    moreover have "take (16 * n) (aes_blocks (enc k) str (Suc n)) = take (16 * n) (aes_blocks (enc k) str n)"
      using blocks_out [OF ok len, of n] Suc.prems(1) by (simp add: aes_blocks_def mem_write_def)
    ultimately show ?thesis by simp
  qed
  then have IH: "take (16 * n) (aes_blocks (dec k) str' n) = take (16 * n) str" using Suc by simp
  have b: "dec k (take 16 (drop (16 * n) str')) = take 16 (drop (16 * n) str)"
    using blk [of n] dec_enc [OF ok, of "take 16 (drop (16 * n) str)"] len Suc.prems(1) by simp
  have l: "length (take (16 * n) (aes_blocks (dec k) str' n)) = 16 * n"
    unfolding IH using len Suc.prems(1) by simp
  have "aes_blocks (dec k) str' (Suc n) =
      mem_write (16 * n) (take 16 (drop (16 * n) str)) (aes_blocks (dec k) str' n)"
    using b by (simp add: aes_blocks_def)
  then have "take (16 * Suc n) (aes_blocks (dec k) str' (Suc n)) =
      take (16 * n) (aes_blocks (dec k) str' n) @ take 16 (drop (16 * n) str)"
    using l len Suc.prems(1) by (simp add: mem_write_def)
  also have "\<dots> = take (16 * n + 16) str" unfolding IH by (rule take_add [symmetric])
  also have "16 * n + 16 = 16 * Suc n" by simp
  finally show ?case .
qed

end

interpretation aes: block_cipher Encrypt Decrypt "\<lambda>k. 176 \<le> length k"
  by unfold_locales (simp_all add: Decrypt_Encrypt_block)

section \<open>Whole messages\<close>

lemma aes_tmp_len_eq:
  assumes "len \<le> 1024"
  shows "aes_tmp_len len = 16 * ((len + 15) div 16)"
proof -
  have low: "len AND 0x0f = len mod 16"
    using take_bit_eq_mask [of 4 len] by (simp add: mask_eq_exp_minus_1 take_bit_eq_mod)
  have "len AND 0xfff0 = 16 * (len div 16)"
  proof -
    have "(0xfff0 :: nat) = push_bit 4 (mask 12)" by (simp add: mask_eq_exp_minus_1 push_bit_eq_mult)
    moreover have "len AND push_bit 4 (mask 12) = push_bit 4 (take_bit 12 (drop_bit 4 len))"
      by (rule bit_eqI) (auto simp: bit_simps)
    moreover have "take_bit 12 (drop_bit 4 len) = len div 16"
      using assms by (simp add: take_bit_nat_eq_self drop_bit_eq_div)
    ultimately show ?thesis by (simp add: push_bit_eq_mult)
  qed
  moreover have "16 * ((len + 15) div 16) = (if len mod 16 = 0 then len else 16 * (len div 16) + 16)"
  proof -
    define q r where "q = len div 16" and "r = len mod 16"
    have "len = 16 * q + r" "r < 16" by (simp_all add: q_def r_def)
    moreover have "(16 * q + r + 15) div 16 = (if r = 0 then q else q + 1)"
      by (rule div_nat_eqI) (use \<open>r < 16\<close> in auto)
    ultimately show ?thesis by (auto simp: q_def [symmetric] r_def [symmetric])
  qed
  ultimately show ?thesis using low by (simp add: aes_tmp_len_def)
qed

lemma aes_run_roundtrip:
  assumes len: "length msg \<le> 1024" and key: "16 \<le> length key"
  shows "\<exists>c. AES_Encrypt key msg = Some c \<and> length c = aes_tmp_len (length msg) \<and>
    AES_Decrypt key c = Some (msg @ replicate (aes_tmp_len (length msg) - length msg) 0)"
proof -
  define n where "n = (length msg + 15) div 16"
  define str where "str = mem_write 0 msg (replicate 1024 (0 :: u8))"
  define k where "k = ExpandKey key"
  define c where "c = take (16 * n) (aes_blocks (Encrypt k) str n)"
  have tmp: "aes_tmp_len (length msg) = 16 * n" by (simp only: n_def aes_tmp_len_eq [OF len])
  have n64: "n \<le> 64" using len by (simp add: n_def)
  have ok: "176 \<le> length k" using key by (simp add: k_def)
  have slen: "length str = 1024" using len by (simp add: str_def)
  have "length (aes_blocks (Encrypt k) str n) = 1024" using aes.blocks_out [OF ok slen n64] by blast
  then have clen: "length c = 16 * n" using n64 by (simp add: c_def)
  have e: "AES_Encrypt key msg = Some c"
    using len by (simp add: AES_Encrypt_def aes_run_def Let_def tmp c_def str_def k_def)
  define str' where "str' = mem_write 0 c (replicate 1024 (0 :: u8))"
  have s': "length str' = 1024" "take (16 * n) str' = take (16 * n) (aes_blocks (Encrypt k) str n)"
    using clen n64 by (simp_all add: str'_def mem_write_def c_def)
  have "aes_tmp_len (16 * n) = 16 * n"
    by (subst aes_tmp_len_eq) (use n64 in simp_all)
  then have "AES_Decrypt key c = Some (take (16 * n) (aes_blocks (Decrypt k) str' n))"
    using clen n64 by (simp add: AES_Decrypt_def aes_run_def Let_def str'_def k_def)
  also have "take (16 * n) (aes_blocks (Decrypt k) str' n) = take (16 * n) str"
    by (rule aes.blocks_undo [OF ok slen n64 s'])
  also have "\<dots> = msg @ replicate (16 * n - length msg) 0"
  proof -
    have "length msg \<le> 16 * n" unfolding n_def by presburger
    then show ?thesis using n64 by (simp add: str_def mem_write_def)
  qed
  finally show ?thesis using e clen tmp by simp
qed

section \<open>The reference\<close>

text \<open>FIPS 197: byte \<open>r + 4 c\<close> of a state is row \<open>r\<close> of column \<open>c\<close>.\<close>

definition fips_sub :: "u8 list \<Rightarrow> u8 list" where
  "fips_sub s = map (tb Sbox) s"

definition fips_shift :: "u8 list \<Rightarrow> u8 list" where
  "fips_shift s = map (\<lambda>i. s ! (i mod 4 + 4 * ((i div 4 + i mod 4) mod 4))) [0..<16]"

definition fips_mix :: "u8 list \<Rightarrow> u8 list" where
  "fips_mix s = concat (map (\<lambda>c. let a = s ! (4 * c); b = s ! (4 * c + 1); d = s ! (4 * c + 2); e = s ! (4 * c + 3) in
     [gmul a 2 XOR gmul b 3 XOR d XOR e, a XOR gmul b 2 XOR gmul d 3 XOR e,
      a XOR b XOR gmul d 2 XOR gmul e 3, gmul a 3 XOR b XOR d XOR gmul e 2]) [0..<4])"

fun fips_w :: "u8 list \<Rightarrow> nat \<Rightarrow> u8 list" where
  "fips_w key i =
     (if i < 4 then take 4 (drop (4 * i) key)
      else map2 (XOR) (fips_w key (i - 4))
        (if i mod 4 = 0 then map2 (XOR) (map (tb Sbox) (rotate1 (fips_w key (i - 1)))) [(xtime ^^ (i div 4 - 1)) 1, 0, 0, 0]
         else fips_w key (i - 1)))"

declare fips_w.simps [simp del]

definition fips_round_key :: "u8 list \<Rightarrow> nat \<Rightarrow> u8 list" where
  "fips_round_key key r = concat (map (fips_w key) [4 * r..<4 * r + 4])"

definition fips_add_key :: "u8 list \<Rightarrow> u8 list \<Rightarrow> u8 list" where
  "fips_add_key s k = map2 (XOR) s k"

definition fips_cipher :: "u8 list \<Rightarrow> u8 list \<Rightarrow> u8 list" where
  "fips_cipher key block =
     (let s0 = fips_add_key block (fips_round_key key 0);
          s9 = fold (\<lambda>r s. fips_add_key (fips_mix (fips_shift (fips_sub s))) (fips_round_key key r)) [1..<10] s0
      in fips_add_key (fips_shift (fips_sub s9)) (fips_round_key key 10))"

lemma gmul_2: "gmul x 2 = xtime x" and gmul_3: "gmul x 3 = gm3 x"
  by (simp_all add: gmul_def gm3_def upt_rec bit_numeral_rec xor.commute)

lemma MixSub_fips:
  assumes "length s = 16"
  shows "MixSubColumns s = fips_mix (fips_shift (fips_sub s))"
proof -
  from assms obtain a b c d e f g h i j k l m n q r where s: "s = [a, b, c, d, e, f, g, h, i, j, k, l, m, n, q, r]"
    unfolding length_16_cases by blast
  show ?thesis unfolding s fips_sub_def fips_shift_def
    by (simp add: MixSubColumns_def fips_mix_def gmul_2 gmul_3 upt_rec Let_def)
qed

lemma Shift_fips:
  assumes "length s = 16"
  shows "ShiftRows s = fips_shift (fips_sub s)"
proof -
  from assms obtain a b c d e f g h i j k l m n q r where s: "s = [a, b, c, d, e, f, g, h, i, j, k, l, m, n, q, r]"
    unfolding length_16_cases by blast
  show ?thesis unfolding s fips_sub_def fips_shift_def
    by (simp add: ShiftRows_def upt_rec Let_def)
qed

lemma length_fips_w:
  assumes "16 \<le> length key"
  shows "length (fips_w key i) = 4"
proof (induction i rule: less_induct)
  case (less i)
  show ?case
  proof (cases "i < 4")
    case True
    with assms show ?thesis by (simp add: fips_w.simps [of key i])
  next
    case False
    then have "length (fips_w key (i - 4)) = 4" "length (fips_w key (i - 1)) = 4" by (simp_all add: less)
    with False show ?thesis by (simp add: fips_w.simps [of key i])
  qed
qed

lemma nth_concat4:
  assumes "\<And>i. length (w i) = 4" and "j < n" and "t < 4"
  shows "concat (map w [0..<n]) ! (4 * j + t) = w j ! t"
  using assms(2)
proof (induction n)
  case (Suc n)
  have "length (concat (map w [0..<n])) = 4 * n" using assms(1) by (induction n) simp_all
  with Suc assms show ?case by (cases "j = n") (simp_all add: nth_append less_Suc_eq)
qed simp

lemma xtime_powers: "xtime 1 = 2" "xtime 2 = 4" "xtime 4 = 8" "xtime 8 = 16" "xtime 16 = 32" "xtime 32 = 64"
    "xtime 64 = 128" "xtime 128 = 27" "xtime 27 = 54"
  by (simp_all add: xtime_def)

lemma Rcon_step: "i < 9 \<Longrightarrow> Rcon ! Suc (Suc i) = xtime (Rcon ! Suc i)"
proof -
  assume "i < 9"
  then have "i = 0 \<or> i = 1 \<or> i = 2 \<or> i = 3 \<or> i = 4 \<or> i = 5 \<or> i = 6 \<or> i = 7 \<or> i = 8" by presburger
  then show ?thesis by (elim disjE) (simp_all add: Rcon_def xtime_powers)
qed

lemma Rcon_xtime: "i < 10 \<Longrightarrow> Rcon ! Suc i = (xtime ^^ i) 1"
proof (induction i)
  case 0
  show ?case by (simp add: Rcon_def)
next
  case (Suc i)
  then show ?case by (simp add: Rcon_step)
qed

lemma expand_step_fips:
  assumes key: "16 \<le> length key" and i: "4 \<le> i" "i < 44"
  shows "expand_step i (concat (map (fips_w key) [0..<i])) = concat (map (fips_w key) [0..<Suc i])"
proof -
  let ?e = "concat (map (fips_w key) [0..<i])"
  note len = length_fips_w [OF key]
  obtain a b c d where w1: "fips_w key (i - 1) = [a, b, c, d]" using length_4_cases [THEN iffD1, OF len [of "i - 1"]] by blast
  obtain p q r s where w4: "fips_w key (i - 4) = [p, q, r, s]" using length_4_cases [THEN iffD1, OF len [of "i - 4"]] by blast
  have idx: "4 * i - 4 = 4 * (i - 1) + 0" "4 * i - 3 = 4 * (i - 1) + 1" "4 * i - 2 = 4 * (i - 1) + 2"
    "4 * i - 1 = 4 * (i - 1) + 3" "4 * i - 16 = 4 * (i - 4)" using i by simp_all
  have e1: "?e ! (4 * (i - 1) + t) = [a, b, c, d] ! t" "?e ! (4 * (i - 4) + t) = [p, q, r, s] ! t" if "t < 4" for t
    using nth_concat4 [of "fips_w key" _ i t, OF len _ that] i w1 w4 by simp_all
  have "i div 4 = Suc (i div 4 - 1)" "i div 4 - 1 < 10" using i by presburger+
  then have rc: "Rcon ! (i div 4) = (xtime ^^ (i div 4 - 1)) 1" using Rcon_xtime [of "i div 4 - 1"] by simp
  have w: "fips_w key i = map2 (XOR) [p, q, r, s]
      (if i mod 4 = 0 then map2 (XOR) (map (tb Sbox) [b, c, d, a]) [(xtime ^^ (i div 4 - 1)) 1, 0, 0, 0]
       else [a, b, c, d])"
  proof -
    have "\<not> i < 4" using i by simp
    then show ?thesis by (subst fips_w.simps) (simp only: if_False w1 w4 rotate1.simps append.simps)
  qed
  have "expand_step i ?e = ?e @ fips_w key i"
    unfolding expand_step_def idx Let_def w using e1 [of 0] e1 [of 1] e1 [of 2] e1 [of 3] rc by simp
  then show ?thesis by simp
qed

lemma ExpandKey_fips:
  assumes "16 \<le> length key"
  shows "ExpandKey key = concat (map (fips_w key) [0..<44])"
proof -
  have "fold expand_step [4..<4 + n] (take 16 key) = concat (map (fips_w key) [0..<4 + n])" if "4 + n \<le> 44" for n
    using that
  proof (induction n)
    case 0
    have "take 16 key = take 4 key @ take 4 (drop 4 key) @ take 4 (drop 8 key) @ take 4 (drop 12 key)"
      using take_add [of 4 12 key] take_add [of 4 8 "drop 4 key"] take_add [of 4 4 "drop 8 key"] by simp
    then show ?case by (simp add: upt_rec fips_w.simps)
  next
    case (Suc n)
    have "[4..<4 + Suc n] = [4..<4 + n] @ [4 + n]" by (simp only: add_Suc_right upt_Suc_append le_add1)
    then show ?case using Suc expand_step_fips [OF assms, of "4 + n"] by (simp only:) simp
  qed
  from this [of 40] show ?thesis by (simp add: ExpandKey_def del: upt_Suc)
qed

lemma round_key_fips:
  assumes key: "16 \<le> length key" and r: "r \<le> 10"
  shows "take 16 (round_key (ExpandKey key) r) = fips_round_key key r"
proof (rule nth_equalityI)
  note len = length_fips_w [OF key]
  have fl: "length (concat (map (fips_w key) [a..<a + 4])) = 16" for a
    by (simp add: len length_concat comp_def upt_rec)
  show "length (take 16 (round_key (ExpandKey key) r)) = length (fips_round_key key r)"
    using key r by (simp add: round_key_def fips_round_key_def fl)
  fix k assume "k < length (take 16 (round_key (ExpandKey key) r))"
  then have k: "k < 16" by simp
  have "k = 4 * (k div 4) + k mod 4" "k div 4 < 4" using k by simp_all
  moreover have "take 16 (round_key (ExpandKey key) r) ! k = fips_w key (4 * r + k div 4) ! (k mod 4)"
  proof -
    have "take 16 (round_key (ExpandKey key) r) ! k = ExpandKey key ! (4 * (4 * r + k div 4) + k mod 4)"
      using k r key by (simp add: round_key_def algebra_simps)
    also have "\<dots> = fips_w key (4 * r + k div 4) ! (k mod 4)"
      unfolding ExpandKey_fips [OF key] by (rule nth_concat4) (use len k r in auto)
    finally show ?thesis .
  qed
  moreover have "fips_round_key key r ! k = fips_w key (4 * r + k div 4) ! (k mod 4)"
  proof -
    have "map (fips_w key) [4 * r..<4 * r + 4] = map (\<lambda>i. fips_w key (4 * r + i)) [0..<4]"
      by (simp add: upt_rec)
    then have "fips_round_key key r = concat (map (\<lambda>i. fips_w key (4 * r + i)) [0..<4])"
      by (simp only: fips_round_key_def)
    then show ?thesis
      using nth_concat4 [of "\<lambda>i. fips_w key (4 * r + i)" "k div 4" 4 "k mod 4"] len k by simp
  qed
  ultimately show "take 16 (round_key (ExpandKey key) r) ! k = fips_round_key key r ! k" by simp
qed

lemma Encrypt_fips:
  assumes key: "16 \<le> length key" and blk: "length block = 16"
  shows "Encrypt (ExpandKey key) block = fips_cipher key block"
proof -
  let ?k = "ExpandKey key"
  have k: "length ?k = 176" using key by simp
  have add: "AddRoundKey s (round_key ?k r) = fips_add_key s (fips_round_key key r)" if "r \<le> 10" for s r
    using round_key_fips [OF key that] by (simp add: AddRoundKey_def fips_add_key_def)
  have add0: "AddRoundKey s ?k = fips_add_key s (fips_round_key key 0)" for s
    using add [of 0 s] by (simp add: round_key_def)
  have st: "enc_state ?k block r = fold (\<lambda>r s. fips_add_key (fips_mix (fips_shift (fips_sub s))) (fips_round_key key r))
      [1..<Suc r] (fips_add_key block (fips_round_key key 0))" if "r < 10" for r
    using that
  proof (induction r)
    case 0
    show ?case by (simp add: enc_state_simps add0)
  next
    case (Suc r)
    have "length (enc_state ?k block r) = 16" using blk k Suc.prems by simp
    then have "enc_state ?k block (Suc r) =
        fips_add_key (fips_mix (fips_shift (fips_sub (enc_state ?k block r)))) (fips_round_key key (Suc r))"
      using Suc.prems by (simp add: enc_state_simps enc_round_def MixSub_fips add)
    with Suc show ?case by simp
  qed
  have "length (enc_state ?k block 9) = 16" using blk k by simp
  then have "enc_state ?k block 10 = fips_add_key (fips_shift (fips_sub (enc_state ?k block 9))) (fips_round_key key 10)"
    using enc_state_simps(2) [of ?k block 9] by (simp add: enc_round_def Shift_fips add)
  moreover have "Encrypt ?k block = enc_state ?k block 10" using blk by (simp add: Encrypt_def enc_state_def)
  ultimately show ?thesis using st [of 9] by (simp add: fips_cipher_def Let_def del: upt_Suc)
qed

section \<open>Properties\<close>

text \<open>Decrypting what AES_Encrypt wrote gives back the message, followed by the zeros that
  fill its last block, for every key of 16 bytes and every message the buffers of
  the code can hold.\<close>

theorem aes_roundtrip:
  assumes "length msg \<le> 1024" and "16 \<le> length key"
  shows "\<exists>c. AES_Encrypt key msg = Some c \<and> length c = aes_tmp_len (length msg) \<and>
    AES_Decrypt key c = Some (msg @ replicate (aes_tmp_len (length msg) - length msg) 0)"
  by (rule aes_run_roundtrip [OF assms])

theorem aes_roundtrip_witness:
  "\<exists>c. AES_Encrypt (replicate 16 7) (replicate 17 1) = Some c \<and> length c = 32 \<and>
    AES_Decrypt (replicate 16 7) c = Some (replicate 17 1 @ replicate 15 0)"
proof -
  have "aes_tmp_len (length (replicate 17 (1 :: u8))) = 32" by (simp add: aes_tmp_len_eq)
  moreover have "length (replicate 17 (1 :: u8)) \<le> 1024" "16 \<le> length (replicate 16 (7 :: u8))" by simp_all
  moreover have "32 - length (replicate 17 (1 :: u8)) = 15" by simp
  ultimately show ?thesis using aes_roundtrip [of "replicate 17 1" "replicate 16 7"] by metis
qed

text \<open>C11: the table-driven block encryption with the code's key schedule is the AES-128 of FIPS
  197, its substitution being the affine image of the inverse in the field, and Decrypt is its inverse.\<close>

theorem aes_is_fips197:
  assumes "16 \<le> length key" and "length block = 16"
  shows "Encrypt (ExpandKey key) block = fips_cipher key block \<and>
    Decrypt (ExpandKey key) (fips_cipher key block) = block \<and> (\<forall>x. sbox_rel x (tb Sbox x))"
proof -
  have "176 \<le> length (ExpandKey key)" using assms(1) by simp
  from Decrypt_Encrypt_block(1) [OF assms(2) this] Encrypt_fips [OF assms] Sbox_fips show ?thesis by simp
qed

theorem aes_is_fips197_witness:
  "Decrypt (ExpandKey (replicate 16 7)) (fips_cipher (replicate 16 7) (replicate 16 1)) = replicate 16 1"
  using aes_is_fips197 [of "replicate 16 7" "replicate 16 1"] by simp

end
