(* ===== verification/Crc.thy ===== *)
theory Crc
  imports Prelude
begin

text \<open>
  The two checksums: CRC-16-CCITT of crc16.c, byte by byte through a table of
  256 entries, and the reflected CRC-16 of t4_cmd.c, half a byte at a time
  through a table of 16.  The reference for both divides bit by bit; what a receiver relies on is proved
  once for every such machine.
\<close>

section \<open>The code\<close>

definition crc16_table :: "u32 list" where
  "crc16_table =
    [0x0000, 0x1021, 0x2042, 0x3063, 0x4084, 0x50A5, 0x60C6, 0x70E7,
     0x8108, 0x9129, 0xA14A, 0xB16B, 0xC18C, 0xD1AD, 0xE1CE, 0xF1EF,
     0x1231, 0x0210, 0x3273, 0x2252, 0x52B5, 0x4294, 0x72F7, 0x62D6,
     0x9339, 0x8318, 0xB37B, 0xA35A, 0xD3BD, 0xC39C, 0xF3FF, 0xE3DE,
     0x2462, 0x3443, 0x0420, 0x1401, 0x64E6, 0x74C7, 0x44A4, 0x5485,
     0xA56A, 0xB54B, 0x8528, 0x9509, 0xE5EE, 0xF5CF, 0xC5AC, 0xD58D,
     0x3653, 0x2672, 0x1611, 0x0630, 0x76D7, 0x66F6, 0x5695, 0x46B4,
     0xB75B, 0xA77A, 0x9719, 0x8738, 0xF7DF, 0xE7FE, 0xD79D, 0xC7BC,
     0x48C4, 0x58E5, 0x6886, 0x78A7, 0x0840, 0x1861, 0x2802, 0x3823,
     0xC9CC, 0xD9ED, 0xE98E, 0xF9AF, 0x8948, 0x9969, 0xA90A, 0xB92B,
     0x5AF5, 0x4AD4, 0x7AB7, 0x6A96, 0x1A71, 0x0A50, 0x3A33, 0x2A12,
     0xDBFD, 0xCBDC, 0xFBBF, 0xEB9E, 0x9B79, 0x8B58, 0xBB3B, 0xAB1A,
     0x6CA6, 0x7C87, 0x4CE4, 0x5CC5, 0x2C22, 0x3C03, 0x0C60, 0x1C41,
     0xEDAE, 0xFD8F, 0xCDEC, 0xDDCD, 0xAD2A, 0xBD0B, 0x8D68, 0x9D49,
     0x7E97, 0x6EB6, 0x5ED5, 0x4EF4, 0x3E13, 0x2E32, 0x1E51, 0x0E70,
     0xFF9F, 0xEFBE, 0xDFDD, 0xCFFC, 0xBF1B, 0xAF3A, 0x9F59, 0x8F78,
     0x9188, 0x81A9, 0xB1CA, 0xA1EB, 0xD10C, 0xC12D, 0xF14E, 0xE16F,
     0x1080, 0x00A1, 0x30C2, 0x20E3, 0x5004, 0x4025, 0x7046, 0x6067,
     0x83B9, 0x9398, 0xA3FB, 0xB3DA, 0xC33D, 0xD31C, 0xE37F, 0xF35E,
     0x02B1, 0x1290, 0x22F3, 0x32D2, 0x4235, 0x5214, 0x6277, 0x7256,
     0xB5EA, 0xA5CB, 0x95A8, 0x8589, 0xF56E, 0xE54F, 0xD52C, 0xC50D,
     0x34E2, 0x24C3, 0x14A0, 0x0481, 0x7466, 0x6447, 0x5424, 0x4405,
     0xA7DB, 0xB7FA, 0x8799, 0x97B8, 0xE75F, 0xF77E, 0xC71D, 0xD73C,
     0x26D3, 0x36F2, 0x0691, 0x16B0, 0x6657, 0x7676, 0x4615, 0x5634,
     0xD94C, 0xC96D, 0xF90E, 0xE92F, 0x99C8, 0x89E9, 0xB98A, 0xA9AB,
     0x5844, 0x4865, 0x7806, 0x6827, 0x18C0, 0x08E1, 0x3882, 0x28A3,
     0xCB7D, 0xDB5C, 0xEB3F, 0xFB1E, 0x8BF9, 0x9BD8, 0xABBB, 0xBB9A,
     0x4A75, 0x5A54, 0x6A37, 0x7A16, 0x0AF1, 0x1AD0, 0x2AB3, 0x3A92,
     0xFD2E, 0xED0F, 0xDD6C, 0xCD4D, 0xBDAA, 0xAD8B, 0x9DE8, 0x8DC9,
     0x7C26, 0x6C07, 0x5C64, 0x4C45, 0x3CA2, 0x2C83, 0x1CE0, 0x0CC1,
     0xEF1F, 0xFF3E, 0xCF5D, 0xDF7C, 0xAF9B, 0xBFBA, 0x8FD9, 0x9FF8,
     0x6E17, 0x7E36, 0x4E55, 0x5E74, 0x2E93, 0x3EB2, 0x0ED1, 0x1EF0]"

definition crc16_step :: "u16 \<Rightarrow> u8 \<Rightarrow> u16" where
  "crc16_step crc b = ucast (crc16_table ! unat ((drop_bit 8 (ucast crc :: u32) XOR ucast b) AND 0xFF) XOR
     push_bit 8 (ucast crc))"

text \<open>A length of zero or less reads nothing; the buffer holds \<open>len\<close> bytes otherwise.\<close>

definition crc16 :: "u8 list \<Rightarrow> u16" where
  "crc16 buffer = foldl crc16_step 0 buffer"

definition wCRCTalbeAbs :: "u16 list" where
  "wCRCTalbeAbs =
    [0x0000, 0xCC01, 0xD801, 0x1400, 0xF001, 0x3C00, 0x2800, 0xE401,
     0xA001, 0x6C00, 0x7800, 0xB401, 0x5000, 0x9C01, 0x8801, 0x4400]"

definition crc16_2_step :: "u16 \<Rightarrow> u8 \<Rightarrow> u16" where
  "crc16_2_step wCRC chChar =
     (let wCRC = wCRCTalbeAbs ! unat ((ucast chChar XOR wCRC) AND 15) XOR drop_bit 4 wCRC;
          wCRC = wCRCTalbeAbs ! unat ((ucast (drop_bit 4 chChar) XOR wCRC) AND 15) XOR drop_bit 4 wCRC
      in wCRC)"

definition CRC16_2 :: "u8 list \<Rightarrow> u16" where
  "CRC16_2 pchMsg = foldl crc16_2_step 0xFFFF pchMsg"

section \<open>Division bit by bit\<close>

definition shl :: "u16 \<Rightarrow> u16" where
  "shl c = push_bit 1 c XOR (if bit c 15 then 0x1021 else 0)"

definition shr :: "u16 \<Rightarrow> u16" where
  "shr c = drop_bit 1 c XOR (if bit c 0 then 0xA001 else 0)"

definition bitwise_l :: "u16 \<Rightarrow> u8 \<Rightarrow> u16" where
  "bitwise_l c b = (shl ^^ 8) (c XOR push_bit 8 (ucast b))"

definition bitwise_r :: "u16 \<Rightarrow> u8 \<Rightarrow> u16" where
  "bitwise_r c b = (shr ^^ 8) (c XOR ucast b)"

text \<open>Both shifts are linear and lose nothing.\<close>

lemma shl_xor: "shl (x XOR y) = shl x XOR shl y"
proof -
  have "bit (x XOR y) 15 = (bit x 15 \<noteq> bit y 15)" by (simp add: bit_xor_iff)
  moreover have "push_bit 1 (x XOR y) = push_bit 1 x XOR push_bit 1 y" by (simp add: push_bit_xor)
  ultimately show ?thesis by (auto simp: shl_def ac_simps)
qed

lemma shr_xor: "shr (x XOR y) = shr x XOR shr y"
proof -
  have "bit (x XOR y) 0 = (bit x 0 \<noteq> bit y 0)" by (simp only: bit_xor_iff)
  moreover have "drop_bit 1 (x XOR y) = drop_bit 1 x XOR drop_bit 1 y" by (simp only: drop_bit_xor)
  ultimately show ?thesis by (auto simp: shr_def ac_simps)
qed

lemma funpow_xor:
  fixes f :: "u16 \<Rightarrow> u16"
  assumes "\<And>x y. f (x XOR y) = f x XOR f y"
  shows "(f ^^ n) (x XOR y) = (f ^^ n) x XOR (f ^^ n) y"
  by (induction n) (simp_all add: assms)

lemma linear_inj:
  fixes f :: "u16 \<Rightarrow> u16"
  assumes "\<And>x y. f (x XOR y) = f x XOR f y" and "\<And>x. f x = 0 \<Longrightarrow> x = 0"
  shows "f x = f y \<longleftrightarrow> x = y"
proof
  assume "f x = f y"
  then have "f (x XOR y) = 0" by (simp add: assms(1))
  then have "x XOR y = 0" by (rule assms(2))
  moreover have "x = (x XOR y) XOR y" by (simp add: xor.assoc)
  ultimately show "x = y" by simp
qed simp

lemma shr_zero: "shr x = 0 \<Longrightarrow> x = 0"
proof -
  assume z: "shr x = 0"
  have "\<not> bit x 0"
  proof
    assume b: "bit x 0"
    with z have "drop_bit 1 x XOR 0xA001 = 0" by (simp add: shr_def)
    then have "bit (drop_bit 1 x XOR 0xA001) 15 = bit (0 :: u16) 15" by simp
    then have "bit x 16" by (simp add: bit_xor_iff bit_drop_bit_eq)
    moreover have "\<not> bit x 16" by (rule notI) (drule bit_imp_le_length, simp)
    ultimately show False by simp
  qed
  moreover from this z have "drop_bit 1 x = 0" by (simp add: shr_def)
  then have "\<not> bit x (Suc n)" for n
    using bit_drop_bit_eq [of 1 x] by (metis bit_0_eq bot_apply bot_bool_def comp_apply plus_1_eq_Suc)
  ultimately have "\<not> bit x n" for n by (cases n) simp_all
  then show "x = 0" by (simp add: bit_eq_iff)
qed

lemma shl_zero: "shl x = 0 \<Longrightarrow> x = 0"
proof -
  assume z: "shl x = 0"
  have "\<not> bit x 15"
  proof
    assume b: "bit x 15"
    with z have "push_bit 1 x XOR 0x1021 = 0" by (simp add: shl_def)
    then have "bit (push_bit 1 x XOR 0x1021) 0 = bit (0 :: u16) 0" by simp
    moreover have "bit (push_bit 1 x) 0 = False" by (simp only: bit_push_bit_iff) simp
    moreover have "bit (0x1021 :: u16) 0" by simp
    ultimately show False by (simp only: bit_xor_iff bit_0_eq) simp
  qed
  moreover from this z have "push_bit 1 x = 0" by (simp add: shl_def)
  then have "\<not> bit (push_bit 1 x) (Suc n)" for n by (simp only: bit_0_eq) simp
  then have "\<not> (1 \<le> Suc n \<and> possible_bit TYPE(u16) (Suc n) \<and> bit x (Suc n - 1))" for n
    by (simp only: bit_push_bit_iff) simp
  then have "\<not> bit x n" if "n < 15" for n using that by simp
  moreover have "\<not> bit x n" if "15 < n" for n using that bit_imp_le_length [of x n] by auto
  ultimately have "\<not> bit x n" for n by (metis linorder_neqE_nat)
  then show "x = 0" by (simp add: bit_eq_iff)
qed

lemma pow_inj:
  fixes f :: "u16 \<Rightarrow> u16"
  assumes "\<And>x y. f x = f y \<longleftrightarrow> x = y"
  shows "(f ^^ n) x = (f ^^ n) y \<longleftrightarrow> x = y"
  by (induction n) (simp_all add: assms)

lemmas shl_inj = linear_inj [of shl, OF shl_xor shl_zero]
lemmas shr_inj = linear_inj [of shr, OF shr_xor shr_zero]

section \<open>The tables\<close>

lemma shl8_low: "(shl ^^ 8) (ucast (c :: u8)) = push_bit 8 (ucast c)"
proof -
  have step: "shl (push_bit n (ucast c)) = push_bit (Suc n) (ucast c)" if "n < 8" for n
  proof -
    have "\<not> bit (push_bit n (ucast c) :: u16) 15"
      using that bit_imp_le_length [of c "15 - n"] by (auto simp: bit_push_bit_iff bit_ucast_iff)
    then show ?thesis by (simp only: shl_def if_False xor.right_neutral push_bit_push_bit) simp
  qed
  have "(shl ^^ n) (ucast c) = push_bit n (ucast c)" if "n \<le> 8" for n
    using that
  proof (induction n)
    case (Suc n)
    then have "(shl ^^ Suc n) (ucast c) = shl (push_bit n (ucast c))" by simp
    also have "\<dots> = push_bit (Suc n) (ucast c)" using Suc.prems by (intro step) simp
    finally show ?case .
  qed simp
  then show ?thesis by simp
qed

lemma pow8: "(f ^^ 8) x = f (f (f (f (f (f (f (f x)))))))" and pow4: "(f ^^ 4) x = f (f (f (f x)))"
  by (simp_all add: eval_nat_numeral)

lemma crc16_table_eq: "crc16_table = map (\<lambda>b. ucast ((shl ^^ 8) (push_bit 8 (ucast b)))) bytes"
  unfolding crc16_table_def bytes_def list.map pow8 by (simp add: shl_def)

lemma split_u16: "(c :: u16) = push_bit 8 (ucast (ucast (drop_bit 8 c) :: u8)) XOR ucast (ucast c :: u8)"
  by (rule bit_word_eqI) (auto simp: bit_simps)

lemma crc16_step_bitwise: "crc16_step c b = bitwise_l c b"
proof -
  let ?i = "ucast (drop_bit 8 c) XOR b :: u8"
  have "unat ((drop_bit 8 (ucast c :: u32) XOR ucast b) AND 0xFF) = unat ?i"
  proof -
    have "(drop_bit 8 (ucast c :: u32) XOR ucast b) AND mask 8 = ucast ?i"
      by (rule bit_word_eqI) (auto simp: bit_simps dest: bit_imp_le_length)
    moreover have "(0xFF :: u32) = mask 8" by (simp add: mask_eq_exp_minus_1)
    ultimately show ?thesis by (simp add: unat_ucast_up)
  qed
  then have "crc16_step c b = ucast (tb crc16_table ?i XOR push_bit 8 (ucast c))"
    by (simp only: crc16_step_def tb_def)
  also have "tb crc16_table ?i = ucast ((shl ^^ 8) (push_bit 8 (ucast ?i)))"
    unfolding crc16_table_eq by (rule tb_map)
  also have "ucast (ucast ((shl ^^ 8) (push_bit 8 (ucast ?i))) XOR push_bit 8 (ucast c) :: u32) =
      (shl ^^ 8) (push_bit 8 (ucast ?i)) XOR push_bit 8 (ucast (ucast c :: u8))"
    by (rule bit_word_eqI) (auto simp: bit_simps)
  also have "push_bit 8 (ucast (ucast c :: u8)) = (shl ^^ 8) (ucast (ucast c :: u8))"
    by (rule shl8_low [symmetric])
  also have "(shl ^^ 8) (push_bit 8 (ucast ?i)) XOR (shl ^^ 8) (ucast (ucast c :: u8)) =
      (shl ^^ 8) (push_bit 8 (ucast ?i) XOR ucast (ucast c :: u8))"
    by (rule funpow_xor [OF shl_xor, symmetric])
  also have "push_bit 8 (ucast ?i) XOR ucast (ucast c :: u8) = c XOR push_bit 8 (ucast b)"
    by (rule bit_word_eqI) (auto simp: bit_simps)
  finally show ?thesis by (simp add: bitwise_l_def)
qed

lemma nibble_table: "n < 16 \<Longrightarrow> wCRCTalbeAbs ! n = (shr ^^ 4) (word_of_nat n)"
proof -
  assume n: "n < 16"
  have "map word_of_nat [0..<16] = [0, 1, 2, 3, 4, 5, 6, 7, 8, 9, 10, 11, 12, 13, 14, 15 :: u16]"
    by (simp add: upt_rec)
  then have "wCRCTalbeAbs = map (shr ^^ 4) (map word_of_nat [0..<16])"
    unfolding wCRCTalbeAbs_def by (simp add: pow4 shr_def)
  then have "wCRCTalbeAbs ! n = map (shr ^^ 4) (map word_of_nat [0..<16]) ! n" by (simp only:)
  also have "map (shr ^^ 4) (map word_of_nat [0..<16]) ! n = (shr ^^ 4) (word_of_nat n)"
    using n by (subst nth_map) simp_all
  finally show ?thesis .
qed

lemma shr_push:
  fixes y :: u16
  assumes "n \<le> k" and "\<And>j. bit y j \<Longrightarrow> j + k < 16"
  shows "(shr ^^ n) (push_bit k y) = push_bit (k - n) y"
  using assms(1)
proof (induction n)
  case (Suc n)
  then have "(shr ^^ Suc n) (push_bit k y) = shr (push_bit (k - n) y)" by simp
  also have "\<dots> = drop_bit 1 (push_bit (k - n) y)"
    using Suc.prems by (simp only: shr_def bit_push_bit_iff) simp
  also have "\<dots> = push_bit (k - Suc n) y"
  proof (rule bit_word_eqI)
    fix i assume "i < LENGTH(16)"
    then show "bit (drop_bit 1 (push_bit (k - n) y)) i = bit (push_bit (k - Suc n) y) i"
      using Suc.prems assms(2) by (fastforce simp: bit_simps)
  qed
  finally show ?case .
qed simp

lemma shr4_split: "(shr ^^ 4) x = wCRCTalbeAbs ! unat (x AND 15) XOR drop_bit 4 x"
proof -
  have low: "unat (x AND 15) < 16"
  proof -
    have "x AND 15 \<le> 15" by (simp add: word_and_le1 word_and_le2)
    then show ?thesis by (simp add: word_le_nat_alt)
  qed
  have x: "x = (x AND 15) XOR push_bit 4 (drop_bit 4 x)"
  proof -
    have "x = (x AND mask 4) XOR push_bit 4 (drop_bit 4 x)" by (rule bit_word_eqI) (auto simp: bit_simps)
    then show ?thesis by (simp add: mask_eq_exp_minus_1)
  qed
  have "(shr ^^ 4) x = (shr ^^ 4) (x AND 15) XOR (shr ^^ 4) (push_bit 4 (drop_bit 4 x))"
    by (subst x) (rule funpow_xor [OF shr_xor])
  also have "(shr ^^ 4) (push_bit 4 (drop_bit 4 x)) = drop_bit 4 x"
  proof -
    have "j + 4 < 16" if "bit (drop_bit 4 x) j" for j
      using that bit_imp_le_length [of x "4 + j"] by (simp add: bit_drop_bit_eq)
    from shr_push [OF order_refl this] show ?thesis by simp
  qed
  also have "(shr ^^ 4) (x AND 15) = wCRCTalbeAbs ! unat (x AND 15)"
    using nibble_table [OF low] by simp
  finally show ?thesis .
qed

lemma crc16_2_step_bitwise: "crc16_2_step c b = bitwise_r c b"
proof -
  let ?x = "c XOR ucast b"
  let ?w = "wCRCTalbeAbs ! unat ((ucast b XOR c) AND 15) XOR drop_bit 4 c"
  have "(shr ^^ 4) ?x = ?w XOR drop_bit 4 (ucast b)"
    by (simp add: shr4_split drop_bit_xor ac_simps)
  also have "drop_bit 4 (ucast b) = (ucast (drop_bit 4 b) :: u16)"
    by (rule bit_word_eqI) (auto simp: bit_simps dest: bit_imp_le_length)
  finally have one: "(shr ^^ 4) ?x = ?w XOR ucast (drop_bit 4 b)" .
  have "(shr ^^ 8) ?x = (shr ^^ 4) ((shr ^^ 4) ?x)" by (simp only: pow8 pow4)
  also have "\<dots> = wCRCTalbeAbs ! unat ((ucast (drop_bit 4 b) XOR ?w) AND 15) XOR drop_bit 4 (?w XOR ucast (drop_bit 4 b))"
    unfolding one by (subst shr4_split) (simp only: xor.commute)
  also have "drop_bit 4 (?w XOR ucast (drop_bit 4 b)) = drop_bit 4 ?w"
    unfolding drop_bit_xor by (rule bit_word_eqI) (auto simp: bit_simps dest: bit_imp_le_length)
  finally show ?thesis by (simp add: bitwise_r_def crc16_2_step_def Let_def)
qed

section \<open>Interface: a checksum by bytes\<close>

text \<open>
  \<open>seal c\<close> are the bytes that a sender appends when the checksum of the rest is \<open>c\<close>.
\<close>

locale checksum =
  fixes step :: "u16 \<Rightarrow> u8 \<Rightarrow> u16" and seal :: "u16 \<Rightarrow> u8 list" and init :: u16
  assumes step_state: "step c b = step d b \<longleftrightarrow> c = d"
    and step_byte: "step c a = step c b \<longleftrightarrow> a = b"
    and seal_zero: "foldl step c (seal c) = 0"
begin

lemma state_inj: "foldl step c xs = foldl step d xs \<longleftrightarrow> c = d"
  by (induction xs arbitrary: c d) (simp_all add: step_state)

text \<open>A changed byte always shows.\<close>

lemma detects_byte: "a \<noteq> b \<Longrightarrow> foldl step init (xs @ a # ys) \<noteq> foldl step init (xs @ b # ys)"
  by (simp add: state_inj step_byte)

text \<open>A sealed message divides to zero, and the seal is the only pair of bytes that does.\<close>

lemma sealed: "foldl step init (xs @ seal (foldl step init xs)) = 0"
  by (simp add: seal_zero)

end

lemma xor_right_inj: "x XOR z = y XOR z \<longleftrightarrow> x = (y :: 'a::len word)"
proof
  assume "x XOR z = y XOR z"
  then have "(x XOR z) XOR z = (y XOR z) XOR z" by (rule arg_cong)
  then show "x = y" by (simp add: xor.assoc)
qed simp

lemma ucast_u8_inj: "ucast a = (ucast b :: u16) \<longleftrightarrow> a = (b :: u8)"
  by (simp add: word_unat_eq_iff unat_ucast_up)

lemma push8_inj: "push_bit 8 (ucast a) = (push_bit 8 (ucast b) :: u16) \<longleftrightarrow> a = (b :: u8)"
proof
  assume "push_bit 8 (ucast a) = (push_bit 8 (ucast b) :: u16)"
  then have "drop_bit 8 (push_bit 8 (ucast a) :: u16) = drop_bit 8 (push_bit 8 (ucast b))" by (rule arg_cong)
  moreover have "drop_bit 8 (push_bit 8 (ucast c) :: u16) = ucast c" for c :: u8
    by (rule bit_word_eqI) (auto simp: bit_simps dest: bit_imp_le_length)
  ultimately show "a = b" by (simp add: ucast_u8_inj)
qed simp

definition seal_l :: "u16 \<Rightarrow> u8 list" where
  "seal_l c = [ucast (drop_bit 8 c), ucast c]"

definition seal_r :: "u16 \<Rightarrow> u8 list" where
  "seal_r c = [ucast c, ucast (drop_bit 8 c)]"

lemma crc16_seal: "foldl crc16_step c (seal_l c) = 0"
proof -
  have "crc16_step c (ucast (drop_bit 8 c)) = push_bit 8 (ucast (ucast c :: u8))"
  proof -
    have "c XOR push_bit 8 (ucast (ucast (drop_bit 8 c) :: u8)) = ucast (ucast c :: u8)"
      by (rule bit_word_eqI) (auto simp: bit_simps)
    then show ?thesis by (simp only: crc16_step_bitwise bitwise_l_def shl8_low)
  qed
  moreover have "crc16_step (push_bit 8 (ucast (ucast c :: u8))) (ucast c) = 0"
    by (simp add: crc16_step_bitwise bitwise_l_def pow8 shl_def)
  ultimately show ?thesis by (simp add: seal_l_def)
qed

lemma crc16_2_seal: "foldl crc16_2_step c (seal_r c) = 0"
proof -
  let ?h = "ucast (ucast (drop_bit 8 c) :: u8) :: u16"
  have "crc16_2_step c (ucast c) = ?h"
  proof -
    have "c XOR ucast (ucast c :: u8) = push_bit 8 ?h"
      by (rule bit_word_eqI) (auto simp: bit_simps)
    moreover have "(shr ^^ 8) (push_bit 8 ?h) = push_bit (8 - 8) ?h"
      by (rule shr_push) (auto simp: bit_simps)
    ultimately show ?thesis by (simp add: crc16_2_step_bitwise bitwise_r_def)
  qed
  moreover have "crc16_2_step ?h (ucast (drop_bit 8 c)) = 0"
    by (simp add: crc16_2_step_bitwise bitwise_r_def pow8 shr_def)
  ultimately show ?thesis by (simp add: seal_r_def)
qed

interpretation crc_l: checksum crc16_step seal_l 0
proof unfold_locales
  show "crc16_step c b = crc16_step d b \<longleftrightarrow> c = d" for c d b
    by (simp add: crc16_step_bitwise bitwise_l_def pow_inj [OF shl_inj] xor_right_inj)
  show "crc16_step c a = crc16_step c b \<longleftrightarrow> a = b" for c a b
    by (simp add: crc16_step_bitwise bitwise_l_def pow_inj [OF shl_inj] xor_right_inj push8_inj xor.commute [of c])
  show "foldl crc16_step c (seal_l c) = 0" for c by (rule crc16_seal)
qed

interpretation crc_r: checksum crc16_2_step seal_r "0xFFFF"
proof unfold_locales
  show "crc16_2_step c b = crc16_2_step d b \<longleftrightarrow> c = d" for c d b
    by (simp add: crc16_2_step_bitwise bitwise_r_def pow_inj [OF shr_inj] xor_right_inj)
  show "crc16_2_step c a = crc16_2_step c b \<longleftrightarrow> a = b" for c a b
    by (simp add: crc16_2_step_bitwise bitwise_r_def pow_inj [OF shr_inj] xor_right_inj ucast_u8_inj xor.commute [of c])
  show "foldl crc16_2_step c (seal_r c) = 0" for c by (rule crc16_2_seal)
qed

section \<open>Properties\<close>

text \<open>C32: both table-driven checksums are the division by their polynomial, one bit at a time;
  a message followed by its checksum divides to zero, and no change of a single byte goes
  unnoticed.\<close>

theorem checksums_correct:
  "crc16 msg = foldl bitwise_l 0 msg \<and> CRC16_2 msg = foldl bitwise_r 0xFFFF msg \<and>
   crc16 (msg @ seal_l (crc16 msg)) = 0 \<and> CRC16_2 (msg @ seal_r (CRC16_2 msg)) = 0 \<and>
   (a \<noteq> b \<longrightarrow> crc16 (xs @ a # ys) \<noteq> crc16 (xs @ b # ys) \<and> CRC16_2 (xs @ a # ys) \<noteq> CRC16_2 (xs @ b # ys))"
proof -
  have "crc16_step = bitwise_l" "crc16_2_step = bitwise_r"
    by (intro ext crc16_step_bitwise crc16_2_step_bitwise)+
  then have "crc16 msg = foldl bitwise_l 0 msg" "CRC16_2 msg = foldl bitwise_r 0xFFFF msg"
    by (simp_all add: crc16_def CRC16_2_def)
  then show ?thesis
    using crc_l.sealed [of msg] crc_r.sealed [of msg] crc_l.detects_byte [of a b xs ys] crc_r.detects_byte [of a b xs ys]
    unfolding crc16_def CRC16_2_def by blast
qed

theorem checksums_correct_witness:
  "crc16 ([1, 2] @ 3 # [4]) \<noteq> crc16 ([1, 2] @ 5 # [4]) \<and> CRC16_2 ([1, 2] @ 3 # [4]) \<noteq> CRC16_2 ([1, 2] @ 5 # [4])"
proof -
  have "(3 :: u8) \<noteq> 5" by simp
  with checksums_correct [of "[]" 3 5 "[1, 2]" "[4]"] show ?thesis by blast
qed

end
