(* ===== verification/T4Config.thy ===== *)
theory T4Config
  imports Hexcode AesT4
begin

text \<open>
  The configuration file of the T4 miner (t4_common.c): a line with a number, then nine lines with the address, user and
  password of three pools, each encrypted and written in hexadecimal; and the file that names the hardware.  A
  \<open>char\<close> is the byte it is stored in; reading in front of a buffer or past its end is an error of the model.
\<close>

section \<open>The code\<close>

datatype cfg_err = BeforeBuffer | PastBuffer | NullKey

text \<open>Keys are kept with every character moved by three.  \<open>malloc_ok\<close> says whether the 512 bytes could be allocated.\<close>

definition shifted :: "(u8 \<Rightarrow> u8) \<Rightarrow> bool \<Rightarrow> u8 list \<Rightarrow> nat \<Rightarrow> cfg_err + u8 list option" where
  "shifted f malloc_ok arg len =
     (if \<not> malloc_ok then Inr None
      else if len > 512 \<or> len > length arg then Inl PastBuffer
      else Inr (Some (mem_write 0 (map f (take len arg)) (replicate 512 0))))"

definition mcompat_arg_printd :: "bool \<Rightarrow> u8 list \<Rightarrow> nat \<Rightarrow> cfg_err + u8 list option" where
  "mcompat_arg_printd = shifted (\<lambda>c. c - 3)"

definition mcompat_arg_printe :: "bool \<Rightarrow> u8 list \<Rightarrow> nat \<Rightarrow> cfg_err + u8 list option" where
  "mcompat_arg_printe = shifted (\<lambda>c. c + 3)"

text \<open>Any other character counts as zero.\<close>

definition char_bcd2hex :: "u8 \<Rightarrow> u8" where
  "char_bcd2hex bcd =
     (if 48 \<le> bcd \<and> bcd \<le> 57 then bcd - 48
      else if 65 \<le> bcd \<and> bcd \<le> 70 then bcd - 65 + 10
      else if 97 \<le> bcd \<and> bcd \<le> 102 then bcd - 97 + 10
      else 0)"

fun bcd_pairs :: "u8 list \<Rightarrow> u8 list" where
  "bcd_pairs (a # b # s) =
     ((push_bit 4 (char_bcd2hex a) AND 0xf0) + (char_bcd2hex b AND 0x0f)) # bcd_pairs s"
| "bcd_pairs _ = []"

text \<open>
  The string without its line end.  The two tests look at the last two characters first, whatever the length.  The result
  is what is written; its length is what the function returns.
\<close>

definition str_bcd2hex :: "cstr \<Rightarrow> cfg_err + u8 list" where
  "str_bcd2hex bcd =
     (let len = length bcd in
      if len < 2 then Inl BeforeBuffer
      else
        let len = (if bcd ! (len - 2) = 0x0d \<and> bcd ! (len - 1) = 0x0a then len - 2
                   else if bcd ! (len - 1) = 0x0a \<or> bcd ! (len - 1) = 0x0d then len - 1 else len)
        in if odd len then Inr [] else Inr (bcd_pairs (take len bcd)))"

text \<open>\<open>fgets\<close> of the C library: up to and with the line end, but at most \<open>n - 1\<close> bytes.\<close>

definition fgets_len :: "nat \<Rightarrow> u8 list \<Rightarrow> nat" where
  "fgets_len n s = min (Suc (length (takeWhile (\<lambda>c. c \<noteq> 10) s))) (n - 1)"

function fgets_lines :: "u8 list \<Rightarrow> u8 list list" where
  "fgets_lines s = (if s = [] then [] else take (fgets_len 512 s) s # fgets_lines (drop (fgets_len 512 s) s))"
  by pat_completeness auto
termination by (relation "measure length") (auto simp: fgets_len_def)

declare fgets_lines.simps [simp del]

record pool_config =
  pool_url :: "u8 list"
  pool_user :: "u8 list"
  pool_pass :: "u8 list"

text \<open>\<open>memcpy\<close> without the terminating zero: the fields are cleared beforehand.\<close>

definition set_field :: "nat \<Rightarrow> cstr \<Rightarrow> pool_config \<Rightarrow> pool_config" where
  "set_field line s p =
     (if line \<in> {2, 5, 8} then p\<lparr>pool_url := mem_write 0 s (pool_url p)\<rparr>
      else if line \<in> {3, 6, 9} then p\<lparr>pool_user := mem_write 0 s (pool_user p)\<rparr>
      else if line \<in> {4, 7, 10} then p\<lparr>pool_pass := mem_write 0 s (pool_pass p)\<rparr>
      else p)"

text \<open>The body of the loop for line number \<open>line\<close>; \<open>strlen\<close> runs past \<open>str2\<close> when that holds no zero.\<close>

definition config_line :: "u8 list option \<Rightarrow> nat \<Rightarrow> u8 list \<Rightarrow> pool_config list \<Rightarrow> cfg_err + pool_config list" where
  "config_line strkey line s ps =
     (if line = 1 \<or> line > 10 then Inr ps
      else bindR (str_bcd2hex (cstr_of s)) (\<lambda>str1.
      case strkey of None \<Rightarrow> Inl NullKey
      | Some k \<Rightarrow> (case AES_Decrypt k str1 of None \<Rightarrow> Inl PastBuffer
          | Some out \<Rightarrow>
              let str2 = mem_write 0 out (replicate 256 0) in
              if 0 \<notin> set str2 then Inl PastBuffer
              else Inr (let i = (line - 2) div 3 in ps[i := set_field line (cstr_of str2) (ps ! i)]))))"

fun config_lines :: "u8 list option \<Rightarrow> nat \<Rightarrow> u8 list list \<Rightarrow> pool_config list \<Rightarrow> cfg_err + pool_config list" where
  "config_lines strkey line [] ps = Inr ps"
| "config_lines strkey line (s # ls) ps =
     bindR (config_line strkey (line + 1) s ps) (config_lines strkey (line + 1) ls)"

definition config_key :: "u8 list" where
  "config_key = bytes_of ''NTBO^pac./01WU@S''"

definition empty_config :: pool_config where
  "empty_config = \<lparr>pool_url = replicate 512 0, pool_user = replicate 512 0, pool_pass = replicate 512 0\<rparr>"

text \<open>\<open>file\<close> is what the file holds, if it can be opened; the answer is -1 or 0 with the contents of \<open>g_pool_run\<close>.\<close>

definition read_cgminer_config :: "bool \<Rightarrow> u8 list option \<Rightarrow> cfg_err + (int \<times> pool_config list)" where
  "read_cgminer_config malloc_ok file =
     (let g_pool_run = replicate 3 empty_config in
      case file of None \<Rightarrow> Inr (- 1, g_pool_run)
      | Some f \<Rightarrow>
          bindR (mcompat_arg_printe malloc_ok config_key 16) (\<lambda>strkey.
          bindR (config_lines strkey 0 (fgets_lines f) g_pool_run) (\<lambda>ps. Inr (0, ps))))"

datatype hardware_version_e = HARDWARE_VERSION_NONE | HARDWARE_VERSION_G9 | HARDWARE_VERSION_G19 | HARDWARE_VERSION_SOC

definition strstr_found :: "cstr \<Rightarrow> cstr \<Rightarrow> bool" where
  "strstr_found hay needle = list_ex (\<lambda>i. take (length needle) (drop i hay) = needle) [0..<Suc (length hay)]"

definition inno_get_hwver :: "u8 list option \<Rightarrow> hardware_version_e" where
  "inno_get_hwver file =
     (case file of None \<Rightarrow> HARDWARE_VERSION_G19
      | Some f \<Rightarrow>
          let buffer = cstr_of (mem_write 0 (take 8 f) (replicate 64 0)) in
          if strstr_found buffer (bytes_of ''G9'') then HARDWARE_VERSION_G9
          else if strstr_found buffer (bytes_of ''G19'') then HARDWARE_VERSION_G19
          else if strstr_found buffer (bytes_of ''SOC'') then HARDWARE_VERSION_SOC
          else HARDWARE_VERSION_NONE)"

section \<open>Reading what was written\<close>

text \<open>The key in clear, and the file the configuration tool writes.\<close>

definition plain_key :: "u8 list" where
  "plain_key = bytes_of ''QWERasdf1234ZXCV''"

definition cipher_text :: "cstr \<Rightarrow> u8 list" where
  "cipher_text s = (case AES_Encrypt plain_key s of Some c \<Rightarrow> c | None \<Rightarrow> [])"

definition config_file :: "u8 list \<Rightarrow> u8 list \<Rightarrow> cstr list \<Rightarrow> u8 list" where
  "config_file no eol ss = no @ [10] @ concat (map (\<lambda>s. hex_text (cipher_text s) @ eol) ss)"

definition entry_ok :: "cstr \<Rightarrow> bool" where
  "entry_ok s \<longleftrightarrow> s \<noteq> [] \<and> length s \<le> 240 \<and> 0 \<notin> set s"

lemma mem_write_zeros: "mem_write 0 xs (replicate n (0 :: u8)) = xs @ replicate (n - length xs) 0"
  by (simp add: mem_write_def)

lemma config_key_plain: "mcompat_arg_printe True config_key 16 = Inr (Some (plain_key @ replicate 496 0))"
proof -
  have "map (\<lambda>c. c + 3) (take 16 config_key) = plain_key" "length config_key = 16" "length plain_key = 16" by code_simp+
  then show ?thesis by (simp add: mcompat_arg_printe_def shifted_def mem_write_zeros)
qed

lemma aes_key_take: "AES_Decrypt (plain_key @ ks) = AES_Decrypt plain_key"
proof -
  have "length plain_key = 16" by code_simp
  then have "ExpandKey (plain_key @ ks) = ExpandKey plain_key" by (simp add: ExpandKey_def)
  then show ?thesis by (simp only: AES_Decrypt_def aes_run_def fun_eq_iff Let_def) simp
qed

lemma hex_nibble: "n < 16 \<Longrightarrow> char_bcd2hex (hex_chars ! n) = of_nat n"
proof -
  have "list_all (\<lambda>n. char_bcd2hex (hex_chars ! n) = of_nat n) [0..<16]" by code_simp
  then show "n < 16 \<Longrightarrow> char_bcd2hex (hex_chars ! n) = of_nat n" by (simp add: list_all_iff)
qed

lemma nibbles_add: "(push_bit 4 (drop_bit 4 b) AND 240) + (b AND 15) = (b :: u8)"
proof -
  have "list_all (\<lambda>b. (push_bit 4 (drop_bit 4 b) AND 240) + (b AND 15) = b) bytes" by code_simp
  then have "(push_bit 4 (drop_bit 4 (tb bytes b)) AND 240) + (tb bytes b AND 15) = tb bytes b"
    unfolding list_all_iff tb_def by (rule nth_in_set_if [rotated]) simp
  then show ?thesis by (simp only: bytes_tb)
qed

lemma bcd_pairs_hex_text: "bcd_pairs (hex_text p) = p"
  by (induction p) (simp_all add: hex_nibble nibble_hi_less nibble_lo_less nibbles_add)

lemma hex_chars_no_eol: "n < 16 \<Longrightarrow> hex_chars ! n \<noteq> 10" "n < 16 \<Longrightarrow> hex_chars ! n \<noteq> 13"
proof -
  have "list_all (\<lambda>n. hex_chars ! n \<noteq> 10 \<and> hex_chars ! n \<noteq> 13) [0..<16]" by code_simp
  then show "n < 16 \<Longrightarrow> hex_chars ! n \<noteq> 10" "n < 16 \<Longrightarrow> hex_chars ! n \<noteq> 13" by (simp_all add: list_all_iff)
qed

lemma hex_text_no_eol: "10 \<notin> set (hex_text p)" "13 \<notin> set (hex_text p)"
  by (induction p; simp add: hex_chars_no_eol nibble_hi_less nibble_lo_less not_sym)+


lemma str_bcd2hex_line:
  assumes "c \<noteq> []" and "eol = [10] \<or> eol = [13, 10]"
  shows "str_bcd2hex (hex_text c @ eol) = Inr c"
proof -
  have l: "2 \<le> length (hex_text c)" using assms(1) by (cases c) simp_all
  then have "hex_text c ! (length (hex_text c) - 1) \<in> set (hex_text c)" by (intro nth_mem) simp
  then have "hex_text c ! (2 * length c - 1) \<noteq> 13" using hex_text_no_eol(2) [of c] by (metis length_hex_text)
  with assms l show ?thesis
    by (auto simp: str_bcd2hex_def Let_def nth_append bcd_pairs_hex_text)
qed

lemma cipher_text_ok:
  assumes "entry_ok s"
  shows "cipher_text s \<noteq> []" "length (cipher_text s) \<le> 240"
    "AES_Decrypt plain_key (cipher_text s) = Some (s @ replicate (length (cipher_text s) - length s) 0)"
proof -
  have key: "16 \<le> length plain_key" by code_simp
  have len: "length s \<le> 1024" "1 \<le> length s" "length s \<le> 240" using assms by (cases s; simp add: entry_ok_def)+
  obtain c where c: "AES_Encrypt plain_key s = Some c" "length c = aes_tmp_len (length s)"
      "AES_Decrypt plain_key c = Some (s @ replicate (aes_tmp_len (length s) - length s) 0)"
    using aes_run_roundtrip [OF len(1) key] by blast
  have "aes_tmp_len (length s) = 16 * ((length s + 15) div 16)" using len(1) by (rule aes_tmp_len_eq)
  moreover have "1 \<le> (length s + 15) div 16" "(length s + 15) div 16 \<le> 15" using len(2,3) by simp_all
  ultimately have "1 \<le> length c" "length c \<le> 240" using c(2) by simp_all
  moreover have "cipher_text s = c" using c(1) by (simp add: cipher_text_def)
  ultimately show "cipher_text s \<noteq> []" "length (cipher_text s) \<le> 240"
    "AES_Decrypt plain_key (cipher_text s) = Some (s @ replicate (length (cipher_text s) - length s) 0)" using c(2,3) by auto
qed

lemma config_line_ok:
  assumes ok: "entry_ok s" and eol: "eol = [10] \<or> eol = [13, 10]" and line: "line \<noteq> 1" "line \<le> 10"
  shows "config_line (Some (plain_key @ ks)) line (hex_text (cipher_text s) @ eol) ps =
    Inr (let i = (line - 2) div 3 in ps[i := set_field line s (ps ! i)])"
proof -
  note c = cipher_text_ok [OF ok]
  have "0 \<notin> set (hex_text (cipher_text s) @ eol)" using hex_text_nonzero [of "cipher_text s"] eol by auto
  then have "cstr_of (hex_text (cipher_text s) @ eol) = hex_text (cipher_text s) @ eol" unfolding cstr_of_def by (intro takeWhile_eq_all_conv [THEN iffD2]) metis
  then have bin: "str_bcd2hex (cstr_of (hex_text (cipher_text s) @ eol)) = Inr (cipher_text s)" using str_bcd2hex_line [OF c(1) eol] by simp
  obtain n where n: "mem_write 0 (s @ replicate (length (cipher_text s) - length s) 0) (replicate 256 0) = s @ 0 # replicate n (0 :: u8)"
  proof -
    have "length s \<le> 255" using ok by (simp add: entry_ok_def)
    then have "256 - length s = Suc (255 - length s)" by arith
    moreover have "length s + (length (cipher_text s) - length s) \<le> 256" using c(2) ok unfolding entry_ok_def by arith
    ultimately show thesis using that [of "255 - length s"]
      by (simp add: mem_write_zeros replicate_add [symmetric] flip: replicate_Suc)
  qed
  have "0 \<notin> set s" using ok by (simp add: entry_ok_def)
  then show ?thesis using line bin by (simp add: config_line_def aes_key_take c(3) n cstr_of_nul Let_def)
qed

lemma fgets_lines_line:
  assumes "10 \<notin> set xs" and "length xs \<le> 510"
  shows "fgets_lines (xs @ 10 # rest) = (xs @ [10]) # fgets_lines rest"
proof -
  have "takeWhile (\<lambda>c. c \<noteq> 10) (xs @ 10 # rest) = xs" using assms(1) by (simp add: takeWhile_append)
  then have "fgets_len 512 (xs @ 10 # rest) = Suc (length xs)" using assms(2) by (simp add: fgets_len_def)
  then show ?thesis by (subst fgets_lines.simps) simp
qed

fun put_entries :: "nat \<Rightarrow> cstr list \<Rightarrow> pool_config list \<Rightarrow> pool_config list" where
  "put_entries n [] ps = ps"
| "put_entries n (s # ss) ps =
     put_entries (n + 1) ss (let i = (n + 1 - 2) div 3 in ps[i := set_field (n + 1) s (ps ! i)])"

lemma config_lines_entries:
  assumes "eol = [10] \<or> eol = [13, 10]" and "\<forall>s \<in> set ss. entry_ok s" and "1 \<le> n" and "n + length ss \<le> 10"
  shows "config_lines (Some (plain_key @ ks)) n (map (\<lambda>s. hex_text (cipher_text s) @ eol) ss @ ls) ps =
    config_lines (Some (plain_key @ ks)) (n + length ss) ls (put_entries n ss ps)"
  using assms(2-) by (induction ss arbitrary: n ps) (simp_all add: config_line_ok [OF _ assms(1)])

lemma config_lines_rest: "10 \<le> n \<Longrightarrow> config_lines k n ls ps = Inr ps"
  by (induction ls arbitrary: n) (simp_all add: config_line_def)

lemma fgets_entries:
  assumes eol: "eol = [10] \<or> eol = [13, 10]" and "\<forall>s \<in> set ss. entry_ok s"
  shows "fgets_lines (concat (map (\<lambda>s. hex_text (cipher_text s) @ eol) ss) @ rest) =
    map (\<lambda>s. hex_text (cipher_text s) @ eol) ss @ fgets_lines rest"
  using assms(2)
proof (induction ss)
  case (Cons s ss)
  obtain xs where xs: "hex_text (cipher_text s) @ eol = xs @ [10]" "10 \<notin> set xs" "length xs \<le> 510"
  proof -
    have "length (hex_text (cipher_text s) @ [13]) \<le> 510" using cipher_text_ok(2) [of s] Cons.prems by simp
    with eol show thesis using that [of "hex_text (cipher_text s)"] that [of "hex_text (cipher_text s) @ [13]"] hex_text_no_eol(1) [of "cipher_text s"] by auto
  qed
  have "concat (map (\<lambda>s. hex_text (cipher_text s) @ eol) (s # ss)) @ rest =
      xs @ 10 # concat (map (\<lambda>s. hex_text (cipher_text s) @ eol) ss) @ rest" using xs(1) by simp
  with Cons show ?case by (simp only: fgets_lines_line [OF xs(2,3)] xs(1) list.map append_Cons) simp
qed simp

lemma read_config_lines:
  assumes no: "10 \<notin> set no" "length no \<le> 510" and eol: "eol = [10] \<or> eol = [13, 10]" and ss: "\<forall>s \<in> set ss. entry_ok s" "length ss \<le> 9"
  shows "read_cgminer_config True (Some (config_file no eol ss @ rest)) =
    bindR (config_lines (Some (plain_key @ replicate 496 0)) (Suc (length ss)) (fgets_lines rest) (put_entries 1 ss (replicate 3 empty_config)))
      (\<lambda>ps. Inr (0, ps))"
  using fgets_lines_line [OF no] fgets_entries [OF eol ss(1)] config_lines_entries [OF eol ss(1), of 1] ss(2)
  by (simp add: read_cgminer_config_def config_file_def config_key_plain config_line_def)

section \<open>Properties\<close>

text \<open>C40: The nine entries that were encrypted and written are read back as they were, with either kind of line end and whatever
  follows them in the file; but a blank line among them makes the reader look in front of its buffer.\<close>

theorem config_roundtrip:
  assumes "10 \<notin> set no" and "length no \<le> 510" and "eol = [10] \<or> eol = [13, 10]" and "\<forall>s \<in> set ss. entry_ok s" and "length ss = 9"
  shows "read_cgminer_config True (Some (config_file no eol ss @ rest)) =
      Inr (0, map (\<lambda>i. \<lparr>pool_url = mem_write 0 (ss ! (3 * i)) (replicate 512 0), pool_user = mem_write 0 (ss ! (3 * i + 1)) (replicate 512 0),
        pool_pass = mem_write 0 (ss ! (3 * i + 2)) (replicate 512 0)\<rparr>) [0..<3]) \<and>
    (\<forall>k < 9. read_cgminer_config True (Some (config_file no eol (take k ss) @ 10 # rest)) = Inl BeforeBuffer)"
proof (rule conjI, goal_cases)
  case 1
  obtain a b c d e f g h i where ss: "ss = [a, b, c, d, e, f, g, h, i]"
    using assms(5) by (auto simp: length_Suc_conv numeral_eq_Suc)
  have three: "replicate 3 empty_config = [empty_config, empty_config, empty_config]" "[0..<3] = [0, 1, 2]" by (simp_all add: numeral_3_eq_3)
  have "put_entries 1 ss (replicate 3 empty_config) =
      map (\<lambda>i. \<lparr>pool_url = mem_write 0 (ss ! (3 * i)) (replicate 512 0), pool_user = mem_write 0 (ss ! (3 * i + 1)) (replicate 512 0),
        pool_pass = mem_write 0 (ss ! (3 * i + 2)) (replicate 512 0)\<rparr>) [0..<3]"
    unfolding three by (simp add: ss set_field_def empty_config_def)
  then show ?case using assms(5) by (simp add: read_config_lines [OF assms(1-4)] config_lines_rest)
next
  case 2
  have "read_cgminer_config True (Some (config_file no eol (take k ss) @ 10 # rest)) = Inl BeforeBuffer" if "k < 9" for k
  proof -
    have "\<forall>s \<in> set (take k ss). entry_ok s" "length (take k ss) \<le> 9" using assms(4,5) by (auto dest: in_set_takeD)
    moreover have "fgets_lines (10 # rest) = [10] # fgets_lines rest" using fgets_lines_line [of "[]" rest] by simp
    moreover have "config_line x (Suc (Suc k)) [10] ps = Inl BeforeBuffer" for x ps
      using that by (simp add: config_line_def cstr_of_def str_bcd2hex_def)
    ultimately show ?thesis using that assms(5) by (simp add: read_config_lines [OF assms(1-3)])
  qed
  then show ?case by blast
qed

theorem config_roundtrip_witness:
  "\<exists>ps. read_cgminer_config True (Some (config_file (bytes_of ''7'') [10] (replicate 9 (bytes_of ''x'')))) = Inr (0, ps)"
proof -
  have "10 \<notin> set (bytes_of ''7'')" "length (bytes_of ''7'') \<le> 510" "\<forall>s \<in> set (replicate 9 (bytes_of ''x'')). entry_ok s"
    by (simp_all add: bytes_of_def entry_ok_def)
  from config_roundtrip [OF this(1,2) _ this(3), of "[10]" "[]"] show ?thesis by simp
qed

end
