(* ===== verification/T4Job.thy ===== *)
theory T4Job
  imports Crc Complex_Main
begin

text \<open>
  The job a chip of the T4 miner is given (t4_common.c, \<open>create_job\<close>): 88 bytes with the command, the
  nonces to search, the target, the block with its words turned round, and a checksum.  The
  receiving side is modelled too, as the reference for what the bytes mean.
\<close>

section \<open>The code\<close>

text \<open>The parts of a work item the chain reads; the difficulties are finite doubles.\<close>

record work =
  w_data :: "u8 list"
  w_target :: "u8 list"
  w_device_diff :: rat
  w_work_difficulty :: rat

definition JOB_LENGTH :: nat where "JOB_LENGTH = 88"

definition nonce_step :: u32 where "nonce_step = 0x00100000"
definition nonce_step_nicehash :: u32 where "nonce_step_nicehash = 0x006667"
definition END_NONCE_A8_GAP :: u32 where "END_NONCE_A8_GAP = 24"

definition difficulty_target :: "u8 list" where
  "difficulty_target = [0x00, 0x01, 0x4F, 0x8B]"

text \<open>The bytes of each 32-bit word in the other order.\<close>

fun swap_words :: "u8 list \<Rightarrow> u8 list" where
  "swap_words (a # b # c # d # xs) = d # c # b # a # swap_words xs"
| "swap_words xs = []"

fun swap_pairs :: "u8 list \<Rightarrow> u8 list" where
  "swap_pairs (a # b # xs) = b # a # swap_pairs xs"
| "swap_pairs xs = []"

definition job_start_nonce :: "bool \<Rightarrow> u8 \<Rightarrow> u8 list \<Rightarrow> u32" where
  "job_start_nonce nicehash chip_id d =
     (if \<not> nicehash
      then push_bit 24 (ucast (d ! 42)) + push_bit 16 (ucast (d ! 41)) + push_bit 8 (ucast (d ! 40)) + ucast (d ! 39)
        + nonce_step * (ucast chip_id - 1)
      else push_bit 16 (ucast (d ! 41)) + push_bit 8 (ucast (d ! 40)) + ucast (d ! 39)
        + nonce_step_nicehash * (ucast chip_id - 1))"

definition job_end_nonce :: "bool \<Rightarrow> u8 \<Rightarrow> u8 list \<Rightarrow> u8 list" where
  "job_end_nonce nicehash chip_id d =
     (if \<not> nicehash then [0xff, 0xff, 0xff, 0xdb]
      else let end_nonce = job_start_nonce nicehash chip_id d + nonce_step_nicehash - END_NONCE_A8_GAP
        in [d ! 42, ucast (drop_bit 16 end_nonce), ucast (drop_bit 8 end_nonce), ucast end_nonce])"

text \<open>
  The first ten bytes of a job: command, chip, last nonce and target; \<open>cmd\<close> is the command
  byte \<open>CMD_WRITE_JOB\<close>, a constant of the vendor library.
\<close>

definition job_head :: "u8 \<Rightarrow> bool \<Rightarrow> u8 \<Rightarrow> u8 \<Rightarrow> work \<Rightarrow> u8 list" where
  "job_head cmd nicehash chip_id job_id wk =
     [push_bit 4 (job_id AND 0x0f) OR cmd, chip_id] @ job_end_nonce nicehash chip_id (w_data wk) @
     (if w_device_diff wk \<noteq> w_work_difficulty wk then difficulty_target
      else [w_target wk ! 31, w_target wk ! 30, w_target wk ! 29, w_target wk ! 28])"

definition create_job :: "u8 \<Rightarrow> bool \<Rightarrow> u8 \<Rightarrow> u8 \<Rightarrow> work \<Rightarrow> u8 list" where
  "create_job cmd nicehash chip_id job_id wk =
     (let d = w_data wk;
          start_nonce = job_start_nonce nicehash chip_id d;
          job = job_head cmd nicehash chip_id job_id wk @ swap_words (take 76 d);
          job = job[10 + 36 := ucast start_nonce];
          job = job[10 + 41 := (if \<not> nicehash then ucast (drop_bit 24 start_nonce) else d ! 42)];
          job = job[10 + 42 := ucast (drop_bit 16 start_nonce)];
          job = job[10 + 43 := ucast (drop_bit 8 start_nonce)];
          crc = CRC16_2 (swap_pairs job)
      in job @ [ucast (drop_bit 8 crc), ucast crc])"

section \<open>What a chip reads in a job\<close>

text \<open>
  The receiver's view: the frame is accepted when the checksum over its
  byte-swapped halves comes out as zero, and the hashed block is the data with every word turned round.
\<close>

record chip_job =
  j_cmd :: u8
  j_chip :: u8
  j_end :: "u8 list"
  j_target :: "u8 list"
  j_blob :: "u8 list"

definition read_job :: "u8 list \<Rightarrow> chip_job option" where
  "read_job job =
     (if length job = JOB_LENGTH \<and> CRC16_2 (swap_pairs job) = 0
      then Some \<lparr>j_cmd = job ! 0, j_chip = job ! 1, j_end = take 4 (drop 2 job),
        j_target = take 4 (drop 6 job), j_blob = swap_words (take 76 (drop 10 job))\<rparr>
      else None)"

definition with_nonce :: "bool \<Rightarrow> u32 \<Rightarrow> u8 list \<Rightarrow> u8 list" where
  "with_nonce nicehash n d =
     (let b = le32_bytes n
      in d[39 := b ! 0, 40 := b ! 1, 41 := b ! 2, 42 := if nicehash then d ! 42 else b ! 3])"

lemma length_swap_words: "length (swap_words xs) = 4 * (length xs div 4)"
  by (induction xs rule: swap_words.induct) simp_all

lemma swap_words_swap_words: "length xs = 4 * n \<Longrightarrow> swap_words (swap_words xs) = xs"
proof (induction xs arbitrary: n rule: swap_words.induct)
  case (1 a b c d xs)
  then obtain m where "n = Suc m" by (cases n) simp_all
  with 1 show ?case by simp
qed (auto, presburger+)

definition turn4 :: "nat \<Rightarrow> nat" where
  "turn4 i = 4 * (i div 4) + (3 - i mod 4)"

lemma turn4_small: "turn4 0 = Suc (Suc (Suc 0))" "turn4 (Suc 0) = Suc (Suc 0)"
    "turn4 (Suc (Suc 0)) = Suc 0" "turn4 (Suc (Suc (Suc 0))) = 0"
  by (simp_all add: turn4_def)

lemma turn4_add4: "turn4 (Suc (Suc (Suc (Suc k)))) = Suc (Suc (Suc (Suc (turn4 k))))"
proof -
  have e: "Suc (Suc (Suc (Suc n))) = n + 4" for n by simp
  have "(k + 4) div 4 = Suc (k div 4)" "(k + 4) mod 4 = k mod 4" by simp_all
  then show ?thesis unfolding e turn4_def by simp
qed

lemma nat_4_cases:
  obtains "(i :: nat) = 0" | "i = Suc 0" | "i = Suc (Suc 0)" | "i = Suc (Suc (Suc 0))"
    | k where "i = Suc (Suc (Suc (Suc k)))"
  by (metis not0_implies_Suc)

lemma swap_words_update:
  "length xs = 4 * n \<Longrightarrow> i < length xs \<Longrightarrow> swap_words (xs[i := x]) = (swap_words xs)[turn4 i := x]"
proof (induction xs arbitrary: i n rule: swap_words.induct)
  case (1 a b c d xs)
  then obtain m where m: "length xs = 4 * m" by (cases n) simp_all
  show ?case
  proof (cases i rule: nat_4_cases)
    case (5 k)
    with 1(3) have "k < length xs" by simp
    from 1(1) [OF m this] show ?thesis by (simp only: 5 turn4_add4 list_update_code swap_words.simps)
  qed (simp_all add: turn4_small)
qed (auto, presburger+)

lemma length_swap_pairs: "length (swap_pairs xs) = 2 * (length xs div 2)"
  by (induction xs rule: swap_pairs.induct) simp_all

lemma swap_pairs_append: "even (length xs) \<Longrightarrow> swap_pairs (xs @ ys) = swap_pairs xs @ swap_pairs ys"
  by (induction xs rule: swap_pairs.induct) simp_all

lemma swap_pairs_update:
  "i < length xs \<Longrightarrow> even (length xs) \<Longrightarrow>
     swap_pairs (xs[i := b]) = (swap_pairs xs)[(if even i then i + 1 else i - 1) := b]"
proof (induction xs arbitrary: i rule: swap_pairs.induct)
  case (1 x y xs)
  show ?case
  proof (cases "i < 2")
    case True
    then have "i = 0 \<or> i = 1" by arith
    then show ?thesis by auto
  next
    case False
    then obtain k where k: "i = Suc (Suc k)" by (metis One_nat_def Suc_1 Suc_pred not_less_eq not0_implies_Suc less_2_cases_iff)
    with 1(2,3) have "k < length xs" "even (length xs)" by simp_all
    from 1(1) [OF this] show ?thesis by (auto simp: k elim: oddE)
  qed
qed simp_all

lemma swap_pairs_nth:
  "i < length xs \<Longrightarrow> even (length xs) \<Longrightarrow> swap_pairs xs ! (if even i then i + 1 else i - 1) = xs ! i"
proof (induction xs arbitrary: i rule: swap_pairs.induct)
  case (1 x y xs)
  show ?case
  proof (cases "i < 2")
    case True
    then have "i = 0 \<or> i = 1" by arith
    then show ?thesis by auto
  next
    case False
    then obtain k where k: "i = Suc (Suc k)" by (metis One_nat_def Suc_1 Suc_pred not_less_eq not0_implies_Suc less_2_cases_iff)
    with 1(2,3) have "k < length xs" "even (length xs)" by simp_all
    from 1(1) [OF this] show ?thesis by (auto simp: k elim: oddE)
  qed
qed simp_all

lemma swap_pairs_seal: "even (length xs) \<Longrightarrow> CRC16_2 (swap_pairs (xs @ rev (seal_r (CRC16_2 (swap_pairs xs))))) = 0"
  using crc_r.sealed [of "swap_pairs xs"] by (simp add: swap_pairs_append CRC16_2_def seal_r_def)

lemma CRC16_2_update: "i < length xs \<Longrightarrow> xs ! i \<noteq> b \<Longrightarrow> CRC16_2 (xs[i := b]) \<noteq> CRC16_2 xs"
  using crc_r.detects_byte [of b "xs ! i" "take i xs" "drop (Suc i) xs"]
  by (simp add: CRC16_2_def upd_conv_take_nth_drop id_take_nth_drop [symmetric])

lemma read_job_corrupt:
  assumes "read_job job \<noteq> None" and "i < length job" and "job ! i \<noteq> b"
  shows "read_job (job[i := b]) = None"
proof -
  from assms(1) have len: "length job = 88" and ok: "CRC16_2 (swap_pairs job) = 0"
    by (auto simp: read_job_def JOB_LENGTH_def split: if_splits)
  let ?j = "if even i then i + 1 else i - 1"
  from len assms(2) have "?j < length (swap_pairs job)" by (auto simp: length_swap_pairs elim!: evenE oddE)
  with len assms have "CRC16_2 (swap_pairs (job[i := b])) \<noteq> CRC16_2 (swap_pairs job)"
    using CRC16_2_update [of ?j "swap_pairs job" b] by (simp add: swap_pairs_update swap_pairs_nth)
  with ok show ?thesis by (simp add: read_job_def)
qed

lemma length_job_head: "length (job_head cmd nicehash chip_id job_id wk) = 10"
  by (simp add: job_head_def job_end_nonce_def difficulty_target_def Let_def)

lemma job_update: "length h = 10 \<Longrightarrow> (h @ d)[10 + i := x] = h @ d[i := x]"
  by (simp add: list_update_append)

lemma turn4_nonce: "turn4 39 = 36" "turn4 40 = 43" "turn4 41 = 42" "turn4 42 = 41"
  by (simp_all add: turn4_def)

lemma swap_words_with_nonce:
  assumes "length d = 76"
  shows "swap_words (with_nonce nicehash n d) =
    (swap_words d)[36 := ucast n, 41 := (if \<not> nicehash then ucast (drop_bit 24 n) else d ! 42),
      42 := ucast (drop_bit 16 n), 43 := ucast (drop_bit 8 n)]"
proof -
  have up: "swap_words (d'[i := x]) = (swap_words d')[turn4 i := x]" if "length d' = 76" "i < 76" for d' :: "u8 list" and i x
    using that by (intro swap_words_update [where n = 19]) simp_all
  show ?thesis using assms
    by (simp add: with_nonce_def le32_bytes_def up turn4_nonce Let_def list_update_swap [of 42 41] list_update_swap [of 43 41]
      list_update_swap [of 43 42])
qed

lemma create_job_eq:
  assumes "76 \<le> length (w_data wk)"
  shows "create_job cmd nicehash chip_id job_id wk =
    (let job = job_head cmd nicehash chip_id job_id wk @ swap_words
           (with_nonce nicehash (job_start_nonce nicehash chip_id (w_data wk)) (take 76 (w_data wk)))
     in job @ rev (seal_r (CRC16_2 (swap_pairs job))))"
  using assms
  unfolding create_job_def Let_def job_update [OF length_job_head]
  by (simp add: swap_words_with_nonce seal_r_def Let_def)

lemma length_with_nonce [simp]: "length (with_nonce nicehash n d) = length d"
  by (simp add: with_nonce_def Let_def)

lemma read_job_frame:
  assumes "length h = 10" and "length d = 76"
  shows "read_job ((h @ swap_words d) @ rev (seal_r (CRC16_2 (swap_pairs (h @ swap_words d))))) =
    Some \<lparr>j_cmd = h ! 0, j_chip = h ! 1, j_end = take 4 (drop 2 h), j_target = take 4 (drop 6 h), j_blob = d\<rparr>"
proof -
  have l: "length (swap_words d) = 76" using assms(2) by (simp add: length_swap_words)
  let ?f = "(h @ swap_words d) @ rev (seal_r (CRC16_2 (swap_pairs (h @ swap_words d))))"
  have "length ?f = JOB_LENGTH" using assms(1) l by (simp add: JOB_LENGTH_def seal_r_def)
  moreover have "CRC16_2 (swap_pairs ?f) = 0" using assms(1) l by (intro swap_pairs_seal) simp
  moreover have "take 76 (drop 10 ?f) = swap_words d" using assms(1) l by simp
  moreover have "swap_words (swap_words d) = d" using assms(2) by (intro swap_words_swap_words [where n = 19]) simp
  ultimately show ?thesis using assms(1) by (simp add: read_job_def nth_append)
qed

lemma drop_28: "length xs = 32 \<Longrightarrow> drop 28 xs = [xs ! 28, xs ! 29, xs ! 30, xs ! 31]"
  by (simp add: list_eq_iff_nth_eq less_Suc_eq numeral_eq_Suc)

lemma nonce_bytes:
  assumes "length d = 76"
  shows "take 4 (drop 39 (with_nonce nicehash n d)) =
    [ucast n, ucast (drop_bit 8 n), ucast (drop_bit 16 n), if nicehash then d ! 42 else ucast (drop_bit 24 n)]"
    "take 4 (drop 39 d) = [d ! 39, d ! 40, d ! 41, d ! 42]" "take 3 (drop 39 d) = [d ! 39, d ! 40, d ! 41]"
  using assms by (simp_all add: list_eq_iff_nth_eq less_Suc_eq numeral_eq_Suc with_nonce_def le32_bytes_def Let_def)

text \<open>Start nonces as numbers.\<close>

lemma of_nat_pred: "0 < (c :: u8) \<Longrightarrow> (word_of_nat (unat c - 1) :: u32) = ucast c - 1"
  by (subst of_nat_diff) (simp_all add: unat_gt_0 Suc_le_eq)

lemma job_start_std:
  assumes "length d = 76" and "0 < c"
  shows "job_start_nonce False c d = word_of_nat (le_val (take 4 (drop 39 d)) + 2 ^ 20 * (unat c - 1))"
  unfolding nonce_bytes [OF assms(1)] of_nat_add of_nat_mult of_nat_pred [OF assms(2)] le_val.simps
  by (simp add: job_start_nonce_def push_bit_eq_mult nonce_step_def algebra_simps)

lemma job_start_nh:
  assumes "length d = 76" and "0 < c"
  shows "job_start_nonce True c d = word_of_nat (le_val (take 3 (drop 39 d)) + 26215 * (unat c - 1))"
  unfolding nonce_bytes [OF assms(1)] of_nat_add of_nat_mult of_nat_pred [OF assms(2)] le_val.simps
  by (simp add: job_start_nonce_def push_bit_eq_mult nonce_step_nicehash_def algebra_simps)

lemma bytes3:
  assumes "unat (n :: u32) < 2 ^ 24"
  shows "le_val [ucast n, ucast (drop_bit 8 n), ucast (drop_bit 16 n), x] = unat n + 2 ^ 24 * unat x"
    and "be_val [x, ucast (drop_bit 16 n), ucast (drop_bit 8 n), ucast n] = unat n + 2 ^ 24 * unat x"
proof -
  have "unat (ucast (drop_bit 24 n) :: u8) = 0" using assms by (simp add: unat_drop_bit_div unat_ucast8)
  then show le: "le_val [ucast n, ucast (drop_bit 8 n), ucast (drop_bit 16 n), x] = unat n + 2 ^ 24 * unat x"
    using le_val_le32_bytes [of n] by (simp add: le32_bytes_def)
  then show "be_val [x, ucast (drop_bit 16 n), ucast (drop_bit 8 n), ucast n] = unat n + 2 ^ 24 * unat x"
    using be_val_rev [of "[ucast n, ucast (drop_bit 8 n), ucast (drop_bit 16 n), x]"] by simp
qed

lemma unat_of_nat32: "m < 2 ^ 32 \<Longrightarrow> unat (word_of_nat m :: u32) = m"
  by (simp add: unat_of_nat take_bit_nat_eq_self)

lemma nh_range:
  assumes "length d = 76" and "0 < c" and "le_val (take 3 (drop 39 d)) + 26215 * unat c \<le> 2 ^ 24"
  shows "le_val (take 4 (drop 39 (with_nonce True (job_start_nonce True c d) d))) =
      le_val (take 3 (drop 39 d)) + 26215 * (unat c - 1) + 2 ^ 24 * unat (d ! 42)"
    and "be_val (job_end_nonce True c d) =
      le_val (take 3 (drop 39 d)) + 26215 * (unat c - 1) + 26191 + 2 ^ 24 * unat (d ! 42)"
proof -
  let ?s = "le_val (take 3 (drop 39 d)) + 26215 * (unat c - 1)"
  have c: "0 < unat c" using assms(2) by (simp add: unat_gt_0)
  have s: "?s + 26191 < 2 ^ 24" using assms(3) c by (simp add: diff_mult_distrib2)
  have n: "job_start_nonce True c d = word_of_nat ?s" by (rule job_start_nh [OF assms(1,2)])
  have u: "unat (job_start_nonce True c d) = ?s" unfolding n using s by (intro unat_of_nat32) simp
  from u s have "unat (job_start_nonce True c d) < 2 ^ 24" by simp
  from bytes3(1) [OF this] u show "le_val (take 4 (drop 39 (with_nonce True (job_start_nonce True c d) d))) =
      ?s + 2 ^ 24 * unat (d ! 42)"
    unfolding nonce_bytes [OF assms(1)] by simp
  let ?e = "job_start_nonce True c d + nonce_step_nicehash - END_NONCE_A8_GAP"
  have "?e = word_of_nat (?s + 26191)"
    unfolding n of_nat_add nonce_step_nicehash_def END_NONCE_A8_GAP_def by simp
  moreover have "unat (word_of_nat (?s + 26191) :: u32) = ?s + 26191" using s by (intro unat_of_nat32) simp
  ultimately have e: "unat ?e = ?s + 26191" by (simp only:)
  with s have "unat ?e < 2 ^ 24" by simp
  from bytes3(2) [OF this] e show "be_val (job_end_nonce True c d) = ?s + 26191 + 2 ^ 24 * unat (d ! 42)"
    by (simp add: job_end_nonce_def Let_def)
qed

lemma std_start:
  assumes "length d = 76" and "0 < c"
  shows "le_val (take 4 (drop 39 (with_nonce False (job_start_nonce False c d) d))) =
    (le_val (take 4 (drop 39 d)) + 2 ^ 20 * (unat c - 1)) mod 2 ^ 32"
proof -
  have "le_val (take 4 (drop 39 (with_nonce False (job_start_nonce False c d) d))) = unat (job_start_nonce False c d)"
    unfolding nonce_bytes [OF assms(1)] using le_val_le32_bytes [of "job_start_nonce False c d"]
    by (simp only: le32_bytes_def if_False)
  then show ?thesis unfolding job_start_std [OF assms] by (simp only: unat_of_nat take_bit_eq_mod len_num0 len_num1 len_bit0) simp
qed

lemma mod_shift_neq:
  assumes "(x :: nat) < y" and "y - x < m"
  shows "(a + x) mod m \<noteq> (a + y) mod m"
proof
  assume "(a + x) mod m = (a + y) mod m"
  then have "m dvd (a + y) - (a + x)" using assms(1) by (intro mod_eq_dvd_iff_nat [THEN iffD1]) simp_all
  with assms show False by (auto dest: dvd_imp_le)
qed

section \<open>Properties\<close>

text \<open>C18: The chip that receives a job reads back what was put into it: command and job id, chip, last nonce, target,
  and the work's block with the chip's own first nonce in bytes 39 to 42; a job with any one byte
  changed on the way is refused.\<close>

theorem job_roundtrip:
  assumes "76 \<le> length (w_data wk)" and "length (w_target wk) = 32"
    and "job = create_job cmd nicehash chip_id job_id wk" and "i < length job" and "b \<noteq> job ! i"
  shows "read_job job = Some \<lparr>j_cmd = push_bit 4 (job_id AND 0x0f) OR cmd, j_chip = chip_id,
      j_end = job_end_nonce nicehash chip_id (w_data wk),
      j_target = (if w_device_diff wk = w_work_difficulty wk then rev (drop 28 (w_target wk)) else difficulty_target),
      j_blob = with_nonce nicehash (job_start_nonce nicehash chip_id (w_data wk)) (take 76 (w_data wk))\<rparr> \<and>
    read_job (job[i := b]) = None"
proof -
  let ?h = "job_head cmd nicehash chip_id job_id wk"
  let ?d = "with_nonce nicehash (job_start_nonce nicehash chip_id (w_data wk)) (take 76 (w_data wk))"
  have le: "length (job_end_nonce nicehash chip_id (w_data wk)) = 4" by (simp add: job_end_nonce_def Let_def)
  have "drop 28 (w_target wk) = [w_target wk ! 28, w_target wk ! 29, w_target wk ! 30, w_target wk ! 31]"
    by (rule drop_28 [OF assms(2)])
  then have h: "?h ! 0 = push_bit 4 (job_id AND 0x0f) OR cmd" "?h ! 1 = chip_id"
    "take 4 (drop 2 ?h) = job_end_nonce nicehash chip_id (w_data wk)"
    "take 4 (drop 6 ?h) = (if w_device_diff wk = w_work_difficulty wk then rev (drop 28 (w_target wk)) else difficulty_target)"
    using le by (simp_all add: job_head_def difficulty_target_def)
  have "job = (?h @ swap_words ?d) @ rev (seal_r (CRC16_2 (swap_pairs (?h @ swap_words ?d))))"
    using assms(1,3) by (simp only: create_job_eq Let_def)
  with read_job_frame [of ?h ?d] assms(1) h have "read_job job = Some \<lparr>j_cmd = push_bit 4 (job_id AND 0x0f) OR cmd, j_chip = chip_id,
      j_end = job_end_nonce nicehash chip_id (w_data wk),
      j_target = (if w_device_diff wk = w_work_difficulty wk then rev (drop 28 (w_target wk)) else difficulty_target),
      j_blob = ?d\<rparr>"
    by (simp add: length_job_head)
  with read_job_corrupt [of job i b] assms(4,5) show ?thesis by simp
qed

definition demo_work :: work where
  "demo_work = \<lparr>w_data = replicate 76 7, w_target = replicate 32 1, w_device_diff = 5, w_work_difficulty = 5\<rparr>"

theorem job_roundtrip_witness:
  "map_option j_chip (read_job (create_job 7 False 3 1 demo_work)) = Some 3 \<and>
   read_job ((create_job 7 False 3 1 demo_work)[1 := 4]) = None"
proof -
  have "1 < length (create_job 7 False 3 1 demo_work)" "(4 :: u8) \<noteq> create_job 7 False 3 1 demo_work ! 1"
    by (simp_all add: create_job_eq demo_work_def job_head_def Let_def)
  with job_roundtrip [of demo_work _ 7 False 3 1 1 4, OF _ _ refl] show ?thesis by (simp add: demo_work_def)
qed

text \<open>C22: No two chips of a chain search the same nonces: in the ordinary mode their first nonces differ, by
  \<open>nonce_step\<close> per chip, and in the NiceHash mode each chip's range ends before the next one's begins, unless the
  24 bits left to the miner overflow.\<close>

theorem job_ranges_disjoint:
  assumes "length d = 76" and "0 < c" and "c < c'"
    and "nicehash \<longrightarrow> le_val (take 3 (drop 39 d)) + 26215 * unat c' \<le> 2 ^ 24"
  shows "(let first = (\<lambda>c. le_val (take 4 (drop 39 (with_nonce nicehash (job_start_nonce nicehash c d) d))));
      final = (\<lambda>c. be_val (job_end_nonce nicehash c d))
    in if nicehash then first c < final c \<and> final c < first c'
       else first c = (le_val (take 4 (drop 39 d)) + 2 ^ 20 * (unat c - 1)) mod 2 ^ 32 \<and> first c \<noteq> first c')"
proof (cases nicehash)
  case True
  have c': "0 < c'" and cc: "0 < unat c" "unat c < unat c'"
    using assms(2,3) by (auto simp: word_less_nat_alt)
  from assms(4) True cc have "le_val (take 3 (drop 39 d)) + 26215 * unat c \<le> 2 ^ 24"
      "le_val (take 3 (drop 39 d)) + 26215 * unat c' \<le> 2 ^ 24" by simp_all
  note r = nh_range [OF assms(1,2) this(1)] nh_range [OF assms(1) c' this(2)]
  have "26215 * (unat c - 1) + 26215 \<le> 26215 * (unat c' - 1)" using cc by simp
  then show ?thesis using True by (simp only: Let_def if_True r) simp
next
  case False
  have c': "0 < c'" and cc: "0 < unat c" "unat c < unat c'"
    using assms(2,3) by (auto simp: word_less_nat_alt)
  have "(2 :: nat) ^ 20 * (unat c - 1) < 2 ^ 20 * (unat c' - 1)" using cc by simp
  moreover have "unat c' - 1 \<le> 255" using unat_u8_le [of c'] by (rule le_trans [OF diff_le_self])
  then have "(2 :: nat) ^ 20 * (unat c' - 1) \<le> 2 ^ 20 * 255" by (rule mult_le_mono2)
  then have "(2 :: nat) ^ 20 * (unat c' - 1) - 2 ^ 20 * (unat c - 1) \<le> 2 ^ 20 * 255" by (rule le_trans [OF diff_le_self])
  then have "(2 :: nat) ^ 20 * (unat c' - 1) - 2 ^ 20 * (unat c - 1) < 2 ^ 32" by (rule le_less_trans) simp
  ultimately have "(2 :: nat) ^ 20 * (unat c - 1) < 2 ^ 20 * (unat c' - 1)"
      "(2 :: nat) ^ 20 * (unat c' - 1) - 2 ^ 20 * (unat c - 1) < 2 ^ 32" by blast+
  from mod_shift_neq [OF this] std_start [OF assms(1,2)] std_start [OF assms(1) c'] False show ?thesis
    by (simp add: Let_def)
qed

theorem job_ranges_disjoint_witness:
  "be_val (job_end_nonce True 1 (replicate 76 7)) <
   le_val (take 4 (drop 39 (with_nonce True (job_start_nonce True 2 (replicate 76 7)) (replicate 76 7))))"
proof -
  have "take 3 (drop 39 (replicate 76 (7 :: u8))) = [7, 7, 7]" by (simp add: numeral_eq_Suc)
  then have "le_val (take 3 (drop 39 (replicate 76 (7 :: u8)))) + 26215 * unat (2 :: u8) \<le> 2 ^ 24" by simp
  with job_ranges_disjoint [of "replicate 76 7" 1 2 True] show ?thesis by (simp only: Let_def) simp
qed

end
