(* ===== verification/Queues.thy ===== *)
theory Queues
  imports Prelude
begin

text \<open>
  The two queues between the threads of the miner: the work queue of a chain
  (driver-SPI-bitmine-t4.c), guarded by the chain's lock, and the thread queue of
  util.c, guarded by its own.  A linked list of entries is the list of what the entries hold; pointers to
  work are integers, a null pointer is \<open>None\<close>.
\<close>

section \<open>The work queue of a chain\<close>

record 'w work_queue =
  wq_head :: "'w list"
  num_elems :: int

definition wq_empty :: "'w work_queue" where
  "wq_empty = \<lparr>wq_head = [], num_elems = 0\<rparr>"

text \<open>\<open>malloc_ok\<close> says whether the entry could be allocated.\<close>

definition wq_enqueue :: "bool \<Rightarrow> 'w work_queue \<Rightarrow> 'w option \<Rightarrow> bool \<times> 'w work_queue" where
  "wq_enqueue malloc_ok wq work =
     (case work of
        None \<Rightarrow> (False, wq)
      | Some w \<Rightarrow>
          if \<not> malloc_ok then (False, wq)
          else (True, wq\<lparr>wq_head := wq_head wq @ [w], num_elems := num_elems wq + 1\<rparr>))"

text \<open>Without elements a count other than zero sends the code past the list: \<open>None\<close>.\<close>

definition wq_dequeue :: "'w work_queue \<Rightarrow> ('w option \<times> 'w work_queue) option" where
  "wq_dequeue wq =
     (if num_elems wq = 0 then Some (None, wq)
      else case wq_head wq of
          [] \<Rightarrow> None
        | w # ws \<Rightarrow> Some (Some w, wq\<lparr>wq_head := ws, num_elems := num_elems wq - 1\<rparr>))"

text \<open>The counter counts.\<close>

definition wq_rep :: "'w work_queue \<Rightarrow> 'w list \<Rightarrow> bool" where
  "wq_rep wq ws \<longleftrightarrow> wq_head wq = ws \<and> num_elems wq = int (length ws)"

definition wq_enq :: "'w work_queue \<Rightarrow> 'w \<Rightarrow> 'w work_queue option" where
  "wq_enq wq w = (let (ok, wq') = wq_enqueue True wq (Some w) in if ok then Some wq' else None)"

lemma wq_rep_empty [simp]: "wq_rep wq_empty []"
  by (simp add: wq_rep_def wq_empty_def)

lemma wq_rep_enqueue:
  "wq_rep wq ws \<Longrightarrow> wq_rep (snd (wq_enqueue ok wq w)) (if ok then ws @ (case w of None \<Rightarrow> [] | Some x \<Rightarrow> [x]) else ws)"
  by (simp add: wq_rep_def wq_enqueue_def split: option.split)

lemma wq_rep_dequeue:
  "wq_rep wq ws \<Longrightarrow> \<exists>wq'. wq_dequeue wq = Some (hdo ws None, wq') \<and> wq_rep wq' (tl ws)"
  by (cases ws) (auto simp: wq_rep_def wq_dequeue_def)

interpretation wq: fifo wq_rep "\<lambda>_ _. True" wq_enq wq_dequeue
  by unfold_locales (auto simp: wq_enq_def wq_rep_def wq_enqueue_def wq_dequeue_def split: list.split)

section \<open>The thread queue\<close>

record 'w thread_q =
  tq_q :: "'w list"
  frozen :: bool

definition tq_new :: "'w thread_q" where
  "tq_new = \<lparr>tq_q = [], frozen = False\<rparr>"

definition tq_freezethaw :: "'w thread_q \<Rightarrow> bool \<Rightarrow> 'w thread_q" where
  "tq_freezethaw tq b = tq\<lparr>frozen := b\<rparr>"

definition tq_freeze :: "'w thread_q \<Rightarrow> 'w thread_q" where
  "tq_freeze tq = tq_freezethaw tq True"

definition tq_thaw :: "'w thread_q \<Rightarrow> 'w thread_q" where
  "tq_thaw tq = tq_freezethaw tq False"

definition tq_push :: "'w thread_q \<Rightarrow> 'w \<Rightarrow> bool \<times> 'w thread_q" where
  "tq_push tq x = (if \<not> frozen tq then (True, tq\<lparr>tq_q := tq_q tq @ [x]\<rparr>) else (False, tq))"

definition tq_take :: "'w thread_q \<Rightarrow> 'w option \<times> 'w thread_q" where
  "tq_take tq = (case tq_q tq of [] \<Rightarrow> (None, tq) | x # xs \<Rightarrow> (Some x, tq\<lparr>tq_q := xs\<rparr>))"

text \<open>
  Popping an empty queue waits.  While it waits the lock is open and other
  threads change the queue: \<open>others\<close> is what they make of it, \<open>rc\<close> what the wait returns.
\<close>

definition tq_pop :: "int \<Rightarrow> ('w thread_q \<Rightarrow> 'w thread_q) \<Rightarrow> 'w thread_q \<Rightarrow> 'w option \<times> 'w thread_q" where
  "tq_pop rc others tq =
     (if tq_q tq \<noteq> [] then tq_take tq
      else let tq = others tq in if rc \<noteq> 0 then (None, tq) else tq_take tq)"

text \<open>What threads do to the queue, one call at a time under its lock.\<close>

inductive tq_step :: "'w thread_q \<Rightarrow> 'w thread_q \<Rightarrow> bool" where
  push: "tq_step tq (snd (tq_push tq x))"
| take: "tq_step tq (snd (tq_take tq))"
| freeze: "tq_step tq (tq_freeze tq)"
| thaw: "tq_step tq (tq_thaw tq)"

inductive_cases tq_stepE: "tq_step tq tq'"

lemmas tq_defs = tq_push_def tq_take_def tq_pop_def tq_freeze_def tq_thaw_def tq_freezethaw_def tq_new_def

definition tq_rep :: "'w thread_q \<Rightarrow> 'w list \<Rightarrow> bool" where
  "tq_rep tq xs \<longleftrightarrow> tq_q tq = xs \<and> \<not> frozen tq"

definition tq_enq :: "'w thread_q \<Rightarrow> 'w \<Rightarrow> 'w thread_q option" where
  "tq_enq tq x = (let (ok, tq') = tq_push tq x in if ok then Some tq' else None)"

definition tq_deq :: "'w thread_q \<Rightarrow> ('w option \<times> 'w thread_q) option" where
  "tq_deq tq = Some (tq_pop 1 (\<lambda>tq. tq) tq)"

interpretation tq: fifo tq_rep "\<lambda>_ _. True" tq_enq tq_deq
  by unfold_locales (auto simp: tq_rep_def tq_enq_def tq_deq_def tq_defs split: list.split)

text \<open>While a queue is frozen nothing new gets in: what is there is what was left of it.\<close>

lemma tq_step_frozen:
  assumes "tq_step tq tq'" and "frozen tq" and "frozen tq'"
  shows "\<exists>n. tq_q tq' = drop n (tq_q tq)"
  using assms
proof (cases rule: tq_step.cases)
  case (push x)
  with assms(2) show ?thesis by (intro exI [of _ 0]) (simp add: tq_defs)
next
  case take
  then show ?thesis by (intro exI [of _ 1]) (auto simp: tq_defs drop_Suc split: list.split)
qed (auto simp: tq_defs intro: exI [of _ 0])

inductive tq_frozen_run :: "'w thread_q \<Rightarrow> 'w thread_q \<Rightarrow> bool" where
  stay: "frozen tq \<Longrightarrow> tq_frozen_run tq tq"
| change: "tq_frozen_run tq tq' \<Longrightarrow> tq_step tq' tq'' \<Longrightarrow> frozen tq'' \<Longrightarrow> tq_frozen_run tq tq''"

lemma tq_frozen_run_drop: "tq_frozen_run tq tq' \<Longrightarrow> frozen tq' \<and> (\<exists>n. tq_q tq' = drop n (tq_q tq))"
proof (induction rule: tq_frozen_run.induct)
  case (stay tq)
  then show ?case by (intro conjI exI [of _ 0]) simp_all
next
  case (change tq tq' tq'')
  from change(4) obtain n where n: "tq_q tq' = drop n (tq_q tq)" and f: "frozen tq'" by blast
  from tq_step_frozen [OF change(2) f change(3)] obtain k where "tq_q tq'' = drop k (tq_q tq')" by blast
  with n change(3) show ?case by (intro conjI exI [of _ "k + n"]) (simp_all add: add.commute)
qed

section \<open>Properties\<close>

text \<open>Both queues hand out what was put in, in the order it was put in, for every sequence of
  calls: the work queue from empty, the thread queue while nobody freezes it; nothing is lost or doubled.\<close>

theorem queues_fifo:
  "(\<exists>rs s ys. q_run wq_enq wq_dequeue ops wq_empty = Some (rs, s) \<and> wq_rep s ys \<and>
      rs = fst (q_spec ops []) \<and> map the (filter (\<lambda>r. r \<noteq> None) rs) @ ys = q_entered ops) \<and>
   (\<exists>rs s ys. q_run tq_enq tq_deq ops tq_new = Some (rs, s) \<and> tq_rep s ys \<and>
      rs = fst (q_spec ops []) \<and> map the (filter (\<lambda>r. r \<noteq> None) rs) @ ys = q_entered ops)"
proof -
  have legal: "q_legal (\<lambda>_ _. True) ops xs" for xs :: "'w list" and ops
    by (induction "\<lambda>(_ :: 'w list) (_ :: 'w). True" ops xs rule: q_legal.induct) simp_all
  from wq.run_spec [OF wq_rep_empty legal] obtain s where
    "q_run wq_enq wq_dequeue ops wq_empty = Some (fst (q_spec ops []), s)" "wq_rep s (snd (q_spec ops []))" by blast
  moreover have "tq_rep tq_new []" by (simp add: tq_rep_def tq_defs)
  from tq.run_spec [OF this legal] obtain s' where
    "q_run tq_enq tq_deq ops tq_new = Some (fst (q_spec ops []), s')" "tq_rep s' (snd (q_spec ops []))" by blast
  ultimately show ?thesis using q_spec_conserves [of ops "[]"] by auto
qed

text \<open>A frozen thread queue only drains: whatever the threads call, until it is thawed its
  content is a tail of what it held, and a push reports failure.\<close>

theorem tq_frozen_drains:
  "tq_frozen_run tq tq' \<Longrightarrow> (\<exists>n. tq_q tq' = drop n (tq_q tq)) \<and> tq_push tq' x = (False, tq')"
  by (auto dest: tq_frozen_run_drop simp: tq_defs)

lemma tq_frozen_drains_witness:
  "(\<exists>n. tq_q \<lparr>tq_q = [2 :: int], frozen = True\<rparr> = drop n (tq_q \<lparr>tq_q = [1, 2], frozen = True\<rparr>)) \<and>
   tq_push \<lparr>tq_q = [2 :: int], frozen = True\<rparr> 3 = (False, \<lparr>tq_q = [2], frozen = True\<rparr>)"
proof (rule tq_frozen_drains)
  have "tq_step \<lparr>tq_q = [1, 2 :: int], frozen = True\<rparr> (snd (tq_take \<lparr>tq_q = [1, 2], frozen = True\<rparr>))"
    by (rule tq_step.take)
  then show "tq_frozen_run \<lparr>tq_q = [1, 2 :: int], frozen = True\<rparr> \<lparr>tq_q = [2], frozen = True\<rparr>"
    by (intro tq_frozen_run.change [OF tq_frozen_run.stay]) (simp_all add: tq_defs)
qed

end
