(* ===== verification/Works.thy ===== *)
theory Works
  imports Hexcode Timeval T4Job Queues
begin

text \<open>
  Work items and the queue a device takes them from (cgminer.c): making,
  copying and freeing items, when an item is stale, the one unqueued item and the hash
  table of queued ones.  Items live on an explicit heap, so using an item after it was freed is an error of the
  model.  The strings of an item are its own (the code duplicates them), so they are values.  One device is modelled.
  Difficulties are exact numbers; the times of day an item is stamped with are left out, but for its start.
\<close>

section \<open>State\<close>

record gwork = work +
  w_id :: u32
  w_midstate :: "u8 list"
  w_hash :: "u8 list"
  w_nonce :: u32
  w_job_id :: "cstr option"
  w_nonce1 :: "cstr option"
  w_ntime :: "cstr option"
  w_coinbase :: "cstr option"
  w_pool :: "nat option"
  w_rolls :: int
  w_rolltime :: int
  w_mined :: bool
  w_clone :: bool
  w_stale :: bool
  w_mandatory :: bool
  w_block :: bool
  w_stratum :: bool
  w_work_block :: u32
  w_tv_work_start :: timeval

record pool =
  p_discarded_work :: int
  p_quota_used :: int
  p_works :: int
  p_solved :: int
  p_accepted :: int
  p_stale_shares :: int
  p_diff1 :: rat
  p_diff_accepted :: rat
  p_diff_stale :: rat
  p_has_stratum :: bool
  p_stratum_active :: bool
  p_stratum_notify :: bool
  p_submit_old :: bool
  p_stratum_q :: "int thread_q option"

text \<open>
  Addresses from \<open>next_ptr\<close> on are free.  \<open>queued_work\<close> is the hash table in the order
  it is iterated, \<open>submitting\<close> the items handed to submit threads.
\<close>

record mem =
  works :: "int \<Rightarrow> gwork option"
  next_ptr :: int
  total_work :: int
  pools :: "nat \<Rightarrow> pool"
  queued_work :: "int list"
  queued_count :: int
  unqueued_work :: "int option"
  submitting :: "int list"
  total_discarded :: int
  total_accepted :: int
  total_stale :: int
  found_blocks :: int
  total_diff1 :: rat
  total_diff_accepted :: rat
  total_diff_stale :: rat
  cgpu_diff1 :: rat
  cgpu_accepted :: int
  cgpu_diff_accepted :: rat

record cfg =
  opt_benchmark :: bool
  opt_benchfile :: bool
  opt_submit_stale :: bool
  work_block :: u32
  max_scantime :: int
  max_expiry :: int
  current_diff :: rat

datatype work_err = NullWork | FreedWork | NullPool | LinkedTwice | NotLinked | Uninitialised

definition at_work :: "mem \<Rightarrow> int \<Rightarrow> work_err + gwork" where
  "at_work s p = (case works s p of None \<Rightarrow> Inl FreedWork | Some w \<Rightarrow> Inr w)"

definition put_work :: "mem \<Rightarrow> int \<Rightarrow> gwork \<Rightarrow> mem" where
  "put_work s p w = s\<lparr>works := (works s)(p \<mapsto> w)\<rparr>"

definition at_pool :: "mem \<Rightarrow> gwork \<Rightarrow> work_err + nat" where
  "at_pool s w = (case w_pool w of None \<Rightarrow> Inl NullPool | Some n \<Rightarrow> Inr n)"

definition pool_upd :: "mem \<Rightarrow> nat \<Rightarrow> (pool \<Rightarrow> pool) \<Rightarrow> mem" where
  "pool_upd s n f = s\<lparr>pools := (pools s)(n := f (pools s n))\<rparr>"

section \<open>Items\<close>

definition zero_work :: gwork where
  "zero_work = \<lparr>w_data = replicate 128 0, w_target = replicate 32 0, w_device_diff = 0, w_work_difficulty = 0,
     w_id = 0, w_midstate = replicate 32 0, w_hash = replicate 32 0, w_nonce = 0, w_job_id = None, w_nonce1 = None, w_ntime = None,
     w_coinbase = None, w_pool = None, w_rolls = 0, w_rolltime = 0, w_mined = False, w_clone = False, w_stale = False,
     w_mandatory = False, w_block = False, w_stratum = False, w_work_block = 0,
     w_tv_work_start = \<lparr>tv_sec = 0, tv_usec = 0\<rparr>\<rparr>"

definition total_work_inc :: "mem \<Rightarrow> int \<times> mem" where
  "total_work_inc s = (total_work s, s\<lparr>total_work := total_work s + 1\<rparr>)"

definition make_work :: "mem \<Rightarrow> int \<times> mem" where
  "make_work s =
     (let (n, s) = total_work_inc s; p = next_ptr s
      in (p, (put_work s p (zero_work\<lparr>w_id := word_of_int n\<rparr>))\<lparr>next_ptr := p + 1\<rparr>))"

definition clean_work :: "mem \<Rightarrow> int \<Rightarrow> work_err + mem" where
  "clean_work s p = bindR (at_work s p) (\<lambda>_. Inr (put_work s p zero_work))"

text \<open>Freeing nothing is logged and ignored.\<close>

definition free_work :: "mem \<Rightarrow> int option \<Rightarrow> work_err + mem" where
  "free_work s po = (case po of None \<Rightarrow> Inr s
     | Some p \<Rightarrow> bindR (clean_work s p) (\<lambda>s. Inr (s\<lparr>works := (works s)(p := None)\<rparr>)))"

definition discard_work :: "mem \<Rightarrow> int option \<Rightarrow> work_err + mem" where
  "discard_work s po = (case po of None \<Rightarrow> Inr s
     | Some p \<Rightarrow> bindR (at_work s p) (\<lambda>w.
         let s = (if \<not> w_clone w \<and> w_rolls w = 0 \<and> \<not> w_mined w
                  then (let s = (case w_pool w of None \<Rightarrow> s
                                 | Some n \<Rightarrow> pool_upd s n (\<lambda>pl. pl\<lparr>p_discarded_work := p_discarded_work pl + 1,
                                     p_quota_used := p_quota_used pl - 1, p_works := p_works pl - 1\<rparr>))
                        in s\<lparr>total_discarded := total_discarded s + 1\<rparr>)
                  else s)
         in free_work s (Some p)))"

text \<open>The time of a header is its bytes 68 to 71.\<close>

definition bump_ntime :: "int \<Rightarrow> u8 list \<Rightarrow> u8 list" where
  "bump_ntime noffset d =
     (let ntime = be32 (d ! 68) (d ! 69) (d ! 70) (d ! 71) + word_of_int noffset in mem_write 68 (be32_bytes ntime) d)"

text \<open>A string that is not eight digits leaves bytes of the number uninitialised.\<close>

definition offset_ntime :: "cstr \<Rightarrow> int \<Rightarrow> work_err + cstr" where
  "offset_ntime ntime noffset =
     (case snd (hex2bin ntime 4) of
        [a, b, c, d] \<Rightarrow> Inr (cstr_of (bin2hex (be32_bytes (be32 a b c d + word_of_int noffset))))
      | _ \<Rightarrow> Inl Uninitialised)"

definition copy_fields :: "gwork \<Rightarrow> u32 \<Rightarrow> int \<Rightarrow> work_err + gwork" where
  "copy_fields base wid noffset =
     (let w = base\<lparr>w_id := wid\<rparr>
      in case w_ntime base of
        Some nt \<Rightarrow>
          if noffset \<noteq> 0 then bindR (offset_ntime nt noffset) (\<lambda>nt'.
            Inr (w\<lparr>w_data := bump_ntime noffset (w_data w), w_ntime := Some nt'\<rparr>))
          else Inr w
      | None \<Rightarrow> Inr (if noffset \<noteq> 0 then w\<lparr>w_data := bump_ntime noffset (w_data w)\<rparr> else w))"

definition copy_work_into :: "mem \<Rightarrow> int \<Rightarrow> int \<Rightarrow> int \<Rightarrow> work_err + mem" where
  "copy_work_into s p base noffset =
     bindR (at_work s p) (\<lambda>w.
     bindR (clean_work s p) (\<lambda>s.
     bindR (at_work s base) (\<lambda>b.
     bindR (copy_fields b (w_id w) noffset) (\<lambda>w'. Inr (put_work s p w')))))"

definition copy_work_noffset :: "mem \<Rightarrow> int \<Rightarrow> int \<Rightarrow> work_err + (int \<times> mem)" where
  "copy_work_noffset s base noffset =
     (let (p, s) = make_work s in bindR (copy_work_into s p base noffset) (\<lambda>s. Inr (p, s)))"

definition set_work_ntime :: "mem \<Rightarrow> int \<Rightarrow> u32 \<Rightarrow> work_err + mem" where
  "set_work_ntime s p ntime =
     bindR (at_work s p) (\<lambda>w.
     let w = w\<lparr>w_data := mem_write 68 (be32_bytes ntime) (w_data w)\<rparr>;
         w = (if w_ntime w \<noteq> None then w\<lparr>w_ntime := Some (cstr_of (bin2hex (be32_bytes ntime)))\<rparr> else w)
     in Inr (put_work s p w))"

section \<open>Stale items\<close>

definition stale_work :: "cfg \<Rightarrow> mem \<Rightarrow> int \<Rightarrow> bool \<Rightarrow> work_err + bool" where
  "stale_work g s p share =
     (if opt_benchmark g \<or> opt_benchfile g then Inr False
      else bindR (at_work s p) (\<lambda>w.
        if w_work_block w \<noteq> work_block g then Inr True
        else if \<not> share then
          bindR (at_pool s w) (\<lambda>n. let pl = pools s n in
            Inr (p_has_stratum pl \<and> (\<not> p_stratum_active pl \<or> \<not> p_stratum_notify pl)))
        else Inr False))"

section \<open>The queue of a device\<close>

text \<open>Linking an item that is linked already, or unlinking one that is not, destroys the table: an error.\<close>

definition add_queued :: "mem \<Rightarrow> int \<Rightarrow> work_err + mem" where
  "add_queued s p =
     bindR (at_work s p) (\<lambda>_.
     if p \<in> set (queued_work s) then Inl LinkedTwice
     else Inr (s\<lparr>queued_count := queued_count s + 1, queued_work := queued_work s @ [p]\<rparr>))"

definition get_queued :: "cfg \<Rightarrow> mem \<Rightarrow> work_err + (int option \<times> mem)" where
  "get_queued g s =
     (case unqueued_work s of None \<Rightarrow> Inr (None, s)
      | Some p \<Rightarrow>
          bindR (stale_work g s p False) (\<lambda>stale.
          bindR (if stale then bindR (discard_work s (Some p)) (\<lambda>s. Inr (None, s))
                 else bindR (add_queued s p) (\<lambda>s. Inr (Some p, s))) (\<lambda>(r, s).
          Inr (r, s\<lparr>unqueued_work := None\<rparr>))))"

text \<open>\<open>get\<close> is \<open>get_work\<close>: it waits for an item and returns it.\<close>

definition get_queue_work :: "(mem \<Rightarrow> int \<times> mem) \<Rightarrow> mem \<Rightarrow> work_err + (int \<times> mem)" where
  "get_queue_work get s = (let (p, s) = get s in bindR (add_queued s p) (\<lambda>s. Inr (p, s)))"

fun find_first :: "(gwork \<Rightarrow> bool) \<Rightarrow> mem \<Rightarrow> int list \<Rightarrow> work_err + int option" where
  "find_first P s [] = Inr None"
| "find_first P s (p # ps) = bindR (at_work s p) (\<lambda>w. if P w then Inr (Some p) else find_first P s ps)"

definition find_work_bymidstate :: "mem \<Rightarrow> int list \<Rightarrow> u8 list \<Rightarrow> nat \<Rightarrow> u8 list \<Rightarrow> nat \<Rightarrow> nat \<Rightarrow> work_err + int option" where
  "find_work_bymidstate s que midstate midstatelen data offset datalen =
     find_first (\<lambda>w. take midstatelen (w_midstate w) = take midstatelen midstate \<and>
       take datalen (drop offset (w_data w)) = take datalen data) s que"

definition find_work_byid :: "mem \<Rightarrow> int list \<Rightarrow> u32 \<Rightarrow> work_err + int option" where
  "find_work_byid s que i = find_first (\<lambda>w. w_id w = i) s que"

definition find_queued_work_byid :: "mem \<Rightarrow> u32 \<Rightarrow> work_err + int option" where
  "find_queued_work_byid s i = find_work_byid s (queued_work s) i"

definition clone_found :: "mem \<Rightarrow> int option \<Rightarrow> work_err + (int option \<times> mem)" where
  "clone_found s r = (case r of None \<Rightarrow> Inr (None, s)
     | Some p \<Rightarrow> bindR (copy_work_noffset s p 0) (\<lambda>(q, s). Inr (Some q, s)))"

definition clone_queued_work_byid :: "mem \<Rightarrow> u32 \<Rightarrow> work_err + (int option \<times> mem)" where
  "clone_queued_work_byid s i = bindR (find_work_byid s (queued_work s) i) (clone_found s)"

text \<open>A search by midstate: the midstate, its length, the data, its offset and its length.\<close>

record mid_key =
  mk_mid :: "u8 list"
  mk_midlen :: nat
  mk_data :: "u8 list"
  mk_off :: nat
  mk_len :: nat

definition find_queued_work_bymidstate :: "mem \<Rightarrow> mid_key \<Rightarrow> work_err + int option" where
  "find_queued_work_bymidstate s k =
     find_work_bymidstate s (queued_work s) (mk_mid k) (mk_midlen k) (mk_data k) (mk_off k) (mk_len k)"

definition clone_queued_work_bymidstate :: "mem \<Rightarrow> mid_key \<Rightarrow> work_err + (int option \<times> mem)" where
  "clone_queued_work_bymidstate s k = bindR (find_queued_work_bymidstate s k) (clone_found s)"

definition unlink_work :: "mem \<Rightarrow> int \<Rightarrow> work_err + mem" where
  "unlink_work s p =
     bindR (at_work s p) (\<lambda>_.
     if p \<notin> set (queued_work s) then Inl NotLinked
     else Inr (s\<lparr>queued_count := queued_count s - 1, queued_work := remove1 p (queued_work s)\<rparr>))"

definition work_completed :: "mem \<Rightarrow> int \<Rightarrow> work_err + mem" where
  "work_completed s p = bindR (unlink_work s p) (\<lambda>s. free_work s (Some p))"

definition take_queued_work_bymidstate :: "mem \<Rightarrow> mid_key \<Rightarrow> work_err + (int option \<times> mem)" where
  "take_queued_work_bymidstate s k =
     bindR (find_queued_work_bymidstate s k) (\<lambda>r. case r of None \<Rightarrow> Inr (None, s)
       | Some p \<Rightarrow> bindR (unlink_work s p) (\<lambda>s. Inr (Some p, s)))"

text \<open>\<open>secs\<close> are compared in microseconds, as \<open>tdiff\<close> computes them.\<close>

fun age_list :: "timeval \<Rightarrow> int \<Rightarrow> int list \<Rightarrow> mem \<times> int \<Rightarrow> work_err + (mem \<times> int)" where
  "age_list now us [] (s, aged) = Inr (s, aged)"
| "age_list now us (p # ps) (s, aged) =
     bindR (at_work s p) (\<lambda>w.
     if tdiff now (w_tv_work_start w) > us
     then bindR (work_completed s p) (\<lambda>s. age_list now us ps (s, aged + 1))
     else age_list now us ps (s, aged))"

definition age_queued_work :: "timeval \<Rightarrow> int \<Rightarrow> mem \<Rightarrow> work_err + (mem \<times> int)" where
  "age_queued_work now us s = age_list now us (queued_work s) (s, 0)"

text \<open>When the lock is taken (\<open>busy\<close>) a flush does nothing.\<close>

definition flush_queue :: "bool \<Rightarrow> mem \<Rightarrow> work_err + mem" where
  "flush_queue busy s =
     (if busy then Inr s
      else let work = unqueued_work s; s = s\<lparr>unqueued_work := None\<rparr>
        in if work \<noteq> None then free_work s work else Inr s)"

text \<open>
  A driver's state, with the items in it, and its two callbacks: \<open>fl_get\<close> is \<open>get_work\<close>, which waits with the
  lock open, so the slot may be taken when it returns; \<open>fl_full\<close> is \<open>queue_full\<close>.  The loop may go on for ever.
\<close>

record ('s, 'e) filler =
  fl_mem :: "'s \<Rightarrow> mem"
  fl_set :: "'s \<Rightarrow> mem \<Rightarrow> 's"
  fl_get :: "'s \<Rightarrow> int \<times> 's"
  fl_full :: "'s \<Rightarrow> 'e + (bool \<times> 's)"
  fl_err :: "work_err \<Rightarrow> 'e"

definition fill_slot :: "('s, 'e) filler \<Rightarrow> 's \<Rightarrow> 'e + 's" where
  "fill_slot fl s =
     (if unqueued_work (fl_mem fl s) = None then
        (let (p, s) = fl_get fl s in
         if unqueued_work (fl_mem fl s) = None then Inr (fl_set fl s ((fl_mem fl s)\<lparr>unqueued_work := Some p\<rparr>))
         else map_sum (fl_err fl) (fl_set fl s) (discard_work (fl_mem fl s) (Some p)))
      else Inr s)"

partial_function (option) fill_queue :: "('s, 'e) filler \<Rightarrow> 's \<Rightarrow> ('e + 's) option" where
  "fill_queue fl s =
     (case fill_slot fl s of Inl e \<Rightarrow> Some (Inl e)
      | Inr s \<Rightarrow> (case fl_full fl s of Inl e \<Rightarrow> Some (Inl e)
          | Inr (b, s) \<Rightarrow> if b then Some (Inr s) else fill_queue fl s))"

section \<open>What the queue keeps\<close>

definition mem_ok :: "mem \<Rightarrow> bool" where
  "mem_ok s \<longleftrightarrow> queued_count s = int (length (queued_work s)) \<and> distinct (queued_work s) \<and>
     set (queued_work s) \<subseteq> dom (works s) \<and>
     (\<forall>p. unqueued_work s = Some p \<longrightarrow> p \<in> dom (works s) \<and> p \<notin> set (queued_work s)) \<and>
     (\<forall>p \<in> dom (works s). p < next_ptr s) \<and> (\<forall>p w. works s p = Some w \<longrightarrow> w_pool w \<noteq> None)"

lemma at_workE: "p \<in> dom (works s) \<Longrightarrow> (\<And>w. works s p = Some w \<Longrightarrow> at_work s p = Inr w \<Longrightarrow> P) \<Longrightarrow> P"
  by (auto simp: at_work_def)

lemma free_work_eq: "p \<in> dom (works s) \<Longrightarrow> free_work s (Some p) = Inr (s\<lparr>works := (works s)(p := None)\<rparr>)"
  by (auto simp: free_work_def clean_work_def at_work_def put_work_def)

lemma free_ok:
  assumes "mem_ok s" and "p \<in> dom (works s)" and "p \<notin> set (queued_work s)" and "unqueued_work s \<noteq> Some p"
  shows "mem_ok (s\<lparr>works := (works s)(p := None)\<rparr>)"
  using assms by (auto simp: mem_ok_def split: if_splits)

lemma work_completed_eq:
  assumes "mem_ok s" and "p \<in> set (queued_work s)"
  shows "work_completed s p = Inr (s\<lparr>queued_count := queued_count s - 1, queued_work := remove1 p (queued_work s),
      works := (works s)(p := None)\<rparr>)"
proof -
  have "p \<in> dom (works s)" using assms by (auto simp: mem_ok_def)
  then show ?thesis using assms(2)
    by (auto elim!: at_workE simp: work_completed_def unlink_work_def free_work_def clean_work_def at_work_def put_work_def)
qed

lemma unlink_ok:
  assumes "mem_ok s" and "p \<in> set (queued_work s)"
  shows "unlink_work s p = Inr (s\<lparr>queued_count := queued_count s - 1, queued_work := remove1 p (queued_work s)\<rparr>)"
    and "mem_ok (s\<lparr>queued_count := queued_count s - 1, queued_work := remove1 p (queued_work s)\<rparr>)"
proof -
  have "p \<in> dom (works s)" using assms by (auto simp: mem_ok_def)
  then show "unlink_work s p = Inr (s\<lparr>queued_count := queued_count s - 1, queued_work := remove1 p (queued_work s)\<rparr>)"
    using assms(2) by (auto elim!: at_workE simp: unlink_work_def)
  have "int (length (queued_work s) - Suc 0) = int (length (queued_work s)) - 1"
    using assms(2) by (cases "queued_work s") simp_all
  then show "mem_ok (s\<lparr>queued_count := queued_count s - 1, queued_work := remove1 p (queued_work s)\<rparr>)"
    using assms by (auto simp: mem_ok_def length_remove1 dest: notin_set_remove1)
qed

lemma work_completed_ok:
  assumes "mem_ok s" and "p \<in> set (queued_work s)"
  shows "mem_ok (s\<lparr>queued_count := queued_count s - 1, queued_work := remove1 p (queued_work s), works := (works s)(p := None)\<rparr>)"
proof -
  let ?s = "s\<lparr>queued_count := queued_count s - 1, queued_work := remove1 p (queued_work s)\<rparr>"
  have "p \<notin> set (remove1 p (queued_work s))" using assms(1) by (simp add: mem_ok_def)
  moreover have "unqueued_work s \<noteq> Some p" "p \<in> dom (works s)" using assms by (auto simp: mem_ok_def)
  ultimately have "mem_ok (?s\<lparr>works := (works ?s)(p := None)\<rparr>)" by (intro free_ok unlink_ok assms) simp_all
  then show ?thesis by simp
qed

lemma discard_work_eq:
  assumes "p \<in> dom (works s)"
  shows "\<exists>pls n. discard_work s (Some p) = Inr (s\<lparr>pools := pls, total_discarded := n, works := (works s)(p := None)\<rparr>)"
proof -
  obtain w where w: "works s p = Some w" using assms by blast
  let ?f = "\<lambda>pl. pl\<lparr>p_discarded_work := p_discarded_work pl + 1, p_quota_used := p_quota_used pl - 1, p_works := p_works pl - 1\<rparr>"
  let ?pls = "if \<not> w_clone w \<and> w_rolls w = 0 \<and> \<not> w_mined w
     then (case w_pool w of None \<Rightarrow> pools s | Some n \<Rightarrow> (pools s)(n := ?f (pools s n))) else pools s"
  let ?n = "if \<not> w_clone w \<and> w_rolls w = 0 \<and> \<not> w_mined w then total_discarded s + 1 else total_discarded s"
  have "discard_work s (Some p) = Inr (s\<lparr>pools := ?pls, total_discarded := ?n, works := (works s)(p := None)\<rparr>)"
    using w by (auto simp: discard_work_def at_work_def free_work_def clean_work_def put_work_def pool_upd_def Let_def split: option.split)
  then show ?thesis by blast
qed

lemma stale_work_ok:
  assumes "mem_ok s" and "p \<in> dom (works s)"
  obtains b where "stale_work g s p share = Inr b"
proof -
  obtain w where w: "works s p = Some w" using assms(2) by blast
  with assms(1) have "w_pool w \<noteq> None" unfolding mem_ok_def by blast
  then obtain n where "w_pool w = Some n" by blast
  with w have "\<not> isl (stale_work g s p share)" by (simp add: stale_work_def at_work_def at_pool_def Let_def)
  then show thesis using that by (cases "stale_work g s p share") simp_all
qed

lemma add_queued_ok:
  assumes "mem_ok s" and "p \<in> dom (works s)" and "p \<notin> set (queued_work s)"
  shows "add_queued s p = Inr (s\<lparr>queued_count := queued_count s + 1, queued_work := queued_work s @ [p]\<rparr>)"
    and "unqueued_work s \<noteq> Some p \<Longrightarrow> mem_ok (s\<lparr>queued_count := queued_count s + 1, queued_work := queued_work s @ [p]\<rparr>)"
  using assms by (auto simp: add_queued_def mem_ok_def elim!: at_workE)

lemma mem_ok_pools: "mem_ok (s\<lparr>pools := pls, total_discarded := n\<rparr>) = mem_ok s"
  by (simp add: mem_ok_def)

lemma mem_ok_unqueued: "mem_ok s \<Longrightarrow> mem_ok (s\<lparr>unqueued_work := None\<rparr>)"
  by (simp add: mem_ok_def)

lemma get_queued_ok:
  assumes "mem_ok s"
  shows "\<exists>r s'. get_queued g s = Inr (r, s') \<and> mem_ok s' \<and> unqueued_work s' = None \<and> next_ptr s' = next_ptr s \<and>
    (case r of None \<Rightarrow> queued_work s' = queued_work s \<and> (\<forall>p. unqueued_work s \<noteq> Some p \<longrightarrow> works s' p = works s p)
      | Some p \<Rightarrow> unqueued_work s = Some p \<and> queued_work s' = queued_work s @ [p] \<and> works s' = works s)"
proof (cases "unqueued_work s")
  case None
  then show ?thesis using assms by (simp add: get_queued_def)
next
  case (Some p)
  with assms have p: "p \<in> dom (works s)" "p \<notin> set (queued_work s)" by (simp_all add: mem_ok_def)
  obtain b where b: "stale_work g s p False = Inr b" using assms p(1) by (rule stale_work_ok)
  show ?thesis
  proof (cases b)
    case True
    obtain pls n where d: "discard_work s (Some p) = Inr (s\<lparr>pools := pls, total_discarded := n, works := (works s)(p := None)\<rparr>)"
      using discard_work_eq [OF p(1)] by blast
    let ?s = "s\<lparr>unqueued_work := None, pools := pls, total_discarded := n\<rparr>"
    have "mem_ok ?s" using mem_ok_unqueued [OF assms] by (simp add: mem_ok_pools)
    then have "mem_ok (?s\<lparr>works := (works ?s)(p := None)\<rparr>)" using p by (intro free_ok) simp_all
    then have "mem_ok (s\<lparr>pools := pls, total_discarded := n, works := (works s)(p := None), unqueued_work := None\<rparr>)"
      by (simp add: mem_ok_def)
    with b d Some True show ?thesis by (auto simp: get_queued_def)
  next
    case False
    from mem_ok_unqueued [OF assms] p have "mem_ok (s\<lparr>unqueued_work := None, queued_count := queued_count s + 1, queued_work := queued_work s @ [p]\<rparr>)"
      using add_queued_ok(2) [of "s\<lparr>unqueued_work := None\<rparr>" p] by simp
    then have "mem_ok (s\<lparr>queued_count := queued_count s + 1, queued_work := queued_work s @ [p], unqueued_work := None\<rparr>)"
      by (simp add: mem_ok_def)
    with b Some False add_queued_ok(1) [OF assms p] show ?thesis by (auto simp: get_queued_def)
  qed
qed

lemma flush_queue_ok:
  assumes "mem_ok s"
  shows "\<exists>s'. flush_queue busy s = Inr s' \<and> mem_ok s' \<and> queued_work s' = queued_work s \<and> (\<not> busy \<longrightarrow> unqueued_work s' = None)"
proof (cases "unqueued_work s")
  case None
  then show ?thesis using assms mem_ok_unqueued [OF assms] by (auto simp: flush_queue_def Let_def)
next
  case (Some p)
  let ?s = "s\<lparr>unqueued_work := None\<rparr>"
  from Some assms have p: "p \<in> dom (works ?s)" "p \<notin> set (queued_work ?s)" by (simp_all add: mem_ok_def)
  from free_ok [OF mem_ok_unqueued [OF assms] p] have "mem_ok (?s\<lparr>works := (works ?s)(p := None)\<rparr>)" by simp
  moreover have "free_work ?s (unqueued_work s) = Inr (?s\<lparr>works := (works ?s)(p := None)\<rparr>)"
    using free_work_eq [OF p(1)] Some by simp
  ultimately show ?thesis using assms Some by (auto simp: flush_queue_def Let_def)
qed

text \<open>What ageing leaves: the queued items that are not too old.\<close>

definition too_old :: "timeval \<Rightarrow> int \<Rightarrow> mem \<Rightarrow> int \<Rightarrow> bool" where
  "too_old now us s p = (case works s p of None \<Rightarrow> False | Some w \<Rightarrow> tdiff now (w_tv_work_start w) > us)"

lemma age_list_ok:
  assumes "mem_ok s" and "distinct ps" and "set ps \<subseteq> set (queued_work s)"
  shows "\<exists>s'. age_list now us ps (s, n) = Inr (s', n + int (length (filter (too_old now us s) ps))) \<and> mem_ok s' \<and>
    queued_work s' = filter (\<lambda>p. p \<notin> set ps \<or> \<not> too_old now us s p) (queued_work s) \<and>
    (\<forall>p. works s' p = (if p \<in> set ps \<and> too_old now us s p then None else works s p))"
  using assms
proof (induction ps arbitrary: s n)
  case Nil
  then show ?case by (simp add: filter_id_conv)
next
  case (Cons p ps)
  from Cons.prems have p: "p \<in> set (queued_work s)" "p \<in> dom (works s)" "p \<notin> set ps" by (auto simp: mem_ok_def)
  obtain w where w: "works s p = Some w" using p(2) by blast
  have q: "p' \<noteq> p \<Longrightarrow> too_old now us (s\<lparr>queued_count := k, queued_work := xs, works := (works s)(p := None)\<rparr>) p' = too_old now us s p'"
    for p' k xs by (simp add: too_old_def)
  show ?case
  proof (cases "too_old now us s p")
    case False
    with w have "age_list now us (p # ps) (s, n) = age_list now us ps (s, n)" by (simp add: at_work_def too_old_def)
    moreover obtain s' where "age_list now us ps (s, n) = Inr (s', n + int (length (filter (too_old now us s) ps)))" "mem_ok s'"
        "queued_work s' = filter (\<lambda>x. x \<notin> set ps \<or> \<not> too_old now us s x) (queued_work s)"
        "\<forall>x. works s' x = (if x \<in> set ps \<and> too_old now us s x then None else works s x)"
      using Cons.IH [of s n] Cons.prems by auto
    moreover have "filter (\<lambda>x. x \<notin> set ps \<or> \<not> too_old now us s x) (queued_work s) =
        filter (\<lambda>x. x \<notin> set (p # ps) \<or> \<not> too_old now us s x) (queued_work s)"
      using False by (intro filter_cong refl) auto
    moreover have "(x \<in> set ps \<and> too_old now us s x) = (x \<in> set (p # ps) \<and> too_old now us s x)" for x
      using False by auto
    ultimately show ?thesis using False by (intro exI [of _ s']) simp
  next
    case True
    let ?s = "s\<lparr>queued_count := queued_count s - 1, queued_work := remove1 p (queued_work s), works := (works s)(p := None)\<rparr>"
    have ok: "mem_ok ?s" using Cons.prems(1) p(1) by (rule work_completed_ok)
    have d: "distinct (queued_work s)" using Cons.prems(1) by (simp add: mem_ok_def)
    then have rm: "remove1 p (queued_work s) = filter (\<lambda>x. x \<noteq> p) (queued_work s)" by (auto simp: distinct_remove1_removeAll removeAll_filter_not_eq intro!: filter_cong)
    have "set ps \<subseteq> set (queued_work ?s)" using Cons.prems(3) p(3) d by auto
    with Cons.IH [of ?s "n + 1"] ok Cons.prems(2) obtain s' where
      s': "age_list now us ps (?s, n + 1) = Inr (s', n + 1 + int (length (filter (too_old now us ?s) ps)))" "mem_ok s'"
        "queued_work s' = filter (\<lambda>x. x \<notin> set ps \<or> \<not> too_old now us ?s x) (queued_work ?s)"
        "\<forall>x. works s' x = (if x \<in> set ps \<and> too_old now us ?s x then None else works ?s x)" by auto
    have qp: "too_old now us ?s x = too_old now us s x" if "x \<in> set ps" for x
    proof -
      have "x \<noteq> p" using that p(3) by blast
      then show ?thesis by (rule q)
    qed
    then have f: "filter (too_old now us ?s) ps = filter (too_old now us s) ps"
      by (intro filter_cong refl)
    have "age_list now us (p # ps) (s, n) = age_list now us ps (?s, n + 1)"
      using w True work_completed_eq [OF Cons.prems(1) p(1)] by (simp add: at_work_def too_old_def)
    with s'(1) f True have "age_list now us (p # ps) (s, n) = Inr (s', n + int (length (filter (too_old now us s) (p # ps))))" by simp
    moreover have "queued_work s' = filter (\<lambda>x. x \<notin> set (p # ps) \<or> \<not> too_old now us s x) (queued_work s)"
    proof -
      have "queued_work s' = filter (\<lambda>x. x \<notin> set ps \<or> \<not> too_old now us s x) (queued_work ?s)"
        unfolding s'(3) using qp by (intro filter_cong refl) auto
      with True show ?thesis by (auto simp: rm intro!: filter_cong)
    qed
    moreover have "\<forall>x. works s' x = (if x \<in> set (p # ps) \<and> too_old now us s x then None else works s x)"
      using s'(4) True p(3) by (auto simp: qp)
    ultimately show ?thesis using s'(2) by blast
  qed
qed

lemma find_first_ok:
  assumes "set ps \<subseteq> dom (works s)"
  shows "find_first P s ps = Inr (find (\<lambda>p. P (the (works s p))) ps)"
  using assms by (induction ps) (auto simp: at_work_def)

text \<open>A step of any thread: taking an item over as the unqueued one, queueing it, retiring, ageing, taking or flushing.\<close>

inductive queue_step :: "cfg \<Rightarrow> mem \<Rightarrow> mem \<Rightarrow> bool" for g where
  offer: "p \<in> dom (works s) \<Longrightarrow> p \<notin> set (queued_work s) \<Longrightarrow> unqueued_work s = None \<Longrightarrow> queue_step g s (s\<lparr>unqueued_work := Some p\<rparr>)"
| queue: "get_queued g s = Inr (r, s') \<Longrightarrow> queue_step g s s'"
| retire: "p \<in> set (queued_work s) \<Longrightarrow> work_completed s p = Inr s' \<Longrightarrow> queue_step g s s'"
| age: "age_queued_work now us s = Inr (s', n) \<Longrightarrow> queue_step g s s'"
| take: "take_queued_work_bymidstate s k = Inr (r, s') \<Longrightarrow> queue_step g s s'"
| flush: "flush_queue busy s = Inr s' \<Longrightarrow> queue_step g s s'"

lemma age_queued_ok:
  assumes "mem_ok s"
  shows "\<exists>s'. age_queued_work now us s = Inr (s', int (length (filter (too_old now us s) (queued_work s)))) \<and> mem_ok s' \<and>
    queued_work s' = filter (\<lambda>p. \<not> too_old now us s p) (queued_work s)"
proof -
  from assms have "distinct (queued_work s)" by (simp add: mem_ok_def)
  from age_list_ok [OF assms this subset_refl, of now us 0] obtain s' where
    s': "age_list now us (queued_work s) (s, 0) = Inr (s', int (length (filter (too_old now us s) (queued_work s))))" "mem_ok s'"
      "queued_work s' = filter (\<lambda>p. p \<notin> set (queued_work s) \<or> \<not> too_old now us s p) (queued_work s)" by auto
  moreover have "filter (\<lambda>p. p \<notin> set (queued_work s) \<or> \<not> too_old now us s p) (queued_work s) = filter (\<lambda>p. \<not> too_old now us s p) (queued_work s)"
    by (intro filter_cong refl) simp
  ultimately show ?thesis by (auto simp: age_queued_work_def)
qed

lemma take_ok:
  assumes "mem_ok s"
  shows "\<exists>r s'. take_queued_work_bymidstate s k = Inr (r, s') \<and> mem_ok s'"
proof -
  have "set (queued_work s) \<subseteq> dom (works s)" using assms by (simp add: mem_ok_def)
  then obtain P where "find_queued_work_bymidstate s k = Inr (find P (queued_work s))"
    by (simp add: find_queued_work_bymidstate_def find_work_bymidstate_def find_first_ok)
  moreover have "p \<in> set (queued_work s)" if "find P (queued_work s) = Some p" for p
    using that by (auto simp: find_Some_iff)
  ultimately obtain r where r: "find_queued_work_bymidstate s k = Inr r" "\<And>p. r = Some p \<Longrightarrow> p \<in> set (queued_work s)" by blast
  show ?thesis
  proof (cases r)
    case None
    with r assms show ?thesis by (simp add: take_queued_work_bymidstate_def)
  next
    case (Some p)
    with r unlink_ok [OF assms r(2) [OF Some]] show ?thesis by (simp add: take_queued_work_bymidstate_def)
  qed
qed

lemma queue_step_ok: "queue_step g s s' \<Longrightarrow> mem_ok s \<Longrightarrow> mem_ok s'"
proof (induction rule: queue_step.induct)
  case (offer p s)
  then show ?case by (auto simp: mem_ok_def)
next
  case (queue s r s')
  then show ?case using get_queued_ok [of s g] by auto
next
  case (retire p s s')
  then show ?case using work_completed_eq [of s p] work_completed_ok [of s p] by simp
next
  case (age now us s s' n)
  then show ?case using age_queued_ok [of s now us] by auto
next
  case (take s k r s')
  then show ?case using take_ok [of s k] by auto
next
  case (flush busy s s')
  then show ?case using flush_queue_ok [of s busy] by auto
qed

section \<open>Properties\<close>

text \<open>C25: However the threads interleave, the queue of a device stays consistent: its count is its length, no item is in it
  twice, everything in it is allocated, and the unqueued item is not in it; and from such a state no operation touches a freed
  item or unlinks one that is not linked.\<close>

theorem queue_safe:
  assumes "(queue_step g)\<^sup>*\<^sup>* s0 s" and "mem_ok s0"
  shows "mem_ok s \<and> \<not> isl (get_queued g s) \<and> (\<forall>p \<in> set (queued_work s). \<not> isl (work_completed s p)) \<and>
    \<not> isl (age_queued_work now us s) \<and> \<not> isl (take_queued_work_bymidstate s k) \<and> \<not> isl (flush_queue busy s)"
proof -
  from assms have ok: "mem_ok s" by (induction rule: rtranclp_induct) (auto intro: queue_step_ok)
  then have "\<not> isl (get_queued g s)" "\<not> isl (age_queued_work now us s)" "\<not> isl (take_queued_work_bymidstate s k)" "\<not> isl (flush_queue busy s)"
    using get_queued_ok [of s g] age_queued_ok [of s now us] take_ok [of s k] flush_queue_ok [of s busy] by auto
  moreover have "\<forall>p \<in> set (queued_work s). \<not> isl (work_completed s p)" using ok by (simp add: work_completed_eq)
  ultimately show ?thesis using ok by blast
qed

text \<open>Two items of one pool, one queued and one not.\<close>

definition demo_pool :: pool where
  "demo_pool = \<lparr>p_discarded_work = 0, p_quota_used = 0, p_works = 0, p_solved = 0, p_accepted = 0, p_stale_shares = 0,
     p_diff1 = 0, p_diff_accepted = 0, p_diff_stale = 0,
     p_has_stratum = True, p_stratum_active = True, p_stratum_notify = True, p_submit_old = False, p_stratum_q = Some tq_new\<rparr>"

definition demo_mem :: mem where
  "demo_mem = \<lparr>works = [1 \<mapsto> zero_work\<lparr>w_id := 7, w_pool := Some 0\<rparr>, 2 \<mapsto> zero_work\<lparr>w_id := 8, w_pool := Some 0\<rparr>], next_ptr = 3, total_work = 9,
     pools = (\<lambda>_. demo_pool), queued_work = [1], queued_count = 1, unqueued_work = Some 2, submitting = [], total_discarded = 0,
     total_accepted = 0, total_stale = 0, found_blocks = 0, total_diff1 = 0,
     total_diff_accepted = 0, total_diff_stale = 0, cgpu_diff1 = 0, cgpu_accepted = 0, cgpu_diff_accepted = 0\<rparr>"

definition demo_cfg :: cfg where
  "demo_cfg = \<lparr>opt_benchmark = False, opt_benchfile = False, opt_submit_stale = False, work_block = 0, max_scantime = 60,
     max_expiry = 120, current_diff = 1000\<rparr>"

lemma demo_mem_ok: "mem_ok demo_mem"
  by (auto simp: mem_ok_def demo_mem_def split: if_splits)

theorem queue_safe_witness: "mem_ok demo_mem \<and> \<not> isl (get_queued demo_cfg demo_mem)"
  using queue_safe [OF rtranclp.rtrancl_refl demo_mem_ok] by blast

text \<open>Queueing hands out the unqueued item and puts it last in the queue, or discards it when it is stale; either way
  the slot is empty afterwards, and ageing removes exactly the items started longer ago than asked, in one pass.\<close>

theorem get_and_age_spec:
  assumes "mem_ok s"
  shows "(\<exists>r s'. get_queued g s = Inr (r, s') \<and> unqueued_work s' = None \<and>
      (case r of None \<Rightarrow> queued_work s' = queued_work s
        | Some p \<Rightarrow> unqueued_work s = Some p \<and> queued_work s' = queued_work s @ [p] \<and> works s' = works s)) \<and>
    (\<exists>s'. age_queued_work now us s = Inr (s', int (length (filter (too_old now us s) (queued_work s)))) \<and>
      queued_work s' = filter (\<lambda>p. \<not> too_old now us s p) (queued_work s))"
  using get_queued_ok [OF assms, of g] age_queued_ok [OF assms, of now us] by (fastforce split: option.splits)

theorem get_and_age_spec_witness:
  "\<exists>s'. age_queued_work \<lparr>tv_sec = 100, tv_usec = 0\<rparr> 5 demo_mem = Inr (s', 1)"
  using get_and_age_spec [OF demo_mem_ok, of demo_cfg "\<lparr>tv_sec = 100, tv_usec = 0\<rparr>" 5]
  by (auto simp: demo_mem_def too_old_def tdiff_def zero_work_def)

end
