(* ===== verification/T4Hw.thy ===== *)
theory T4Hw
  imports Prelude
begin

text \<open>
  The hardware of the T4 miner as its driver sees it.  The commands are
  functions of a vendor library that is not in the repository; the model
  takes an environment that answers each command and may let the answer depend on everything
  that happened before.  The history of commands and answers is the state.
\<close>

datatype hw_cmd =
    ResetAll int int
  | ResetJob int int
  | WriteRegister int int "u8 list"
  | ReadRegister int int nat
  | WriteJob int int "u8 list"
  | ReadResult int int nat
  | ReadWriteReg0d int int "u8 list"
  | BistStart int int
  | BistFix int int
  | SetSpiSpeed int int
  | SetLed int int
  | ChainHwReset int
  | PowerDownAll
  | ChainPowerDown int
  | GetPlug int
  | UpdateChainTemp int
  | GetChipTemps int
  | CurrentMs

text \<open>What a command returns and, where it fills a buffer, the bytes.\<close>

record hw_reply =
  r_val :: int
  r_buf :: "u8 list"

type_synonym hw_hist = "(hw_cmd \<times> hw_reply) list"
type_synonym hw_env = "hw_hist \<Rightarrow> hw_cmd \<Rightarrow> hw_reply"

definition hw :: "hw_env \<Rightarrow> hw_hist \<Rightarrow> hw_cmd \<Rightarrow> hw_reply \<times> hw_hist" where
  "hw env h c = (env h c, h @ [(c, env h c)])"

text \<open>Commands that return a truth value, and the bytes of a buffer of length \<open>n\<close>.\<close>

definition hw_ok :: "hw_reply \<Rightarrow> bool" where
  "hw_ok r \<longleftrightarrow> r_val r \<noteq> 0"

definition hw_bytes :: "nat \<Rightarrow> hw_reply \<Rightarrow> u8 list" where
  "hw_bytes n r = take n (r_buf r @ replicate n 0)"

lemma length_hw_bytes [simp]: "length (hw_bytes n r) = n"
  by (simp add: hw_bytes_def)

text \<open>The clock of the library's host: its answer to \<open>CurrentMs\<close>.\<close>

definition get_current_ms :: "hw_env \<Rightarrow> hw_hist \<Rightarrow> int \<times> hw_hist" where
  "get_current_ms env h = (let (r, h) = hw env h CurrentMs in (r_val r, h))"

text \<open>The commands a program issued from a history on.\<close>

definition issued :: "hw_hist \<Rightarrow> hw_hist \<Rightarrow> hw_cmd list" where
  "issued h h' = map fst (drop (length h) h')"

text \<open>Events of the bus whose replies are those of the environment.\<close>

fun answered :: "hw_env \<Rightarrow> hw_hist \<Rightarrow> hw_hist \<Rightarrow> bool" where
  "answered env h [] = True"
| "answered env h (x # t) = (snd x = env h (fst x) \<and> answered env (h @ [x]) t)"

lemma answered_append [simp]: "answered env h (t @ u) \<longleftrightarrow> answered env h t \<and> answered env (h @ t) u"
  by (induction t arbitrary: h) auto

definition hw_grows :: "hw_hist \<Rightarrow> hw_hist \<Rightarrow> bool" where
  "hw_grows h h' \<longleftrightarrow> (\<exists>t. h' = h @ t)"

lemma hw_grows_refl [simp, intro]: "hw_grows h h"
  by (simp add: hw_grows_def)

lemma hw_grows_trans [trans]: "hw_grows h h' \<Longrightarrow> hw_grows h' h'' \<Longrightarrow> hw_grows h h''"
  by (auto simp: hw_grows_def)

lemma hw_grows_app [simp]: "hw_grows h (h @ t)"
  by (simp add: hw_grows_def)

lemma issued_refl [simp]: "issued h h = []"
  by (simp add: issued_def)

lemma issued_app [simp]: "issued h (h @ t) = map fst t"
  by (simp add: issued_def)

lemma issued_trans: "hw_grows h h' \<Longrightarrow> hw_grows h' h'' \<Longrightarrow> issued h h'' = issued h h' @ issued h' h''"
  by (auto simp: hw_grows_def issued_def)

end
