(* ===== verification/T4Clock.thy ===== *)
theory T4Clock
  imports T4Hw
begin

text \<open>
  The clock of the T4 chips (t4_clock.c): the tables of frequencies, PLL words and register
  contents, the search for the level of a frequency, and setting it, at once or step by step.
\<close>

section \<open>Tables\<close>

definition g_pll_list :: "int list" where
  "g_pll_list =
    [120, 125, 129, 140, 150, 159, 171, 180, 189, 201, 210, 219, 231, 240,
     249, 261, 270, 279, 291, 300, 312, 318, 330, 342, 348, 360, 372, 378,
     390, 402, 408, 420, 432, 438, 450, 462, 468, 480, 492, 498, 510, 522,
     528, 540, 552, 558, 570, 582, 588, 600, 612, 624, 630, 636, 648, 660,
     672, 684, 690, 696, 708, 720, 732, 744, 750, 756, 768, 780, 792, 804,
     810, 816, 828, 840, 852, 864, 870, 876, 888, 900, 912, 924, 930, 936,
     948, 960, 972, 984, 990, 996, 1008, 1020, 1032, 1044, 1050, 1056, 1068, 1080,
     1092, 1104, 1110, 1116, 1128, 1140, 1152, 1164, 1170, 1176, 1188, 1200, 1212, 1224,
     1236, 1248, 1260, 1272, 1284, 1296]"

record PLL_Clock =
  num :: int
  speedMHz :: int
  pll_reg :: u32

definition A4_PLL :: "u32 \<Rightarrow> u32 \<Rightarrow> u32 \<Rightarrow> u32" where
  "A4_PLL prediv fbdiv postdiv = push_bit (89 - 64) prediv OR push_bit (80 - 64) fbdiv OR
     push_bit (77 - 64) 0b010 OR push_bit (70 - 64) postdiv"

definition PLL_Clk_12Mhz :: "PLL_Clock list" where
  "PLL_Clk_12Mhz = map (\<lambda>(n, s, r). \<lparr>num = n, speedMHz = s, pll_reg = r\<rparr>)
    [(0, 120, A4_PLL 1 80 3), (1, 125, A4_PLL 1 83 3), (2, 129, A4_PLL 1 86 3),
     (3, 140, A4_PLL 1 93 3), (4, 150, A4_PLL 1 50 2), (5, 159, A4_PLL 1 53 2),
     (6, 171, A4_PLL 1 57 2), (7, 180, A4_PLL 1 60 2), (8, 189, A4_PLL 1 63 2),
     (9, 201, A4_PLL 1 67 2), (10, 210, A4_PLL 1 70 2), (11, 219, A4_PLL 1 73 2),
     (12, 231, A4_PLL 1 77 2), (13, 240, A4_PLL 1 80 2), (14, 249, A4_PLL 1 83 2),
     (15, 261, A4_PLL 1 87 2), (16, 270, A4_PLL 1 90 2), (17, 279, A4_PLL 1 93 2),
     (18, 291, A4_PLL 1 97 2), (19, 300, A4_PLL 1 50 1), (20, 312, A4_PLL 1 52 1),
     (21, 318, A4_PLL 1 53 1), (22, 330, A4_PLL 1 55 1), (23, 342, A4_PLL 1 57 1),
     (24, 348, A4_PLL 1 58 1), (25, 360, A4_PLL 1 60 1), (26, 372, A4_PLL 1 62 1),
     (27, 378, A4_PLL 1 63 1), (28, 390, A4_PLL 1 65 1), (29, 402, A4_PLL 1 67 1),
     (30, 408, A4_PLL 1 68 1), (31, 420, A4_PLL 1 70 1), (32, 432, A4_PLL 1 72 1),
     (33, 438, A4_PLL 1 73 1), (34, 450, A4_PLL 1 75 1), (35, 462, A4_PLL 1 77 1),
     (36, 468, A4_PLL 1 78 1), (37, 480, A4_PLL 1 80 1), (38, 492, A4_PLL 1 82 1),
     (39, 498, A4_PLL 1 83 1), (40, 510, A4_PLL 1 85 1), (41, 522, A4_PLL 1 87 1),
     (42, 528, A4_PLL 1 88 1), (43, 540, A4_PLL 1 90 1), (44, 552, A4_PLL 1 92 1),
     (45, 558, A4_PLL 1 93 1), (46, 570, A4_PLL 1 95 1), (47, 582, A4_PLL 1 97 1),
     (48, 588, A4_PLL 1 98 1), (49, 600, A4_PLL 1 50 0), (50, 612, A4_PLL 1 51 0),
     (51, 624, A4_PLL 1 52 0), (52, 630, A4_PLL 2 105 0), (53, 636, A4_PLL 1 53 0),
     (54, 648, A4_PLL 1 54 0), (55, 660, A4_PLL 1 55 0), (56, 672, A4_PLL 1 56 0),
     (57, 684, A4_PLL 1 57 0), (58, 690, A4_PLL 2 115 0), (59, 696, A4_PLL 1 58 0),
     (60, 708, A4_PLL 1 59 0), (61, 720, A4_PLL 1 60 0), (62, 732, A4_PLL 1 61 0),
     (63, 744, A4_PLL 1 62 0), (64, 750, A4_PLL 2 125 0), (65, 756, A4_PLL 1 63 0),
     (66, 768, A4_PLL 1 64 0), (67, 780, A4_PLL 1 65 0), (68, 792, A4_PLL 1 66 0),
     (69, 804, A4_PLL 1 67 0), (70, 810, A4_PLL 2 135 0), (71, 816, A4_PLL 1 68 0),
     (72, 828, A4_PLL 1 69 0), (73, 840, A4_PLL 1 70 0), (74, 852, A4_PLL 1 71 0),
     (75, 864, A4_PLL 1 72 0), (76, 870, A4_PLL 2 145 0), (77, 876, A4_PLL 1 73 0),
     (78, 888, A4_PLL 1 74 0), (79, 900, A4_PLL 1 75 0), (80, 912, A4_PLL 1 76 0),
     (81, 924, A4_PLL 1 77 0), (82, 930, A4_PLL 2 155 0), (83, 936, A4_PLL 1 78 0),
     (84, 948, A4_PLL 1 79 0), (85, 960, A4_PLL 1 80 0), (86, 972, A4_PLL 1 81 0),
     (87, 984, A4_PLL 1 82 0), (88, 990, A4_PLL 2 165 0), (89, 996, A4_PLL 1 83 0),
     (90, 1008, A4_PLL 1 84 0), (91, 1020, A4_PLL 1 85 0), (92, 1032, A4_PLL 1 86 0),
     (93, 1044, A4_PLL 1 87 0), (94, 1050, A4_PLL 2 175 0), (95, 1056, A4_PLL 1 88 0),
     (96, 1068, A4_PLL 1 89 0), (97, 1080, A4_PLL 1 90 0), (98, 1092, A4_PLL 1 91 0),
     (99, 1104, A4_PLL 1 92 0), (100, 1110, A4_PLL 2 185 0), (101, 1116, A4_PLL 1 93 0),
     (102, 1128, A4_PLL 1 94 0), (103, 1140, A4_PLL 1 95 0), (104, 1152, A4_PLL 1 96 0),
     (105, 1164, A4_PLL 1 97 0), (106, 1170, A4_PLL 2 195 0), (107, 1176, A4_PLL 1 98 0),
     (108, 1188, A4_PLL 1 99 0), (109, 1200, A4_PLL 1 100 0), (110, 1212, A4_PLL 1 101 0),
     (111, 1224, A4_PLL 1 102 0), (112, 1236, A4_PLL 1 103 0), (113, 1248, A4_PLL 1 104 0),
     (114, 1260, A4_PLL 1 105 0), (115, 1272, A4_PLL 1 106 0), (116, 1284, A4_PLL 1 107 0),
     (117, 1296, A4_PLL 1 108 0)]"

definition g_pll_regs :: "u8 list list" where
  "g_pll_regs =
    [[0x02, 0x50, 0x40, 0xc2, 0x00, 0x05, 0x50, 0x00, 0x00, 0x04, 0x00, 0x00],
     [0x02, 0x53, 0x40, 0xc2, 0x00, 0x05, 0x50, 0x00, 0x00, 0x04, 0x00, 0x00],
     [0x02, 0x56, 0x40, 0xc2, 0x00, 0x05, 0x50, 0x00, 0x00, 0x04, 0x00, 0x00],
     [0x02, 0x5d, 0x40, 0xc2, 0x00, 0x05, 0x50, 0x00, 0x00, 0x04, 0x00, 0x00],
     [0x02, 0x32, 0x40, 0x82, 0x00, 0x05, 0x50, 0x00, 0x00, 0x04, 0x00, 0x00],
     [0x02, 0x35, 0x40, 0x82, 0x00, 0x05, 0x50, 0x00, 0x00, 0x04, 0x00, 0x00],
     [0x02, 0x39, 0x40, 0x82, 0x00, 0x05, 0x50, 0x00, 0x00, 0x04, 0x00, 0x00],
     [0x02, 0x3c, 0x40, 0x82, 0x00, 0x05, 0x50, 0x00, 0x00, 0x04, 0x00, 0x00],
     [0x02, 0x3f, 0x40, 0x82, 0x00, 0x05, 0x50, 0x00, 0x00, 0x04, 0x00, 0x00],
     [0x02, 0x43, 0x40, 0x82, 0x00, 0x05, 0x50, 0x00, 0x00, 0x04, 0x00, 0x00],
     [0x02, 0x46, 0x40, 0x82, 0x00, 0x05, 0x50, 0x00, 0x00, 0x04, 0x00, 0x00],
     [0x02, 0x49, 0x40, 0x82, 0x00, 0x05, 0x50, 0x00, 0x00, 0x04, 0x00, 0x00],
     [0x02, 0x4d, 0x40, 0x82, 0x00, 0x05, 0x50, 0x00, 0x00, 0x04, 0x00, 0x00],
     [0x02, 0x50, 0x40, 0x82, 0x00, 0x05, 0x50, 0x00, 0x00, 0x04, 0x00, 0x00],
     [0x02, 0x53, 0x40, 0x82, 0x00, 0x05, 0x50, 0x00, 0x00, 0x04, 0x00, 0x00],
     [0x02, 0x57, 0x40, 0x82, 0x00, 0x05, 0x50, 0x00, 0x00, 0x04, 0x00, 0x00],
     [0x02, 0x5a, 0x40, 0x82, 0x00, 0x05, 0x50, 0x00, 0x00, 0x04, 0x00, 0x00],
     [0x02, 0x5d, 0x40, 0x82, 0x00, 0x05, 0x50, 0x00, 0x00, 0x04, 0x00, 0x00],
     [0x02, 0x61, 0x40, 0x82, 0x00, 0x05, 0x50, 0x00, 0x00, 0x04, 0x00, 0x00],
     [0x02, 0x32, 0x40, 0x42, 0x00, 0x05, 0x50, 0x00, 0x00, 0x04, 0x00, 0x00],
     [0x02, 0x34, 0x40, 0x42, 0x00, 0x05, 0x50, 0x00, 0x00, 0x04, 0x00, 0x00],
     [0x02, 0x35, 0x40, 0x42, 0x00, 0x05, 0x50, 0x00, 0x00, 0x04, 0x00, 0x00],
     [0x02, 0x37, 0x40, 0x42, 0x00, 0x05, 0x50, 0x00, 0x00, 0x04, 0x00, 0x00],
     [0x02, 0x39, 0x40, 0x42, 0x00, 0x05, 0x50, 0x00, 0x00, 0x04, 0x00, 0x00],
     [0x02, 0x3a, 0x40, 0x42, 0x00, 0x05, 0x50, 0x00, 0x00, 0x04, 0x00, 0x00],
     [0x02, 0x3c, 0x40, 0x42, 0x00, 0x05, 0x50, 0x00, 0x00, 0x04, 0x00, 0x00],
     [0x02, 0x3e, 0x40, 0x42, 0x00, 0x05, 0x50, 0x00, 0x00, 0x04, 0x00, 0x00],
     [0x02, 0x3f, 0x40, 0x42, 0x00, 0x05, 0x50, 0x00, 0x00, 0x04, 0x00, 0x00],
     [0x02, 0x41, 0x40, 0x42, 0x00, 0x05, 0x50, 0x00, 0x00, 0x04, 0x00, 0x00],
     [0x02, 0x43, 0x40, 0x42, 0x00, 0x05, 0x50, 0x00, 0x00, 0x04, 0x00, 0x00],
     [0x02, 0x44, 0x40, 0x42, 0x00, 0x05, 0x50, 0x00, 0x00, 0x04, 0x00, 0x00],
     [0x02, 0x46, 0x40, 0x42, 0x00, 0x05, 0x50, 0x00, 0x00, 0x04, 0x00, 0x00],
     [0x02, 0x48, 0x40, 0x42, 0x00, 0x05, 0x50, 0x00, 0x00, 0x04, 0x00, 0x00],
     [0x02, 0x49, 0x40, 0x42, 0x00, 0x05, 0x50, 0x00, 0x00, 0x04, 0x00, 0x00],
     [0x02, 0x4b, 0x40, 0x42, 0x00, 0x05, 0x50, 0x00, 0x00, 0x04, 0x00, 0x00],
     [0x02, 0x4d, 0x40, 0x42, 0x00, 0x05, 0x50, 0x00, 0x00, 0x04, 0x00, 0x00],
     [0x02, 0x4e, 0x40, 0x42, 0x00, 0x05, 0x50, 0x00, 0x00, 0x04, 0x00, 0x00],
     [0x02, 0x50, 0x40, 0x42, 0x00, 0x05, 0x50, 0x00, 0x00, 0x04, 0x00, 0x00],
     [0x02, 0x52, 0x40, 0x42, 0x00, 0x05, 0x50, 0x00, 0x00, 0x04, 0x00, 0x00],
     [0x02, 0x53, 0x40, 0x42, 0x00, 0x05, 0x50, 0x00, 0x00, 0x04, 0x00, 0x00],
     [0x02, 0x55, 0x40, 0x42, 0x00, 0x05, 0x50, 0x00, 0x00, 0x04, 0x00, 0x00],
     [0x02, 0x57, 0x40, 0x42, 0x00, 0x05, 0x50, 0x00, 0x00, 0x04, 0x00, 0x00],
     [0x02, 0x58, 0x40, 0x42, 0x00, 0x05, 0x50, 0x00, 0x00, 0x04, 0x00, 0x00],
     [0x02, 0x5a, 0x40, 0x42, 0x00, 0x05, 0x50, 0x00, 0x00, 0x04, 0x00, 0x00],
     [0x02, 0x5c, 0x40, 0x42, 0x00, 0x05, 0x50, 0x00, 0x00, 0x04, 0x00, 0x00],
     [0x02, 0x5d, 0x40, 0x42, 0x00, 0x05, 0x50, 0x00, 0x00, 0x04, 0x00, 0x00],
     [0x02, 0x5f, 0x40, 0x42, 0x00, 0x05, 0x50, 0x00, 0x00, 0x04, 0x00, 0x00],
     [0x02, 0x61, 0x40, 0x42, 0x00, 0x05, 0x50, 0x00, 0x00, 0x04, 0x00, 0x00],
     [0x02, 0x62, 0x40, 0x42, 0x00, 0x05, 0x50, 0x00, 0x00, 0x04, 0x00, 0x00],
     [0x02, 0x32, 0x40, 0x02, 0x00, 0x05, 0x50, 0x00, 0x00, 0x00, 0x00, 0x00],
     [0x02, 0x33, 0x40, 0x02, 0x00, 0x05, 0x50, 0x00, 0x00, 0x00, 0x00, 0x00],
     [0x02, 0x34, 0x40, 0x02, 0x00, 0x05, 0x50, 0x00, 0x00, 0x00, 0x00, 0x00],
     [0x04, 0x69, 0x40, 0x02, 0x00, 0x05, 0x50, 0x00, 0x00, 0x00, 0x00, 0x00],
     [0x02, 0x35, 0x40, 0x02, 0x00, 0x05, 0x50, 0x00, 0x00, 0x00, 0x00, 0x00],
     [0x02, 0x36, 0x40, 0x02, 0x00, 0x05, 0x50, 0x00, 0x00, 0x00, 0x00, 0x00],
     [0x02, 0x37, 0x40, 0x02, 0x00, 0x05, 0x50, 0x00, 0x00, 0x00, 0x00, 0x00],
     [0x02, 0x38, 0x40, 0x02, 0x00, 0x05, 0x50, 0x00, 0x00, 0x00, 0x00, 0x00],
     [0x02, 0x39, 0x40, 0x02, 0x00, 0x05, 0x50, 0x00, 0x00, 0x00, 0x00, 0x00],
     [0x04, 0x73, 0x40, 0x02, 0x00, 0x05, 0x50, 0x00, 0x00, 0x00, 0x00, 0x00],
     [0x02, 0x3a, 0x40, 0x02, 0x00, 0x05, 0x50, 0x00, 0x00, 0x00, 0x00, 0x00],
     [0x02, 0x3b, 0x40, 0x02, 0x00, 0x05, 0x50, 0x00, 0x00, 0x00, 0x00, 0x00],
     [0x02, 0x3c, 0x40, 0x02, 0x00, 0x05, 0x50, 0x00, 0x00, 0x00, 0x00, 0x00],
     [0x02, 0x3d, 0x40, 0x02, 0x00, 0x05, 0x50, 0x00, 0x00, 0x00, 0x00, 0x00],
     [0x02, 0x3e, 0x40, 0x02, 0x00, 0x05, 0x50, 0x00, 0x00, 0x00, 0x00, 0x00],
     [0x04, 0x7d, 0x40, 0x02, 0x00, 0x05, 0x50, 0x00, 0x00, 0x00, 0x00, 0x00],
     [0x02, 0x3f, 0x40, 0x02, 0x00, 0x05, 0x50, 0x00, 0x00, 0x00, 0x00, 0x00],
     [0x02, 0x40, 0x40, 0x02, 0x00, 0x05, 0x50, 0x00, 0x00, 0x00, 0x00, 0x00],
     [0x02, 0x41, 0x40, 0x02, 0x00, 0x05, 0x50, 0x00, 0x00, 0x00, 0x00, 0x00],
     [0x02, 0x42, 0x40, 0x02, 0x00, 0x05, 0x50, 0x00, 0x00, 0x00, 0x00, 0x00],
     [0x02, 0x43, 0x40, 0x02, 0x00, 0x05, 0x50, 0x00, 0x00, 0x00, 0x00, 0x00],
     [0x04, 0x87, 0x40, 0x02, 0x00, 0x05, 0x50, 0x00, 0x00, 0x00, 0x00, 0x00],
     [0x02, 0x44, 0x40, 0x02, 0x00, 0x05, 0x50, 0x00, 0x00, 0x00, 0x00, 0x00],
     [0x02, 0x45, 0x40, 0x02, 0x00, 0x05, 0x50, 0x00, 0x00, 0x00, 0x00, 0x00],
     [0x02, 0x46, 0x40, 0x02, 0x00, 0x05, 0x50, 0x00, 0x00, 0x00, 0x00, 0x00],
     [0x02, 0x47, 0x40, 0x02, 0x00, 0x05, 0x50, 0x00, 0x00, 0x00, 0x00, 0x00],
     [0x02, 0x48, 0x40, 0x02, 0x00, 0x05, 0x50, 0x00, 0x00, 0x00, 0x00, 0x00],
     [0x04, 0x91, 0x40, 0x02, 0x00, 0x05, 0x50, 0x00, 0x00, 0x00, 0x00, 0x00],
     [0x02, 0x49, 0x40, 0x02, 0x00, 0x05, 0x50, 0x00, 0x00, 0x00, 0x00, 0x00],
     [0x02, 0x4a, 0x40, 0x02, 0x00, 0x05, 0x50, 0x00, 0x00, 0x00, 0x00, 0x00],
     [0x02, 0x4b, 0x40, 0x02, 0x00, 0x05, 0x50, 0x00, 0x00, 0x00, 0x00, 0x00],
     [0x02, 0x4c, 0x40, 0x02, 0x00, 0x05, 0x50, 0x00, 0x00, 0x00, 0x00, 0x00],
     [0x02, 0x4d, 0x40, 0x02, 0x00, 0x05, 0x50, 0x00, 0x00, 0x00, 0x00, 0x00],
     [0x04, 0x9b, 0x40, 0x02, 0x00, 0x05, 0x50, 0x00, 0x00, 0x00, 0x00, 0x00],
     [0x02, 0x4e, 0x40, 0x02, 0x00, 0x05, 0x50, 0x00, 0x00, 0x00, 0x00, 0x00],
     [0x02, 0x4f, 0x40, 0x02, 0x00, 0x05, 0x50, 0x00, 0x00, 0x00, 0x00, 0x00],
     [0x02, 0x50, 0x40, 0x02, 0x00, 0x05, 0x50, 0x00, 0x00, 0x00, 0x00, 0x00],
     [0x02, 0x51, 0x40, 0x02, 0x00, 0x05, 0x50, 0x00, 0x00, 0x00, 0x00, 0x00],
     [0x02, 0x52, 0x40, 0x02, 0x00, 0x05, 0x50, 0x00, 0x00, 0x00, 0x00, 0x00],
     [0x04, 0xa5, 0x40, 0x02, 0x00, 0x05, 0x50, 0x00, 0x00, 0x00, 0x00, 0x00],
     [0x02, 0x53, 0x40, 0x02, 0x00, 0x05, 0x50, 0x00, 0x00, 0x00, 0x00, 0x00],
     [0x02, 0x54, 0x40, 0x02, 0x00, 0x05, 0x50, 0x00, 0x00, 0x00, 0x00, 0x00],
     [0x02, 0x55, 0x40, 0x02, 0x00, 0x05, 0x50, 0x00, 0x00, 0x00, 0x00, 0x00],
     [0x02, 0x56, 0x40, 0x02, 0x00, 0x05, 0x50, 0x00, 0x00, 0x00, 0x00, 0x00],
     [0x02, 0x57, 0x40, 0x02, 0x00, 0x05, 0x50, 0x00, 0x00, 0x00, 0x00, 0x00],
     [0x04, 0xaf, 0x40, 0x02, 0x00, 0x05, 0x50, 0x00, 0x00, 0x00, 0x00, 0x00],
     [0x02, 0x58, 0x40, 0x02, 0x00, 0x05, 0x50, 0x00, 0x00, 0x00, 0x00, 0x00],
     [0x02, 0x59, 0x40, 0x02, 0x00, 0x05, 0x50, 0x00, 0x00, 0x00, 0x00, 0x00],
     [0x02, 0x5a, 0x40, 0x02, 0x00, 0x05, 0x50, 0x00, 0x00, 0x00, 0x00, 0x00],
     [0x02, 0x5b, 0x40, 0x02, 0x00, 0x05, 0x50, 0x00, 0x00, 0x00, 0x00, 0x00],
     [0x02, 0x5c, 0x40, 0x02, 0x00, 0x05, 0x50, 0x00, 0x00, 0x00, 0x00, 0x00],
     [0x04, 0xb9, 0x40, 0x02, 0x00, 0x05, 0x50, 0x00, 0x00, 0x00, 0x00, 0x00],
     [0x02, 0x5d, 0x40, 0x02, 0x00, 0x05, 0x50, 0x00, 0x00, 0x00, 0x00, 0x00],
     [0x02, 0x5e, 0x40, 0x02, 0x00, 0x05, 0x50, 0x00, 0x00, 0x00, 0x00, 0x00],
     [0x02, 0x5f, 0x40, 0x02, 0x00, 0x05, 0x50, 0x00, 0x00, 0x00, 0x00, 0x00],
     [0x02, 0x60, 0x40, 0x02, 0x00, 0x05, 0x50, 0x00, 0x00, 0x00, 0x00, 0x00],
     [0x02, 0x61, 0x40, 0x02, 0x00, 0x05, 0x50, 0x00, 0x00, 0x00, 0x00, 0x00],
     [0x04, 0xc3, 0x40, 0x02, 0x00, 0x05, 0x50, 0x00, 0x00, 0x00, 0x00, 0x00],
     [0x02, 0x62, 0x40, 0x02, 0x00, 0x05, 0x50, 0x00, 0x00, 0x00, 0x00, 0x00],
     [0x02, 0x63, 0x40, 0x02, 0x00, 0x05, 0x50, 0x00, 0x00, 0x00, 0x00, 0x00],
     [0x02, 0x64, 0x40, 0x02, 0x00, 0x05, 0x50, 0x00, 0x00, 0x00, 0x00, 0x00],
     [0x02, 0x65, 0x40, 0x02, 0x00, 0x05, 0x50, 0x00, 0x00, 0x00, 0x00, 0x00],
     [0x02, 0x66, 0x40, 0x02, 0x00, 0x05, 0x50, 0x00, 0x00, 0x00, 0x00, 0x00],
     [0x02, 0x67, 0x40, 0x02, 0x00, 0x05, 0x50, 0x00, 0x00, 0x00, 0x00, 0x00],
     [0x02, 0x68, 0x40, 0x02, 0x00, 0x05, 0x50, 0x00, 0x00, 0x00, 0x00, 0x00],
     [0x02, 0x69, 0x40, 0x02, 0x00, 0x05, 0x50, 0x00, 0x00, 0x00, 0x00, 0x00],
     [0x02, 0x6a, 0x40, 0x02, 0x00, 0x05, 0x50, 0x00, 0x00, 0x00, 0x00, 0x00],
     [0x02, 0x6b, 0x40, 0x02, 0x00, 0x05, 0x50, 0x00, 0x00, 0x00, 0x00, 0x00],
     [0x02, 0x6c, 0x40, 0x02, 0x00, 0x05, 0x50, 0x00, 0x00, 0x00, 0x00, 0x00]]"

section \<open>Levels\<close>

text \<open>Reading outside the table is \<open>None\<close>.\<close>

definition Ax_clock_index2pll :: "int \<Rightarrow> int option" where
  "Ax_clock_index2pll pllClkIdx =
     (if 0 \<le> pllClkIdx \<and> pllClkIdx < 118 then Some (speedMHz (PLL_Clk_12Mhz ! nat pllClkIdx)) else None)"

fun pll_scan :: "int \<Rightarrow> nat list \<Rightarrow> int" where
  "pll_scan optPll [] = 0"
| "pll_scan optPll (i # is) =
     (if optPll < speedMHz (PLL_Clk_12Mhz ! i) \<and> optPll \<ge> speedMHz (PLL_Clk_12Mhz ! (i - 1))
      then int i - 1 else pll_scan optPll is)"

text \<open>For a frequency of zero or less the code returns a variable it never set: \<open>None\<close>.\<close>

definition Ax_clock_pll2index :: "int \<Rightarrow> int option" where
  "Ax_clock_pll2index optPll =
     (if optPll > 0
      then Some (if optPll \<le> speedMHz (PLL_Clk_12Mhz ! 0) then 0 else pll_scan optPll [1..<118])
      else None)"

section \<open>Setting the clock\<close>

text \<open>Five tries; an index outside the table reads past it.\<close>

fun setpll_try :: "hw_env \<Rightarrow> nat \<Rightarrow> hw_hist \<Rightarrow> hw_cmd \<Rightarrow> bool \<times> hw_hist" where
  "setpll_try env 0 h c = (False, h)"
| "setpll_try env (Suc k) h c =
     (let (r, h) = hw env h c in if hw_ok r then (True, h) else setpll_try env k h c)"

definition Ax_clock_setpll :: "hw_env \<Rightarrow> int \<Rightarrow> int \<Rightarrow> hw_hist \<Rightarrow> (bool \<times> hw_hist) option" where
  "Ax_clock_setpll env chain_id pllClkIdx h =
     (if 0 \<le> pllClkIdx \<and> pllClkIdx < 118
      then Some (setpll_try env 5 h (WriteRegister chain_id 0 (take 12 (g_pll_regs ! nat pllClkIdx))))
      else None)"

fun setpll_steps :: "hw_env \<Rightarrow> int \<Rightarrow> int \<Rightarrow> int list \<Rightarrow> hw_hist \<Rightarrow> (bool \<times> hw_hist) option" where
  "setpll_steps env chain_id pllClkIdx [] h = Some (True, h)"
| "setpll_steps env chain_id pllClkIdx (i # is) h =
     (if i mod 5 = 0 \<or> i = pllClkIdx
      then (case Ax_clock_setpll env chain_id i h of None \<Rightarrow> None
            | Some (ok, h) \<Rightarrow> if ok then setpll_steps env chain_id pllClkIdx is h else Some (False, h))
      else setpll_steps env chain_id pllClkIdx is h)"

definition Ax_clock_setpll_by_step :: "hw_env \<Rightarrow> int \<Rightarrow> int \<Rightarrow> hw_hist \<Rightarrow> (bool \<times> hw_hist) option" where
  "Ax_clock_setpll_by_step env chain_id pllClkIdx h = setpll_steps env chain_id pllClkIdx [0..pllClkIdx] h"

section \<open>The tables agree\<close>

text \<open>The three dividers of a PLL word.\<close>

definition pll_prediv :: "u32 \<Rightarrow> int" where
  "pll_prediv w = uint (drop_bit 25 w)"

definition pll_fbdiv :: "u32 \<Rightarrow> int" where
  "pll_fbdiv w = uint (take_bit 9 (drop_bit 16 w))"

definition pll_postdiv :: "u32 \<Rightarrow> nat" where
  "pll_postdiv w = unat (take_bit 2 (drop_bit 6 w))"

text \<open>
  Entry \<open>i\<close>: its number, its frequency in both tables, the register's first word, which is the PLL
  word with the bit below the post divider set, and the frequency that the dividers make of a 12 MHz clock,
  rounded to a whole number.
\<close>

definition pll_entry_ok :: "int \<Rightarrow> PLL_Clock \<Rightarrow> int \<Rightarrow> u8 list \<Rightarrow> bool" where
  "pll_entry_ok i c f r \<longleftrightarrow>
     num c = i \<and> speedMHz c = f \<and> length r = 12 \<and>
     be32 (r ! 0) (r ! 1) (r ! 2) (r ! 3) = pll_reg c OR 2 \<and>
     2 * \<bar>12 * pll_fbdiv (pll_reg c) - f * pll_prediv (pll_reg c) * 2 ^ pll_postdiv (pll_reg c)\<bar>
       \<le> pll_prediv (pll_reg c) * 2 ^ pll_postdiv (pll_reg c)"

fun all4 :: "('a \<Rightarrow> 'b \<Rightarrow> 'c \<Rightarrow> 'd \<Rightarrow> bool) \<Rightarrow> 'a list \<Rightarrow> 'b list \<Rightarrow> 'c list \<Rightarrow> 'd list \<Rightarrow> bool" where
  "all4 P [] [] [] [] = True"
| "all4 P (a # as) (b # bs) (c # cs) (d # ds) = (P a b c d \<and> all4 P as bs cs ds)"
| "all4 P _ _ _ _ = False"

lemma all4_nth: "all4 P as bs cs ds \<Longrightarrow> i < length as \<Longrightarrow> P (as ! i) (bs ! i) (cs ! i) (ds ! i)"
  by (induction P as bs cs ds arbitrary: i rule: all4.induct) (auto simp: nth_Cons split: nat.split)

lemma pll_entries: "all4 pll_entry_ok [0..117] PLL_Clk_12Mhz g_pll_list g_pll_regs"
proof -
  have "[0..117] = [0, 1, 2, 3, 4, 5, 6, 7, 8, 9, 10, 11, 12, 13, 14, 15, 16, 17, 18, 19,
     20, 21, 22, 23, 24, 25, 26, 27, 28, 29, 30, 31, 32, 33, 34, 35, 36, 37, 38, 39,
     40, 41, 42, 43, 44, 45, 46, 47, 48, 49, 50, 51, 52, 53, 54, 55, 56, 57, 58, 59,
     60, 61, 62, 63, 64, 65, 66, 67, 68, 69, 70, 71, 72, 73, 74, 75, 76, 77, 78, 79,
     80, 81, 82, 83, 84, 85, 86, 87, 88, 89, 90, 91, 92, 93, 94, 95, 96, 97, 98, 99,
     100, 101, 102, 103, 104, 105, 106, 107, 108, 109, 110, 111, 112, 113, 114, 115, 116, 117]" by (simp add: upto_rec1)
  then show ?thesis
    unfolding PLL_Clk_12Mhz_def g_pll_list_def g_pll_regs_def list.map prod.case all4.simps
    by (simp add: pll_entry_ok_def A4_PLL_def pll_fbdiv_def pll_prediv_def pll_postdiv_def be32_def
        take_bit_eq_mod)
qed

lemma length_pll [simp]: "length g_pll_list = 118" "length g_pll_regs = 118"
  by (simp_all add: g_pll_list_def g_pll_regs_def)

lemma pll_entry: "i < 118 \<Longrightarrow> pll_entry_ok (int i) (PLL_Clk_12Mhz ! i) (g_pll_list ! i) (g_pll_regs ! i)"
  using all4_nth [OF pll_entries, of i] by simp

lemma speed_list: "i < 118 \<Longrightarrow> speedMHz (PLL_Clk_12Mhz ! i) = g_pll_list ! i"
  using pll_entry by (simp add: pll_entry_ok_def)

lemma pll_ends: "g_pll_list ! 0 = 120" "g_pll_list ! 117 = 1296"
  by (simp_all add: g_pll_list_def)

lemma pll_increasing: "sorted_wrt (<) g_pll_list"
  unfolding g_pll_list_def by (simp add: sorted_wrt2 sorted_wrt1 del: sorted_wrt.simps)

lemma pll_less: "i < j \<Longrightarrow> j < 118 \<Longrightarrow> g_pll_list ! i < g_pll_list ! j"
  using pll_increasing by (simp add: sorted_wrt_nth_less)

lemma pll_scan_find:
  "pll_scan p is = (case find (\<lambda>i. p < speedMHz (PLL_Clk_12Mhz ! i) \<and> speedMHz (PLL_Clk_12Mhz ! (i - 1)) \<le> p) is of
     None \<Rightarrow> 0 | Some i \<Rightarrow> int i - 1)"
  by (induction "is") auto

text \<open>The level of a frequency inside the table's range.\<close>

lemma pll_scan_mid:
  assumes "120 \<le> p" and "p < 1296"
  shows "\<exists>i < 117. pll_scan p [1..<118] = int i \<and> g_pll_list ! i \<le> p \<and> p < g_pll_list ! Suc i"
proof -
  let ?Q = "\<lambda>i. p < speedMHz (PLL_Clk_12Mhz ! i) \<and> speedMHz (PLL_Clk_12Mhz ! (i - 1)) \<le> p"
  define m where "m = (LEAST i. p < g_pll_list ! i)"
  have top: "p < g_pll_list ! 117" using assms(2) by (simp add: pll_ends)
  then have "p < g_pll_list ! m" and "m \<le> 117" unfolding m_def by (rule LeastI, rule Least_le)
  moreover have "m \<noteq> 0" using \<open>p < g_pll_list ! m\<close> assms(1) pll_ends(1) by (metis not_less)
  moreover have "\<not> p < g_pll_list ! (m - 1)" using \<open>m \<noteq> 0\<close> not_less_Least [of "m - 1" "\<lambda>i. p < g_pll_list ! i"]
    by (simp add: m_def)
  ultimately have "?Q m" "m \<in> set [1..<118]" by (auto simp: speed_list)
  then have "find ?Q [1..<118] \<noteq> None" unfolding find_None_iff by blast
  then obtain i where f: "find ?Q [1..<118] = Some i" by blast
  then have i: "?Q i" "1 \<le> i" "i < 118"
    unfolding find_Some_iff by (auto simp del: upt_Suc)
  then have "g_pll_list ! (i - 1) \<le> p" "p < g_pll_list ! Suc (i - 1)" by (simp_all add: speed_list)
  moreover have "pll_scan p [1..<118] = int (i - 1)" using i(2) by (simp only: pll_scan_find f option.case of_nat_diff of_nat_1)
  ultimately show ?thesis using i by (intro exI [of _ "i - 1"]) auto
qed

lemma pll_scan_top:
  assumes p: "1296 \<le> p"
  shows "pll_scan p [1..<118] = 0"
proof -
  have "g_pll_list ! i \<le> p" if "i < 118" for i
    using pll_less [of i 117] pll_ends(2) p that by (cases "i = 117") auto
  then have "find (\<lambda>i. p < speedMHz (PLL_Clk_12Mhz ! i) \<and> speedMHz (PLL_Clk_12Mhz ! (i - 1)) \<le> p) [1..<118] = None"
    unfolding find_None_iff by (auto simp: speed_list not_less simp del: upt_Suc)
  then show ?thesis by (simp only: pll_scan_find option.case)
qed

lemma pll_level_unique:
  assumes "i < 117" "j < 117" "g_pll_list ! i \<le> p" "p < g_pll_list ! Suc i" "g_pll_list ! j \<le> p" "p < g_pll_list ! Suc j"
  shows "i = j"
proof (rule ccontr)
  assume "i \<noteq> j"
  then consider "Suc i \<le> j" | "Suc j \<le> i" by linarith
  then show False
  proof cases
    case 1
    then have "g_pll_list ! Suc i \<le> g_pll_list ! j" using pll_less [of "Suc i" j] assms by (cases "Suc i = j") auto
    with assms show False by simp
  next
    case 2
    then have "g_pll_list ! Suc j \<le> g_pll_list ! i" using pll_less [of "Suc j" i] assms by (cases "Suc j = i") auto
    with assms show False by simp
  qed
qed

section \<open>What setting the clock issues\<close>

text \<open>The writes of one level: refused until one is accepted, or refused five times.\<close>

definition level_written :: "hw_cmd \<Rightarrow> hw_hist \<Rightarrow> bool" where
  "level_written c t \<longleftrightarrow> 1 \<le> length t \<and> length t \<le> 5 \<and> (\<forall>x \<in> set t. fst x = c) \<and>
     hw_ok (snd (last t)) \<and> (\<forall>x \<in> set (butlast t). \<not> hw_ok (snd x))"

definition level_refused :: "hw_cmd \<Rightarrow> hw_hist \<Rightarrow> bool" where
  "level_refused c t \<longleftrightarrow> length t = 5 \<and> (\<forall>x \<in> set t. fst x = c \<and> \<not> hw_ok (snd x))"

lemma setpll_try_run:
  "setpll_try env k h c = (ok, h') \<Longrightarrow> \<exists>t. h' = h @ t \<and> answered env h t \<and> length t \<le> k \<and> (\<forall>x \<in> set t. fst x = c) \<and>
     (if ok then t \<noteq> [] \<and> hw_ok (snd (last t)) \<and> (\<forall>x \<in> set (butlast t). \<not> hw_ok (snd x))
      else length t = k \<and> (\<forall>x \<in> set t. \<not> hw_ok (snd x)))"
proof (induction k arbitrary: h)
  case (Suc k)
  show ?case
  proof (cases "hw_ok (env h c)")
    case True
    with Suc.prems show ?thesis by (intro exI [of _ "[(c, env h c)]"]) (auto simp: hw_def Let_def)
  next
    case False
    with Suc.prems have "setpll_try env k (h @ [(c, env h c)]) c = (ok, h')" by (simp add: hw_def Let_def)
    from Suc.IH [OF this] obtain t where t: "h' = h @ (c, env h c) # t" "answered env (h @ [(c, env h c)]) t" "length t \<le> k"
      "\<forall>x \<in> set t. fst x = c" "if ok then t \<noteq> [] \<and> hw_ok (snd (last t)) \<and> (\<forall>x \<in> set (butlast t). \<not> hw_ok (snd x))
        else length t = k \<and> (\<forall>x \<in> set t. \<not> hw_ok (snd x))"
      by auto
    then show ?thesis using False by (intro exI [of _ "(c, env h c) # t"]) (auto split: if_splits)
  qed
qed auto

lemma setpll_try_level:
  assumes "setpll_try env 5 h c = (ok, h')"
  shows "\<exists>t. h' = h @ t \<and> answered env h t \<and> (if ok then level_written c t else level_refused c t)"
  using setpll_try_run [OF assms] by (cases ok) (auto simp: level_written_def level_refused_def Suc_le_eq)

definition reg_cmd :: "int \<Rightarrow> int \<Rightarrow> hw_cmd" where
  "reg_cmd cid i = WriteRegister cid 0 (g_pll_regs ! nat i)"

lemma setpll_eq: "0 \<le> i \<Longrightarrow> i < 118 \<Longrightarrow> Ax_clock_setpll env cid i h = Some (setpll_try env 5 h (reg_cmd cid i))"
proof -
  assume i: "0 \<le> i" "i < 118"
  then have "length (g_pll_regs ! nat i) = 12" using pll_entry [of "nat i"] by (simp add: pll_entry_ok_def)
  with i show ?thesis by (simp add: Ax_clock_setpll_def reg_cmd_def)
qed

text \<open>The levels a stepwise change goes through.\<close>

definition pll_steps :: "int \<Rightarrow> int list" where
  "pll_steps idx = filter (\<lambda>i. i mod 5 = 0 \<or> i = idx) [0..idx]"

text \<open>The writes of a list of levels: every one accepted, or all before the one that was refused.\<close>

definition levels_run :: "bool \<Rightarrow> hw_cmd list \<Rightarrow> hw_hist list \<Rightarrow> bool" where
  "levels_run ok cs ts \<longleftrightarrow>
     (if ok then list_all2 level_written cs ts
      else \<exists>k < length cs. list_all2 level_written (take k cs) (butlast ts) \<and> ts \<noteq> [] \<and> level_refused (cs ! k) (last ts))"

lemma levels_run_refused: "level_refused c t \<Longrightarrow> levels_run False (c # cs) [t]"
  by (auto simp: levels_run_def intro!: exI [of _ 0])

lemma levels_run_Cons: "level_written c t \<Longrightarrow> levels_run ok cs ts \<Longrightarrow> levels_run ok (c # cs) (t # ts)"
  by (auto simp: levels_run_def intro!: exI [of _ "Suc k" for k] split: if_splits)

lemma setpll_steps_spec:
  assumes "\<forall>i \<in> set is. 0 \<le> i \<and> i < 118"
  shows "\<exists>ok ts. setpll_steps env cid idx is h = Some (ok, h @ concat ts) \<and> answered env h (concat ts) \<and>
    levels_run ok (map (reg_cmd cid) (filter (\<lambda>i. i mod 5 = 0 \<or> i = idx) is)) ts"
  using assms
proof (induction "is" arbitrary: h)
  case Nil
  show ?case by (intro exI [of _ True] exI [of _ "[]"]) (simp add: levels_run_def)
next
  case (Cons i "is")
  show ?case
  proof (cases "i mod 5 = 0 \<or> i = idx")
    case False
    with Cons show ?thesis by simp
  next
    case True
    obtain ok1 h1 where s: "setpll_try env 5 h (reg_cmd cid i) = (ok1, h1)" by (cases "setpll_try env 5 h (reg_cmd cid i)")
    obtain t1 where t1: "h1 = h @ t1" "answered env h t1"
        "if ok1 then level_written (reg_cmd cid i) t1 else level_refused (reg_cmd cid i) t1"
      using setpll_try_level [OF s] by blast
    have eq: "Ax_clock_setpll env cid i h = Some (ok1, h1)" using Cons.prems s by (simp add: setpll_eq)
    show ?thesis
    proof (cases ok1)
      case False
      with eq True t1 show ?thesis by (intro exI [of _ False] exI [of _ "[t1]"]) (simp add: levels_run_refused)
    next
      case ok: True
      obtain ok ts where r: "setpll_steps env cid idx is h1 = Some (ok, h1 @ concat ts)" "answered env h1 (concat ts)"
          "levels_run ok (map (reg_cmd cid) (filter (\<lambda>i. i mod 5 = 0 \<or> i = idx) is)) ts"
        using Cons.IH [of h1] Cons.prems by auto
      then show ?thesis using eq True ok t1
        by (intro exI [of _ ok] exI [of _ "t1 # ts"]) (simp add: levels_run_Cons)
    qed
  qed
qed

lemma pll2index_levels:
  assumes "0 < p"
  shows "(p \<le> 120 \<longrightarrow> Ax_clock_pll2index p = Some 0) \<and>
    (120 \<le> p \<and> p < 1296 \<longrightarrow> (\<exists>i. Ax_clock_pll2index p = Some i \<and> 0 \<le> i \<and> i < 117 \<and>
      (\<exists>f g. Ax_clock_index2pll i = Some f \<and> Ax_clock_index2pll (i + 1) = Some g \<and> f \<le> p \<and> p < g))) \<and>
    (1296 \<le> p \<longrightarrow> Ax_clock_pll2index p = Some 0) \<and>
    (Ax_clock_pll2index p \<noteq> Some 117)"
proof -
  have zero: "speedMHz (PLL_Clk_12Mhz ! 0) = 120" by (simp add: speed_list pll_ends)
  have low: "Ax_clock_pll2index p = Some 0" if "p \<le> 120" using assms that by (simp add: Ax_clock_pll2index_def zero)
  have top: "Ax_clock_pll2index p = Some 0" if "1296 \<le> p"
    using assms that pll_scan_top [OF that] by (simp add: Ax_clock_pll2index_def zero)
  have mid: "\<exists>i < 117. Ax_clock_pll2index p = Some (int i) \<and> g_pll_list ! i \<le> p \<and> p < g_pll_list ! Suc i"
    if p: "120 \<le> p" "p < 1296"
  proof (cases "p = 120")
    case True
    then show ?thesis using low pll_less [of 0 1] by (intro exI [of _ 0]) (simp add: pll_ends)
  next
    case False
    with p show ?thesis using pll_scan_mid [OF p] assms by (auto simp: Ax_clock_pll2index_def zero simp del: upt_Suc)
  qed
  have ix: "Ax_clock_index2pll (int i) = Some (g_pll_list ! i)" if "i < 118" for i
    using that by (simp add: Ax_clock_index2pll_def speed_list)
  have mid': "\<exists>i. Ax_clock_pll2index p = Some i \<and> 0 \<le> i \<and> i < 117 \<and>
      (\<exists>f g. Ax_clock_index2pll i = Some f \<and> Ax_clock_index2pll (i + 1) = Some g \<and> f \<le> p \<and> p < g)"
    if pp: "120 \<le> p" "p < 1296"
  proof -
    obtain i where i: "i < 117" "Ax_clock_pll2index p = Some (int i)" "g_pll_list ! i \<le> p" "p < g_pll_list ! Suc i"
      using mid [OF pp] by blast
    have "Ax_clock_index2pll (int i + 1) = Some (g_pll_list ! Suc i)" using ix [of "Suc i"] i(1) by (simp add: add.commute)
    with ix [of i] i show ?thesis by (intro exI [of _ "int i"]) simp
  qed
  have "Ax_clock_pll2index p \<noteq> Some 117" using low top mid' by (cases "p \<le> 120"; cases "1296 \<le> p") auto
  with low top mid' show ?thesis by blast
qed

lemma pll2index_range:
  assumes "0 < p"
  shows "\<exists>i. Ax_clock_pll2index p = Some i \<and> 0 \<le> i \<and> i < 117"
proof (cases "120 \<le> p \<and> p < 1296")
  case True
  with pll2index_levels [OF assms] show ?thesis by blast
next
  case False
  with pll2index_levels [OF assms] show ?thesis by (cases "p \<le> 120") auto
qed

lemma setpll_by_step_levels:
  assumes "0 \<le> idx" and "idx < 118"
  shows "\<exists>ok ts. Ax_clock_setpll_by_step env cid idx h = Some (ok, h @ concat ts) \<and> answered env h (concat ts) \<and>
    levels_run ok (map (reg_cmd cid) (pll_steps idx)) ts"
  using setpll_steps_spec [of "[0..idx]" env cid idx h] assms by (simp add: Ax_clock_setpll_by_step_def pll_steps_def)

lemma last_pll_step: "0 \<le> idx \<Longrightarrow> last (pll_steps idx) = idx"
  using upto_rec2 [of 0 idx] by (simp add: pll_steps_def)

section \<open>Properties\<close>

text \<open>The three tables of the clock agree entry by entry: the same frequency, a register that
  starts with the PLL word, and dividers that make the frequency from 12 MHz up to rounding; and the levels are in increasing
  order.\<close>

theorem pll_tables:
  "length PLL_Clk_12Mhz = 118 \<and> length g_pll_list = 118 \<and> length g_pll_regs = 118 \<and>
   all4 pll_entry_ok [0..117] PLL_Clk_12Mhz g_pll_list g_pll_regs \<and> sorted_wrt (<) g_pll_list"
  using pll_entries pll_increasing by (simp add: PLL_Clk_12Mhz_def)

text \<open>The level of a frequency is the highest whose frequency is not above it, from 120 MHz up
  to below 1296 MHz; below the table it is the first, and at or above the top the search falls
  through to the first as well, so the top level can never be asked for by its frequency.\<close>

theorem pll2index_spec:
  assumes "0 < p"
  shows "(p \<le> 120 \<longrightarrow> Ax_clock_pll2index p = Some 0) \<and>
    (120 \<le> p \<and> p < 1296 \<longrightarrow> (\<exists>i. Ax_clock_pll2index p = Some i \<and> 0 \<le> i \<and> i < 117 \<and>
      (\<exists>f g. Ax_clock_index2pll i = Some f \<and> Ax_clock_index2pll (i + 1) = Some g \<and> f \<le> p \<and> p < g))) \<and>
    (1296 \<le> p \<longrightarrow> Ax_clock_pll2index p = Some 0) \<and>
    (Ax_clock_pll2index p \<noteq> Some 117)"
  using assms by (rule pll2index_levels)

theorem pll2index_spec_witness: "Ax_clock_pll2index 1296 = Some 0 \<and> Ax_clock_pll2index 1500 = Some 0"
  using pll2index_spec [of 1296] pll2index_spec [of 1500] by simp

text \<open>C39: a stepwise change of the clock to a level of the table returns.  It goes through every fifth level and the target, in
  order, and writes nothing else; a level is written until a write is accepted, at most five times.  It reports success exactly when
  every level was accepted; otherwise it stops at the first level whose five writes were all refused.\<close>

theorem setpll_by_step_spec:
  assumes "0 \<le> idx" and "idx < 118"
  shows "\<exists>ok ts. Ax_clock_setpll_by_step env cid idx h = Some (ok, h @ concat ts) \<and> answered env h (concat ts) \<and>
    last (pll_steps idx) = idx \<and>
    (let cs = map (reg_cmd cid) (pll_steps idx) in
      if ok then list_all2 level_written cs ts
      else \<exists>k < length cs. list_all2 level_written (take k cs) (butlast ts) \<and> ts \<noteq> [] \<and> level_refused (cs ! k) (last ts))"
  using setpll_by_step_levels [OF assms, of env cid h] last_pll_step [OF assms(1)] by (simp add: levels_run_def Let_def)

lemma answered_const: "answered (\<lambda>h. f) h t \<Longrightarrow> x \<in> set t \<Longrightarrow> snd x = f (fst x)"
  by (induction t arbitrary: h) auto

lemma refused_never_written:
  assumes "answered (\<lambda>h. f) h t" and "\<not> hw_ok (f c)"
  shows "\<not> level_written c t"
  using answered_const [OF assms(1), of "last t"] assms(2) by (cases "t = []") (auto simp: level_written_def)

lemma accepted_once:
  assumes "answered (\<lambda>h. f) h t" and "hw_ok (f c)" and "level_written c t"
  shows "length t = 1"
proof -
  obtain u x where t: "t = u @ [x]" using assms(3) by (cases t rule: rev_cases) (auto simp: level_written_def)
  have "\<forall>y \<in> set u. hw_ok (snd y)" using answered_const [OF assms(1)] assms(2,3) by (auto simp: level_written_def t)
  then show ?thesis using assms(3) by (cases u) (auto simp: level_written_def t)
qed

text \<open>A bus that refuses the level of 5: its five writes follow that of level 0, and level 7 is not reached.\<close>

theorem setpll_by_step_spec_witness:
  "\<exists>ts. Ax_clock_setpll_by_step (\<lambda>h c. \<lparr>r_val = (if c = reg_cmd 2 5 then 0 else 1), r_buf = []\<rparr>) 2 7 [] = Some (False, concat ts) \<and>
     length (concat ts) = 6 \<and> level_refused (reg_cmd 2 5) (last ts)"
proof -
  define f :: "hw_cmd \<Rightarrow> hw_reply" where "f c = \<lparr>r_val = (if c = reg_cmd 2 5 then 0 else 1), r_buf = []\<rparr>" for c
  have st: "map (reg_cmd 2) (pll_steps 7) = [reg_cmd 2 0, reg_cmd 2 5, reg_cmd 2 7]" by (simp add: pll_steps_def upto.simps)
  have "reg_cmd 2 0 \<noteq> reg_cmd 2 5" by (simp add: reg_cmd_def g_pll_regs_def)
  then have f: "hw_ok (f (reg_cmd 2 0))" "\<not> hw_ok (f (reg_cmd 2 5))" by (simp_all add: f_def hw_ok_def)
  obtain ok ts where r: "Ax_clock_setpll_by_step (\<lambda>h. f) 2 7 [] = Some (ok, concat ts)" "answered (\<lambda>h. f) [] (concat ts)"
      "if ok then list_all2 level_written [reg_cmd 2 0, reg_cmd 2 5, reg_cmd 2 7] ts
       else \<exists>k < length [reg_cmd 2 0, reg_cmd 2 5, reg_cmd 2 7]. list_all2 level_written (take k [reg_cmd 2 0, reg_cmd 2 5, reg_cmd 2 7]) (butlast ts) \<and>
         ts \<noteq> [] \<and> level_refused ([reg_cmd 2 0, reg_cmd 2 5, reg_cmd 2 7] ! k) (last ts)"
    using setpll_by_step_spec [of 7 "\<lambda>h. f" 2 "[]"] unfolding st Let_def append_Nil by force
  have no5: "\<not> level_written (reg_cmd 2 5) t" if "answered (\<lambda>h. f) h t" for h t
    using that f(2) by (rule refused_never_written)
  have "\<not> ok" using r(2,3) no5 by (auto simp: list_all2_Cons1)
  then obtain k where k: "k < Suc (Suc (Suc 0))" "list_all2 level_written (take k [reg_cmd 2 0, reg_cmd 2 5, reg_cmd 2 7]) (butlast ts)"
      "ts \<noteq> []" "level_refused ([reg_cmd 2 0, reg_cmd 2 5, reg_cmd 2 7] ! k) (last ts)" using r(3) by auto
  obtain us t where ts: "ts = us @ [t]" using k(3) by (cases ts rule: rev_cases) auto
  consider "k = 0" | "k = 1" | "k = 2" using k(1) by linarith
  then have "k = 1"
  proof cases
    case 1
    then have "level_refused (reg_cmd 2 0) t" "answered (\<lambda>h. f) [] t" using k(2,4) r(2) by (simp_all add: ts)
    then show ?thesis using f(1) answered_const [of f "[]" t "hd t"] by (cases t) (auto simp: level_refused_def)
  next
    case 3
    then show ?thesis using k(2) r(2) no5 by (auto simp: ts list_all2_Cons1)
  qed simp
  then obtain a where a: "ts = [a, t]" "level_written (reg_cmd 2 0) a" "level_refused (reg_cmd 2 5) t"
    using k(2,4) by (auto simp: ts list_all2_Cons1)
  then have "length a = 1" using accepted_once [of f "[]" a "reg_cmd 2 0"] f(1) r(2) by simp
  then show ?thesis using a r(1) \<open>\<not> ok\<close> unfolding f_def by (intro exI [of _ ts]) (simp add: level_refused_def)
qed

end
