(* ===== verification/T4Chain.thy ===== *)
theory T4Chain
  imports T4Clock T4Job Queues
begin

text \<open>
  One chain of chips of the T4 miner (t4_common.c): the job sent to a chip,
  results read back, the health of the chips, and bringing a chain up.  The
  chips are an array of \<open>ASIC_CHIP_NUM\<close> entries that driver-SPI-bitmine-t4.c allocates; an access outside it
  is an error of the model.  Times are milliseconds without wrap-around.
\<close>

section \<open>State\<close>

datatype t4_err = OutOfBounds | BadPll | Exited

datatype chip_type = CHIP_TYPE_D88 | CHIP_TYPE_T88

text \<open>A pointer to a work item is an integer.\<close>

record A1_chip =
  c_reg :: "u8 list"
  c_num_cores :: int
  c_work :: "int option"
  c_hw_errors :: int
  c_stales :: int
  c_nonces_found :: int
  c_nonce_ranges_done :: int
  c_cooldown_begin :: int
  c_fail_count :: int
  c_fail_reset :: int
  c_disabled :: bool
  c_temp :: int

record A1_chain =
  chain_id :: int
  num_chips :: int
  num_cores :: int
  num_active_chips :: int
  chips :: "A1_chip list"
  active_wq :: "int work_queue"
  last_check_time :: int
  work_start_delay :: int
  vid :: u32
  pll :: u32
  VidOptimal :: bool
  pllOptimal :: bool
  bin1_test :: int
  bin2_test :: int

text \<open>A chain with the global chip type and what happened on the bus.\<close>

record t4_state =
  a1 :: A1_chain
  g_ctype :: chip_type
  hist :: hw_hist

definition ASIC_CHIP_NUM :: nat where "ASIC_CHIP_NUM = 80"
definition COOLDOWN_MS :: int where "COOLDOWN_MS = 30 * 1000"
definition CHECK_CORES_MS :: int where "CHECK_CORES_MS = 10 * 60 * 1000"
definition DISABLE_CHIP_FAIL_THRESHOLD :: int where "DISABLE_CHIP_FAIL_THRESHOLD = 3"
definition LEST_CORE_BIN1_CHAIN :: int where "LEST_CORE_BIN1_CHAIN = 300"
definition LEST_CORE_BIN2_CHAIN :: int where "LEST_CORE_BIN2_CHAIN = 260"
definition CHAIN_RESET_TEST_NUM :: int where "CHAIN_RESET_TEST_NUM = 6"
definition BROKEN_CHIP_THRESHOLD :: int where "BROKEN_CHIP_THRESHOLD = 4"
definition WEAK_CHIP_THRESHOLD :: int where "WEAK_CHIP_THRESHOLD = 6"
definition REG_LENGTH :: nat where "REG_LENGTH = 12"
definition RES_LENGTH :: nat where "RES_LENGTH = 36"

lemmas t4_consts = ASIC_CHIP_NUM_def COOLDOWN_MS_def CHECK_CORES_MS_def DISABLE_CHIP_FAIL_THRESHOLD_def
  LEST_CORE_BIN1_CHAIN_def LEST_CORE_BIN2_CHAIN_def CHAIN_RESET_TEST_NUM_def
  BROKEN_CHIP_THRESHOLD_def WEAK_CHIP_THRESHOLD_def REG_LENGTH_def RES_LENGTH_def JOB_LENGTH_def

definition chip_at :: "A1_chain \<Rightarrow> int \<Rightarrow> t4_err + A1_chip" where
  "chip_at a i = (if 0 \<le> i \<and> i < int (length (chips a)) then Inr (chips a ! nat i) else Inl OutOfBounds)"

definition chip_set :: "t4_state \<Rightarrow> int \<Rightarrow> A1_chip \<Rightarrow> t4_state" where
  "chip_set s i c = s\<lparr>a1 := (a1 s)\<lparr>chips := (chips (a1 s))[nat i := c]\<rparr>\<rparr>"

definition set_hist :: "t4_state \<Rightarrow> hw_hist \<Rightarrow> t4_state" where
  "set_hist s h = s\<lparr>hist := h\<rparr>"

definition add_cores :: "t4_state \<Rightarrow> int \<Rightarrow> t4_state" where
  "add_cores s n = s\<lparr>a1 := (a1 s)\<lparr>num_cores := num_cores (a1 s) + n\<rparr>\<rparr>"

section \<open>Jobs and results\<close>

text \<open>The work item is passed with its address; \<open>queue_states\<close> only decides on a warning.\<close>

definition set_work :: "hw_env \<Rightarrow> u8 \<Rightarrow> bool \<Rightarrow> u8 \<Rightarrow> int \<times> work \<Rightarrow> t4_state \<Rightarrow> t4_err + (bool \<times> t4_state)" where
  "set_work env cmd nicehash chip_id pw s =
     (let (p, wk) = pw;
          (r, h) = hw env (hist s) (WriteJob (chain_id (a1 s)) (uint chip_id) (create_job cmd nicehash chip_id 1 wk));
          s = set_hist s h
      in if \<not> hw_ok r then Inr (False, s)
         else bindR (chip_at (a1 s) (uint chip_id - 1)) (\<lambda>c.
           Inr (True, chip_set s (uint chip_id - 1) (c\<lparr>c_work := Some p\<rparr>))))"

record t4_result =
  r_job_id :: u8
  r_chip_id :: u8
  r_nonce :: "u8 list"
  r_hash :: "u8 list"

text \<open>\<open>RES_LENGTH\<close> is what the library is asked for; it puts what it received into the zeroed buffer of 64 bytes.\<close>

definition result_of :: "u8 list \<Rightarrow> t4_result" where
  "result_of b = \<lparr>r_job_id = drop_bit 4 (b ! 0), r_chip_id = b ! 1, r_nonce = take 4 (drop 2 b),
     r_hash = swap_words (take 32 (drop 6 b))\<rparr>"

definition get_result :: "hw_env \<Rightarrow> t4_state \<Rightarrow> t4_result option \<times> t4_state" where
  "get_result env s =
     (let (r, h) = hw env (hist s) (ReadResult (chain_id (a1 s)) 0 RES_LENGTH)
      in (if hw_ok r then Some (result_of (hw_bytes 64 r)) else None, set_hist s h))"

definition abort_work :: "A1_chain \<Rightarrow> bool" where
  "abort_work a = True"

section \<open>Health of the chips\<close>

definition is_chip_disabled :: "A1_chain \<Rightarrow> u8 \<Rightarrow> t4_err + bool" where
  "is_chip_disabled a chip_id =
     bindR (chip_at a (uint chip_id - 1)) (\<lambda>c. Inr (c_disabled c \<or> c_cooldown_begin c \<noteq> 0))"

definition disable_chip :: "hw_env \<Rightarrow> u8 \<Rightarrow> t4_state \<Rightarrow> t4_err + t4_state" where
  "disable_chip env chip_id s =
     bindR (is_chip_disabled (a1 s) chip_id) (\<lambda>down.
     if down then Inr s
     else let (now, h) = get_current_ms env (hist s) in
       bindR (chip_at (a1 s) (uint chip_id - 1)) (\<lambda>c.
       Inr (chip_set (set_hist s h) (uint chip_id - 1) (c\<lparr>c_cooldown_begin := now\<rparr>))))"

text \<open>The body of the first loop of \<open>check_disabled_chips\<close> for chip \<open>i\<close>.\<close>

definition poll_chip :: "hw_env \<Rightarrow> int \<Rightarrow> t4_state \<Rightarrow> t4_err + t4_state" where
  "poll_chip env i s =
     bindR (is_chip_disabled (a1 s) (word_of_int (i + 1))) (\<lambda>down.
     if \<not> down then Inr s
     else bindR (chip_at (a1 s) i) (\<lambda>c.
     if c_disabled c then Inr s
     else let (now, h) = get_current_ms env (hist s); s = set_hist s h in
     if c_cooldown_begin c + COOLDOWN_MS > now then Inr s
     else let (r, h) = hw env (hist s) (ReadRegister (chain_id (a1 s)) (i + 1) REG_LENGTH); s = set_hist s h in
     if \<not> hw_ok r then
       let c = c\<lparr>c_fail_count := c_fail_count c + 1\<rparr> in
       if c_fail_count c > DISABLE_CHIP_FAIL_THRESHOLD
       then Inr (add_cores (chip_set s i (c\<lparr>c_disabled := True\<rparr>)) (- c_num_cores c))
       else let (now, h) = get_current_ms env (hist s)
         in Inr (chip_set (set_hist s h) i (c\<lparr>c_cooldown_begin := now\<rparr>))
     else Inr (chip_set s i (c\<lparr>c_cooldown_begin := 0, c_fail_count := 0, c_fail_reset := 0\<rparr>))))"

fun poll_chips :: "hw_env \<Rightarrow> int list \<Rightarrow> t4_state \<Rightarrow> t4_err + t4_state" where
  "poll_chips env [] s = Inr s"
| "poll_chips env (i # is) s = bindR (poll_chip env i s) (poll_chips env is)"

text \<open>The active cores a chip reports: the bits of the last byte of its register.\<close>

definition reg_cores :: "u8 list \<Rightarrow> int" where
  "reg_cores buffer = int (length (filter (\<lambda>j. drop_bit j (buffer ! 11) AND 0x01 \<noteq> 0) [0, 1, 2, 3, 4, 5, 6, 7]))"

definition check_chip :: "hw_env \<Rightarrow> int \<Rightarrow> t4_state \<Rightarrow> t4_err + (bool \<times> t4_state)" where
  "check_chip env i s =
     (let (r, h) = hw env (hist s) (ReadRegister (chain_id (a1 s)) (i + 1) REG_LENGTH);
          s = set_hist s h; buffer = hw_bytes REG_LENGTH r
      in bindR (chip_at (a1 s) i) (\<lambda>c.
      if \<not> hw_ok r then Inr (False, chip_set s i (c\<lparr>c_num_cores := 0, c_disabled := True\<rparr>))
      else
        let n = reg_cores buffer;
            c = c\<lparr>c_num_cores := n\<rparr>;
            s = (if n > 6 then s\<lparr>g_ctype := CHIP_TYPE_T88\<rparr> else s);
            s = add_cores s n;
            c = c\<lparr>c_reg := buffer\<rparr>
        in if n < BROKEN_CHIP_THRESHOLD
           then Inr (False, add_cores (chip_set s i (c\<lparr>c_disabled := True\<rparr>)) (- n))
           else if n < WEAK_CHIP_THRESHOLD then Inr (False, chip_set s i c)
           else Inr (True, chip_set s i c)))"

fun check_chips :: "hw_env \<Rightarrow> int list \<Rightarrow> t4_state \<Rightarrow> t4_err + t4_state" where
  "check_chips env [] s = Inr s"
| "check_chips env (i # is) s = bindR (check_chip env i s) (\<lambda>(_, s). check_chips env is s)"

section \<open>The sensors of a chip\<close>

definition reg0d_default_value :: "u8 list" where
  "reg0d_default_value = [0x00, 0x00, 0xa0, 0x00, 0x3e, 0x80, 0x02, 0x00, 0x00, 0x08, 0x00, 0x64]"

definition reg0d_for :: "u32 \<Rightarrow> u8 list" where
  "reg0d_for freq = reg0d_default_value[4 := ucast (freq div 2 * 1000 div 16 div 650)]"

fun write_reg0d :: "hw_env \<Rightarrow> int \<times> int \<Rightarrow> u8 list list \<Rightarrow> hw_hist \<Rightarrow> hw_hist" where
  "write_reg0d env ids [] h = h"
| "write_reg0d env ids (b # bs) h = write_reg0d env ids bs (snd (hw env h (ReadWriteReg0d (fst ids) (snd ids) b)))"

definition config_adc_vsener :: "hw_env \<Rightarrow> u32 \<Rightarrow> int \<times> int \<Rightarrow> hw_hist \<Rightarrow> hw_hist" where
  "config_adc_vsener env freq ids h =
     (let b1 = (reg0d_for freq)[2 := reg0d_for freq ! 2 AND 0x7f];
          b2 = b1[2 := b1 ! 2 OR 0x80];
          b3 = b2[1 := b2 ! 1 OR 0x04];
          b4 = b3[2 := b3 ! 2 OR 0x20];
          b5 = b4[0 := (b4 ! 0 OR 0x01) AND 0xfd, 1 := (b4 ! 1 OR 0x02) AND 0x7f]
      in write_reg0d env ids [b1, b2, b3, b4, b5] h)"

definition config_adc_tsener :: "hw_env \<Rightarrow> u32 \<Rightarrow> int \<times> int \<Rightarrow> hw_hist \<Rightarrow> hw_hist" where
  "config_adc_tsener env freq ids h =
     (let b1 = (reg0d_for freq)[2 := reg0d_for freq ! 2 AND 0x7f];
          b2 = b1[2 := b1 ! 2 OR 0x80];
          b3 = b2[1 := b2 ! 1 OR 0x04];
          b4 = b3[2 := b3 ! 2 OR 0x20];
          b5 = b4[0 := b4 ! 0 AND 0xfc, 1 := b4 ! 1 AND 0x7d]
      in write_reg0d env ids [b1, b2, b3, b4, b5] h)"

text \<open>The reply of the library fills the output buffer, or leaves bytes the model takes as 0.\<close>

definition get_chip_temperature :: "hw_env \<Rightarrow> u32 \<Rightarrow> int \<times> int \<Rightarrow> chip_type \<times> hw_hist \<Rightarrow> int \<times> hw_hist" where
  "get_chip_temperature env freq ids th =
     (if fst th = CHIP_TYPE_D88
      then let (r, h) = hw env (snd th) (ReadWriteReg0d (fst ids) (snd ids) (reg0d_for freq)); b = hw_bytes 12 r
        in (uint ((0x03ff :: u32) AND (push_bit 8 (ucast (b ! 2)) OR ucast (b ! 3))), h)
      else (0, snd th))"

section \<open>Bringing a chain up\<close>

definition mcompat_chain_detect :: "hw_env \<Rightarrow> t4_state \<Rightarrow> t4_err + (int \<times> t4_state)" where
  "mcompat_chain_detect env s =
     (let cid = chain_id (a1 s);
          failure = (\<lambda>s h. Inr (-1, set_hist s (snd (hw env h (SetLed cid 1)))));
          (_, h) = hw env (hist s) (SetSpiSpeed cid 2);
          (r, h) = hw env h (ResetAll cid 0)
      in if \<not> hw_ok r then failure s h
      else case Ax_clock_pll2index (sint (pll (a1 s))) of None \<Rightarrow> Inl BadPll
      | Some pllindex \<Rightarrow>
        (case Ax_clock_setpll_by_step env cid pllindex h of None \<Rightarrow> Inl BadPll
         | Some (ok, h) \<Rightarrow>
           if \<not> ok then Inr (0, set_hist s h)
           else let (_, h) = hw env h (SetSpiSpeed cid 3);
                    (r, h) = hw env h (BistStart cid 0);
                    chip_num = r_val r
             in if chip_num \<le> 0 then failure s h
             else let s = s\<lparr>a1 := (a1 s)\<lparr>num_chips := chip_num\<rparr>\<rparr>;
                      (r, h) = hw env h (BistFix cid 0)
               in if \<not> hw_ok r then failure s h
               else Inr (num_chips (a1 s), set_hist s (snd (hw env h (SetLed cid 0))))))"

text \<open>The reset of a chain with too few cores, in both branches of \<open>check_disabled_chips\<close>.\<close>

definition reset_chain :: "hw_env \<Rightarrow> t4_state \<Rightarrow> t4_err + t4_state" where
  "reset_chain env s =
     (let (_, h) = hw env (hist s) (ChainHwReset (chain_id (a1 s)))
      in bindR (mcompat_chain_detect env (set_hist s h)) (\<lambda>(n, s).
         let s = s\<lparr>a1 := (a1 s)\<lparr>num_chips := n\<rparr>\<rparr>
         in if n < 1 then Inl Exited
         else let s = s\<lparr>a1 := (a1 s)\<lparr>num_active_chips := n, num_cores := 0\<rparr>\<rparr>
           in check_chips env [0..n - 1] s))"

definition check_disabled_chips :: "hw_env \<Rightarrow> t4_state \<Rightarrow> t4_err + t4_state" where
  "check_disabled_chips env s =
     bindR (poll_chips env [0..num_active_chips (a1 s) - 1] s) (\<lambda>s.
     let (now, h) = get_current_ms env (hist s); s = set_hist s h in
     if last_check_time (a1 s) + CHECK_CORES_MS < now then
       let (now, h) = get_current_ms env (hist s); s = set_hist s h;
           s = s\<lparr>a1 := (a1 s)\<lparr>last_check_time := now\<rparr>\<rparr> in
       if num_cores (a1 s) < LEST_CORE_BIN1_CHAIN \<and> bin1_test (a1 s) < CHAIN_RESET_TEST_NUM
       then reset_chain env (s\<lparr>a1 := (a1 s)\<lparr>bin1_test := bin1_test (a1 s) + 1\<rparr>\<rparr>)
       else if num_cores (a1 s) < LEST_CORE_BIN2_CHAIN \<and> bin2_test (a1 s) < CHAIN_RESET_TEST_NUM
       then reset_chain env s
       else Inr s
     else Inr s)"

section \<open>Results\<close>

text \<open>How a chip writes a result: \<open>lo\<close> are the bits of the first byte that nobody reads.\<close>

definition result_frame :: "u8 \<Rightarrow> t4_result \<Rightarrow> u8 list" where
  "result_frame lo r = [push_bit 4 (r_job_id r) OR (lo AND 15), r_chip_id r] @ r_nonce r @ swap_words (r_hash r)"

definition result_ok :: "t4_result \<Rightarrow> bool" where
  "result_ok r \<longleftrightarrow> r_job_id r < 16 \<and> length (r_nonce r) = 4 \<and> length (r_hash r) = 32"

lemma nibble_high: "j < 16 \<Longrightarrow> drop_bit 4 (push_bit 4 j) = (j :: u8)"
proof -
  assume "j < 16"
  then have "unat j < 16" by (simp add: word_less_nat_alt)
  then have "unat (push_bit 4 j) = unat j * 16" by (simp add: push_bit_eq_mult unat_word_ariths)
  then have "unat (drop_bit 4 (push_bit 4 j)) = unat j" by (simp add: unat_drop_bit_div)
  then show ?thesis by (simp only: word_unat_eq_iff)
qed

lemma length_result_frame: "result_ok r \<Longrightarrow> length (result_frame lo r) = 38"
  by (simp add: result_frame_def result_ok_def length_swap_words)

lemma result_of_frame:
  assumes "result_ok r"
  shows "result_of (result_frame lo r @ pad) = r"
proof -
  have l: "length (r_nonce r) = 4" "length (r_hash r) = 32" and j: "r_job_id r < 16"
    using assms by (simp_all add: result_ok_def)
  have "swap_words (swap_words (r_hash r)) = r_hash r" using l by (intro swap_words_swap_words [where n = 8]) simp
  then show ?thesis using l nibble_high [OF j]
    by (cases r) (simp add: result_of_def result_frame_def length_swap_words)
qed

lemma take_30: "length xs = 32 \<Longrightarrow> take 30 xs @ [x, y] = xs[30 := x, 31 := y]"
  by (simp add: list_eq_iff_nth_eq less_Suc_eq nth_append numeral_eq_Suc)

text \<open>The last two bytes of a frame hold bytes 29 and 28 of the hash.\<close>

lemma result_frame_tail:
  assumes "result_ok r"
  shows "take 36 (result_frame lo r) @ [x, y] = result_frame lo (r\<lparr>r_hash := (r_hash r)[29 := x, 28 := y]\<rparr>)"
proof -
  let ?w = "swap_words (r_hash r)"
  have l: "length (r_nonce r) = 4" "length (r_hash r) = 32" using assms by (simp_all add: result_ok_def)
  have w: "length ?w = 32" by (simp add: length_swap_words l)
  have "swap_words ((r_hash r)[29 := x, 28 := y]) = ?w[turn4 29 := x, turn4 28 := y]"
    using l by (simp add: swap_words_update [where n = 8])
  also have "\<dots> = take 30 ?w @ [x, y]" using w by (simp add: turn4_def take_30)
  finally show ?thesis using l by (simp add: result_frame_def)
qed

interpretation result: codec "result_frame lo" "\<lambda>b. if length b = 38 then Some (result_of b) else None" result_ok
proof unfold_locales
  fix r assume ok: "result_ok r"
  then show "(if length (result_frame lo r) = 38 then Some (result_of (result_frame lo r)) else None) = Some r"
    using result_of_frame [OF ok, of lo "[]"] by (simp add: length_result_frame)
qed

section \<open>The automaton of a chip\<close>

text \<open>
  Seen from outside, a chip works, cools down after a failure, or is given up.
  \<open>n\<close> counts failed accesses since it last answered.
\<close>

datatype health = Working int | Cooling int | Dead

definition health :: "A1_chip \<Rightarrow> health" where
  "health c = (if c_disabled c then Dead else if c_cooldown_begin c = 0 then Working (c_fail_count c) else Cooling (c_fail_count c))"

inductive health_step :: "health \<Rightarrow> health \<Rightarrow> bool" where
  cool: "health_step (Working n) (Cooling n)"
| recover: "health_step (Cooling n) (Working 0)"
| retry: "n + 1 \<le> DISABLE_CHIP_FAIL_THRESHOLD \<Longrightarrow> health_step (Cooling n) (Cooling (n + 1))"
| retry_at_zero: "n + 1 \<le> DISABLE_CHIP_FAIL_THRESHOLD \<Longrightarrow> health_step (Cooling n) (Working (n + 1))"
| give_up: "n + 1 > DISABLE_CHIP_FAIL_THRESHOLD \<Longrightarrow> health_step (Cooling n) Dead"

inductive_cases health_step_DeadE: "health_step Dead h"
inductive_simps health_step_Working: "health_step (Working n) h"

text \<open>The cores a chip contributes.\<close>

definition live :: "A1_chip \<Rightarrow> int" where
  "live c = (if c_disabled c then 0 else c_num_cores c)"

definition live_cores :: "A1_chain \<Rightarrow> int" where
  "live_cores a = sum_list (map live (take (nat (num_active_chips a)) (chips a)))"

definition wf_chain :: "A1_chain \<Rightarrow> bool" where
  "wf_chain a \<longleftrightarrow> length (chips a) = ASIC_CHIP_NUM \<and> 0 \<le> num_active_chips a \<and> num_active_chips a \<le> int ASIC_CHIP_NUM"

definition cores_ok :: "A1_chain \<Rightarrow> bool" where
  "cores_ok a \<longleftrightarrow> wf_chain a \<and> num_cores a = live_cores a"

lemma map_update_same: "f y = f (xs ! i) \<Longrightarrow> map f (xs[i := y]) = map f xs"
  by (metis list_update_id map_update)

lemma sum_list_update_int:
  "i < length xs \<Longrightarrow> sum_list (xs[i := x]) = sum_list xs + x - (xs ! i :: int)"
proof (induction xs arbitrary: i)
  case (Cons y xs)
  then show ?case by (cases i) simp_all
qed simp

lemma chip_at_ok: "length (chips a) = ASIC_CHIP_NUM \<Longrightarrow> 0 \<le> i \<Longrightarrow> i < int ASIC_CHIP_NUM \<Longrightarrow> chip_at a i = Inr (chips a ! nat i)"
  by (simp add: chip_at_def)

lemma wf_length: "wf_chain a \<Longrightarrow> length (chips a) = ASIC_CHIP_NUM"
  by (simp add: wf_chain_def)

lemma state_simps [simp]:
  "set_hist (set_hist s h) h' = set_hist s h'" "a1 (set_hist s h) = a1 s" "hist (set_hist s h) = h" "g_ctype (set_hist s h) = g_ctype s"
  "hist (chip_set s i c) = hist s" "g_ctype (chip_set s i c) = g_ctype s"
  "hist (add_cores s n) = hist s" "g_ctype (add_cores s n) = g_ctype s"
  "a1 (chip_set s i c) = (a1 s)\<lparr>chips := (chips (a1 s))[nat i := c]\<rparr>"
  "a1 (add_cores s n) = (a1 s)\<lparr>num_cores := num_cores (a1 s) + n\<rparr>"
  by (simp_all add: set_hist_def chip_set_def add_cores_def)

lemma hw_eq: "hw env h c = (env h c, h @ [(c, env h c)])"
  by (simp add: hw_def)

lemma get_current_ms_eq: "get_current_ms env h = (r_val (env h CurrentMs), h @ [(CurrentMs, env h CurrentMs)])"
  by (simp add: get_current_ms_def hw_def)

lemmas t4_bus = hw_eq get_current_ms_eq

lemma uint_chip_id: "0 \<le> i \<Longrightarrow> i < int ASIC_CHIP_NUM \<Longrightarrow> uint (word_of_int (i + 1) :: u8) = i + 1"
  by (simp add: t4_consts uint_word_of_int del: of_int_add)

text \<open>A chip \<open>k\<close> polled at the history \<open>h\<close>: left alone unless it cools down and has done so for long enough; then it works again when it answers,
  and when it does not it cools down again, or is given up at the fourth failure.\<close>

definition chip_polled :: "hw_env \<Rightarrow> int \<Rightarrow> int \<Rightarrow> hw_hist \<Rightarrow> A1_chip \<Rightarrow> A1_chip" where
  "chip_polled env cid k h c =
     (let now = env h CurrentMs; h1 = h @ [(CurrentMs, now)];
          answer = env h1 (ReadRegister cid k REG_LENGTH); h2 = h1 @ [(ReadRegister cid k REG_LENGTH, answer)]
      in if c_disabled c \<or> c_cooldown_begin c = 0 \<or> r_val now < c_cooldown_begin c + COOLDOWN_MS then c
      else if hw_ok answer then c\<lparr>c_cooldown_begin := 0, c_fail_count := 0, c_fail_reset := 0\<rparr>
      else if c_fail_count c < DISABLE_CHIP_FAIL_THRESHOLD
        then c\<lparr>c_fail_count := c_fail_count c + 1, c_cooldown_begin := r_val (env h2 CurrentMs)\<rparr>
      else c\<lparr>c_fail_count := c_fail_count c + 1, c_disabled := True\<rparr>)"

definition poll_cmds :: "int \<Rightarrow> hw_cmd set" where
  "poll_cmds cid = insert CurrentMs (range (\<lambda>i. ReadRegister cid i REG_LENGTH))"

text \<open>One chip of the poll: at most a clock reading, a register read and a clock reading; its health moves along the automaton.\<close>

lemma poll_chip_spec:
  assumes wf: "wf_chain (a1 s)" and i: "0 \<le> i" "i < int ASIC_CHIP_NUM"
  shows "\<exists>s' c' t. poll_chip env i s = Inr s' \<and> g_ctype s' = g_ctype s \<and> hist s' = hist s @ t \<and>
    fst ` set t \<subseteq> poll_cmds (chain_id (a1 s)) \<and>
    a1 s' = (a1 s)\<lparr>chips := (chips (a1 s))[nat i := c'],
      num_cores := num_cores (a1 s) + live c' - live (chips (a1 s) ! nat i)\<rparr> \<and>
    health_step\<^sup>=\<^sup>= (health (chips (a1 s) ! nat i)) (health c') \<and> c_work c' = c_work (chips (a1 s) ! nat i) \<and>
    c' = chip_polled env (chain_id (a1 s)) (i + 1) (hist s) (chips (a1 s) ! nat i)"
proof -
  let ?c = "chips (a1 s) ! nat i"
  let ?now = "env (hist s) CurrentMs"
  let ?h = "hist s @ [(CurrentMs, ?now)]"
  let ?rd = "ReadRegister (chain_id (a1 s)) (i + 1) REG_LENGTH"
  let ?h2 = "?h @ [(?rd, env ?h ?rd)]"
  have same: "(a1 s)\<lparr>chips := (chips (a1 s))[nat i := ?c], num_cores := num_cores (a1 s) + live ?c - live ?c\<rparr> = a1 s"
    by simp
  have c: "chip_at (a1 s) i = Inr ?c" using wf_length [OF wf] i by (rule chip_at_ok)
  have down: "is_chip_disabled (a1 s) (word_of_int (i + 1)) = Inr (c_disabled ?c \<or> c_cooldown_begin ?c \<noteq> 0)"
    using c by (simp add: is_chip_disabled_def uint_chip_id [OF i] del: of_int_add)
  note p = poll_chip_def down c Let_def t4_bus
  have polled: "chip_polled env (chain_id (a1 s)) (i + 1) (hist s) ?c =
      (if c_disabled ?c \<or> c_cooldown_begin ?c = 0 \<or> r_val ?now < c_cooldown_begin ?c + COOLDOWN_MS then ?c
       else if hw_ok (env ?h ?rd) then ?c\<lparr>c_cooldown_begin := 0, c_fail_count := 0, c_fail_reset := 0\<rparr>
       else if c_fail_count ?c < DISABLE_CHIP_FAIL_THRESHOLD
         then ?c\<lparr>c_fail_count := c_fail_count ?c + 1, c_cooldown_begin := r_val (env ?h2 CurrentMs)\<rparr>
       else ?c\<lparr>c_fail_count := c_fail_count ?c + 1, c_disabled := True\<rparr>)"
    by (simp only: chip_polled_def Let_def)
  consider (working) "\<not> (c_disabled ?c \<or> c_cooldown_begin ?c \<noteq> 0) \<or> c_disabled ?c"
    | (early) "\<not> c_disabled ?c" "c_cooldown_begin ?c \<noteq> 0" "c_cooldown_begin ?c + COOLDOWN_MS > r_val ?now"
    | (lost) "\<not> c_disabled ?c" "c_cooldown_begin ?c \<noteq> 0" "\<not> c_cooldown_begin ?c + COOLDOWN_MS > r_val ?now"
        "\<not> hw_ok (env ?h ?rd)" "c_fail_count ?c + 1 > DISABLE_CHIP_FAIL_THRESHOLD"
    | (silent) "\<not> c_disabled ?c" "c_cooldown_begin ?c \<noteq> 0" "\<not> c_cooldown_begin ?c + COOLDOWN_MS > r_val ?now"
        "\<not> hw_ok (env ?h ?rd)" "\<not> c_fail_count ?c + 1 > DISABLE_CHIP_FAIL_THRESHOLD"
    | (answers) "\<not> c_disabled ?c" "c_cooldown_begin ?c \<noteq> 0" "\<not> c_cooldown_begin ?c + COOLDOWN_MS > r_val ?now"
        "hw_ok (env ?h ?rd)" by blast
  then show ?thesis
  proof cases
    case working
    have q: "?c = chip_polled env (chain_id (a1 s)) (i + 1) (hist s) ?c" unfolding polled using working by auto
    from working have "poll_chip env i s = Inr s" by (auto simp: p simp del: of_int_add)
    then show ?thesis using same by (intro exI [of _ s] exI [of _ ?c] exI [of _ "[]"]) (simp add: q [symmetric])
  next
    case early
    have q: "?c = chip_polled env (chain_id (a1 s)) (i + 1) (hist s) ?c" unfolding polled using early by auto
    from early have "poll_chip env i s = Inr (set_hist s ?h)" by (simp add: p del: of_int_add)
    then show ?thesis using same
      by (intro exI [of _ "set_hist s ?h"] exI [of _ ?c] exI [of _ "[(CurrentMs, ?now)]"]) (simp add: poll_cmds_def q [symmetric])
  next
    case lost
    let ?c' = "?c\<lparr>c_fail_count := c_fail_count ?c + 1, c_disabled := True\<rparr>"
    have q: "?c' = chip_polled env (chain_id (a1 s)) (i + 1) (hist s) ?c" unfolding polled using lost by auto
    from lost have "poll_chip env i s = Inr (add_cores (chip_set (set_hist s ?h2) i ?c') (- c_num_cores ?c))"
      by (simp add: p del: of_int_add)
    moreover have "health_step\<^sup>=\<^sup>= (health ?c) (health ?c')"
      using lost by (simp add: health_def health_step.give_up)
    ultimately show ?thesis using lost
      by (intro exI [of _ "add_cores (chip_set (set_hist s ?h2) i ?c') (- c_num_cores ?c)"] exI [of _ ?c'] exI [of _ "[(CurrentMs, ?now), (?rd, env ?h ?rd)]"]) (simp add: poll_cmds_def live_def q [symmetric])
  next
    case silent
    let ?t = "env ?h2 CurrentMs"
    let ?c' = "?c\<lparr>c_fail_count := c_fail_count ?c + 1, c_cooldown_begin := r_val ?t\<rparr>"
    have q: "?c' = chip_polled env (chain_id (a1 s)) (i + 1) (hist s) ?c" unfolding polled using silent by auto
    from silent have "poll_chip env i s = Inr (chip_set (set_hist s (?h2 @ [(CurrentMs, ?t)])) i ?c')"
      by (simp add: p del: of_int_add)
    moreover have "health_step\<^sup>=\<^sup>= (health ?c) (health ?c')"
      using silent by (simp add: health_def health_step.retry health_step.retry_at_zero)
    ultimately show ?thesis using silent
      by (intro exI [of _ "chip_set (set_hist s (?h2 @ [(CurrentMs, ?t)])) i ?c'"] exI [of _ ?c'] exI [of _ "[(CurrentMs, ?now), (?rd, env ?h ?rd), (CurrentMs, ?t)]"]) (simp add: poll_cmds_def live_def q [symmetric])
  next
    case answers
    let ?c' = "?c\<lparr>c_cooldown_begin := 0, c_fail_count := 0, c_fail_reset := 0\<rparr>"
    have q: "?c' = chip_polled env (chain_id (a1 s)) (i + 1) (hist s) ?c" unfolding polled using answers by auto
    from answers have "poll_chip env i s = Inr (chip_set (set_hist s ?h2) i ?c')"
      by (simp add: p del: of_int_add)
    moreover have "health_step\<^sup>=\<^sup>= (health ?c) (health ?c')"
      using answers by (simp add: health_def health_step.recover)
    ultimately show ?thesis using answers
      by (intro exI [of _ "chip_set (set_hist s ?h2) i ?c'"] exI [of _ ?c'] exI [of _ "[(CurrentMs, ?now), (?rd, env ?h ?rd)]"]) (simp add: poll_cmds_def live_def q [symmetric])
  qed
qed

lemma live_cores_update:
  assumes "wf_chain a" and "0 \<le> i" and "i < num_active_chips a"
  shows "live_cores (a\<lparr>chips := (chips a)[nat i := c], num_cores := n\<rparr>) = live_cores a + live c - live (chips a ! nat i)"
proof -
  have "nat i < nat (num_active_chips a)" "nat i < length (chips a)"
    using assms by (auto simp: wf_chain_def t4_consts nat_less_iff)
  then show ?thesis
    using sum_list_update_int [of "nat i" "map live (take (nat (num_active_chips a)) (chips a))" "live c"]
    by (simp add: live_cores_def take_update_swap map_update)
qed

text \<open>What the polling of chips may do to a chain: the health of each moves along the automaton, and the core count
  keeps its distance from the cores that are alive.\<close>

definition polled :: "A1_chain \<Rightarrow> A1_chain \<Rightarrow> bool" where
  "polled a b \<longleftrightarrow> (\<exists>cs n. b = a\<lparr>chips := cs, num_cores := n\<rparr>) \<and> length (chips b) = length (chips a) \<and>
     num_cores b - live_cores b = num_cores a - live_cores a \<and> map c_work (chips b) = map c_work (chips a) \<and>
     (\<forall>j < length (chips a). health_step\<^sup>*\<^sup>* (health (chips a ! j)) (health (chips b ! j)))"

lemma polled_refl: "polled a a"
proof -
  have "a = a\<lparr>chips := chips a, num_cores := num_cores a\<rparr>" by simp
  then show ?thesis unfolding polled_def by blast
qed

lemma polled_trans:
  assumes "polled a b" and "polled b c"
  shows "polled a c"
proof -
  from assms obtain cs n cs' n' where "b = a\<lparr>chips := cs, num_cores := n\<rparr>" "c = b\<lparr>chips := cs', num_cores := n'\<rparr>"
    unfolding polled_def by blast
  then have "c = a\<lparr>chips := cs', num_cores := n'\<rparr>" by simp
  with assms show ?thesis unfolding polled_def by (auto intro: rtranclp_trans)
qed

lemma polled_wf:
  assumes "polled a b" and "wf_chain a"
  shows "wf_chain b \<and> num_active_chips b = num_active_chips a \<and> chain_id b = chain_id a"
proof -
  from assms(1) obtain cs n where "b = a\<lparr>chips := cs, num_cores := n\<rparr>" "length (chips b) = length (chips a)"
    unfolding polled_def by blast
  with assms(2) show ?thesis by (simp add: wf_chain_def)
qed

lemma polled_update:
  assumes "wf_chain a" and "0 \<le> i" and "i < num_active_chips a" and "health_step\<^sup>=\<^sup>= (health (chips a ! nat i)) (health c)"
    and "c_work c = c_work (chips a ! nat i)"
  shows "polled a (a\<lparr>chips := (chips a)[nat i := c], num_cores := num_cores a + live c - live (chips a ! nat i)\<rparr>)"
proof -
  have "health_step\<^sup>*\<^sup>* (health (chips a ! j)) (health ((chips a)[nat i := c] ! j))" if "j < length (chips a)" for j
    using assms(4) that by (cases "j = nat i") auto
  moreover have "map c_work ((chips a)[nat i := c]) = map c_work (chips a)"
    by (rule map_update_same) (rule assms(5))
  moreover note live_cores_update [OF assms(1-3), where c = c and n = "num_cores a + live c - live (chips a ! nat i)"]
  ultimately show ?thesis unfolding polled_def by (intro conjI exI allI impI) simp_all
qed

text \<open>The chips in \<open>is\<close> are polled, each at some moment between the two histories, and the others are left alone.\<close>

definition chips_polled :: "hw_env \<Rightarrow> int list \<Rightarrow> hw_hist \<Rightarrow> hw_hist \<Rightarrow> A1_chain \<Rightarrow> A1_chain \<Rightarrow> bool" where
  "chips_polled env is h h' a b \<longleftrightarrow> (\<forall>j < length (chips a).
     if int j \<in> set is
     then \<exists>g. hw_grows h g \<and> hw_grows g h' \<and> chips b ! j = chip_polled env (chain_id a) (int j + 1) g (chips a ! j)
     else chips b ! j = chips a ! j)"

lemma poll_chips_spec:
  assumes "wf_chain (a1 s)" and "distinct is" and "\<forall>i \<in> set is. 0 \<le> i \<and> i < num_active_chips (a1 s)"
  shows "\<exists>s' t. poll_chips env is s = Inr s' \<and> g_ctype s' = g_ctype s \<and> hist s' = hist s @ t \<and>
    fst ` set t \<subseteq> poll_cmds (chain_id (a1 s)) \<and> polled (a1 s) (a1 s') \<and> chips_polled env is (hist s) (hist s') (a1 s) (a1 s')"
  using assms
proof (induction "is" arbitrary: s)
  case Nil
  show ?case by (intro exI [of _ s] exI [of _ "[]"]) (simp add: polled_refl chips_polled_def)
next
  case (Cons i "is")
  let ?a = "a1 s"
  from Cons.prems have i: "0 \<le> i" "i < num_active_chips ?a" "i < int ASIC_CHIP_NUM"
    by (auto simp: wf_chain_def)
  from poll_chip_spec [OF Cons.prems(1) i(1,3)] obtain s1 c t1 where
    s1: "poll_chip env i s = Inr s1" "g_ctype s1 = g_ctype s" "hist s1 = hist s @ t1" "fst ` set t1 \<subseteq> poll_cmds (chain_id ?a)"
      "a1 s1 = ?a\<lparr>chips := (chips ?a)[nat i := c], num_cores := num_cores ?a + live c - live (chips ?a ! nat i)\<rparr>"
      "health_step\<^sup>=\<^sup>= (health (chips ?a ! nat i)) (health c)" "c_work c = c_work (chips ?a ! nat i)"
      "c = chip_polled env (chain_id ?a) (i + 1) (hist s) (chips ?a ! nat i)" by blast
  have p: "polled ?a (a1 s1)" unfolding s1(5) using Cons.prems(1) i(1,2) s1(6,7) by (rule polled_update)
  with polled_wf [OF p Cons.prems(1)] Cons.prems(2,3) Cons.IH [of s1] obtain s2 t2 where
    s2: "poll_chips env is s1 = Inr s2" "g_ctype s2 = g_ctype s1" "hist s2 = hist s1 @ t2"
      "fst ` set t2 \<subseteq> poll_cmds (chain_id ?a)" "polled (a1 s1) (a1 s2)" "chips_polled env is (hist s1) (hist s2) (a1 s1) (a1 s2)"
    by auto
  have "chips_polled env (i # is) (hist s) (hist s2) ?a (a1 s2)"
    unfolding chips_polled_def
  proof (intro allI impI)
    fix j assume j: "j < length (chips ?a)"
    then have "j < length (chips (a1 s1))" by (simp add: s1(5))
    moreover have "chain_id (a1 s1) = chain_id ?a" by (simp add: s1(5))
    ultimately have n: "if int j \<in> set is
        then \<exists>g. hw_grows (hist s1) g \<and> hw_grows g (hist s2) \<and> chips (a1 s2) ! j = chip_polled env (chain_id ?a) (int j + 1) g (chips (a1 s1) ! j)
        else chips (a1 s2) ! j = chips (a1 s1) ! j"
      using s2(6) unfolding chips_polled_def by metis
    consider "int j = i" | "int j \<noteq> i" "int j \<in> set is" | "int j \<noteq> i" "int j \<notin> set is" by blast
    then show "if int j \<in> set (i # is)
        then \<exists>g. hw_grows (hist s) g \<and> hw_grows g (hist s2) \<and> chips (a1 s2) ! j = chip_polled env (chain_id ?a) (int j + 1) g (chips ?a ! j)
        else chips (a1 s2) ! j = chips ?a ! j"
    proof cases
      case 1
      then have "chips (a1 s2) ! j = c" using n j Cons.prems(2) by (auto simp: s1(5))
      with 1 s1(8) s2(3) s1(3) show ?thesis by (auto intro!: exI [of _ "hist s"])
    next
      case 2
      then have "nat i \<noteq> j" using i(1) by auto
      with 2 n obtain g where g: "hw_grows (hist s1) g" "hw_grows g (hist s2)"
          "chips (a1 s2) ! j = chip_polled env (chain_id ?a) (int j + 1) g (chips ?a ! j)" by (auto simp: s1(5))
      have "hw_grows (hist s) g" using g(1) s1(3) by (metis hw_grows_app hw_grows_trans)
      with 2 g(2,3) show ?thesis by auto
    next
      case 3
      then have "nat i \<noteq> j" using i(1) by auto
      with 3 n show ?thesis by (auto simp: s1(5))
    qed
  qed
  with s1 s2 p show ?case
    by (intro exI [of _ s2] exI [of _ "t1 @ t2"]) (auto intro: polled_trans)
qed

section \<open>Counting cores\<close>

definition counted :: "A1_chip \<Rightarrow> int" where
  "counted c = (if c_num_cores c < BROKEN_CHIP_THRESHOLD then 0 else c_num_cores c)"

definition checked :: "A1_chip \<Rightarrow> A1_chip \<Rightarrow> bool" where
  "checked c c' \<longleftrightarrow> c_disabled c' = (c_disabled c \<or> c_num_cores c' < BROKEN_CHIP_THRESHOLD) \<and>
     0 \<le> c_num_cores c' \<and> c_num_cores c' \<le> 8 \<and> c_work c' = c_work c"

lemma reg_cores_bounds: "0 \<le> reg_cores b" "reg_cores b \<le> 8"
proof -
  have "length (filter P [0 :: nat, 1, 2, 3, 4, 5, 6, 7]) \<le> length [0 :: nat, 1, 2, 3, 4, 5, 6, 7]" for P by (rule length_filter_le)
  then have "length (filter P [0 :: nat, 1, 2, 3, 4, 5, 6, 7]) \<le> 8" for P by simp
  then show "reg_cores b \<le> 8" unfolding reg_cores_def by (metis of_nat_le_iff of_nat_numeral)
qed (simp add: reg_cores_def)

lemma check_chip_spec:
  assumes len: "length (chips (a1 s)) = ASIC_CHIP_NUM" and i: "0 \<le> i" "i < int ASIC_CHIP_NUM"
  shows "\<exists>s' c' r. check_chip env i s = Inr (c_num_cores c' \<ge> WEAK_CHIP_THRESHOLD, s') \<and>
    hist s' = hist s @ [(ReadRegister (chain_id (a1 s)) (i + 1) REG_LENGTH, r)] \<and>
    a1 s' = (a1 s)\<lparr>chips := (chips (a1 s))[nat i := c'], num_cores := num_cores (a1 s) + counted c'\<rparr> \<and>
    checked (chips (a1 s) ! nat i) c' \<and> c_num_cores c' = (if hw_ok r then reg_cores (hw_bytes REG_LENGTH r) else 0) \<and>
    r = env (hist s) (ReadRegister (chain_id (a1 s)) (i + 1) REG_LENGTH)"
proof -
  let ?c = "chips (a1 s) ! nat i"
  let ?cmd = "ReadRegister (chain_id (a1 s)) (i + 1) REG_LENGTH"
  let ?r = "env (hist s) ?cmd"
  let ?n = "reg_cores (hw_bytes REG_LENGTH ?r)"
  have c: "chip_at (a1 s) i = Inr ?c" using assms by (rule chip_at_ok)
  let ?c' = "if hw_ok ?r then ?c\<lparr>c_num_cores := ?n, c_reg := hw_bytes REG_LENGTH ?r, c_disabled := c_disabled ?c \<or> ?n < BROKEN_CHIP_THRESHOLD\<rparr>
    else ?c\<lparr>c_num_cores := 0, c_disabled := True\<rparr>"
  show ?thesis
    using reg_cores_bounds [of "hw_bytes REG_LENGTH ?r"] c
    by (intro exI [of _ "snd (projr (check_chip env i s))"] exI [of _ ?c'] exI [of _ ?r])
      (auto simp: check_chip_def Let_def t4_bus counted_def checked_def t4_consts)
qed

text \<open>The cores of chip \<open>k\<close> are those its register showed, or none when it did not answer.\<close>

definition cores_read :: "int \<Rightarrow> hw_hist \<Rightarrow> int \<Rightarrow> A1_chip \<Rightarrow> bool" where
  "cores_read cid t k c \<longleftrightarrow> (\<exists>r. (ReadRegister cid k REG_LENGTH, r) \<in> set t \<and>
     c_num_cores c = (if hw_ok r then reg_cores (hw_bytes REG_LENGTH r) else 0))"

lemma cores_read_append: "cores_read cid t k c \<Longrightarrow> cores_read cid (u @ t) k c"
  by (auto simp: cores_read_def)

lemma check_chips_spec:
  assumes "length (chips (a1 s)) = ASIC_CHIP_NUM" and "distinct is" and "\<forall>i \<in> set is. 0 \<le> i \<and> i < int ASIC_CHIP_NUM"
  shows "\<exists>s' cs t. check_chips env is s = Inr s' \<and> length cs = ASIC_CHIP_NUM \<and> hist s' = hist s @ t \<and> answered env (hist s) t \<and>
    a1 s' = (a1 s)\<lparr>chips := cs, num_cores := num_cores (a1 s) + (\<Sum>i \<leftarrow> is. counted (cs ! nat i))\<rparr> \<and>
    (\<forall>j. int j \<notin> set is \<longrightarrow> cs ! j = chips (a1 s) ! j) \<and>
    (\<forall>i \<in> set is. checked (chips (a1 s) ! nat i) (cs ! nat i) \<and> cores_read (chain_id (a1 s)) t (i + 1) (cs ! nat i))"
  using assms
proof (induction "is" arbitrary: s)
  case Nil
  then show ?case by (intro exI [of _ s] exI [of _ "chips (a1 s)"] exI [of _ "[]"]) simp
next
  case (Cons i "is")
  let ?a = "a1 s"
  from Cons.prems have i: "0 \<le> i" "i < int ASIC_CHIP_NUM" by simp_all
  from check_chip_spec [OF Cons.prems(1) i] obtain s1 c rp where
    s1: "check_chip env i s = Inr (c_num_cores c \<ge> WEAK_CHIP_THRESHOLD, s1)"
      "a1 s1 = ?a\<lparr>chips := (chips ?a)[nat i := c], num_cores := num_cores ?a + counted c\<rparr>"
      "checked (chips ?a ! nat i) c" "hist s1 = hist s @ [(ReadRegister (chain_id ?a) (i + 1) REG_LENGTH, rp)]"
      "c_num_cores c = (if hw_ok rp then reg_cores (hw_bytes REG_LENGTH rp) else 0)"
      "rp = env (hist s) (ReadRegister (chain_id ?a) (i + 1) REG_LENGTH)" by blast
  let ?e = "(ReadRegister (chain_id ?a) (i + 1) REG_LENGTH, rp)"
  have wf1: "length (chips (a1 s1)) = ASIC_CHIP_NUM" using Cons.prems(1) by (simp add: s1(2))
  from Cons.IH [OF wf1] Cons.prems(2,3) obtain s2 cs t where s2: "check_chips env is s1 = Inr s2" "length cs = ASIC_CHIP_NUM"
      "a1 s2 = (a1 s1)\<lparr>chips := cs, num_cores := num_cores (a1 s1) + (\<Sum>i \<leftarrow> is. counted (cs ! nat i))\<rparr>"
      "\<forall>j. int j \<notin> set is \<longrightarrow> cs ! j = chips (a1 s1) ! j"
      "\<forall>i \<in> set is. checked (chips (a1 s1) ! nat i) (cs ! nat i) \<and> cores_read (chain_id (a1 s1)) t (i + 1) (cs ! nat i)"
      "hist s2 = hist s1 @ t" "answered env (hist s1) t" by auto
  have l: "nat i < length (chips ?a)" using Cons.prems(1) i by (simp add: nat_less_iff)
  have "int (nat i) \<notin> set is" using Cons.prems(2) i by simp
  with s2(4) l have ci: "cs ! nat i = c" by (simp add: s1(2))
  have nei: "nat k \<noteq> nat i" if "k \<in> set is" for k
    using that Cons.prems(2,3) i by (metis distinct.simps(2) eq_nat_nat_iff list.set_intros(2))
  have "check_chips env (i # is) s = Inr s2" using s1(1) s2(1) by simp
  moreover have "a1 s2 = ?a\<lparr>chips := cs, num_cores := num_cores ?a + (\<Sum>i \<leftarrow> i # is. counted (cs ! nat i))\<rparr>"
    using s2(3) by (simp add: s1(2) ci)
  moreover have "\<forall>j. int j \<notin> set (i # is) \<longrightarrow> cs ! j = chips ?a ! j"
    using s2(4) by (auto simp: s1(2)) (metis i(1) int_nat_eq nat_int nth_list_update_neq)
  moreover have "\<forall>k \<in> set (i # is). checked (chips ?a ! nat k) (cs ! nat k) \<and> cores_read (chain_id ?a) (?e # t) (k + 1) (cs ! nat k)"
  proof
    fix k assume "k \<in> set (i # is)"
    then consider "k = i" | "k \<in> set is" by auto
    then show "checked (chips ?a ! nat k) (cs ! nat k) \<and> cores_read (chain_id ?a) (?e # t) (k + 1) (cs ! nat k)"
    proof cases
      case 1
      then show ?thesis using s1(3,5) by (auto simp: ci cores_read_def)
    next
      case 2
      with s2(5) have "checked (chips (a1 s1) ! nat k) (cs ! nat k)" "cores_read (chain_id (a1 s1)) t (k + 1) (cs ! nat k)" by blast+
      with nei [OF 2, symmetric] cores_read_append [of "chain_id ?a" t "k + 1" "cs ! nat k" "[?e]"] show ?thesis by (simp add: s1(2))
    qed
  qed
  moreover have "hist s2 = hist s @ (?e # t)" "answered env (hist s) (?e # t)" using s2(6,7) s1(4,6) by simp_all
  ultimately show ?case using s2(2) by blast
qed

lemma map_upto_take:
  assumes "0 \<le> n" and "n \<le> int (length xs)"
  shows "map (\<lambda>i. f (xs ! nat i)) [0..n - 1] = map f (take (nat n) xs)"
  using assms by (intro nth_equalityI) (simp_all add: nth_upto)

text \<open>All chips of a chain checked, from a count of zero.\<close>

lemma check_all_spec:
  assumes "wf_chain (a1 s)" and "num_cores (a1 s) = 0"
  shows "\<exists>s' t. check_chips env [0..num_active_chips (a1 s) - 1] s = Inr s' \<and> wf_chain (a1 s') \<and>
    (\<exists>cs n. a1 s' = (a1 s)\<lparr>chips := cs, num_cores := n\<rparr>) \<and>
    num_cores (a1 s') = sum_list (map counted (take (nat (num_active_chips (a1 s))) (chips (a1 s')))) \<and>
    hist s' = hist s @ t \<and> answered env (hist s) t \<and>
    (\<forall>j < nat (num_active_chips (a1 s)). checked (chips (a1 s) ! j) (chips (a1 s') ! j) \<and>
       cores_read (chain_id (a1 s)) t (int j + 1) (chips (a1 s') ! j)) \<and>
    (\<forall>j \<ge> nat (num_active_chips (a1 s)). chips (a1 s') ! j = chips (a1 s) ! j)"
proof -
  let ?n = "num_active_chips (a1 s)"
  have n: "0 \<le> ?n" "?n \<le> int ASIC_CHIP_NUM" using assms(1) by (simp_all add: wf_chain_def)
  have "distinct [0..?n - 1]" by simp
  moreover have "\<forall>i \<in> set [0..?n - 1]. 0 \<le> i \<and> i < int ASIC_CHIP_NUM" using n by auto
  ultimately obtain s' cs t where s': "check_chips env [0..?n - 1] s = Inr s'" "length cs = ASIC_CHIP_NUM"
      "a1 s' = (a1 s)\<lparr>chips := cs, num_cores := num_cores (a1 s) + (\<Sum>i \<leftarrow> [0..?n - 1]. counted (cs ! nat i))\<rparr>"
      "\<forall>j. int j \<notin> set [0..?n - 1] \<longrightarrow> cs ! j = chips (a1 s) ! j"
      "\<forall>i \<in> set [0..?n - 1]. checked (chips (a1 s) ! nat i) (cs ! nat i) \<and> cores_read (chain_id (a1 s)) t (i + 1) (cs ! nat i)"
      "hist s' = hist s @ t" "answered env (hist s) t"
    using check_chips_spec [OF wf_length [OF assms(1)], of "[0..?n - 1]" env] by blast
  have "num_cores (a1 s') = sum_list (map counted (take (nat ?n) (chips (a1 s'))))"
    using s'(2,3) assms(2) n by (simp add: map_upto_take)
  moreover have "checked (chips (a1 s) ! j) (chips (a1 s') ! j) \<and> cores_read (chain_id (a1 s)) t (int j + 1) (chips (a1 s') ! j)"
    if "j < nat ?n" for j
  proof -
    have "int j \<in> set [0..?n - 1]" using that by auto
    with s'(5) show ?thesis unfolding s'(3) by fastforce
  qed
  moreover have "chips (a1 s') ! j = chips (a1 s) ! j" if "nat ?n \<le> j" for j
  proof -
    have "int j \<notin> set [0..?n - 1]" using that by auto
    with s'(4) show ?thesis unfolding s'(3) by simp
  qed
  moreover have "wf_chain (a1 s')" using assms(1) s'(2,3) by (simp add: wf_chain_def)
  ultimately show ?thesis using s'(1,3,6,7) by blast
qed

section \<open>Detection and reset\<close>

text \<open>The commands a full detection sends, with \<open>steps\<close> those of the clock.\<close>

definition detect_cmds :: "int \<Rightarrow> hw_cmd list \<Rightarrow> hw_cmd list" where
  "detect_cmds cid steps = [SetSpiSpeed cid 2, ResetAll cid 0] @ steps @
     [SetSpiSpeed cid 3, BistStart cid 0, BistFix cid 0, SetLed cid 0]"

text \<open>Bringing a chain up never fails in the sense of the model when its frequency is positive.\<close>

lemma detect_spec:
  assumes "0 < sint (pll (a1 s))"
  shows "\<exists>n m t. \<exists>s'. mcompat_chain_detect env s = Inr (n, s') \<and> hist s' = hist s @ t \<and> g_ctype s' = g_ctype s \<and>
    a1 s' = (a1 s)\<lparr>num_chips := m\<rparr> \<and>
    (if 1 \<le> n
     then m = n \<and> (\<exists>ts idx. Ax_clock_pll2index (sint (pll (a1 s))) = Some idx \<and>
            list_all2 level_written (map (reg_cmd (chain_id (a1 s))) (pll_steps idx)) ts \<and>
            map fst t = detect_cmds (chain_id (a1 s)) (map fst (concat ts))) \<and>
          (\<exists>h r. env h (BistStart (chain_id (a1 s)) 0) = r \<and> n = r_val r)
     else n = 0 \<or> n = - 1 \<and> fst (last t) = SetLed (chain_id (a1 s)) 1)"
proof -
  let ?cid = "chain_id (a1 s)"
  let ?run = "\<lambda>h c. h @ [(c, env h c)]"
  let ?h1 = "?run (hist s) (SetSpiSpeed ?cid 2)"
  let ?h2 = "?run ?h1 (ResetAll ?cid 0)"
  obtain idx where idx: "Ax_clock_pll2index (sint (pll (a1 s))) = Some idx" "0 \<le> idx" "idx < 118"
    using pll2index_range [OF assms] by auto
  obtain ok ts where by_step: "Ax_clock_setpll_by_step env ?cid idx ?h2 = Some (ok, ?h2 @ concat ts)"
      "levels_run ok (map (reg_cmd ?cid) (pll_steps idx)) ts"
    using setpll_by_step_levels [OF idx(2,3), of env ?cid ?h2] by blast
  define t1 where "t1 = concat ts"
  have st: "Ax_clock_setpll_by_step env ?cid idx ?h2 = Some (ok, ?h2 @ t1)"
      "ok \<Longrightarrow> list_all2 level_written (map (reg_cmd ?cid) (pll_steps idx)) ts" "map fst t1 = map fst (concat ts)"
    using by_step by (simp_all add: t1_def levels_run_def)
  let ?h3 = "?run (?h2 @ t1) (SetSpiSpeed ?cid 3)"
  let ?bist = "env ?h3 (BistStart ?cid 0)"
  let ?h4 = "?run ?h3 (BistStart ?cid 0)"
  let ?h5 = "?run ?h4 (BistFix ?cid 0)"
  note d = mcompat_chain_detect_def Let_def hw_eq
  consider (noreset) "\<not> hw_ok (env ?h1 (ResetAll ?cid 0))"
    | (nopll) "hw_ok (env ?h1 (ResetAll ?cid 0))" "\<not> ok"
    | (nobist) "hw_ok (env ?h1 (ResetAll ?cid 0))" "ok" "r_val ?bist \<le> 0"
    | (nofix) "hw_ok (env ?h1 (ResetAll ?cid 0))" "ok" "\<not> r_val ?bist \<le> 0" "\<not> hw_ok (env ?h4 (BistFix ?cid 0))"
    | (found) "hw_ok (env ?h1 (ResetAll ?cid 0))" "ok" "\<not> r_val ?bist \<le> 0" "hw_ok (env ?h4 (BistFix ?cid 0))" by blast
  then show ?thesis
  proof cases
    case noreset
    then have "mcompat_chain_detect env s = Inr (-1, set_hist s (?run ?h2 (SetLed ?cid 1)))" by (simp add: d)
    then show ?thesis
      by (intro exI [of _ "-1"] exI [of _ "num_chips (a1 s)"] exI [of _ "drop (length (hist s)) (?run ?h2 (SetLed ?cid 1))"]
        exI [of _ "set_hist s (?run ?h2 (SetLed ?cid 1))"]) simp
  next
    case nopll
    then have "mcompat_chain_detect env s = Inr (0, set_hist s (?h2 @ t1))" using idx(1) st(1) by (simp add: d)
    then show ?thesis
      by (intro exI [of _ 0] exI [of _ "num_chips (a1 s)"] exI [of _ "drop (length (hist s)) (?h2 @ t1)"]
        exI [of _ "set_hist s (?h2 @ t1)"]) simp
  next
    case nobist
    then have "mcompat_chain_detect env s = Inr (-1, set_hist s (?run ?h4 (SetLed ?cid 1)))"
      using idx(1) st(1) by (simp add: d)
    then show ?thesis
      by (intro exI [of _ "-1"] exI [of _ "num_chips (a1 s)"] exI [of _ "drop (length (hist s)) (?run ?h4 (SetLed ?cid 1))"]
        exI [of _ "set_hist s (?run ?h4 (SetLed ?cid 1))"]) simp
  next
    case nofix
    let ?s = "s\<lparr>a1 := (a1 s)\<lparr>num_chips := r_val ?bist\<rparr>\<rparr>"
    from nofix have "mcompat_chain_detect env s = Inr (-1, set_hist ?s (?run ?h5 (SetLed ?cid 1)))"
      using idx(1) st(1) by (simp add: d)
    then show ?thesis
      by (intro exI [of _ "-1"] exI [of _ "r_val ?bist"] exI [of _ "drop (length (hist s)) (?run ?h5 (SetLed ?cid 1))"]
        exI [of _ "set_hist ?s (?run ?h5 (SetLed ?cid 1))"]) simp
  next
    case found
    let ?s = "s\<lparr>a1 := (a1 s)\<lparr>num_chips := r_val ?bist\<rparr>\<rparr>"
    from found have "mcompat_chain_detect env s = Inr (r_val ?bist, set_hist ?s (?run ?h5 (SetLed ?cid 0)))"
      using idx(1) st(1) by (simp add: d)
    moreover have "map fst (drop (length (hist s)) (?run ?h5 (SetLed ?cid 0))) =
        detect_cmds ?cid (map fst (concat ts))"
      by (simp add: detect_cmds_def t1_def)
    ultimately show ?thesis using idx(1) st(2) found(2,3)
      by (intro exI [of _ "r_val ?bist"] exI [of _ "r_val ?bist"] exI [of _ "drop (length (hist s)) (?run ?h5 (SetLed ?cid 0))"]
        exI [of _ "set_hist ?s (?run ?h5 (SetLed ?cid 0))"]) auto
  qed
qed

lemma check_chip_out: "length (chips (a1 s)) = ASIC_CHIP_NUM \<Longrightarrow> int ASIC_CHIP_NUM \<le> i \<Longrightarrow> check_chip env i s = Inl OutOfBounds"
  by (simp add: check_chip_def chip_at_def Let_def hw_eq)

lemma check_chips_out:
  assumes "length (chips (a1 s)) = ASIC_CHIP_NUM" and "\<forall>i \<in> set is. 0 \<le> i" and "\<exists>i \<in> set is. int ASIC_CHIP_NUM \<le> i"
  shows "check_chips env is s = Inl OutOfBounds"
  using assms
proof (induction "is" arbitrary: s)
  case (Cons i "is")
  show ?case
  proof (cases "int ASIC_CHIP_NUM \<le> i")
    case True
    with Cons.prems(1) show ?thesis by (simp add: check_chip_out)
  next
    case False
    then have i: "0 \<le> i" "i < int ASIC_CHIP_NUM" using Cons.prems(2) by simp_all
    from check_chip_spec [OF Cons.prems(1) i] obtain ok s1 where s1: "check_chip env i s = Inr (ok, s1)"
      "length (chips (a1 s1)) = length (chips (a1 s))" by fastforce
    with Cons.IH [of s1] Cons.prems False show ?thesis by auto
  qed
qed simp

text \<open>Cores counted although their chip is disabled.\<close>

definition ghost_cores :: "A1_chain \<Rightarrow> int" where
  "ghost_cores a = sum_list (map counted (filter c_disabled (take (nat (num_active_chips a)) (chips a))))"

lemma counted_split:
  assumes "\<forall>c \<in> set cs. \<not> c_disabled c \<longrightarrow> BROKEN_CHIP_THRESHOLD \<le> c_num_cores c"
  shows "sum_list (map counted cs) = sum_list (map live cs) + sum_list (map counted (filter c_disabled cs))"
  using assms by (induction cs) (auto simp: live_def counted_def)

definition recounted :: "A1_chain \<Rightarrow> A1_chain \<Rightarrow> bool" where
  "recounted a b \<longleftrightarrow> wf_chain b \<and> 1 \<le> num_active_chips b \<and> num_cores b = live_cores b + ghost_cores b \<and>
     (\<forall>j < nat (num_active_chips b). checked (chips a ! j) (chips b ! j)) \<and>
     (\<forall>j \<ge> nat (num_active_chips b). chips b ! j = chips a ! j)"

text \<open>What a reset does: the chain is detected anew; with no chip found the process ends, with more than the array holds the code runs
  past it, and otherwise the cores of every chip found are those its register shows, and all other fields stay.\<close>

definition reset_done :: "hw_env \<Rightarrow> t4_state \<Rightarrow> t4_err + t4_state \<Rightarrow> bool" where
  "reset_done env s res \<longleftrightarrow>
     (let cid = chain_id (a1 s); reset = ChainHwReset cid in
      \<exists>n s1. mcompat_chain_detect env (set_hist s (hist s @ [(reset, env (hist s) reset)])) = Inr (n, s1) \<and>
       (if n < 1 then res = Inl Exited
        else if int ASIC_CHIP_NUM < n then res = Inl OutOfBounds
        else \<exists>s' t. res = Inr s' \<and> hist s' = hist s1 @ t \<and> answered env (hist s1) t \<and> recounted (a1 s) (a1 s') \<and>
          (\<forall>j < nat n. cores_read cid t (int j + 1) (chips (a1 s') ! j)) \<and>
          (\<exists>cs k. a1 s' = (a1 s)\<lparr>num_chips := n, num_active_chips := n, chips := cs, num_cores := k\<rparr>)))"

lemma reset_chain_spec:
  assumes "length (chips (a1 s)) = ASIC_CHIP_NUM" and "0 < sint (pll (a1 s))"
  shows "reset_done env s (reset_chain env s)"
proof -
  let ?cid = "chain_id (a1 s)"
  let ?h = "hist s @ [(ChainHwReset ?cid, env (hist s) (ChainHwReset ?cid))]"
  have "0 < sint (pll (a1 (set_hist s ?h)))" using assms(2) by simp
  from detect_spec [OF this, of env] obtain n m s1 where
    d: "mcompat_chain_detect env (set_hist s ?h) = Inr (n, s1)" "a1 s1 = (a1 s)\<lparr>num_chips := m\<rparr>"
    by (auto split: if_splits)
  let ?s2 = "s1\<lparr>a1 := (a1 s)\<lparr>num_chips := n, num_active_chips := n, num_cores := 0\<rparr>\<rparr>"
  have eq: "reset_chain env s = (if n < 1 then Inl Exited else check_chips env [0..n - 1] ?s2)"
    using d(1,2) by (simp add: reset_chain_def hw_eq Let_def)
  consider "n < 1" | "1 \<le> n" "int ASIC_CHIP_NUM < n" | "1 \<le> n" "n \<le> int ASIC_CHIP_NUM" by linarith
  then show ?thesis
  proof cases
    case 1
    with eq d(1) show ?thesis by (auto simp: reset_done_def Let_def)
  next
    case 2
    have "check_chips env [0..n - 1] ?s2 = Inl OutOfBounds"
      using assms(1) 2 by (intro check_chips_out) (auto intro!: bexI [of _ "n - 1"])
    with eq 2 d(1) show ?thesis by (auto simp: reset_done_def Let_def)
  next
    case 3
    have wf: "wf_chain (a1 ?s2)" using assms(1) 3 by (simp add: wf_chain_def)
    have "num_active_chips (a1 ?s2) = n" by simp
    with check_all_spec [OF wf, of env] obtain s3 t cs k where s3: "check_chips env [0..n - 1] ?s2 = Inr s3" "wf_chain (a1 s3)"
        "a1 s3 = (a1 ?s2)\<lparr>chips := cs, num_cores := k\<rparr>" "hist s3 = hist s1 @ t" "answered env (hist s1) t"
        "num_cores (a1 s3) = sum_list (map counted (take (nat n) (chips (a1 s3))))"
        "\<forall>j < nat n. checked (chips (a1 s) ! j) (chips (a1 s3) ! j) \<and> cores_read ?cid t (int j + 1) (chips (a1 s3) ! j)"
        "\<forall>j \<ge> nat n. chips (a1 s3) ! j = chips (a1 s) ! j" by auto
    have act: "num_active_chips (a1 s3) = n" by (simp add: s3(3))
    have "\<forall>c \<in> set (take (nat n) (chips (a1 s3))). \<not> c_disabled c \<longrightarrow> BROKEN_CHIP_THRESHOLD \<le> c_num_cores c"
      using s3(7) by (auto simp: in_set_conv_nth checked_def)
    with s3(6) have "num_cores (a1 s3) = live_cores (a1 s3) + ghost_cores (a1 s3)"
      by (simp only: live_cores_def ghost_cores_def act counted_split)
    with s3(2,7,8) 3 have rec: "recounted (a1 s) (a1 s3)" by (simp add: recounted_def act)
    have upd: "a1 s3 = (a1 s)\<lparr>num_chips := n, num_active_chips := n, chips := cs, num_cores := k\<rparr>" by (simp add: s3(3))
    from rec upd s3(4,5,7) have "\<exists>s' t. reset_chain env s = Inr s' \<and> hist s' = hist s1 @ t \<and> answered env (hist s1) t \<and> recounted (a1 s) (a1 s') \<and>
          (\<forall>j < nat n. cores_read ?cid t (int j + 1) (chips (a1 s') ! j)) \<and>
          (\<exists>cs k. a1 s' = (a1 s)\<lparr>num_chips := n, num_active_chips := n, chips := cs, num_cores := k\<rparr>)"
      unfolding eq s3(1) using 3 by (intro exI [of _ s3] exI [of _ t]) auto
    with d(1) 3 show ?thesis unfolding reset_done_def Let_def by (intro exI [of _ n] exI [of _ s1]) auto
  qed
qed

text \<open>The check of a chain, \<open>b\<close> being the chain after the poll and \<open>g\<close> what happened on the bus by then.\<close>

lemma check_disabled_exact:
  assumes wf: "wf_chain (a1 s)" and p: "0 < sint (pll (a1 s))"
  shows "\<exists>b g. hw_grows (hist s) g \<and> polled (a1 s) b \<and>
    chips_polled env [0..num_active_chips (a1 s) - 1] (hist s) g (a1 s) b \<and>
    (let now = env g CurrentMs; g1 = g @ [(CurrentMs, now)]; later = env g1 CurrentMs;
         u = s\<lparr>a1 := b\<lparr>last_check_time := r_val later\<rparr>, hist := g1 @ [(CurrentMs, later)]\<rparr>
     in if r_val now \<le> last_check_time (a1 s) + CHECK_CORES_MS
          then check_disabled_chips env s = Inr (s\<lparr>a1 := b, hist := g1\<rparr>)
        else if num_cores b < LEST_CORE_BIN1_CHAIN \<and> bin1_test (a1 s) < CHAIN_RESET_TEST_NUM
          then reset_done env (u\<lparr>a1 := (a1 u)\<lparr>bin1_test := bin1_test (a1 s) + 1\<rparr>\<rparr>) (check_disabled_chips env s)
        else if num_cores b < LEST_CORE_BIN2_CHAIN \<and> bin2_test (a1 s) < CHAIN_RESET_TEST_NUM
          then reset_done env u (check_disabled_chips env s)
        else check_disabled_chips env s = Inr u)"
proof -
  have "\<forall>i \<in> set [0..num_active_chips (a1 s) - 1]. 0 \<le> i \<and> i < num_active_chips (a1 s)" by auto
  from poll_chips_spec [OF wf _ this, of env] obtain s1 t where
    s1: "poll_chips env [0..num_active_chips (a1 s) - 1] s = Inr s1" "polled (a1 s) (a1 s1)" "g_ctype s1 = g_ctype s" "hist s1 = hist s @ t"
      "chips_polled env [0..num_active_chips (a1 s) - 1] (hist s) (hist s1) (a1 s) (a1 s1)" by auto
  define b g where "b = a1 s1" and "g = hist s1"
  have s1_eq: "s1 = s\<lparr>a1 := b, hist := g\<rparr>" using s1(3) by (simp add: b_def g_def)
  have len: "length (chips b) = ASIC_CHIP_NUM" using polled_wf [OF s1(2) wf] by (simp add: b_def wf_chain_def)
  have "\<exists>cs n. b = (a1 s)\<lparr>chips := cs, num_cores := n\<rparr>" using s1(2) unfolding polled_def b_def by blast
  then have b: "last_check_time b = last_check_time (a1 s)" "bin1_test b = bin1_test (a1 s)" "bin2_test b = bin2_test (a1 s)"
      "pll b = pll (a1 s)" by auto
  let ?now = "env g CurrentMs"
  let ?g1 = "g @ [(CurrentMs, ?now)]"
  let ?later = "env ?g1 CurrentMs"
  let ?u = "s\<lparr>a1 := b\<lparr>last_check_time := r_val ?later\<rparr>, hist := ?g1 @ [(CurrentMs, ?later)]\<rparr>"
  let ?v = "?u\<lparr>a1 := (a1 ?u)\<lparr>bin1_test := bin1_test (a1 s) + 1\<rparr>\<rparr>"
  have eq: "check_disabled_chips env s =
      (if last_check_time b + CHECK_CORES_MS < r_val ?now then
         if num_cores b < LEST_CORE_BIN1_CHAIN \<and> bin1_test b < CHAIN_RESET_TEST_NUM then reset_chain env ?v
         else if num_cores b < LEST_CORE_BIN2_CHAIN \<and> bin2_test b < CHAIN_RESET_TEST_NUM then reset_chain env ?u
         else Inr ?u
       else Inr (s\<lparr>a1 := b, hist := ?g1\<rparr>))"
    unfolding check_disabled_chips_def s1(1) bindR_simps Let_def get_current_ms_eq s1_eq
    by (cases s) (simp add: set_hist_def b(2))
  have "reset_done env ?u (reset_chain env ?u)" "reset_done env ?v (reset_chain env ?v)"
    using len p b by (intro reset_chain_spec; simp)+
  then show ?thesis using eq s1(2,4,5) b unfolding b_def [symmetric] g_def [symmetric]
    by (intro exI [of _ b] exI [of _ g]) (simp add: Let_def not_less)
qed

lemma check_disabled_spec:
  assumes wf: "wf_chain (a1 s)" and p: "0 < sint (pll (a1 s))" and ok: "check_disabled_chips env s = Inr s'"
  shows "\<exists>b. polled (a1 s) b \<and> ((\<exists>t. a1 s' = b\<lparr>last_check_time := t\<rparr>) \<or> recounted b (a1 s') \<and>
    (\<exists>lt k n m cs. a1 s' = b\<lparr>last_check_time := lt, bin1_test := k, num_chips := n, num_active_chips := n, chips := cs, num_cores := m\<rparr>))"
proof -
  from check_disabled_exact [OF wf p, of env] obtain b g where b: "polled (a1 s) b"
    and c: "let now = env g CurrentMs; g1 = g @ [(CurrentMs, now)]; later = env g1 CurrentMs;
         u = s\<lparr>a1 := b\<lparr>last_check_time := r_val later\<rparr>, hist := g1 @ [(CurrentMs, later)]\<rparr>
     in if r_val now \<le> last_check_time (a1 s) + CHECK_CORES_MS then Inr s' = (Inr (s\<lparr>a1 := b, hist := g1\<rparr>) :: t4_err + t4_state)
        else if num_cores b < LEST_CORE_BIN1_CHAIN \<and> bin1_test (a1 s) < CHAIN_RESET_TEST_NUM
          then reset_done env (u\<lparr>a1 := (a1 u)\<lparr>bin1_test := bin1_test (a1 s) + 1\<rparr>\<rparr>) (Inr s')
        else if num_cores b < LEST_CORE_BIN2_CHAIN \<and> bin2_test (a1 s) < CHAIN_RESET_TEST_NUM then reset_done env u (Inr s')
        else Inr s' = (Inr u :: t4_err + t4_state)"
    unfolding ok by blast
  have keep: "\<exists>t. b = b\<lparr>last_check_time := t\<rparr>" by (rule exI [of _ "last_check_time b"]) simp
  have "\<exists>lt k n m cs. a1 s' = b\<lparr>last_check_time := lt, bin1_test := k, num_chips := n, num_active_chips := n, chips := cs, num_cores := m\<rparr>"
      "recounted b (a1 s')"
    if reset: "reset_done env v (Inr s')" and v: "a1 v = b\<lparr>last_check_time := lt, bin1_test := k\<rparr>" for v lt k
  proof -
    obtain n cs m where "a1 s' = (a1 v)\<lparr>num_chips := n, num_active_chips := n, chips := cs, num_cores := m\<rparr>" "recounted (a1 v) (a1 s')"
      using reset unfolding reset_done_def Let_def by (auto split: if_splits)
    then show "\<exists>lt k n m cs. a1 s' = b\<lparr>last_check_time := lt, bin1_test := k, num_chips := n, num_active_chips := n, chips := cs, num_cores := m\<rparr>"
        "recounted b (a1 s')" unfolding v by (blast, simp add: recounted_def)
  qed
  note rs = this
  let ?later = "r_val (env (g @ [(CurrentMs, env g CurrentMs)]) CurrentMs)"
  consider "a1 s' = b" | "a1 s' = b\<lparr>last_check_time := ?later\<rparr>"
    | v where "reset_done env v (Inr s')" "a1 v = b\<lparr>last_check_time := ?later, bin1_test := bin1_test (a1 s) + 1\<rparr>"
    | v where "reset_done env v (Inr s')" "a1 v = b\<lparr>last_check_time := ?later\<rparr>"
  proof -
    let ?g1 = "g @ [(CurrentMs, env g CurrentMs)]"
    let ?u = "s\<lparr>a1 := b\<lparr>last_check_time := ?later\<rparr>, hist := ?g1 @ [(CurrentMs, env ?g1 CurrentMs)]\<rparr>"
    let ?v = "?u\<lparr>a1 := (a1 ?u)\<lparr>bin1_test := bin1_test (a1 s) + 1\<rparr>\<rparr>"
    let ?bin1 = "num_cores b < LEST_CORE_BIN1_CHAIN \<and> bin1_test (a1 s) < CHAIN_RESET_TEST_NUM"
    let ?bin2 = "num_cores b < LEST_CORE_BIN2_CHAIN \<and> bin2_test (a1 s) < CHAIN_RESET_TEST_NUM"
    have c': "if r_val (env g CurrentMs) \<le> last_check_time (a1 s) + CHECK_CORES_MS then s' = s\<lparr>a1 := b, hist := ?g1\<rparr>
        else if ?bin1 then reset_done env ?v (Inr s') else if ?bin2 then reset_done env ?u (Inr s') else s' = ?u"
      using c unfolding Let_def by (simp only: sum.inject)
    assume that: "a1 s' = b \<Longrightarrow> thesis" "a1 s' = b\<lparr>last_check_time := ?later\<rparr> \<Longrightarrow> thesis"
      "\<And>v. reset_done env v (Inr s') \<Longrightarrow> a1 v = b\<lparr>last_check_time := ?later, bin1_test := bin1_test (a1 s) + 1\<rparr> \<Longrightarrow> thesis"
      "\<And>v. reset_done env v (Inr s') \<Longrightarrow> a1 v = b\<lparr>last_check_time := ?later\<rparr> \<Longrightarrow> thesis"
    consider "s' = s\<lparr>a1 := b, hist := ?g1\<rparr>" | "reset_done env ?v (Inr s')" | "reset_done env ?u (Inr s')" | "s' = ?u"
      using c' by (meson)
    then show thesis
      by cases (simp add: that(1), rule that(3), assumption, simp, rule that(4), assumption, simp, rule that(2), simp)
  qed
  then show ?thesis
  proof cases
    case 1
    then show ?thesis using b keep by (intro exI [of _ b]) simp
  next
    case 2
    then show ?thesis using b by (intro exI [of _ b]) blast
  next
    case 3
    then show ?thesis using b rs [OF 3] by (intro exI [of _ b]) blast
  next
    case 4
    have "b\<lparr>last_check_time := ?later\<rparr> = b\<lparr>last_check_time := ?later, bin1_test := bin1_test b\<rparr>" by simp
    with 4 have "a1 v = b\<lparr>last_check_time := ?later, bin1_test := bin1_test b\<rparr>" by simp
    from rs [OF 4(1) this] show ?thesis using b by (intro exI [of _ b]) blast
  qed
qed

text \<open>The check fails only in a reset, so only when it was due.\<close>

lemma check_disabled_fails:
  assumes wf: "wf_chain (a1 s)" and p: "0 < sint (pll (a1 s))" and bad: "check_disabled_chips env s = Inl e"
  shows "(e = Exited \<or> e = OutOfBounds) \<and> (\<exists>h. last_check_time (a1 s) + CHECK_CORES_MS < r_val (env h CurrentMs))"
proof -
  have reset: "e = Exited \<or> e = OutOfBounds" if "reset_done env u (Inl e)" for u
    using that unfolding reset_done_def Let_def by (auto split: if_splits)
  from check_disabled_exact [OF wf p, of env] obtain b g where
    c: "let now = env g CurrentMs; g1 = g @ [(CurrentMs, now)]; later = env g1 CurrentMs;
         u = s\<lparr>a1 := b\<lparr>last_check_time := r_val later\<rparr>, hist := g1 @ [(CurrentMs, later)]\<rparr>
     in if r_val now \<le> last_check_time (a1 s) + CHECK_CORES_MS then Inl e = (Inr (s\<lparr>a1 := b, hist := g1\<rparr>) :: t4_err + t4_state)
        else if num_cores b < LEST_CORE_BIN1_CHAIN \<and> bin1_test (a1 s) < CHAIN_RESET_TEST_NUM
          then reset_done env (u\<lparr>a1 := (a1 u)\<lparr>bin1_test := bin1_test (a1 s) + 1\<rparr>\<rparr>) (Inl e)
        else if num_cores b < LEST_CORE_BIN2_CHAIN \<and> bin2_test (a1 s) < CHAIN_RESET_TEST_NUM then reset_done env u (Inl e)
        else Inl e = (Inr u :: t4_err + t4_state)"
    unfolding bad by blast
  then have "last_check_time (a1 s) + CHECK_CORES_MS < r_val (env g CurrentMs)"
    unfolding Let_def by (metis Inl_Inr_False not_less)
  moreover from c have "\<exists>u. reset_done env u (Inl e)" unfolding Let_def by (metis Inl_Inr_False)
  ultimately show ?thesis using reset by blast
qed

section \<open>Runs\<close>

text \<open>Any sequence of the operations of a chain, in any order.\<close>

inductive t4_step :: "hw_env \<Rightarrow> t4_state \<Rightarrow> t4_state \<Rightarrow> bool" for env where
  do_poll: "check_disabled_chips env s = Inr s' \<Longrightarrow> t4_step env s s'"
| do_disable: "disable_chip env chip_id s = Inr s' \<Longrightarrow> t4_step env s s'"
| do_work: "set_work env cmd nicehash chip_id pw s = Inr (ok, s') \<Longrightarrow> t4_step env s s'"
| do_result: "get_result env s = (r, s') \<Longrightarrow> t4_step env s s'"

definition t4_inv :: "A1_chain \<Rightarrow> bool" where
  "t4_inv a \<longleftrightarrow> wf_chain a \<and> 0 < sint (pll a) \<and> live_cores a \<le> num_cores a"

definition keeps_dead :: "A1_chain \<Rightarrow> A1_chain \<Rightarrow> bool" where
  "keeps_dead a b \<longleftrightarrow> (\<forall>j < ASIC_CHIP_NUM. c_disabled (chips a ! j) \<longrightarrow> c_disabled (chips b ! j))"

lemma keeps_dead_refl [simp]: "keeps_dead a a"
  by (simp add: keeps_dead_def)

lemma keeps_dead_trans: "keeps_dead a b \<Longrightarrow> keeps_dead b c \<Longrightarrow> keeps_dead a c"
  by (simp add: keeps_dead_def)

lemma health_dead: "health c = Dead \<longleftrightarrow> c_disabled c"
  by (simp add: health_def)

lemma dead_stays_dead: "health_step\<^sup>*\<^sup>* h h' \<Longrightarrow> h = Dead \<Longrightarrow> h' = Dead"
  by (induction rule: rtranclp_induct) (auto elim: health_step_DeadE)

lemma polled_inv:
  assumes "polled a b" and "t4_inv a"
  shows "t4_inv b \<and> keeps_dead a b"
proof -
  from assms(1) obtain cs n where "b = a\<lparr>chips := cs, num_cores := n\<rparr>" unfolding polled_def by blast
  then have "pll b = pll a" by simp
  moreover have "wf_chain b" using polled_wf [OF assms(1)] assms(2) by (simp add: t4_inv_def)
  moreover have "live_cores b \<le> num_cores b" using assms by (simp add: polled_def t4_inv_def)
  moreover have "keeps_dead a b"
    using assms by (auto simp: keeps_dead_def polled_def t4_inv_def wf_chain_def simp flip: health_dead intro: dead_stays_dead)
  ultimately show ?thesis using assms(2) by (simp add: t4_inv_def)
qed

lemma ghost_cores_nonneg: "0 \<le> ghost_cores a"
  unfolding ghost_cores_def by (rule sum_list_nonneg) (auto simp: counted_def t4_consts)

lemma recounted_inv:
  assumes "recounted a b" and "pll b = pll a" and "t4_inv a"
  shows "t4_inv b \<and> keeps_dead a b"
proof -
  have "c_disabled (chips b ! j)" if "c_disabled (chips a ! j)" for j
    using assms(1) that by (cases "j < nat (num_active_chips b)") (auto simp: recounted_def checked_def)
  then have "keeps_dead a b" by (simp add: keeps_dead_def)
  with assms ghost_cores_nonneg [of b] show ?thesis by (auto simp: recounted_def t4_inv_def)
qed

text \<open>A chip replaced by one with the same cores.\<close>

lemma same_live_inv:
  assumes "t4_inv a" and "live c = live (chips a ! i)" and "c_disabled c = c_disabled (chips a ! i)"
  shows "t4_inv (a\<lparr>chips := (chips a)[i := c]\<rparr>) \<and> keeps_dead a (a\<lparr>chips := (chips a)[i := c]\<rparr>)"
proof -
  have "map live ((chips a)[i := c]) = map live (chips a)" using assms(2) by (rule map_update_same)
  then have "live_cores (a\<lparr>chips := (chips a)[i := c]\<rparr>) = live_cores a"
    by (simp add: live_cores_def flip: take_map)
  moreover have "c_disabled ((chips a)[i := c] ! k) = c_disabled (chips a ! k)" if "k < length (chips a)" for k
    using that assms(3) by (cases "i = k") simp_all
  then have "keeps_dead a (a\<lparr>chips := (chips a)[i := c]\<rparr>)"
    using assms(1) by (simp add: keeps_dead_def t4_inv_def wf_chain_def)
  ultimately show ?thesis using assms(1) by (simp add: t4_inv_def wf_chain_def)
qed

lemma t4_step_inv:
  assumes "t4_step env s s'" and inv: "t4_inv (a1 s)"
  shows "t4_inv (a1 s') \<and> keeps_dead (a1 s) (a1 s')"
  using assms(1)
proof (cases rule: t4_step.cases)
  case do_poll
  from inv have "wf_chain (a1 s)" "0 < sint (pll (a1 s))" by (simp_all add: t4_inv_def)
  from check_disabled_spec [OF this, of env] do_poll obtain b where b: "polled (a1 s) b"
      "(\<exists>t. a1 s' = b\<lparr>last_check_time := t\<rparr>) \<or> recounted b (a1 s') \<and> pll (a1 s') = pll b" by auto
  from polled_inv [OF b(1) inv] have i: "t4_inv b" "keeps_dead (a1 s) b" by simp_all
  from b(2) show ?thesis
  proof
    assume "\<exists>t. a1 s' = b\<lparr>last_check_time := t\<rparr>"
    with i show ?thesis by (auto simp: t4_inv_def wf_chain_def live_cores_def keeps_dead_def)
  next
    assume "recounted b (a1 s') \<and> pll (a1 s') = pll b"
    with recounted_inv [of b "a1 s'"] i show ?thesis by (blast intro: keeps_dead_trans)
  qed
next
  case (do_disable chip_id)
  then consider "s' = s" | c t where "chip_at (a1 s) (uint chip_id - 1) = Inr c"
      "a1 s' = (a1 s)\<lparr>chips := (chips (a1 s))[nat (uint chip_id - 1) := c\<lparr>c_cooldown_begin := t\<rparr>]\<rparr>"
    by (auto simp: disable_chip_def bindR_eq_Inr get_current_ms_eq split: if_splits)
  then show ?thesis
  proof cases
    case 2
    then have "c = chips (a1 s) ! nat (uint chip_id - 1)" by (simp add: chip_at_def split: if_splits)
    then show ?thesis unfolding 2(2) using inv by (intro same_live_inv) (simp_all add: live_def)
  qed (simp add: inv)
next
  case (do_work cmd nicehash chip_id pw ok)
  obtain p wk where pw: "pw = (p, wk)" by (cases pw)
  from do_work consider "a1 s' = a1 s" | c where "chip_at (a1 s) (uint chip_id - 1) = Inr c"
      "a1 s' = (a1 s)\<lparr>chips := (chips (a1 s))[nat (uint chip_id - 1) := c\<lparr>c_work := Some p\<rparr>]\<rparr>"
    by (auto simp: set_work_def pw bindR_eq_Inr hw_eq Let_def split: if_splits)
  then show ?thesis
  proof cases
    case 2
    then have "c = chips (a1 s) ! nat (uint chip_id - 1)" by (simp add: chip_at_def split: if_splits)
    then show ?thesis unfolding 2(2) using inv by (intro same_live_inv) (simp_all add: live_def)
  qed (simp add: inv)
next
  case (do_result r)
  then have "a1 s' = a1 s" by (auto simp: get_result_def hw_eq)
  with inv show ?thesis by simp
qed

section \<open>Properties\<close>

text \<open>A chain for the witnesses: two of its eighty chips active, with eight cores each, on a bus that answers nothing.\<close>

definition demo_chip :: A1_chip where
  "demo_chip = \<lparr>c_reg = [], c_num_cores = 8, c_work = None, c_hw_errors = 0, c_stales = 0, c_nonces_found = 0,
     c_nonce_ranges_done = 0, c_cooldown_begin = 0, c_fail_count = 0, c_fail_reset = 0, c_disabled = False, c_temp = 0\<rparr>"

definition demo_chain :: A1_chain where
  "demo_chain = \<lparr>chain_id = 0, num_chips = 2, num_cores = 16, num_active_chips = 2, chips = replicate 80 demo_chip,
     active_wq = wq_empty, last_check_time = 0, work_start_delay = 0, vid = 0, pll = 1000, VidOptimal = True,
     pllOptimal = True, bin1_test = 0, bin2_test = 0\<rparr>"

definition demo_env :: hw_env where
  "demo_env h c = \<lparr>r_val = 0, r_buf = []\<rparr>"

lemma demo_ok: "wf_chain demo_chain" "t4_inv demo_chain" "0 < sint (pll demo_chain)" "cores_ok demo_chain"
  by (simp_all add: t4_inv_def cores_ok_def wf_chain_def live_cores_def demo_chain_def demo_chip_def live_def t4_consts numeral_2_eq_2)

text \<open>C33: A frame a chip writes is read back by the driver with its job id, chip, nonce and hash, when the library passes on the whole
  frame, whatever it puts behind it.  The frame has 38 bytes, two more than the driver asks for: when the library
  delivers just the 36, bytes 28 and 29 of the hash come out as zero and the rest as they were.\<close>

theorem get_result_roundtrip:
  assumes "result_ok r" and "hw_ok (env (hist s) c)" and "c = ReadResult (chain_id (a1 s)) 0 RES_LENGTH"
    and "r_buf (env (hist s) c) = take n (result_frame lo r @ pad)" and "n = RES_LENGTH \<or> 38 \<le> n"
  shows "get_result env s = (Some (if n = RES_LENGTH then r\<lparr>r_hash := (r_hash r)[29 := 0, 28 := 0]\<rparr> else r),
    set_hist s (hist s @ [(c, env (hist s) c)]))"
proof -
  note len = length_result_frame [OF assms(1), of lo]
  have "result_of (hw_bytes 64 (env (hist s) c)) = (if n = RES_LENGTH then r\<lparr>r_hash := (r_hash r)[29 := 0, 28 := 0]\<rparr> else r)"
  proof (cases "n = RES_LENGTH")
    case True
    have "result_ok (r\<lparr>r_hash := (r_hash r)[29 := 0, 28 := 0]\<rparr>)" using assms(1) by (simp add: result_ok_def)
    moreover have "hw_bytes 64 (env (hist s) c) = (take 36 (result_frame lo r) @ [0, 0]) @ replicate 26 0"
      using assms(4) len True by (simp add: hw_bytes_def t4_consts numeral_eq_Suc)
    ultimately show ?thesis using True by (simp add: result_frame_tail [OF assms(1)] result_of_frame)
  next
    case False
    with assms(5) have n: "38 \<le> n" by simp
    then have "hw_bytes 64 (env (hist s) c) = result_frame lo r @ take 26 (take (n - 38) pad @ replicate 64 0)"
      using assms(4) len by (simp add: hw_bytes_def)
    then show ?thesis using False by (simp add: result_of_frame [OF assms(1)])
  qed
  then show ?thesis using assms(2,3) by (simp add: get_result_def hw_eq)
qed

definition demo_result :: t4_result where
  "demo_result = \<lparr>r_job_id = 1, r_chip_id = 2, r_nonce = [1, 2, 3, 4], r_hash = replicate 32 9\<rparr>"

theorem get_result_roundtrip_witness:
  "fst (get_result (\<lambda>h c. \<lparr>r_val = 1, r_buf = take 40 (result_frame 0 demo_result @ [7, 7])\<rparr>)
     \<lparr>a1 = demo_chain, g_ctype = CHIP_TYPE_D88, hist = []\<rparr>) = Some demo_result \<and>
   map_option r_hash (fst (get_result (\<lambda>h c. \<lparr>r_val = 1, r_buf = take 36 (result_frame 0 demo_result @ [])\<rparr>)
     \<lparr>a1 = demo_chain, g_ctype = CHIP_TYPE_D88, hist = []\<rparr>)) = Some ((replicate 32 9)[29 := 0, 28 := 0])"
proof -
  let ?s = "\<lparr>a1 = demo_chain, g_ctype = CHIP_TYPE_D88, hist = []\<rparr>"
  have ok: "result_ok demo_result" by (simp add: result_ok_def demo_result_def)
  have "get_result (\<lambda>h c. \<lparr>r_val = 1, r_buf = take 40 (result_frame 0 demo_result @ [7, 7])\<rparr>) ?s =
      (Some (if 40 = RES_LENGTH then demo_result\<lparr>r_hash := (r_hash demo_result)[29 := 0, 28 := 0]\<rparr> else demo_result),
       set_hist ?s ([] @ [(ReadResult 0 0 RES_LENGTH, \<lparr>r_val = 1, r_buf = take 40 (result_frame 0 demo_result @ [7, 7])\<rparr>)]))"
    by (subst get_result_roundtrip [OF ok _ refl, where n = 40 and lo = 0 and pad = "[7, 7]"])
      (simp_all add: hw_ok_def demo_chain_def)
  moreover have "get_result (\<lambda>h c. \<lparr>r_val = 1, r_buf = take 36 (result_frame 0 demo_result @ [])\<rparr>) ?s =
      (Some (if 36 = RES_LENGTH then demo_result\<lparr>r_hash := (r_hash demo_result)[29 := 0, 28 := 0]\<rparr> else demo_result),
       set_hist ?s ([] @ [(ReadResult 0 0 RES_LENGTH, \<lparr>r_val = 1, r_buf = take 36 (result_frame 0 demo_result @ [])\<rparr>)]))"
    by (subst get_result_roundtrip [OF ok _ refl, where n = 36 and lo = 0 and pad = "[]"])
      (simp_all add: hw_ok_def demo_chain_def RES_LENGTH_def)
  ultimately show ?thesis by (simp add: RES_LENGTH_def demo_result_def)
qed

text \<open>Bringing up a chain whose frequency is positive returns; it reports chips only after every step succeeded, in the
  order of the code: slow bus, reset, the levels of the clock, fast bus, self test, repair, LED off; and the number is what
  the self test answered.  Otherwise it returns 0, or -1 with the LED on.\<close>

theorem chain_detect_sequence:
  assumes "0 < sint (pll (a1 s))"
  shows "\<exists>n m t s'. mcompat_chain_detect env s = Inr (n, s') \<and> hist s' = hist s @ t \<and> g_ctype s' = g_ctype s \<and>
    a1 s' = (a1 s)\<lparr>num_chips := m\<rparr> \<and>
    (if 1 \<le> n
     then m = n \<and> (\<exists>ts idx. Ax_clock_pll2index (sint (pll (a1 s))) = Some idx \<and>
            list_all2 level_written (map (reg_cmd (chain_id (a1 s))) (pll_steps idx)) ts \<and>
            map fst t = detect_cmds (chain_id (a1 s)) (map fst (concat ts))) \<and>
          (\<exists>h r. env h (BistStart (chain_id (a1 s)) 0) = r \<and> n = r_val r)
     else n = 0 \<or> n = - 1 \<and> fst (last t) = SetLed (chain_id (a1 s)) 1)"
  using assms by (rule detect_spec)

theorem chain_detect_sequence_witness:
  "\<exists>n s'. mcompat_chain_detect demo_env \<lparr>a1 = demo_chain, g_ctype = CHIP_TYPE_D88, hist = []\<rparr> = Inr (n, s')"
  using chain_detect_sequence [of "\<lparr>a1 = demo_chain, g_ctype = CHIP_TYPE_D88, hist = []\<rparr>" demo_env] demo_ok(3) by auto

text \<open>C12: The periodic check of a chain polls every active chip once: a chip that cools down for 30 seconds works again when it answers, and
  otherwise cools down again or, at its fourth failure, is given up with its cores; no other chip changes, and the core
  count stays as far from the live cores as it was.  Only when more than ten minutes have passed since the last such moment the cores are looked at: below 300, and at most six times,
  the chain is reset and \<open>bin1_test\<close> counted; else below 260 it is reset, and nothing counts those resets, so they go on for ever;
  else nothing else happens.  A reset counts the cores the registers show, of chips it leaves disabled as well; it ends the process when the
  self test finds no chip, and runs past the chip array when it answers more than 80.\<close>

theorem check_disabled_chips_spec:
  assumes "wf_chain (a1 s)" and "0 < sint (pll (a1 s))"
  shows "\<exists>b g. hw_grows (hist s) g \<and> polled (a1 s) b \<and>
    chips_polled env [0..num_active_chips (a1 s) - 1] (hist s) g (a1 s) b \<and>
    (let now = env g CurrentMs; g1 = g @ [(CurrentMs, now)]; later = env g1 CurrentMs;
         u = s\<lparr>a1 := b\<lparr>last_check_time := r_val later\<rparr>, hist := g1 @ [(CurrentMs, later)]\<rparr>
     in if r_val now \<le> last_check_time (a1 s) + CHECK_CORES_MS
          then check_disabled_chips env s = Inr (s\<lparr>a1 := b, hist := g1\<rparr>)
        else if num_cores b < LEST_CORE_BIN1_CHAIN \<and> bin1_test (a1 s) < CHAIN_RESET_TEST_NUM
          then reset_done env (u\<lparr>a1 := (a1 u)\<lparr>bin1_test := bin1_test (a1 s) + 1\<rparr>\<rparr>) (check_disabled_chips env s)
        else if num_cores b < LEST_CORE_BIN2_CHAIN \<and> bin2_test (a1 s) < CHAIN_RESET_TEST_NUM
          then reset_done env u (check_disabled_chips env s)
        else check_disabled_chips env s = Inr u)"
  using assms by (rule check_disabled_exact)

text \<open>Ten minutes later, on a bus where every chip answers with eight cores and the self test finds two chips: the chain, whose
  second chip was cooling down, is reset, and the two chips have eight cores each.\<close>

definition reset_env :: hw_env where
  "reset_env h c = (case c of CurrentMs \<Rightarrow> \<lparr>r_val = 700000, r_buf = []\<rparr>
     | BistStart _ _ \<Rightarrow> \<lparr>r_val = 2, r_buf = []\<rparr>
     | ReadRegister _ _ _ \<Rightarrow> \<lparr>r_val = 1, r_buf = replicate 11 0 @ [255]\<rparr>
     | _ \<Rightarrow> \<lparr>r_val = 1, r_buf = []\<rparr>)"

definition weak_chain :: A1_chain where
  "weak_chain = demo_chain\<lparr>pll := 120, chips := (replicate 80 demo_chip)[1 := demo_chip\<lparr>c_cooldown_begin := 1, c_fail_count := 3\<rparr>]\<rparr>"

lemma reset_env_const: "reset_env = (\<lambda>h. reset_env [])"
  by (simp add: fun_eq_iff reset_env_def split: hw_cmd.split)

lemma weak_detect:
  assumes "a1 s = weak_chain\<lparr>chips := cs, num_cores := k, last_check_time := t, bin1_test := b\<rparr>"
  shows "\<exists>s1. mcompat_chain_detect reset_env s = Inr (2, s1)"
  using assms by (simp add: mcompat_chain_detect_def weak_chain_def demo_chain_def Ax_clock_pll2index_def PLL_Clk_12Mhz_def
      Ax_clock_setpll_by_step_def setpll_eq hw_def hw_ok_def reset_env_def Let_def reg_cmd_def numeral_eq_Suc)

theorem check_disabled_chips_spec_witness:
  "\<exists>s'. check_disabled_chips reset_env \<lparr>a1 = weak_chain, g_ctype = CHIP_TYPE_D88, hist = []\<rparr> = Inr s' \<and> bin1_test (a1 s') = 1 \<and>
     num_active_chips (a1 s') = 2 \<and> last_check_time (a1 s') = 700000 \<and> c_num_cores (chips (a1 s') ! 1) = 8"
proof -
  let ?s = "\<lparr>a1 = weak_chain, g_ctype = CHIP_TYPE_D88, hist = []\<rparr>"
  have "wf_chain (a1 ?s)" "0 < sint (pll (a1 ?s))" by (simp_all add: wf_chain_def weak_chain_def demo_chain_def t4_consts)
  from check_disabled_chips_spec [OF this, of reset_env] obtain b g where p: "polled weak_chain b"
      and c: "chips_polled reset_env [0..num_active_chips (a1 ?s) - 1] (hist ?s) g (a1 ?s) b"
      and res: "let now = reset_env g CurrentMs; g1 = g @ [(CurrentMs, now)]; later = reset_env g1 CurrentMs;
         u = ?s\<lparr>a1 := b\<lparr>last_check_time := r_val later\<rparr>, hist := g1 @ [(CurrentMs, later)]\<rparr>
     in if r_val now \<le> last_check_time (a1 ?s) + CHECK_CORES_MS
          then check_disabled_chips reset_env ?s = Inr (?s\<lparr>a1 := b, hist := g1\<rparr>)
        else if num_cores b < LEST_CORE_BIN1_CHAIN \<and> bin1_test (a1 ?s) < CHAIN_RESET_TEST_NUM
          then reset_done reset_env (u\<lparr>a1 := (a1 u)\<lparr>bin1_test := bin1_test (a1 ?s) + 1\<rparr>\<rparr>) (check_disabled_chips reset_env ?s)
        else if num_cores b < LEST_CORE_BIN2_CHAIN \<and> bin2_test (a1 ?s) < CHAIN_RESET_TEST_NUM
          then reset_done reset_env u (check_disabled_chips reset_env ?s)
        else check_disabled_chips reset_env ?s = Inr u"
    by auto
  obtain cs n where b: "b = weak_chain\<lparr>chips := cs, num_cores := n\<rparr>" "length cs = 80"
    using p by (auto simp: polled_def weak_chain_def)
  have polled: "cs ! j = demo_chip" if "j < 2" for j
  proof -
    have "num_active_chips (a1 ?s) = 2" by (simp add: weak_chain_def demo_chain_def)
    then have "int j \<in> set [0..num_active_chips (a1 ?s) - 1]" "j < length (chips (a1 ?s))" using that by (auto simp: weak_chain_def)
    then obtain h where "chips b ! j = chip_polled reset_env (chain_id (a1 ?s)) (int j + 1) h (chips (a1 ?s) ! j)"
      using c unfolding chips_polled_def by metis
    then show ?thesis using that
      by (auto simp: b weak_chain_def chip_polled_def reset_env_def demo_chip_def hw_ok_def t4_consts less_2_cases_iff)
  qed
  have "live_cores b = 16" using polled [of 0] polled [of 1] b(2)
    by (simp add: b live_cores_def weak_chain_def demo_chain_def take_Suc_conv_app_nth numeral_2_eq_2 live_def demo_chip_def)
  moreover have "live_cores weak_chain = 16"
    by (simp add: live_cores_def weak_chain_def demo_chain_def numeral_2_eq_2 live_def demo_chip_def take_update_swap)
  ultimately have "n = 16" using p by (simp add: polled_def b weak_chain_def demo_chain_def)
  let ?a = "b\<lparr>last_check_time := 700000, bin1_test := 1\<rparr>"
  let ?t = "(CurrentMs, \<lparr>r_val = 700000, r_buf = []\<rparr>)"
  let ?v = "\<lparr>a1 = ?a, g_ctype = CHIP_TYPE_D88, hist = g @ [?t, ?t]\<rparr>"
  have rd: "reset_done reset_env ?v (check_disabled_chips reset_env ?s)"
    using res \<open>n = 16\<close> by (simp add: Let_def b weak_chain_def demo_chain_def t4_consts reset_env_def)
  have detect: "\<exists>s1. mcompat_chain_detect reset_env (set_hist ?v h) = Inr (2, s1)" for h
    by (rule weak_detect [where cs = cs and k = n and t = 700000 and b = 1]) (simp add: b)
  from rd obtain n s1 where d: "mcompat_chain_detect reset_env (set_hist ?v (hist ?v @ [(ChainHwReset (chain_id (a1 ?v)), reset_env (hist ?v) (ChainHwReset (chain_id (a1 ?v))))])) = Inr (n, s1)"
      and q: "if n < 1 then check_disabled_chips reset_env ?s = Inl Exited
        else if int ASIC_CHIP_NUM < n then check_disabled_chips reset_env ?s = Inl OutOfBounds
        else \<exists>s' t. check_disabled_chips reset_env ?s = Inr s' \<and> hist s' = hist s1 @ t \<and> answered reset_env (hist s1) t \<and> recounted (a1 ?v) (a1 s') \<and>
          (\<forall>j < nat n. cores_read (chain_id (a1 ?v)) t (int j + 1) (chips (a1 s') ! j)) \<and>
          (\<exists>cs k. a1 s' = (a1 ?v)\<lparr>num_chips := n, num_active_chips := n, chips := cs, num_cores := k\<rparr>)"
    unfolding reset_done_def Let_def by blast
  have n: "n = 2" using d detect by (metis Inr_inject Pair_inject)
  from q obtain s' t cs' m where s': "check_disabled_chips reset_env ?s = Inr s'" "answered reset_env (hist s1) t"
      "\<forall>j < nat 2. cores_read (chain_id b) t (int j + 1) (chips (a1 s') ! j)"
      "a1 s' = ?a\<lparr>num_chips := 2, num_active_chips := 2, chips := cs', num_cores := m\<rparr>"
    unfolding n by (auto simp: t4_consts)
  have "cores_read (chain_id b) t 2 (chips (a1 s') ! 1)" using s'(3) by (auto dest: spec [of _ 1])
  then obtain r where r: "(ReadRegister (chain_id b) 2 REG_LENGTH, r) \<in> set t"
      "c_num_cores (chips (a1 s') ! 1) = (if hw_ok r then reg_cores (hw_bytes REG_LENGTH r) else 0)"
    by (auto simp: cores_read_def)
  have "r = reset_env [] (ReadRegister (chain_id b) 2 REG_LENGTH)"
    using answered_const [of "reset_env []" "hist s1" t] s'(2) r(1) reset_env_const by fastforce
  then have "c_num_cores (chips (a1 s') ! 1) = 8"
    using r(2) by (simp add: reset_env_def hw_ok_def hw_bytes_def t4_consts reg_cores_def nth_append)
  then show ?thesis using s'(1,4) by (intro exI [of _ s']) simp
qed

text \<open>C15: Whatever a run of checks, disabled chips, jobs and results does to a chain, its array keeps its size, the active chips stay
  within it, a chip given up stays given up, and the core count never falls below the cores that are alive.\<close>

theorem t4_run_invariant:
  assumes "(t4_step env)\<^sup>*\<^sup>* s s'" and "t4_inv (a1 s)"
  shows "t4_inv (a1 s') \<and> keeps_dead (a1 s) (a1 s')"
  using assms(1)
proof (induction rule: rtranclp_induct)
  case base
  then show ?case using assms(2) by simp
next
  case (step u v)
  then show ?case using t4_step_inv [of env u v] by (blast intro: keeps_dead_trans)
qed

theorem t4_run_invariant_witness:
  "t4_inv (a1 (snd (get_result demo_env \<lparr>a1 = demo_chain, g_ctype = CHIP_TYPE_D88, hist = []\<rparr>)))"
proof -
  let ?s = "\<lparr>a1 = demo_chain, g_ctype = CHIP_TYPE_D88, hist = []\<rparr>"
  have "t4_step demo_env ?s (snd (get_result demo_env ?s))" by (rule t4_step.do_result [of _ _ "fst (get_result demo_env ?s)"]) simp
  then have "(t4_step demo_env)\<^sup>*\<^sup>* ?s (snd (get_result demo_env ?s))" by blast
  from t4_run_invariant [OF this] demo_ok(2) show ?thesis by simp
qed

end
