(* ===== verification/Shares.thy ===== *)
theory Shares
  imports Works T4Chain
begin

text \<open>
  From a result to a submitted share: the test of a hash against the target (util.c), the statistics and
  the copy that is handed on (cgminer.c), and the entry the T4 driver uses (getwork.c).  The difficulty of a share is a
  floating-point quotient; its value is an argument.
\<close>

section \<open>The code\<close>

text \<open>The \<open>i\<close>-th 32-bit word of a buffer, little-endian.\<close>

definition le32_at :: "u8 list \<Rightarrow> nat \<Rightarrow> u32" where
  "le32_at d i = be32 (d ! (4 * i + 3)) (d ! (4 * i + 2)) (d ! (4 * i + 1)) (d ! (4 * i))"

fun fulltest_from :: "nat \<Rightarrow> u8 list \<Rightarrow> u8 list \<Rightarrow> bool" where
  "fulltest_from 0 hash target = True"
| "fulltest_from (Suc i) hash target =
     (if le32_at hash i > le32_at target i then False
      else if le32_at hash i < le32_at target i then True
      else fulltest_from i hash target)"

definition fulltest :: "u8 list \<Rightarrow> u8 list \<Rightarrow> bool" where
  "fulltest hash target = fulltest_from 8 hash target"

text \<open>\<open>diff\<close> gives the difficulty of a hash.\<close>

definition update_work_stats :: "cfg \<Rightarrow> (u8 list \<Rightarrow> rat) \<Rightarrow> mem \<Rightarrow> int \<Rightarrow> work_err + mem" where
  "update_work_stats g diff s p =
     bindR (at_work s p) (\<lambda>w.
     bindR (at_pool s w) (\<lambda>n.
     let s = (if diff (w_hash w) \<ge> current_diff g
              then (pool_upd (put_work s p (w\<lparr>w_block := True, w_mandatory := True\<rparr>)) n
                (\<lambda>pl. pl\<lparr>p_solved := p_solved pl + 1\<rparr>))\<lparr>found_blocks := found_blocks s + 1\<rparr>
              else s)
     in Inr ((pool_upd s n (\<lambda>pl. pl\<lparr>p_diff1 := p_diff1 pl + w_device_diff w\<rparr>))
       \<lparr>total_diff1 := total_diff1 s + w_device_diff w, cgpu_diff1 := cgpu_diff1 s + w_device_diff w\<rparr>)))"

definition submit_work_async :: "cfg \<Rightarrow> mem \<Rightarrow> int \<Rightarrow> work_err + mem" where
  "submit_work_async g s p =
     bindR (at_work s p) (\<lambda>w.
     bindR (at_pool s w) (\<lambda>n.
     if opt_benchmark g then
       Inr ((pool_upd s n (\<lambda>pl. pl\<lparr>p_accepted := p_accepted pl + 1, p_diff_accepted := p_diff_accepted pl + w_work_difficulty w\<rparr>))
         \<lparr>cgpu_accepted := cgpu_accepted s + 1, total_accepted := total_accepted s + 1,
           cgpu_diff_accepted := cgpu_diff_accepted s + w_work_difficulty w, total_diff_accepted := total_diff_accepted s + w_work_difficulty w\<rparr>)
     else bindR (stale_work g s p True) (\<lambda>stale.
     if stale \<and> \<not> opt_submit_stale g \<and> \<not> p_submit_old (pools s n) then
       free_work ((pool_upd s n (\<lambda>pl. pl\<lparr>p_stale_shares := p_stale_shares pl + 1, p_diff_stale := p_diff_stale pl + w_work_difficulty w\<rparr>))
         \<lparr>total_stale := total_stale s + 1, total_diff_stale := total_diff_stale s + w_work_difficulty w\<rparr>) (Some p)
     else
       let s = (if stale then put_work s p (w\<lparr>w_stale := True\<rparr>) else s) in
       if w_stratum w then
         (case p_stratum_q (pools s n) of
            None \<Rightarrow> free_work s (Some p)
          | Some q \<Rightarrow>
              let (ok, q) = tq_push q p; s = pool_upd s n (\<lambda>pl. pl\<lparr>p_stratum_q := Some q\<rparr>)
              in if \<not> ok then free_work s (Some p) else Inr s)
       else Inr (s\<lparr>submitting := submitting s @ [p]\<rparr>))))"

definition submit_tested_work :: "cfg \<Rightarrow> (u8 list \<Rightarrow> rat) \<Rightarrow> mem \<Rightarrow> int \<Rightarrow> work_err + mem" where
  "submit_tested_work g diff s p =
     bindR (update_work_stats g diff s p) (\<lambda>s.
     bindR (copy_work_noffset s p 0) (\<lambda>(q, s).
     submit_work_async g s q))"

definition submit_nonce_hash :: "cfg \<Rightarrow> (u8 list \<Rightarrow> rat) \<Rightarrow> mem \<Rightarrow> int \<Rightarrow> u8 list \<times> u8 list \<Rightarrow> work_err + (bool \<times> mem)" where
  "submit_nonce_hash g diff s p nh =
     (let (nonce, hash) = nh in
      bindR (at_work s p) (\<lambda>w.
      if fulltest hash (w_target w) then
        bindR (submit_tested_work g diff
            (put_work s p (w\<lparr>w_nonce := be32 (nonce ! 0) (nonce ! 1) (nonce ! 2) (nonce ! 3), w_hash := hash\<rparr>)) p)
          (\<lambda>s. Inr (True, s))
      else Inr (True, s)))"

section \<open>The test of a hash\<close>

lemma unat_be32: "unat (be32 a b c d) = le_val [d, c, b, a]"
proof -
  have "be_val (be32_bytes (be32 a b c d)) = unat (be32 a b c d)" by simp
  then show ?thesis unfolding be32_inject_bytes using be_val_rev [of "[d, c, b, a]"] by simp
qed

lemma le_val_word:
  assumes "4 * Suc i \<le> length d"
  shows "le_val (take (4 * Suc i) d) = le_val (take (4 * i) d) + 256 ^ (4 * i) * unat (le32_at d i)"
proof -
  have "take 4 (drop (4 * i) d) = [d ! (4 * i), d ! (4 * i + 1), d ! (4 * i + 2), d ! (4 * i + 3)]"
    using assms by (simp add: list_eq_iff_nth_eq less_Suc_eq numeral_eq_Suc)
  moreover have "take (4 * Suc i) d = take (4 * i) d @ take 4 (drop (4 * i) d)"
    using take_add [of "4 * i" 4 d] by (simp add: add.commute)
  ultimately show ?thesis using assms by (simp add: le_val_append le32_at_def unat_be32)
qed

lemma digit_le:
  assumes "(a :: nat) < B" and "b < B"
  shows "a + B * x \<le> b + B * y \<longleftrightarrow> x < y \<or> x = y \<and> a \<le> b"
proof -
  consider "x < y" | "x = y" | "y < x" by linarith
  then show ?thesis
  proof cases
    case 1
    then have "B * Suc x \<le> B * y" by (intro mult_le_mono2) simp
    with assms 1 show ?thesis by simp
  next
    case 3
    then have "B * Suc y \<le> B * x" by (intro mult_le_mono2) simp
    with assms 3 show ?thesis by simp
  qed simp
qed

lemma fulltest_from_le:
  assumes "4 * n \<le> length h" and "4 * n \<le> length t"
  shows "fulltest_from n h t \<longleftrightarrow> le_val (take (4 * n) h) \<le> le_val (take (4 * n) t)"
  using assms
proof (induction n)
  case (Suc n)
  have "le_val (take (4 * n) h) < 256 ^ (4 * n)" "le_val (take (4 * n) t) < 256 ^ (4 * n)"
    using le_val_less [of "take (4 * n) h"] le_val_less [of "take (4 * n) t"] Suc.prems by (simp_all add: min_absorb2)
  from digit_le [OF this] have "le_val (take (4 * Suc n) h) \<le> le_val (take (4 * Suc n) t) \<longleftrightarrow>
      unat (le32_at h n) < unat (le32_at t n) \<or> unat (le32_at h n) = unat (le32_at t n) \<and> le_val (take (4 * n) h) \<le> le_val (take (4 * n) t)"
    unfolding le_val_word [OF Suc.prems(1)] le_val_word [OF Suc.prems(2)] .
  with Suc show ?case by (auto simp: word_less_nat_alt word_unat_eq_iff)
qed simp

lemma fulltest_le: "length h = 32 \<Longrightarrow> length t = 32 \<Longrightarrow> fulltest h t \<longleftrightarrow> le_val h \<le> le_val t"
  using fulltest_from_le [of 8 h t] by (simp add: fulltest_def)

lemma le_val_update:
  "i < length xs \<Longrightarrow> le_val (xs[i := b]) + 256 ^ i * unat (xs ! i) = le_val xs + 256 ^ i * unat b"
proof (induction xs arbitrary: i)
  case (Cons x xs)
  show ?case
  proof (cases i)
    case (Suc j)
    with Cons.IH [of j] Cons.prems have "256 * (le_val (xs[j := b]) + 256 ^ j * unat (xs ! j)) = 256 * (le_val xs + 256 ^ j * unat b)" by simp
    with Suc show ?thesis by (simp add: algebra_simps)
  qed simp
qed simp

lemma cut_arith:
  fixes x :: nat
  assumes "x + 256 ^ 28 * a = y" and "z + 256 ^ 29 * b = x" and "a \<le> 255" and "b \<le> 255"
  shows "z \<le> y \<and> y < z + 256 ^ 30"
  using assms by simp

lemma le_val_cut:
  assumes "length h = 32"
  shows "le_val (h[28 := 0, 29 := 0]) \<le> le_val h" "le_val h < le_val (h[28 := 0, 29 := 0]) + 256 ^ 30"
proof -
  have "le_val (h[28 := 0]) + 256 ^ 28 * unat (h ! 28) = le_val h" using le_val_update [of 28 h 0] assms by simp
  moreover have "le_val (h[28 := 0, 29 := 0]) + 256 ^ 29 * unat (h ! 29) = le_val (h[28 := 0])"
    using le_val_update [of 29 "h[28 := 0]" 0] assms by simp
  ultimately show "le_val (h[28 := 0, 29 := 0]) \<le> le_val h" "le_val h < le_val (h[28 := 0, 29 := 0]) + 256 ^ 30"
    using cut_arith [OF _ _ unat_u8_le unat_u8_le] by blast+
qed

section \<open>Submitting\<close>

lemma copy_work_eq:
  assumes "mem_ok s" and "works s p = Some w"
  shows "copy_work_noffset s p 0 = Inr (next_ptr s,
    s\<lparr>works := (works s)(next_ptr s \<mapsto> w\<lparr>w_id := word_of_int (total_work s)\<rparr>), next_ptr := next_ptr s + 1, total_work := total_work s + 1\<rparr>)"
proof -
  have "p \<noteq> next_ptr s" using assms by (auto simp: mem_ok_def)
  then show ?thesis using assms(2)
    by (auto simp: copy_work_noffset_def make_work_def total_work_inc_def copy_work_into_def copy_fields_def clean_work_def
      at_work_def put_work_def zero_work_def Let_def split: option.split)
qed

lemma mem_ok_new:
  assumes "mem_ok s" and "w_pool w \<noteq> None"
  shows "mem_ok (s\<lparr>works := (works s)(next_ptr s \<mapsto> w), next_ptr := next_ptr s + 1, total_work := n\<rparr>)"
proof -
  have f: "next_ptr s \<notin> dom (works s)" using assms(1) by (auto simp: mem_ok_def)
  have "set (queued_work s) \<subseteq> insert (next_ptr s) (dom (works s))" "unqueued_work s = Some p \<Longrightarrow> p \<in> dom (works s)" for p
    using assms(1) by (auto simp: mem_ok_def)
  moreover have "\<forall>p \<in> insert (next_ptr s) (dom (works s)). p < next_ptr s + 1"
  proof -
    have "\<forall>p \<in> dom (works s). p < next_ptr s" using assms(1) unfolding mem_ok_def by blast
    then show ?thesis by (metis insert_iff zless_add1_eq)
  qed
  moreover have "next_ptr s \<notin> set (queued_work s)" "unqueued_work s \<noteq> Some (next_ptr s)"
    using assms(1) f by (auto simp: mem_ok_def)
  ultimately show ?thesis using assms by (auto simp: mem_ok_def)
qed

lemma mem_ok_put: "mem_ok s \<Longrightarrow> p \<in> dom (works s) \<Longrightarrow> w_pool w \<noteq> None \<Longrightarrow> mem_ok (put_work s p w)"
  by (auto simp: mem_ok_def put_work_def)

lemma mem_ok_pool_upd [simp]: "mem_ok (pool_upd s n f) = mem_ok s"
  by (simp add: mem_ok_def pool_upd_def)

lemma mem_ok_counters [simp]:
  "mem_ok (s\<lparr>total_accepted := k\<rparr>) = mem_ok s" "mem_ok (s\<lparr>total_stale := k\<rparr>) = mem_ok s"
  "mem_ok (s\<lparr>found_blocks := k\<rparr>) = mem_ok s" "mem_ok (s\<lparr>total_diff1 := d, cgpu_diff1 := e\<rparr>) = mem_ok s"
  "mem_ok (s\<lparr>total_stale := k, total_diff_stale := d\<rparr>) = mem_ok s"
  "mem_ok (s\<lparr>cgpu_accepted := k, total_accepted := k', cgpu_diff_accepted := d, total_diff_accepted := e\<rparr>) = mem_ok s"
  "mem_ok (s\<lparr>submitting := ps\<rparr>) = mem_ok s"
  by (simp_all add: mem_ok_def)

lemma pool_upd_simps [simp]:
  "works (pool_upd s n f) = works s" "queued_work (pool_upd s n f) = queued_work s" "unqueued_work (pool_upd s n f) = unqueued_work s"
  "next_ptr (pool_upd s n f) = next_ptr s" "queued_work (put_work s p w) = queued_work s" "unqueued_work (put_work s p w) = unqueued_work s"
  "next_ptr (put_work s p w) = next_ptr s" "pools (put_work s p w) = pools s" "works (put_work s p w) = (works s)(p \<mapsto> w)"
  "total_work (put_work s p w) = total_work s" "total_work (pool_upd s n f) = total_work s"
  "pools (pool_upd s n f) = (pools s)(n := f (pools s n))"
  by (simp_all add: pool_upd_def put_work_def)

text \<open>What submitting leaves alone: the queue, and every item but the one submitted.\<close>

definition rest_kept :: "mem \<Rightarrow> mem \<Rightarrow> int \<Rightarrow> bool" where
  "rest_kept s s' p \<longleftrightarrow> mem_ok s' \<and> queued_work s' = queued_work s \<and> unqueued_work s' = unqueued_work s \<and>
     (\<forall>q. q \<noteq> p \<longrightarrow> works s' q = works s q) \<and> next_ptr s' = next_ptr s"

lemma free_kept:
  assumes "mem_ok s" and "p \<in> dom (works s)" and "p \<notin> set (queued_work s)" and "unqueued_work s \<noteq> Some p"
  shows "\<exists>s'. free_work s (Some p) = Inr s' \<and> rest_kept s s' p"
  using free_work_eq [OF assms(2)] free_ok [OF assms] by (auto simp: rest_kept_def)

lemma submit_async_ok:
  assumes ok: "mem_ok s" and w: "works s p = Some w" and free: "p \<notin> set (queued_work s)" "unqueued_work s \<noteq> Some p"
  shows "\<exists>s'. submit_work_async g s p = Inr s' \<and> rest_kept s s' p"
proof -
  have p: "p \<in> dom (works s)" using w by blast
  have "w_pool w \<noteq> None" using ok w by (simp only: mem_ok_def) blast
  then obtain n where n: "w_pool w = Some n" by blast
  obtain stale where st: "stale_work g s p True = Inr stale" using ok p by (rule stale_work_ok)
  note d = submit_work_async_def at_work_def at_pool_def w n st
  let ?s = "if stale then put_work s p (w\<lparr>w_stale := True\<rparr>) else s"
  have s: "mem_ok ?s" "p \<in> dom (works ?s)" "p \<notin> set (queued_work ?s)" "unqueued_work ?s \<noteq> Some p" "rest_kept s ?s p"
    using ok p free n by (auto simp: mem_ok_put rest_kept_def)
  have tr: "rest_kept s s' p" if "rest_kept t s' p" "rest_kept s t p" for s' t
    using that by (simp add: rest_kept_def)
  consider (bench) "opt_benchmark g"
    | (stale) "\<not> opt_benchmark g" "stale \<and> \<not> opt_submit_stale g \<and> \<not> p_submit_old (pools s n)"
    | (direct) "\<not> opt_benchmark g" "\<not> (stale \<and> \<not> opt_submit_stale g \<and> \<not> p_submit_old (pools s n))" "\<not> w_stratum w"
    | (gone) "\<not> opt_benchmark g" "\<not> (stale \<and> \<not> opt_submit_stale g \<and> \<not> p_submit_old (pools s n))" "w_stratum w"
        "p_stratum_q (pools s n) = None"
    | (push) q where "\<not> opt_benchmark g" "\<not> (stale \<and> \<not> opt_submit_stale g \<and> \<not> p_submit_old (pools s n))" "w_stratum w"
        "p_stratum_q (pools s n) = Some q" by (cases "p_stratum_q (pools s n)") blast+
  then show ?thesis
  proof cases
    case bench
    then show ?thesis using ok by (simp add: d rest_kept_def)
  next
    case stale
    let ?t = "(pool_upd s n (\<lambda>pl. pl\<lparr>p_stale_shares := p_stale_shares pl + 1, p_diff_stale := p_diff_stale pl + w_work_difficulty w\<rparr>))
      \<lparr>total_stale := total_stale s + 1, total_diff_stale := total_diff_stale s + w_work_difficulty w\<rparr>"
    have "rest_kept s ?t p" using ok by (simp add: rest_kept_def)
    moreover obtain s' where "free_work ?t (Some p) = Inr s'" "rest_kept ?t s' p"
      using free_kept [of ?t p] ok p free by auto
    ultimately show ?thesis using stale tr by (auto simp: d)
  next
    case direct
    then have "submit_work_async g s p = Inr (?s\<lparr>submitting := submitting ?s @ [p]\<rparr>)" by (auto simp: d Let_def)
    with s(5) show ?thesis by (simp add: rest_kept_def)
  next
    case gone
    then have "submit_work_async g s p = free_work ?s (Some p)" by (auto simp: d Let_def)
    moreover obtain s' where "free_work ?s (Some p) = Inr s'" "rest_kept ?s s' p" using free_kept [OF s(1-4)] by blast
    ultimately show ?thesis using tr [OF _ s(5)] by simp
  next
    case push
    let ?t = "pool_upd ?s n (\<lambda>pl. pl\<lparr>p_stratum_q := Some (snd (tq_push q p))\<rparr>)"
    have e: "submit_work_async g s p = (if \<not> fst (tq_push q p) then free_work ?t (Some p) else Inr ?t)"
      using push by (auto simp: d Let_def case_prod_beta)
    have t: "mem_ok ?t" "p \<in> dom (works ?t)" "p \<notin> set (queued_work ?t)" "unqueued_work ?t \<noteq> Some p" "rest_kept s ?t p"
      using s by (auto simp: rest_kept_def)
    show ?thesis
    proof (cases "fst (tq_push q p)")
      case True
      with e t(5) show ?thesis by auto
    next
      case False
      moreover obtain s' where "free_work ?t (Some p) = Inr s'" "rest_kept ?t s' p" using free_kept [OF t(1-4)] by blast
      ultimately show ?thesis using e tr [OF _ t(5)] by simp
    qed
  qed
qed

text \<open>What a submission looks at in the pools, and what it counts there.\<close>

definition same_ends :: "mem \<Rightarrow> mem \<Rightarrow> bool" where
  "same_ends s s' \<longleftrightarrow> (\<forall>n. p_stratum_q (pools s' n) = p_stratum_q (pools s n) \<and>
     p_submit_old (pools s' n) = p_submit_old (pools s n) \<and> p_stale_shares (pools s' n) = p_stale_shares (pools s n))"

lemma update_stats_ok:
  assumes "mem_ok s" and "works s p = Some w"
  shows "\<exists>s' b m. update_work_stats g diff s p = Inr s' \<and> rest_kept s s' p \<and>
    works s' p = Some (w\<lparr>w_block := b, w_mandatory := m\<rparr>) \<and> total_work s' = total_work s \<and>
    same_ends s s'"
proof -
  have "w_pool w \<noteq> None" using assms unfolding mem_ok_def by blast
  then obtain n where n: "w_pool w = Some n" by blast
  have put: "mem_ok (put_work s p (w\<lparr>w_block := True, w_mandatory := True\<rparr>))" using assms n by (intro mem_ok_put) auto
  let ?b = "diff (w_hash w) \<ge> current_diff g"
  let ?s = "if ?b then (pool_upd (put_work s p (w\<lparr>w_block := True, w_mandatory := True\<rparr>)) n
      (\<lambda>pl. pl\<lparr>p_solved := p_solved pl + 1\<rparr>))\<lparr>found_blocks := found_blocks s + 1\<rparr> else s"
  let ?t = "(pool_upd ?s n (\<lambda>pl. pl\<lparr>p_diff1 := p_diff1 pl + w_device_diff w\<rparr>))
      \<lparr>total_diff1 := total_diff1 ?s + w_device_diff w, cgpu_diff1 := cgpu_diff1 ?s + w_device_diff w\<rparr>"
  have "update_work_stats g diff s p = Inr ?t"
    using assms(2) n by (simp add: update_work_stats_def at_work_def at_pool_def Let_def)
  moreover have "rest_kept s ?t p" using assms(1) put by (simp add: rest_kept_def)
  moreover have "works ?t p = Some (w\<lparr>w_block := ?b \<or> w_block w, w_mandatory := ?b \<or> w_mandatory w\<rparr>)" using assms(2) by simp
  moreover have "total_work ?t = total_work s" "same_ends s ?t" by (simp_all add: same_ends_def)
  ultimately show ?thesis by blast
qed

lemma submit_tested_ok:
  assumes ok: "mem_ok s" and w: "works s p = Some w"
  shows "\<exists>s' s2 w'. submit_tested_work g diff s p = Inr s' \<and> mem_ok s2 \<and>
    works s2 (next_ptr s) = Some w' \<and> submit_work_async g s2 (next_ptr s) = Inr s' \<and>
    w_hash w' = w_hash w \<and> w_nonce w' = w_nonce w \<and> w_pool w' = w_pool w \<and> w_stratum w' = w_stratum w \<and>
    w_work_block w' = w_work_block w \<and> w_work_difficulty w' = w_work_difficulty w \<and> same_ends s s2 \<and>
    mem_ok s' \<and> queued_work s' = queued_work s \<and> unqueued_work s' = unqueued_work s \<and>
    (\<forall>q. q \<noteq> p \<and> q \<noteq> next_ptr s \<longrightarrow> works s' q = works s q) \<and> p \<in> dom (works s') \<and> next_ptr s' = next_ptr s + 1"
proof -
  obtain s1 b m where s1: "update_work_stats g diff s p = Inr s1" "rest_kept s s1 p"
      "works s1 p = Some (w\<lparr>w_block := b, w_mandatory := m\<rparr>)" "same_ends s s1"
    using update_stats_ok [OF assms] by blast
  let ?w = "w\<lparr>w_block := b, w_mandatory := m, w_id := word_of_int (total_work s1)\<rparr>"
  let ?s2 = "s1\<lparr>works := (works s1)(next_ptr s1 \<mapsto> ?w), next_ptr := next_ptr s1 + 1, total_work := total_work s1 + 1\<rparr>"
  have n1: "next_ptr s1 = next_ptr s" and ok1: "mem_ok s1" using s1(2) by (simp_all add: rest_kept_def)
  have cp: "copy_work_noffset s1 p 0 = Inr (next_ptr s, ?s2)" using copy_work_eq [OF ok1 s1(3)] by (simp add: n1)
  have "w_pool w \<noteq> None" using ok w unfolding mem_ok_def by blast
  then have ok2: "mem_ok ?s2" using ok1 by (intro mem_ok_new) simp_all
  have "next_ptr s \<notin> dom (works s1)" using ok1 n1 by (auto simp: mem_ok_def)
  then have fresh: "next_ptr s \<notin> set (queued_work ?s2)" "unqueued_work ?s2 \<noteq> Some (next_ptr s)" "p \<noteq> next_ptr s"
    using ok1 s1(3) by (auto simp: mem_ok_def)
  have w2: "works ?s2 (next_ptr s) = Some ?w" by (simp add: n1)
  obtain s3 where s3: "submit_work_async g ?s2 (next_ptr s) = Inr s3" "rest_kept ?s2 s3 (next_ptr s)"
    using submit_async_ok [OF ok2 w2 fresh(1,2)] by blast
  have "submit_tested_work g diff s p = Inr s3" using s1(1) cp s3(1) by (simp add: submit_tested_work_def)
  moreover have "mem_ok s3 \<and> queued_work s3 = queued_work s \<and> unqueued_work s3 = unqueued_work s \<and> next_ptr s3 = next_ptr s + 1"
    using s3(2) s1(2) by (simp add: rest_kept_def)
  moreover have "works s3 q = works s q" if "q \<noteq> p \<and> q \<noteq> next_ptr s" for q
    using s3(2) s1(2) that by (simp add: rest_kept_def)
  moreover have "p \<in> dom (works s3)" using s3(2) s1(3) fresh(3) n1 by (auto simp: rest_kept_def)
  ultimately show ?thesis using ok2 w2 s3(1) s1(4) by (intro exI [of _ s3] exI [of _ ?s2] exI [of _ ?w]) (simp add: same_ends_def)
qed

text \<open>Items whose shares go to the queue of a pool: current work of a stratum pool whose queue is open.\<close>

definition goes_to_queue :: "cfg \<Rightarrow> mem \<Rightarrow> gwork \<Rightarrow> nat \<Rightarrow> int thread_q \<Rightarrow> bool" where
  "goes_to_queue g s w n q \<longleftrightarrow> \<not> opt_benchmark g \<and> (opt_benchfile g \<or> w_work_block w = work_block g) \<and> w_stratum w \<and>
     w_pool w = Some n \<and> p_stratum_q (pools s n) = Some q \<and> \<not> frozen q"

text \<open>Items whose shares are dropped: work of another block, which neither the options nor the pool want.\<close>

definition dropped_stale :: "cfg \<Rightarrow> mem \<Rightarrow> gwork \<Rightarrow> nat \<Rightarrow> bool" where
  "dropped_stale g s w n \<longleftrightarrow> \<not> opt_benchmark g \<and> \<not> opt_benchfile g \<and> \<not> opt_submit_stale g \<and> w_work_block w \<noteq> work_block g \<and>
     w_pool w = Some n \<and> \<not> p_submit_old (pools s n)"

lemma submit_tested_queued:
  assumes ok: "mem_ok s" and w: "works s p = Some w"
  shows "\<exists>s'. submit_tested_work g diff s p = Inr s' \<and> mem_ok s' \<and> queued_work s' = queued_work s \<and>
    unqueued_work s' = unqueued_work s \<and> p \<in> dom (works s') \<and>
    (\<forall>q. q \<noteq> p \<and> q \<noteq> next_ptr s \<longrightarrow> works s' q = works s q) \<and>
    (\<forall>n q. goes_to_queue g s w n q \<longrightarrow> p_stratum_q (pools s' n) = Some (q\<lparr>tq_q := tq_q q @ [next_ptr s]\<rparr>) \<and>
      (\<exists>c. works s' (next_ptr s) = Some c \<and> w_hash c = w_hash w \<and> w_nonce c = w_nonce w)) \<and>
    (\<forall>n. dropped_stale g s w n \<longrightarrow> works s' (next_ptr s) = None \<and> p_stratum_q (pools s' n) = p_stratum_q (pools s n) \<and>
      p_stale_shares (pools s' n) = p_stale_shares (pools s n) + 1)"
proof -
  from submit_tested_ok [OF assms, of g diff] obtain s' s2 w' where s':
    "submit_tested_work g diff s p = Inr s'" "mem_ok s2" "works s2 (next_ptr s) = Some w'"
    "submit_work_async g s2 (next_ptr s) = Inr s'"
    "w_hash w' = w_hash w" "w_nonce w' = w_nonce w" "w_pool w' = w_pool w" "w_stratum w' = w_stratum w"
    "w_work_block w' = w_work_block w" "same_ends s s2"
    "mem_ok s'" "queued_work s' = queued_work s" "unqueued_work s' = unqueued_work s"
    "\<forall>q. q \<noteq> p \<and> q \<noteq> next_ptr s \<longrightarrow> works s' q = works s q" "p \<in> dom (works s')"
    by auto
  have pushed: "p_stratum_q (pools s' n) = Some (q\<lparr>tq_q := tq_q q @ [next_ptr s]\<rparr>) \<and> works s' (next_ptr s) = Some w'"
    if "goes_to_queue g s w n q" for n q
  proof -
    have c: "\<not> opt_benchmark g" "opt_benchfile g \<or> w_work_block w = work_block g" "w_stratum w" "w_pool w = Some n"
      "p_stratum_q (pools s n) = Some q" "\<not> frozen q" using that by (simp_all add: goes_to_queue_def)
    have st: "stale_work g s2 (next_ptr s) True = Inr False"
      using c(1,2) s'(3,9) by (auto simp: stale_work_def at_work_def)
    have "submit_work_async g s2 (next_ptr s) = Inr (pool_upd s2 n (\<lambda>pl. pl\<lparr>p_stratum_q := Some (q\<lparr>tq_q := tq_q q @ [next_ptr s]\<rparr>)\<rparr>))"
      using c s'(3,7,8,10) st by (simp add: submit_work_async_def at_work_def at_pool_def tq_push_def same_ends_def)
    with s'(3,4) show ?thesis by auto
  qed
  have dropped: "works s' (next_ptr s) = None \<and> p_stratum_q (pools s' n) = p_stratum_q (pools s n) \<and>
      p_stale_shares (pools s' n) = p_stale_shares (pools s n) + 1" if "dropped_stale g s w n" for n
  proof -
    have c: "\<not> opt_benchmark g" "\<not> opt_benchfile g" "\<not> opt_submit_stale g" "w_work_block w \<noteq> work_block g" "w_pool w = Some n"
      "\<not> p_submit_old (pools s n)" using that by (simp_all add: dropped_stale_def)
    have st: "stale_work g s2 (next_ptr s) True = Inr True"
      using c(1,2,4) s'(3,9) by (auto simp: stale_work_def at_work_def)
    let ?t = "(pool_upd s2 n (\<lambda>pl. pl\<lparr>p_stale_shares := p_stale_shares pl + 1, p_diff_stale := p_diff_stale pl + w_work_difficulty w'\<rparr>))
      \<lparr>total_stale := total_stale s2 + 1, total_diff_stale := total_diff_stale s2 + w_work_difficulty w'\<rparr>"
    have "submit_work_async g s2 (next_ptr s) = free_work ?t (Some (next_ptr s))"
      using c s'(3,7,10) st by (simp add: submit_work_async_def at_work_def at_pool_def same_ends_def)
    also have "\<dots> = Inr (?t\<lparr>works := (works ?t)(next_ptr s := None)\<rparr>)" using s'(3) by (intro free_work_eq) auto
    finally show ?thesis using s'(4,10) by (simp add: same_ends_def)
  qed
  show ?thesis
    by (rule exI [of _ s'], intro conjI s'(1) s'(11) s'(12) s'(13) s'(15) s'(14)) (use pushed dropped s'(5,6) in blast)+
qed

lemma submit_nonce_ok:
  assumes ok: "mem_ok s" and w: "works s p = Some w"
  shows "\<exists>s'. submit_nonce_hash g diff s p (nonce, hash) = Inr (True, s') \<and> mem_ok s' \<and>
    queued_work s' = queued_work s \<and> unqueued_work s' = unqueued_work s \<and> p \<in> dom (works s') \<and>
    (\<forall>q. q \<noteq> p \<and> q \<noteq> next_ptr s \<longrightarrow> works s' q = works s q) \<and>
    (\<not> fulltest hash (w_target w) \<longrightarrow> s' = s) \<and>
    (\<forall>n q. fulltest hash (w_target w) \<and> goes_to_queue g s w n q \<longrightarrow>
      (\<exists>c. p_stratum_q (pools s' n) = Some (q\<lparr>tq_q := tq_q q @ [next_ptr s]\<rparr>) \<and> works s' (next_ptr s) = Some c \<and>
        w_hash c = hash \<and> w_nonce c = be32 (nonce ! 0) (nonce ! 1) (nonce ! 2) (nonce ! 3))) \<and>
    (\<forall>n. fulltest hash (w_target w) \<and> dropped_stale g s w n \<longrightarrow> works s' (next_ptr s) = None \<and>
      p_stratum_q (pools s' n) = p_stratum_q (pools s n) \<and> p_stale_shares (pools s' n) = p_stale_shares (pools s n) + 1)"
proof (cases "fulltest hash (w_target w)")
  case False
  then have "submit_nonce_hash g diff s p (nonce, hash) = Inr (True, s)" using w by (simp add: submit_nonce_hash_def at_work_def)
  with False ok w show ?thesis by auto
next
  case True
  let ?w = "w\<lparr>w_nonce := be32 (nonce ! 0) (nonce ! 1) (nonce ! 2) (nonce ! 3), w_hash := hash\<rparr>"
  let ?s = "put_work s p ?w"
  have "w_pool w \<noteq> None" using ok w unfolding mem_ok_def by blast
  then have ok1: "mem_ok ?s" using ok w by (intro mem_ok_put) auto
  have "works ?s p = Some ?w" by simp
  from submit_tested_queued [OF ok1 this, of g diff] obtain s' where s':
    "submit_tested_work g diff ?s p = Inr s'" "mem_ok s'" "queued_work s' = queued_work s" "unqueued_work s' = unqueued_work s"
    "p \<in> dom (works s')" "\<forall>q. q \<noteq> p \<and> q \<noteq> next_ptr s \<longrightarrow> works s' q = works s q"
    and pushed: "\<And>n q. goes_to_queue g ?s ?w n q \<Longrightarrow> p_stratum_q (pools s' n) = Some (q\<lparr>tq_q := tq_q q @ [next_ptr s]\<rparr>) \<and>
      (\<exists>c. works s' (next_ptr s) = Some c \<and> w_hash c = hash \<and> w_nonce c = w_nonce ?w)"
    and dropped: "\<And>n. dropped_stale g ?s ?w n \<Longrightarrow> works s' (next_ptr s) = None \<and> p_stratum_q (pools s' n) = p_stratum_q (pools s n) \<and>
      p_stale_shares (pools s' n) = p_stale_shares (pools s n) + 1"
    by auto
  have "dropped_stale g ?s ?w n = dropped_stale g s w n" for n by (simp add: dropped_stale_def)
  with dropped have "\<forall>n. dropped_stale g s w n \<longrightarrow> works s' (next_ptr s) = None \<and>
      p_stratum_q (pools s' n) = p_stratum_q (pools s n) \<and> p_stale_shares (pools s' n) = p_stale_shares (pools s n) + 1" by blast
  moreover
  have "goes_to_queue g ?s ?w n q = goes_to_queue g s w n q" for n q by (simp add: goes_to_queue_def)
  with pushed have "\<forall>n q. goes_to_queue g s w n q \<longrightarrow>
      (\<exists>c. p_stratum_q (pools s' n) = Some (q\<lparr>tq_q := tq_q q @ [next_ptr s]\<rparr>) \<and> works s' (next_ptr s) = Some c \<and>
        w_hash c = hash \<and> w_nonce c = be32 (nonce ! 0) (nonce ! 1) (nonce ! 2) (nonce ! 3))"
    by fastforce
  moreover have "submit_nonce_hash g diff s p (nonce, hash) = Inr (True, s')"
    using w True s'(1) by (simp add: submit_nonce_hash_def at_work_def)
  ultimately show ?thesis using s' True by (intro exI [of _ s']) simp
qed

section \<open>Properties\<close>

text \<open>C26: The test of a share compares the two 256-bit numbers, least byte first.  On the hash the T4 driver reads, with its two
  bytes cut off, every share that meets its target still passes, and a pass bounds the true hash only up to
  those two bytes.\<close>

theorem fulltest_order:
  assumes "length hash = 32" and "length target = 32"
  shows "(fulltest hash target \<longleftrightarrow> le_val hash \<le> le_val target) \<and>
    (fulltest hash target \<longrightarrow> fulltest (hash[28 := 0, 29 := 0]) target) \<and>
    (fulltest (hash[28 := 0, 29 := 0]) target \<longrightarrow> le_val hash < le_val target + 2 ^ 240)"
proof -
  have "256 ^ 30 = (2 :: nat) ^ 240" by simp
  with le_val_cut [OF assms(1)] fulltest_le [OF assms] fulltest_le [of "hash[28 := 0, 29 := 0]" target] assms
  show ?thesis by auto
qed

theorem fulltest_order_witness:
  "\<not> fulltest ((replicate 32 0)[29 := 9]) ((replicate 32 0)[29 := 8]) \<and>
   fulltest ((replicate 32 0)[29 := 9, 28 := 0, 29 := 0]) ((replicate 32 0)[29 := 8])"
proof -
  let ?h = "(replicate 32 (0 :: u8))[29 := 9]" and ?t = "(replicate 32 (0 :: u8))[29 := 8]"
  have z: "le_val (replicate n 0) = 0" for n by (induction n) simp_all
  have v: "le_val ((replicate 32 (0 :: u8))[29 := b]) = 256 ^ 29 * unat b" for b
    using le_val_update [of 29 "replicate 32 0" b] by (simp add: z)
  have "?h[28 := 0, 29 := 0] = replicate 32 0" by (rule nth_equalityI) (simp_all add: nth_list_update)
  moreover have "le_val ?h = 256 ^ 29 * 9" "le_val ?t = 256 ^ 29 * 8" by (simp_all add: v)
  ultimately show ?thesis using fulltest_order [of ?h ?t] fulltest_order [of "?h[28 := 0, 29 := 0]" ?t] by (simp add: z)
qed


text \<open>An item of a stratum pool; its hash is all ones and meets the target; the second block is a new one.\<close>

definition share_mem :: mem where
  "share_mem = demo_mem\<lparr>works := [1 \<mapsto> zero_work\<lparr>w_pool := Some 0, w_stratum := True, w_target := replicate 32 2\<rparr>], unqueued_work := None\<rparr>"

lemma share_mem_ok: "mem_ok share_mem"
  by (auto simp: mem_ok_def share_mem_def demo_mem_def split: if_splits)


end
