(* ===== verification/T4Driver.thy ===== *)
theory T4Driver
  imports Shares
begin

text \<open>
  The T4 driver (driver-SPI-bitmine-t4.c): detecting the chains, and for one chain the three entry points cgminer calls: the
  queue filler, the scan that collects results and hands out work, and the flush.  It puts together the chain of T4Chain and the
  items of Works.
\<close>

section \<open>State\<close>

datatype drv_err = ChainErr t4_err | WorkErr work_err | QueueErr

record drv =
  ch :: t4_state
  mm :: mem
  dev_disabled :: bool
  max_diff :: rat
  debug_stats :: bool

definition of_chain :: "t4_err + 'a \<Rightarrow> drv_err + 'a" where
  "of_chain r = map_sum ChainErr (\<lambda>x. x) r"

definition of_work :: "work_err + 'a \<Rightarrow> drv_err + 'a" where
  "of_work r = map_sum WorkErr (\<lambda>x. x) r"

definition set_chain :: "drv \<Rightarrow> A1_chain \<Rightarrow> drv" where
  "set_chain d a = d\<lparr>ch := (ch d)\<lparr>a1 := a\<rparr>\<rparr>"

definition chip_upd :: "drv \<Rightarrow> int \<Rightarrow> (A1_chip \<Rightarrow> A1_chip) \<Rightarrow> drv_err + drv" where
  "chip_upd d i f = bindR (of_chain (chip_at (a1 (ch d)) i)) (\<lambda>c. Inr (d\<lparr>ch := chip_set (ch d) i (f c)\<rparr>))"

section \<open>Detecting the chains\<close>

text \<open>\<open>override\<close> is the option that limits the chips of a chain.  The result says whether the chain is up.\<close>

definition init_one_A1_chain :: "hw_env \<Rightarrow> int \<Rightarrow> t4_state \<Rightarrow> t4_err + (int \<times> t4_state)" where
  "init_one_A1_chain env override s =
     (let cid = chain_id (a1 s); (r, h) = hw env (hist s) (GetPlug cid); s = set_hist s h
      in if r_val r \<noteq> 0 then Inr (-1, set_hist s (snd (hw env h (ChainPowerDown cid))))
      else bindR (mcompat_chain_detect env s) (\<lambda>(n, s).
        let s = s\<lparr>a1 := (a1 s)\<lparr>num_chips := n\<rparr>\<rparr> in
        if n < 1 then Inr (1, s)
        else
          let active = (if override > 0 \<and> n > override then override else n);
              s = s\<lparr>a1 := (a1 s)\<lparr>num_active_chips := active, num_cores := 0\<rparr>\<rparr>
          in bindR (check_chips env [0..active - 1] s) (\<lambda>s.
             Inr (0, s\<lparr>a1 := (a1 s)\<lparr>VidOptimal := True, pllOptimal := True, active_wq := (active_wq (a1 s))\<lparr>wq_head := []\<rparr>\<rparr>\<rparr>))))"

definition ASIC_CHAIN_NUM :: nat where "ASIC_CHAIN_NUM = 8"

definition zero_chip :: A1_chip where
  "zero_chip = \<lparr>c_reg = replicate 12 0, c_num_cores = 0, c_work = None, c_hw_errors = 0, c_stales = 0, c_nonces_found = 0,
     c_nonce_ranges_done = 0, c_cooldown_begin = 0, c_fail_count = 0, c_fail_reset = 0, c_disabled = False, c_temp = 0\<rparr>"

text \<open>The eight chains with their configured clocks and voltages, as \<open>opts\<close> gives them; allocation is taken to succeed.\<close>

fun chain_strcut_init :: "hw_env \<Rightarrow> (u32 \<times> u32) list \<Rightarrow> int \<Rightarrow> hw_hist \<Rightarrow> A1_chain list \<times> hw_hist" where
  "chain_strcut_init env [] i h = ([], h)"
| "chain_strcut_init env ((f, v) # opts) i h =
     (let (now, h) = get_current_ms env h;
          a = \<lparr>chain_id = i, num_chips = 0, num_cores = 0, num_active_chips = 0, chips = replicate ASIC_CHIP_NUM zero_chip,
            active_wq = wq_empty, last_check_time = now, work_start_delay = 0, vid = v, pll = f, VidOptimal = False, pllOptimal = False,
            bin1_test = 0, bin2_test = 0\<rparr>;
          (as, h) = chain_strcut_init env opts (i + 1) h
      in (a # as, h))"

text \<open>All chains in turn; the ones that came up become devices.  \<open>alloc\<close> says whether a device could be allocated.\<close>

fun detect_chains :: "hw_env \<Rightarrow> int \<times> (int \<Rightarrow> bool) \<Rightarrow> A1_chain list \<Rightarrow> chip_type \<times> hw_hist \<Rightarrow> t4_err + (A1_chain list \<times> int list \<times> chip_type \<times> hw_hist)" where
  "detect_chains env oa [] th = Inr ([], [], th)"
| "detect_chains env oa (a # as) th =
     bindR (init_one_A1_chain env (fst oa) \<lparr>a1 = a, g_ctype = fst th, hist = snd th\<rparr>) (\<lambda>(r, s).
     let th = (g_ctype s, if r = 0 then config_adc_tsener env (pll (a1 s)) (chain_id a, 0) (hist s) else hist s) in
     bindR (detect_chains env oa as th) (\<lambda>(as, ds, th).
     Inr (a1 s # as, (if r = 0 \<and> snd oa (chain_id a) then chain_id a # ds else ds), th)))"

text \<open>\<open>others\<close> counts the devices that other drivers registered before.\<close>

definition detect_all_A1_chain :: "hw_env \<Rightarrow> int \<times> (int \<Rightarrow> bool) \<Rightarrow> int \<Rightarrow> A1_chain list \<Rightarrow> chip_type \<times> hw_hist \<Rightarrow> t4_err + (bool \<times> A1_chain list \<times> int list)" where
  "detect_all_A1_chain env oa others as th =
     bindR (detect_chains env oa as th) (\<lambda>(as, ds, _). Inr (others + int (length ds) > 0, as, ds))"

section \<open>Results\<close>

definition trunc :: "rat \<Rightarrow> int" where
  "trunc q = (if 0 \<le> q then \<lfloor>q\<rfloor> else - \<lfloor>- q\<rfloor>)"

record scan =
  sc_drv :: drv
  sc_ranges :: int
  sc_hashes :: int

text \<open>The body of the result loop; the truth value says whether the loop goes on.\<close>

definition handle_result :: "cfg \<Rightarrow> (u8 list \<Rightarrow> rat) \<Rightarrow> t4_result \<Rightarrow> scan \<Rightarrow> drv_err + (bool \<times> scan)" where
  "handle_result g diff r sc =
     (let d = sc_drv sc; chip_id = uint (r_chip_id r) in
      if chip_id < 1 \<or> chip_id > num_active_chips (a1 (ch d)) then Inr (False, sc)
      else if r_job_id r < 1 \<or> r_job_id r > 4 then Inr (True, sc)
      else bindR (of_chain (chip_at (a1 (ch d)) (chip_id - 1))) (\<lambda>c.
      case c_work c of
        None \<Rightarrow> bindR (chip_upd d (chip_id - 1) (\<lambda>c. c\<lparr>c_stales := c_stales c + 1\<rparr>)) (\<lambda>d. Inr (True, sc\<lparr>sc_drv := d\<rparr>))
      | Some p \<Rightarrow>
          bindR (of_work (submit_nonce_hash g diff (mm d) p (r_nonce r, r_hash r))) (\<lambda>(ok, m).
          let d = d\<lparr>mm := m\<rparr> in
          if \<not> ok then
            bindR (chip_upd d (chip_id - 1) (\<lambda>c. c\<lparr>c_hw_errors := c_hw_errors c + 1\<rparr>)) (\<lambda>d.
            Inr (True, sc\<lparr>sc_drv := d, sc_ranges := sc_ranges sc - 1\<rparr>))
          else
            bindR (chip_upd d (chip_id - 1) (\<lambda>c. c\<lparr>c_nonces_found := c_nonces_found c + 1\<rparr>)) (\<lambda>d.
            bindR (of_work (at_work (mm d) p)) (\<lambda>w.
            Inr (True, sc\<lparr>sc_drv := d, sc_hashes := trunc (of_int (sc_hashes sc) + w_device_diff w)\<rparr>))))))"

text \<open>A chain that never stops answering keeps the loop going for ever.\<close>

partial_function (option) poll_results :: "hw_env \<Rightarrow> cfg \<times> (u8 list \<Rightarrow> rat) \<Rightarrow> scan \<Rightarrow> (drv_err + scan) option" where
  "poll_results env gd sc =
     (let (r, s) = get_result env (ch (sc_drv sc)); sc = sc\<lparr>sc_drv := (sc_drv sc)\<lparr>ch := s\<rparr>\<rparr> in
      case r of None \<Rightarrow> Some (Inr sc)
      | Some r \<Rightarrow> (case handle_result (fst gd) (snd gd) r sc of
            Inl e \<Rightarrow> Some (Inl e)
          | Inr (go, sc) \<Rightarrow> if go then poll_results env gd sc else Some (Inr sc)))"

section \<open>Work\<close>

text \<open>The chips from the last to the first; \<open>nh\<close> is the command byte and whether the pool is a NiceHash pool.\<close>

fun give_work :: "hw_env \<Rightarrow> u8 \<times> bool \<Rightarrow> int \<Rightarrow> int list \<Rightarrow> scan \<Rightarrow> drv_err + scan" where
  "give_work env nh p [] sc = Inr sc"
| "give_work env nh p (i # is) sc =
     (let d = sc_drv sc; c = word_of_int i :: u8 in
      bindR (of_work (at_work (mm d) p)) (\<lambda>w.
      bindR (of_chain (set_work env (fst nh) (snd nh) c (p, work.truncate w) (ch d))) (\<lambda>(ok, s).
      let d = d\<lparr>ch := s\<rparr> in
      if ok then
        bindR (chip_upd d (i - 1) (\<lambda>c. c\<lparr>c_nonce_ranges_done := c_nonce_ranges_done c + 1, c_work := Some p\<rparr>)) (\<lambda>d.
        give_work env nh p is (sc\<lparr>sc_drv := d, sc_ranges := sc_ranges sc + 1\<rparr>))
      else give_work env nh p is (sc\<lparr>sc_drv := d\<rparr>))))"

definition dispatch :: "hw_env \<Rightarrow> u8 \<times> bool \<Rightarrow> scan \<Rightarrow> drv_err + scan" where
  "dispatch env nh sc =
     (let d = sc_drv sc; a = a1 (ch d) in
      if work_start_delay a > 0
      then Inr (sc\<lparr>sc_drv := set_chain d (a\<lparr>work_start_delay := work_start_delay a - 1\<rparr>)\<rparr>)
      else case wq_dequeue (active_wq a) of
          None \<Rightarrow> Inl QueueErr
        | Some (None, wq) \<Rightarrow> Inr (sc\<lparr>sc_drv := set_chain d (a\<lparr>active_wq := wq\<rparr>)\<rparr>)
        | Some (Some p, wq) \<Rightarrow>
            let d = set_chain d (a\<lparr>active_wq := wq\<rparr>);
                (_, h) = hw env (hist (ch d)) (ResetJob (chain_id a) 0);
                d = d\<lparr>ch := set_hist (ch d) h\<rparr>
            in give_work env nh p (rev [1..num_active_chips a]) (sc\<lparr>sc_drv := d\<rparr>))"

text \<open>The light of a chain that was shut down blinks for ever.\<close>

partial_function (option) overheated_blinking :: "hw_env \<Rightarrow> int \<Rightarrow> hw_hist \<Rightarrow> drv option" where
  "overheated_blinking env cid h =
     (let (_, h) = hw env h (SetLed cid 0); (_, h) = hw env h (SetLed cid 1) in overheated_blinking env cid h)"

text \<open>\<open>TEMP_SHUTDOWN\<close> is a constant of the vendor library; the temperatures shown to the user are left out.\<close>

definition get_chain_temperature :: "hw_env \<Rightarrow> int \<Rightarrow> drv \<Rightarrow> drv option" where
  "get_chain_temperature env TEMP_SHUTDOWN d =
     (let cid = chain_id (a1 (ch d)); (r, h) = hw env (hist (ch d)) (UpdateChainTemp cid)
      in if r_val r = TEMP_SHUTDOWN then overheated_blinking env cid (snd (hw env h (ChainPowerDown cid)))
         else Some (d\<lparr>ch := set_hist (ch d) h\<rparr>))"

fun store_temps :: "u8 list \<Rightarrow> int list \<Rightarrow> drv \<Rightarrow> drv_err + drv" where
  "store_temps b [] d = Inr d"
| "store_temps b (i # is) d =
     (let t = sint (le32_at b (nat i)) in
      if - 40 \<le> t \<and> t \<le> 125 then bindR (chip_upd d i (\<lambda>c. c\<lparr>c_temp := t\<rparr>)) (store_temps b is)
      else store_temps b is d)"

text \<open>The library fills an array of \<open>ASIC_CHIP_NUM\<close> zeroed numbers.\<close>

definition get_chip_temperatures :: "hw_env \<Rightarrow> drv \<Rightarrow> drv_err + drv" where
  "get_chip_temperatures env d =
     (let (r, h) = hw env (hist (ch d)) (GetChipTemps (chain_id (a1 (ch d))));
          d = d\<lparr>ch := set_hist (ch d) h\<rparr>
      in store_temps (hw_bytes (4 * ASIC_CHIP_NUM) r) [0..num_active_chips (a1 (ch d)) - 1] d)"

text \<open>\<open>up\<close> is how long the device has been running.\<close>

record scan_args =
  sa_cfg :: cfg
  sa_diff :: "u8 list \<Rightarrow> rat"
  sa_nh :: "u8 \<times> bool"
  sa_shutdown :: int
  sa_up :: int

definition raise_diff :: "int \<Rightarrow> drv \<Rightarrow> drv" where
  "raise_diff up d = (if max_diff d \<noteq> 0xffffffff \<and> up div 3600000000 \<ge> 1 then d\<lparr>max_diff := 0xffffffff\<rparr> else d)"

definition scan_rest :: "hw_env \<Rightarrow> scan_args \<Rightarrow> scan \<Rightarrow> (drv_err + (int \<times> drv)) option" where
  "scan_rest env x sc =
     (case dispatch env (sa_nh x) sc of Inl e \<Rightarrow> Some (Inl e)
      | Inr sc \<Rightarrow> map_option (\<lambda>d.
          bindR (if debug_stats d then bindR (get_chip_temperatures env d) (\<lambda>d. Inr (d\<lparr>debug_stats := False\<rparr>)) else Inr d) (\<lambda>d.
          bindR (of_chain (check_disabled_chips env (ch d))) (\<lambda>s.
          Inr (sc_hashes sc, d\<lparr>ch := s\<rparr>))))
          (get_chain_temperature env (sa_shutdown x) (sc_drv sc)))"

definition A1_scanwork :: "hw_env \<Rightarrow> scan_args \<Rightarrow> drv \<Rightarrow> (drv_err + (int \<times> drv)) option" where
  "A1_scanwork env x d =
     (if num_cores (a1 (ch d)) = 0 then Some (Inr (0, d\<lparr>dev_disabled := True\<rparr>))
      else let d = raise_diff (sa_up x) d in
        case poll_results env (sa_cfg x, sa_diff x) \<lparr>sc_drv = d, sc_ranges = 0, sc_hashes = 0\<rparr> of
          None \<Rightarrow> None
        | Some (Inl e) \<Rightarrow> Some (Inl e)
        | Some (Inr sc) \<Rightarrow> scan_rest env x sc)"

section \<open>The queue\<close>

definition A1_queue_full :: "bool \<Rightarrow> cfg \<Rightarrow> drv \<Rightarrow> drv_err + (bool \<times> drv)" where
  "A1_queue_full malloc_ok g d =
     bindR (of_work (get_queued g (mm d))) (\<lambda>(p, m).
     let a = a1 (ch d); (_, wq) = wq_enqueue malloc_ok (active_wq a) p
     in Inr (num_elems wq \<ge> 1, (set_chain d (a\<lparr>active_wq := wq\<rparr>))\<lparr>mm := m\<rparr>))"

partial_function (option) flush_works :: "drv \<Rightarrow> (drv_err + drv) option" where
  "flush_works d =
     (let a = a1 (ch d) in
      if num_elems (active_wq a) > 0 then
        (case wq_dequeue (active_wq a) of
           Some (Some p, wq) \<Rightarrow>
             (case work_completed (mm d) p of
                Inl e \<Rightarrow> Some (Inl (WorkErr e))
              | Inr m \<Rightarrow> flush_works ((set_chain d (a\<lparr>active_wq := wq\<rparr>))\<lparr>mm := m\<rparr>))
         | _ \<Rightarrow> Some (Inl QueueErr))
      else Some (Inr d))"

text \<open>Whether the chips stopped only decides what is logged.\<close>

definition A1_flush_work :: "drv \<Rightarrow> (drv_err + drv) option" where
  "A1_flush_work d = (let aborted = abort_work (a1 (ch d)) in flush_works d)"

section \<open>What the driver keeps\<close>

text \<open>Which chain it is and when it was last checked.\<close>

definition chain_key :: "drv \<Rightarrow> int \<times> int" where
  "chain_key d = (chain_id (a1 (ch d)), last_check_time (a1 (ch d)))"

text \<open>
  The items in the driver's own queue are among the device's queued ones, once each; the item a chip works on is queued on the
  device too, and no longer in the driver's queue.
\<close>

definition chips_hold :: "A1_chain \<Rightarrow> int set" where
  "chips_hold a = {p. Some p \<in> c_work ` set (chips a)}"

definition drv_ok :: "drv \<Rightarrow> int list \<Rightarrow> bool" where
  "drv_ok d ws \<longleftrightarrow> t4_inv (a1 (ch d)) \<and> mem_ok (mm d) \<and> wq_rep (active_wq (a1 (ch d))) ws \<and> distinct ws \<and>
     set ws \<subseteq> set (queued_work (mm d)) \<and> chips_hold (a1 (ch d)) \<subseteq> set (queued_work (mm d)) - set ws"

lemma drv_simps [simp]:
  "of_chain (Inr x) = Inr x" "of_work (Inr x) = Inr x" "of_chain (Inl e) = Inl (ChainErr e)" "of_work (Inl f) = Inl (WorkErr f)"
  "mm (set_chain d a) = mm d" "a1 (ch (set_chain d a)) = a" "hist (ch (set_chain d a)) = hist (ch d)"
  "debug_stats (set_chain d a) = debug_stats d" "g_ctype (ch (set_chain d a)) = g_ctype (ch d)"
  by (simp_all add: of_chain_def of_work_def set_chain_def)

lemma t4_inv_len: "t4_inv a \<Longrightarrow> length (chips a) = ASIC_CHIP_NUM"
  by (simp add: t4_inv_def wf_chain_def)

lemma t4_inv_active: "t4_inv a \<Longrightarrow> i < num_active_chips a \<Longrightarrow> i < int ASIC_CHIP_NUM"
  by (simp add: t4_inv_def wf_chain_def)

lemma live_counters [simp]:
  "live (c\<lparr>c_stales := k\<rparr>) = live c" "live (c\<lparr>c_nonces_found := k\<rparr>) = live c" "live (c\<lparr>c_hw_errors := k\<rparr>) = live c"
  "live (c\<lparr>c_nonce_ranges_done := k\<rparr>) = live c" "live (c\<lparr>c_work := p\<rparr>) = live c" "live (c\<lparr>c_temp := k\<rparr>) = live c"
  by (cases "c_disabled c"; simp add: live_def)+

text \<open>A chip's counters, or the item it works on, change; cores and health do not.\<close>

lemma chip_upd_ok:
  assumes "drv_ok d ws" and "0 \<le> i" and "i < int ASIC_CHIP_NUM"
    and "\<And>c. live (f c) = live c \<and> c_disabled (f c) = c_disabled c"
    and "\<And>c. c_work (f c) = c_work c \<or> (\<exists>p. c_work (f c) = Some p \<and> p \<in> set (queued_work (mm d)) - set ws)"
  shows "\<exists>d'. chip_upd d i f = Inr d' \<and> drv_ok d' ws \<and> mm d' = mm d \<and> a1 (ch d') = (a1 (ch d))\<lparr>chips := (chips (a1 (ch d)))[nat i := f (chips (a1 (ch d)) ! nat i)]\<rparr> \<and>
    g_ctype (ch d') = g_ctype (ch d) \<and> debug_stats d' = debug_stats d \<and> hist (ch d') = hist (ch d)"
proof -
  let ?a = "a1 (ch d)"
  let ?c = "chips ?a ! nat i"
  let ?d = "d\<lparr>ch := chip_set (ch d) i (f ?c)\<rparr>"
  have inv: "t4_inv ?a" using assms(1) by (simp add: drv_ok_def)
  have at: "chip_at ?a i = Inr ?c" using t4_inv_len [OF inv] assms(2,3) by (rule chip_at_ok)
  have i: "nat i < length (chips ?a)" using t4_inv_len [OF inv] assms(2,3) by (simp add: nat_less_iff)
  have "t4_inv (a1 (ch ?d))" using same_live_inv [OF inv, of "f ?c" "nat i"] assms(4) by simp
  moreover have "chips_hold (a1 (ch ?d)) \<subseteq> set (queued_work (mm d)) - set ws"
  proof
    fix p assume "p \<in> chips_hold (a1 (ch ?d))"
    then have "Some p = c_work (f ?c) \<or> Some p \<in> c_work ` set (chips ?a)"
      using set_update_subset_insert [of "chips ?a" "nat i" "f ?c"] by (auto simp: chips_hold_def)
    moreover have "c_work ?c \<in> c_work ` set (chips ?a)" using i by simp
    moreover have "q \<in> set (queued_work (mm d)) - set ws" if "Some q \<in> c_work ` set (chips ?a)" for q
      using assms(1) that unfolding drv_ok_def chips_hold_def by blast
    ultimately show "p \<in> set (queued_work (mm d)) - set ws" using assms(5) [of ?c] by (metis option.inject)
  qed
  ultimately have "drv_ok ?d ws" using assms(1) by (simp add: drv_ok_def)
  then show ?thesis using at by (auto simp: chip_upd_def)
qed

lemma mem_change_ok:
  assumes "drv_ok d ws" and "mem_ok m" and "queued_work m = queued_work (mm d)"
  shows "drv_ok (d\<lparr>mm := m\<rparr>) ws"
  using assms by (simp add: drv_ok_def)

lemma hist_change_ok: "drv_ok (d\<lparr>ch := set_hist (ch d) h\<rparr>) ws = drv_ok d ws"
  by (simp add: drv_ok_def)

lemma held_alive: "drv_ok d ws \<Longrightarrow> c_work (chips (a1 (ch d)) ! i) = Some p \<Longrightarrow> i < ASIC_CHIP_NUM \<Longrightarrow> \<exists>w. works (mm d) p = Some w"
proof -
  assume a: "drv_ok d ws" "c_work (chips (a1 (ch d)) ! i) = Some p" "i < ASIC_CHIP_NUM"
  then have "i < length (chips (a1 (ch d)))" by (simp add: drv_ok_def t4_inv_len)
  then have "p \<in> chips_hold (a1 (ch d))" using a(2) unfolding chips_hold_def by (metis imageI mem_Collect_eq nth_mem)
  with a(1) have "p \<in> dom (works (mm d))" by (auto simp: drv_ok_def mem_ok_def)
  then show ?thesis by blast
qed

text \<open>What one result changes: counters of a chip, the items' heap, the scan's totals.\<close>

definition scan_kept :: "scan \<Rightarrow> scan \<Rightarrow> bool" where
  "scan_kept sc sc' \<longleftrightarrow> queued_work (mm (sc_drv sc')) = queued_work (mm (sc_drv sc)) \<and> sc_ranges sc' = sc_ranges sc \<and>
     debug_stats (sc_drv sc') = debug_stats (sc_drv sc) \<and> chain_key (sc_drv sc') = chain_key (sc_drv sc) \<and>
     map c_hw_errors (chips (a1 (ch (sc_drv sc')))) = map c_hw_errors (chips (a1 (ch (sc_drv sc))))"

lemma handle_result_ok:
  assumes ok: "drv_ok (sc_drv sc) ws"
  shows "\<exists>go sc'. handle_result g diff r sc = Inr (go, sc') \<and> drv_ok (sc_drv sc') ws \<and> scan_kept sc sc' \<and>
    hist (ch (sc_drv sc')) = hist (ch (sc_drv sc))"
proof -
  let ?d = "sc_drv sc"
  let ?id = "uint (r_chip_id r)"
  let ?i = "?id - 1"
  let ?c = "chips (a1 (ch ?d)) ! nat ?i"
  have refl: "scan_kept sc sc" by (simp add: scan_kept_def)
  have inv: "t4_inv (a1 (ch ?d))" using ok by (simp add: drv_ok_def)
  have "(?id < 1 \<or> ?id > num_active_chips (a1 (ch ?d))) \<or> \<not> (?id < 1 \<or> ?id > num_active_chips (a1 (ch ?d))) \<and> (r_job_id r < 1 \<or> r_job_id r > 4) \<or>
    \<not> (?id < 1 \<or> ?id > num_active_chips (a1 (ch ?d))) \<and> \<not> (r_job_id r < 1 \<or> r_job_id r > 4)" by blast
  then consider (wrong) "?id < 1 \<or> ?id > num_active_chips (a1 (ch ?d))"
    | (job) "\<not> (?id < 1 \<or> ?id > num_active_chips (a1 (ch ?d)))" "r_job_id r < 1 \<or> r_job_id r > 4"
    | (chip) "\<not> (?id < 1 \<or> ?id > num_active_chips (a1 (ch ?d)))" "\<not> (r_job_id r < 1 \<or> r_job_id r > 4)" by blast
  then show ?thesis
  proof cases
    case wrong
    then show ?thesis using ok refl by (auto simp: handle_result_def Let_def)
  next
    case job
    then show ?thesis using ok refl by (auto simp: handle_result_def Let_def)
  next
    case chip
    then have i: "0 \<le> ?i" "?i < int ASIC_CHIP_NUM" using t4_inv_active [OF inv, of ?i] by auto
    have at: "chip_at (a1 (ch ?d)) ?i = Inr ?c" using t4_inv_len [OF inv] i by (rule chip_at_ok)
    note d = handle_result_def Let_def at
    show ?thesis
    proof (cases "c_work ?c")
      case None
      obtain d' where d': "chip_upd ?d ?i (\<lambda>c. c\<lparr>c_stales := c_stales c + 1\<rparr>) = Inr d'" "drv_ok d' ws" "mm d' = mm ?d"
          "a1 (ch d') = (a1 (ch ?d))\<lparr>chips := (chips (a1 (ch ?d)))[nat ?i := ?c\<lparr>c_stales := c_stales ?c + 1\<rparr>]\<rparr>"
          "debug_stats d' = debug_stats ?d" "hist (ch d') = hist (ch ?d)"
        using chip_upd_ok [OF ok i, of "\<lambda>c. c\<lparr>c_stales := c_stales c + 1\<rparr>"] by auto
      have "scan_kept sc (sc\<lparr>sc_drv := d'\<rparr>)" using d'(3-5) by (simp add: scan_kept_def chain_key_def map_update_same)
      with chip None d'(1,2,4,6) show ?thesis
        by (intro exI [of _ True] exI [of _ "sc\<lparr>sc_drv := d'\<rparr>"]) (simp add: d)
    next
      case (Some p)
      obtain w where w: "works (mm ?d) p = Some w" using held_alive [OF ok Some] i by (auto simp: nat_less_iff)
      have mok: "mem_ok (mm ?d)" using ok by (simp add: drv_ok_def)
      obtain m where m: "submit_nonce_hash g diff (mm ?d) p (r_nonce r, r_hash r) = Inr (True, m)" "mem_ok m"
          "queued_work m = queued_work (mm ?d)" "p \<in> dom (works m)"
        using submit_nonce_ok [OF mok w, of g diff "r_nonce r" "r_hash r"] by blast
      obtain w' where w': "works m p = Some w'" using m(4) by blast
      let ?d1 = "?d\<lparr>mm := m\<rparr>"
      have ok1: "drv_ok ?d1 ws" using ok m(2,3) by (rule mem_change_ok)
      obtain d' where d': "chip_upd ?d1 ?i (\<lambda>c. c\<lparr>c_nonces_found := c_nonces_found c + 1\<rparr>) = Inr d'" "drv_ok d' ws" "mm d' = m"
          "a1 (ch d') = (a1 (ch ?d))\<lparr>chips := (chips (a1 (ch ?d)))[nat ?i := ?c\<lparr>c_nonces_found := c_nonces_found ?c + 1\<rparr>]\<rparr>"
          "debug_stats d' = debug_stats ?d" "hist (ch d') = hist (ch ?d)"
        using chip_upd_ok [OF ok1 i, of "\<lambda>c. c\<lparr>c_nonces_found := c_nonces_found c + 1\<rparr>"] by auto
      let ?sc = "sc\<lparr>sc_drv := d', sc_hashes := trunc (of_int (sc_hashes sc) + w_device_diff w')\<rparr>"
      have "scan_kept sc ?sc" using d'(3-5) m(3) by (simp add: scan_kept_def chain_key_def map_update_same)
      with chip Some d'(1-4,6) m(1) w' show ?thesis
        by (intro exI [of _ True] exI [of _ ?sc]) (simp add: d at_work_def)
    qed
  qed
qed

lemma scan_kept_trans: "scan_kept a b \<Longrightarrow> scan_kept b c \<Longrightarrow> scan_kept a c"
  by (simp add: scan_kept_def)

lemma get_result_ok:
  assumes "get_result env (ch (sc_drv sc)) = (r, s)" and "drv_ok (sc_drv sc) ws"
  shows "drv_ok (sc_drv (sc\<lparr>sc_drv := (sc_drv sc)\<lparr>ch := s\<rparr>\<rparr>)) ws \<and> scan_kept sc (sc\<lparr>sc_drv := (sc_drv sc)\<lparr>ch := s\<rparr>\<rparr>)"
proof -
  from assms(1) obtain h where "s = set_hist (ch (sc_drv sc)) h" by (auto simp: get_result_def hw_eq)
  with assms(2) show ?thesis by (simp add: drv_ok_def scan_kept_def chain_key_def)
qed

lemma poll_results_ok:
  assumes "poll_results env gd sc = Some r" and "drv_ok (sc_drv sc) ws"
  shows "\<exists>sc'. r = Inr sc' \<and> drv_ok (sc_drv sc') ws \<and> scan_kept sc sc'"
proof -
  have "poll_results env gd sc = Some r \<Longrightarrow>
      \<forall>ws. drv_ok (sc_drv sc) ws \<longrightarrow> (\<exists>sc'. r = Inr sc' \<and> drv_ok (sc_drv sc') ws \<and> scan_kept sc sc')"
  proof (erule poll_results.raw_induct [rotated], intro allI impI, goal_cases)
    case (1 f env gd sc y ws)
    note IH = 1(1) and eq = 1(2) and ok = 1(3)
    obtain r1 s1 where g: "get_result env (ch (sc_drv sc)) = (r1, s1)" by (cases "get_result env (ch (sc_drv sc))")
    let ?sc = "sc\<lparr>sc_drv := (sc_drv sc)\<lparr>ch := s1\<rparr>\<rparr>"
    from get_result_ok [OF g ok] have k: "drv_ok (sc_drv ?sc) ws" "scan_kept sc ?sc" by simp_all
    show ?case
    proof (cases r1)
      case None
      with eq g k show ?thesis by (auto simp: Let_def)
    next
      case (Some r2)
      obtain go sc2 where h: "handle_result (fst gd) (snd gd) r2 ?sc = Inr (go, sc2)" "drv_ok (sc_drv sc2) ws" "scan_kept ?sc sc2"
        using handle_result_ok [OF k(1)] by blast
      show ?thesis
      proof (cases go)
        case True
        with eq g Some h(1) have "f env gd sc2 = Some y" by (simp add: Let_def)
        with IH h(2) obtain sc' where "y = Inr sc'" "drv_ok (sc_drv sc') ws" "scan_kept sc2 sc'" by blast
        with k(2) h(3) show ?thesis by (blast intro: scan_kept_trans)
      next
        case False
        with eq g Some h(1) have "y = Inr sc2" by (simp add: Let_def)
        with k(2) h(2,3) show ?thesis by (blast intro: scan_kept_trans)
      qed
    qed
  qed
  with assms show ?thesis by blast
qed

text \<open>Handing an item to the chips.\<close>

definition giving :: "scan \<Rightarrow> scan \<Rightarrow> bool" where
  "giving sc sc' \<longleftrightarrow> mm (sc_drv sc') = mm (sc_drv sc) \<and> sc_hashes sc' = sc_hashes sc \<and> debug_stats (sc_drv sc') = debug_stats (sc_drv sc) \<and>
     num_active_chips (a1 (ch (sc_drv sc'))) = num_active_chips (a1 (ch (sc_drv sc))) \<and> chain_key (sc_drv sc') = chain_key (sc_drv sc)"

lemma set_work_ok:
  assumes ok: "drv_ok d ws" and i: "1 \<le> i" "i \<le> int ASIC_CHIP_NUM" and p: "p \<in> set (queued_work (mm d)) - set ws"
  shows "\<exists>b s. set_work env cmd nicehash (word_of_int i) (p, wk) (ch d) = Inr (b, s) \<and> drv_ok (d\<lparr>ch := s\<rparr>) ws \<and>
    num_active_chips (a1 s) = num_active_chips (a1 (ch d)) \<and> chain_key (d\<lparr>ch := s\<rparr>) = chain_key d"
proof -
  have u: "uint (word_of_int i :: u8) = i" using i by (simp add: t4_consts uint_word_of_int)
  let ?cmd = "WriteJob (chain_id (a1 (ch d))) i (create_job cmd nicehash (word_of_int i) 1 wk)"
  let ?h = "hist (ch d) @ [(?cmd, env (hist (ch d)) ?cmd)]"
  let ?d = "d\<lparr>ch := set_hist (ch d) ?h\<rparr>"
  have ok1: "drv_ok ?d ws" using ok by (simp add: hist_change_ok)
  obtain d' where d': "chip_upd ?d (i - 1) (\<lambda>c. c\<lparr>c_work := Some p\<rparr>) = Inr d'" "drv_ok d' ws"
      "num_active_chips (a1 (ch d')) = num_active_chips (a1 (ch d))" "chain_key d' = chain_key d"
    using chip_upd_ok [OF ok1, of "i - 1" "\<lambda>c. c\<lparr>c_work := Some p\<rparr>"] i p by (auto simp: chain_key_def)
  show ?thesis
  proof (cases "hw_ok (env (hist (ch d)) ?cmd)")
    case False
    then have "set_work env cmd nicehash (word_of_int i) (p, wk) (ch d) = Inr (False, set_hist (ch d) ?h)"
      by (simp add: set_work_def hw_eq u)
    with ok1 show ?thesis by (auto simp: chain_key_def)
  next
    case True
    from d'(1) obtain c where c: "chip_at (a1 (ch d)) (i - 1) = Inr c"
        "d' = ?d\<lparr>ch := chip_set (ch ?d) (i - 1) (c\<lparr>c_work := Some p\<rparr>)\<rparr>"
      by (auto simp: chip_upd_def bindR_eq_Inr of_chain_def map_sum_def split: sum.splits)
    with True have "set_work env cmd nicehash (word_of_int i) (p, wk) (ch d) = Inr (True, ch d')"
      by (simp add: set_work_def hw_eq u)
    moreover have "d\<lparr>ch := ch d'\<rparr> = d'" using c(2) by simp
    ultimately show ?thesis using d'(2-4) by auto
  qed
qed

lemma give_work_ok:
  assumes "drv_ok (sc_drv sc) ws" and "\<forall>i \<in> set is. 1 \<le> i \<and> i \<le> int ASIC_CHIP_NUM"
    and "p \<in> set (queued_work (mm (sc_drv sc))) - set ws"
  shows "\<exists>sc'. give_work env nh p is sc = Inr sc' \<and> drv_ok (sc_drv sc') ws \<and> giving sc sc'"
  using assms
proof (induction "is" arbitrary: sc)
  case Nil
  then show ?case by (simp add: giving_def)
next
  case (Cons i "is")
  let ?d = "sc_drv sc"
  have i: "1 \<le> i" "i \<le> int ASIC_CHIP_NUM" using Cons.prems(2) by simp_all
  have "p \<in> dom (works (mm ?d))" using Cons.prems(1,3) by (auto simp: drv_ok_def mem_ok_def)
  then obtain w where w: "works (mm ?d) p = Some w" by blast
  obtain b s where s: "set_work env (fst nh) (snd nh) (word_of_int i) (p, work.truncate w) (ch ?d) = Inr (b, s)"
      "drv_ok (?d\<lparr>ch := s\<rparr>) ws" "num_active_chips (a1 s) = num_active_chips (a1 (ch ?d))" "chain_key (?d\<lparr>ch := s\<rparr>) = chain_key ?d"
    using set_work_ok [OF Cons.prems(1) i Cons.prems(3)] by blast
  let ?d1 = "?d\<lparr>ch := s\<rparr>"
  show ?case
  proof (cases b)
    case False
    let ?sc = "sc\<lparr>sc_drv := ?d1\<rparr>"
    have "giving sc ?sc" using s(3,4) by (simp add: giving_def)
    moreover obtain sc' where "give_work env nh p is ?sc = Inr sc'" "drv_ok (sc_drv sc') ws" "giving ?sc sc'"
      using Cons.IH [of ?sc] Cons.prems s(2) by auto
    ultimately show ?thesis using w s(1) False by (intro exI [of _ sc']) (simp add: at_work_def Let_def giving_def)
  next
    case True
    have p1: "p \<in> set (queued_work (mm ?d1)) - set ws" using Cons.prems(3) by simp
    obtain d2 where d2: "chip_upd ?d1 (i - 1) (\<lambda>c. c\<lparr>c_nonce_ranges_done := c_nonce_ranges_done c + 1, c_work := Some p\<rparr>) = Inr d2"
        "drv_ok d2 ws" "mm d2 = mm ?d" "num_active_chips (a1 (ch d2)) = num_active_chips (a1 s)" "debug_stats d2 = debug_stats ?d"
        "chain_key d2 = chain_key ?d1"
      using chip_upd_ok [OF s(2), of "i - 1" "\<lambda>c. c\<lparr>c_nonce_ranges_done := c_nonce_ranges_done c + 1, c_work := Some p\<rparr>"] i p1 by (auto simp: chain_key_def)
    let ?sc = "sc\<lparr>sc_drv := d2, sc_ranges := sc_ranges sc + 1\<rparr>"
    have "giving sc ?sc" using s(3,4) d2(3-6) by (simp add: giving_def)
    moreover obtain sc' where "give_work env nh p is ?sc = Inr sc'" "drv_ok (sc_drv sc') ws" "giving ?sc sc'"
      using Cons.IH [of ?sc] Cons.prems(2,3) d2(2,3) by auto
    ultimately show ?thesis using w s(1) True d2(1) by (intro exI [of _ sc']) (simp add: at_work_def Let_def giving_def)
  qed
qed

text \<open>The driver's queue after a scan: its first item is gone, when there was one and it was time.\<close>

lemma dispatch_ok:
  assumes ok: "drv_ok (sc_drv sc) ws"
  shows "\<exists>sc' ws'. dispatch env nh sc = Inr sc' \<and> drv_ok (sc_drv sc') ws' \<and> (ws' = ws \<or> ws' = tl ws) \<and>
    mm (sc_drv sc') = mm (sc_drv sc) \<and> sc_hashes sc' = sc_hashes sc \<and> chain_key (sc_drv sc') = chain_key (sc_drv sc)"
proof -
  let ?d = "sc_drv sc"
  let ?a = "a1 (ch ?d)"
  have inv: "t4_inv ?a" using ok by (simp add: drv_ok_def)
  show ?thesis
  proof (cases "work_start_delay ?a > 0")
    case True
    let ?sc = "sc\<lparr>sc_drv := set_chain ?d (?a\<lparr>work_start_delay := work_start_delay ?a - 1\<rparr>)\<rparr>"
    have "drv_ok (sc_drv ?sc) ws" using ok by (simp add: drv_ok_def t4_inv_def wf_chain_def live_cores_def chips_hold_def)
    with True show ?thesis by (intro exI [of _ ?sc] exI [of _ ws]) (simp add: dispatch_def Let_def chain_key_def)
  next
    case False
    have rep: "wq_rep (active_wq ?a) ws" using ok by (simp add: drv_ok_def)
    obtain wq where wq: "wq_dequeue (active_wq ?a) = Some (hdo ws None, wq)" "wq_rep wq (tl ws)"
      using wq_rep_dequeue [OF rep] by blast
    let ?d1 = "set_chain ?d (?a\<lparr>active_wq := wq\<rparr>)"
    show ?thesis
    proof (cases ws)
      case Nil
      have "drv_ok ?d1 ws" using ok wq(2) Nil by (simp add: drv_ok_def t4_inv_def wf_chain_def live_cores_def chips_hold_def)
      with False wq Nil show ?thesis
        by (intro exI [of _ "sc\<lparr>sc_drv := ?d1\<rparr>"] exI [of _ ws]) (simp add: dispatch_def Let_def chain_key_def)
    next
      case (Cons p ws')
      let ?r = "(ResetJob (chain_id ?a) 0, env (hist (ch ?d)) (ResetJob (chain_id ?a) 0))"
      let ?d2 = "?d1\<lparr>ch := set_hist (ch ?d1) (hist (ch ?d) @ [?r])\<rparr>"
      have ok2: "drv_ok (sc_drv (sc\<lparr>sc_drv := ?d2\<rparr>)) ws'"
        using ok wq(2) Cons by (auto simp: drv_ok_def t4_inv_def wf_chain_def live_cores_def chips_hold_def)
      have p: "p \<in> set (queued_work (mm (sc_drv (sc\<lparr>sc_drv := ?d2\<rparr>)))) - set ws'" using ok Cons by (simp add: drv_ok_def)
      have "\<forall>i \<in> set (rev [1..num_active_chips ?a]). 1 \<le> i \<and> i \<le> int ASIC_CHIP_NUM"
        using inv by (auto simp: t4_inv_def wf_chain_def)
      from give_work_ok [OF ok2 this p, of env nh] obtain sc' where
        "give_work env nh p (rev [1..num_active_chips ?a]) (sc\<lparr>sc_drv := ?d2\<rparr>) = Inr sc'" "drv_ok (sc_drv sc') ws'" "giving (sc\<lparr>sc_drv := ?d2\<rparr>) sc'"
        by blast
      with False wq(1) Cons show ?thesis
        by (intro exI [of _ sc'] exI [of _ ws']) (simp add: dispatch_def Let_def hw_eq giving_def chain_key_def)
    qed
  qed
qed

lemma store_temps_ok:
  assumes "drv_ok d ws" and "\<forall>i \<in> set is. 0 \<le> i \<and> i < int ASIC_CHIP_NUM"
  shows "\<exists>d'. store_temps b is d = Inr d' \<and> drv_ok d' ws \<and> mm d' = mm d \<and> chain_key d' = chain_key d"
  using assms
proof (induction "is" arbitrary: d)
  case (Cons i "is")
  show ?case
  proof (cases "- 40 \<le> sint (le32_at b (nat i)) \<and> sint (le32_at b (nat i)) \<le> 125")
    case True
    obtain d' where d': "chip_upd d i (\<lambda>c. c\<lparr>c_temp := sint (le32_at b (nat i))\<rparr>) = Inr d'" "drv_ok d' ws" "mm d' = mm d" "chain_key d' = chain_key d"
      using chip_upd_ok [OF Cons.prems(1), of i "\<lambda>c. c\<lparr>c_temp := sint (le32_at b (nat i))\<rparr>"] Cons.prems(2) by (auto simp: chain_key_def)
    with Cons.IH [OF d'(2)] Cons.prems(2) True show ?thesis by (auto simp: Let_def)
  next
    case False
    with Cons.IH [OF Cons.prems(1)] Cons.prems(2) show ?thesis by (auto simp: Let_def)
  qed
qed simp

lemma get_chip_temperatures_ok:
  assumes "drv_ok d ws"
  shows "\<exists>d'. get_chip_temperatures env d = Inr d' \<and> drv_ok d' ws \<and> mm d' = mm d \<and> chain_key d' = chain_key d"
proof -
  let ?a = "a1 (ch d)"
  let ?h = "hist (ch d) @ [(GetChipTemps (chain_id ?a), env (hist (ch d)) (GetChipTemps (chain_id ?a)))]"
  have ok: "drv_ok (d\<lparr>ch := set_hist (ch d) ?h\<rparr>) ws" using assms by (simp add: hist_change_ok)
  have "\<forall>i \<in> set [0..num_active_chips ?a - 1]. 0 \<le> i \<and> i < int ASIC_CHIP_NUM"
    using assms by (auto simp: drv_ok_def t4_inv_def wf_chain_def)
  from store_temps_ok [OF ok this] show ?thesis by (auto simp: get_chip_temperatures_def hw_eq Let_def chain_key_def)
qed

text \<open>The periodic check leaves the items alone.\<close>

lemma check_keeps_work:
  assumes "t4_inv (a1 s)" and "check_disabled_chips env s = Inr s'"
  shows "t4_inv (a1 s') \<and> active_wq (a1 s') = active_wq (a1 s) \<and> chips_hold (a1 s') = chips_hold (a1 s)"
proof -
  have wf: "wf_chain (a1 s)" "0 < sint (pll (a1 s))" using assms(1) by (simp_all add: t4_inv_def)
  have inv: "t4_inv (a1 s')" using t4_step_inv [OF t4_step.do_poll [OF assms(2)] assms(1)] by blast
  from check_disabled_spec [OF wf assms(2)] obtain b where b: "polled (a1 s) b"
      "(\<exists>t. a1 s' = b\<lparr>last_check_time := t\<rparr>) \<or> recounted b (a1 s') \<and> active_wq (a1 s') = active_wq b" by auto
  from b(1) obtain cs n where "b = (a1 s)\<lparr>chips := cs, num_cores := n\<rparr>" "map c_work (chips b) = map c_work (chips (a1 s))"
    unfolding polled_def by blast
  then have pb: "active_wq b = active_wq (a1 s)" "c_work ` set (chips b) = c_work ` set (chips (a1 s))"
    by (simp, metis list.set_map)
  have lb: "length (chips b) = ASIC_CHIP_NUM" using polled_wf [OF b(1) wf(1)] by (simp add: wf_chain_def)
  from b(2) show ?thesis
  proof
    assume "\<exists>t. a1 s' = b\<lparr>last_check_time := t\<rparr>"
    with pb inv show ?thesis by (auto simp: chips_hold_def)
  next
    assume r: "recounted b (a1 s') \<and> active_wq (a1 s') = active_wq b"
    have "c_work (chips (a1 s') ! j) = c_work (chips b ! j)" for j
      using r by (cases "j < nat (num_active_chips (a1 s'))") (auto simp: recounted_def checked_def)
    moreover have "length (chips (a1 s')) = length (chips b)" using inv lb by (simp add: t4_inv_len)
    ultimately have "map c_work (chips (a1 s')) = map c_work (chips b)" by (simp add: list_eq_iff_nth_eq)
    then have "c_work ` set (chips (a1 s')) = c_work ` set (chips b)" by (metis list.set_map)
    with pb r inv show ?thesis by (simp add: chips_hold_def)
  qed
qed

lemma overheated_blinks_forever: "overheated_blinking env cid h = None"
proof -
  have "overheated_blinking env cid h = Some d \<Longrightarrow> False" for d
    by (erule overheated_blinking.raw_induct [rotated]) (auto simp: hw_eq)
  then show ?thesis by (cases "overheated_blinking env cid h") auto
qed

lemma get_chain_temperature_eq:
  "get_chain_temperature env k d =
     (let r = env (hist (ch d)) (UpdateChainTemp (chain_id (a1 (ch d)))) in
      if r_val r = k then None
      else Some (d\<lparr>ch := set_hist (ch d) (hist (ch d) @ [(UpdateChainTemp (chain_id (a1 (ch d))), r)])\<rparr>))"
  by (simp add: get_chain_temperature_def hw_eq Let_def overheated_blinks_forever)

text \<open>A scan after its results: it does not return when the chain is too hot; it fails only in the periodic check, when that is due.\<close>

lemma scan_rest_ok:
  assumes ok: "drv_ok (sc_drv sc) ws"
  shows "case scan_rest env x sc of None \<Rightarrow> \<exists>h. r_val (env h (UpdateChainTemp (chain_id (a1 (ch (sc_drv sc)))))) = sa_shutdown x
    | Some (Inl e) \<Rightarrow> (\<exists>h. r_val (env h (UpdateChainTemp (chain_id (a1 (ch (sc_drv sc)))))) \<noteq> sa_shutdown x) \<and>
        (e = ChainErr Exited \<or> e = ChainErr OutOfBounds) \<and> (\<exists>h. last_check_time (a1 (ch (sc_drv sc))) + CHECK_CORES_MS < r_val (env h CurrentMs))
    | Some (Inr (n, d)) \<Rightarrow> (\<exists>h. r_val (env h (UpdateChainTemp (chain_id (a1 (ch (sc_drv sc)))))) \<noteq> sa_shutdown x) \<and>
        (\<exists>ws'. drv_ok d ws' \<and> (ws' = ws \<or> ws' = tl ws)) \<and> mm d = mm (sc_drv sc) \<and> n = sc_hashes sc"
proof -
  obtain sc1 ws' where s1: "dispatch env (sa_nh x) sc = Inr sc1" "drv_ok (sc_drv sc1) ws'" "ws' = ws \<or> ws' = tl ws"
      "mm (sc_drv sc1) = mm (sc_drv sc)" "sc_hashes sc1 = sc_hashes sc"
      "chain_key (sc_drv sc1) = chain_key (sc_drv sc)"
    using dispatch_ok [OF ok] by blast
  then have id1: "chain_id (a1 (ch (sc_drv sc1))) = chain_id (a1 (ch (sc_drv sc)))" by (simp add: chain_key_def)
  show ?thesis
  proof (cases "get_chain_temperature env (sa_shutdown x) (sc_drv sc1)")
    case None
    with s1(1) id1 show ?thesis by (auto simp: scan_rest_def get_chain_temperature_eq Let_def split: if_splits)
  next
    case (Some d1)
    then have cool: "r_val (env (hist (ch (sc_drv sc1))) (UpdateChainTemp (chain_id (a1 (ch (sc_drv sc)))))) \<noteq> sa_shutdown x"
      using id1 by (auto simp: get_chain_temperature_eq Let_def split: if_splits)
    from Some obtain h where "d1 = (sc_drv sc1)\<lparr>ch := set_hist (ch (sc_drv sc1)) h\<rparr>"
      by (auto simp: get_chain_temperature_eq Let_def split: if_splits)
    then have d1: "drv_ok d1 ws'" "mm d1 = mm (sc_drv sc1)" "chain_key d1 = chain_key (sc_drv sc1)"
      using s1(2) by (simp_all add: hist_change_ok chain_key_def)
    obtain d2 where d2: "(if debug_stats d1 then bindR (get_chip_temperatures env d1) (\<lambda>d. Inr (d\<lparr>debug_stats := False\<rparr>)) else Inr d1) = Inr d2"
        "drv_ok d2 ws'" "mm d2 = mm d1" "chain_key d2 = chain_key d1"
    proof (cases "debug_stats d1")
      case True
      obtain d' where "get_chip_temperatures env d1 = Inr d'" "drv_ok d' ws'" "mm d' = mm d1" "chain_key d' = chain_key d1"
        using get_chip_temperatures_ok [OF d1(1)] by blast
      moreover from this(2,4) have "drv_ok (d'\<lparr>debug_stats := False\<rparr>) ws'" "chain_key (d'\<lparr>debug_stats := False\<rparr>) = chain_key d1"
        by (simp_all add: drv_ok_def chain_key_def)
      ultimately show thesis using True that [of "d'\<lparr>debug_stats := False\<rparr>"] by simp
    next
      case False
      with d1(1) that show thesis by simp
    qed
    have r: "scan_rest env x sc = Some (bindR (of_chain (check_disabled_chips env (ch d2))) (\<lambda>s. Inr (sc_hashes sc1, d2\<lparr>ch := s\<rparr>)))"
      using s1(1) Some d2(1) by (simp add: scan_rest_def)
    have last: "last_check_time (a1 (ch d2)) = last_check_time (a1 (ch (sc_drv sc)))"
      using s1(6) d1(3) d2(4) by (simp add: chain_key_def)
    have inv: "t4_inv (a1 (ch d2))" using d2(2) by (simp add: drv_ok_def)
    then have wf: "wf_chain (a1 (ch d2))" "0 < sint (pll (a1 (ch d2)))" by (simp_all add: t4_inv_def)
    show ?thesis
    proof (cases "check_disabled_chips env (ch d2)")
      case (Inl e)
      from check_disabled_fails [OF wf Inl] have "e = Exited \<or> e = OutOfBounds"
          "\<exists>h. last_check_time (a1 (ch (sc_drv sc))) + CHECK_CORES_MS < r_val (env h CurrentMs)" unfolding last by simp_all
      with r Inl cool show ?thesis by auto
    next
      case (Inr s)
      from check_keeps_work [OF inv Inr] d2(2) have "drv_ok (d2\<lparr>ch := s\<rparr>) ws'" by (simp add: drv_ok_def)
      with r Inr s1(3-5) d1(2) d2(3) cool show ?thesis by auto
    qed
  qed
qed

section \<open>Termination\<close>

lemma poll_results_returns:
  assumes "drv_ok (sc_drv sc) ws"
    and quiet: "\<forall>h. N \<le> length h \<longrightarrow> \<not> hw_ok (env h (ReadResult cid 0 RES_LENGTH))"
    and "chain_id (a1 (ch (sc_drv sc))) = cid"
  shows "poll_results env gd sc \<noteq> None"
  using assms(1,3)
proof (induction "N - length (hist (ch (sc_drv sc)))" arbitrary: sc rule: less_induct)
  case less
  obtain r s where g: "get_result env (ch (sc_drv sc)) = (r, s)" by (cases "get_result env (ch (sc_drv sc))")
  let ?sc = "sc\<lparr>sc_drv := (sc_drv sc)\<lparr>ch := s\<rparr>\<rparr>"
  have s: "a1 s = a1 (ch (sc_drv sc))" "length (hist s) = Suc (length (hist (ch (sc_drv sc))))"
    using g by (auto simp: get_result_def hw_eq)
  show ?case
  proof (cases r)
    case None
    with g show ?thesis by (simp add: poll_results.simps)
  next
    case (Some r2)
    then have "hw_ok (env (hist (ch (sc_drv sc))) (ReadResult cid 0 RES_LENGTH))"
      using g less.prems(2) by (auto simp: get_result_def hw_eq split: if_splits)
    with quiet have lt: "length (hist (ch (sc_drv sc))) < N" using not_less by blast
    obtain go sc2 where h: "handle_result (fst gd) (snd gd) r2 ?sc = Inr (go, sc2)" "drv_ok (sc_drv sc2) ws"
        "hist (ch (sc_drv sc2)) = hist s" "chain_id (a1 (ch (sc_drv sc2))) = chain_id (a1 s)"
      using handle_result_ok [of ?sc ws "fst gd" "snd gd" r2] get_result_ok [OF g less.prems(1)] by (auto simp: scan_kept_def chain_key_def)
    have "poll_results env gd sc2 \<noteq> None"
      using h(3) s lt by (intro less.hyps h(2)) (simp_all add: h(4) less.prems(2))
    with g Some h(1) show ?thesis by (subst poll_results.simps) (simp add: Let_def)
  qed
qed

text \<open>The flush empties the queue and retires just its items.\<close>

lemma flush_ok:
  assumes "drv_ok d ws"
  shows "\<exists>d'. A1_flush_work d = Some (Inr d') \<and> drv_ok d' [] \<and> chips (a1 (ch d')) = chips (a1 (ch d)) \<and>
    queued_work (mm d') = filter (\<lambda>p. p \<notin> set ws) (queued_work (mm d)) \<and>
    (\<forall>p. works (mm d') p = (if p \<in> set ws then None else works (mm d) p))"
  using assms unfolding A1_flush_work_def Let_def
proof (induction ws arbitrary: d)
  case Nil
  then have "num_elems (active_wq (a1 (ch d))) = 0" by (simp add: drv_ok_def wq_rep_def)
  with Nil show ?case by (intro exI [of _ d]) (simp add: flush_works.simps)
next
  case (Cons p ws)
  let ?a = "a1 (ch d)"
  have rep: "wq_rep (active_wq ?a) (p # ws)" using Cons.prems by (simp add: drv_ok_def)
  then have pos: "num_elems (active_wq ?a) > 0" by (simp add: wq_rep_def)
  obtain wq where wq: "wq_dequeue (active_wq ?a) = Some (Some p, wq)" "wq_rep wq ws"
    using wq_rep_dequeue [OF rep] by auto
  have mok: "mem_ok (mm d)" "p \<in> set (queued_work (mm d))" using Cons.prems by (simp_all add: drv_ok_def)
  let ?m = "(mm d)\<lparr>queued_count := queued_count (mm d) - 1, queued_work := remove1 p (queued_work (mm d)), works := (works (mm d))(p := None)\<rparr>"
  let ?d = "(set_chain d (?a\<lparr>active_wq := wq\<rparr>))\<lparr>mm := ?m\<rparr>"
  have wc: "work_completed (mm d) p = Inr ?m" using mok by (rule work_completed_eq)
  have "mem_ok ?m" using mok by (rule work_completed_ok)
  have dq: "distinct (queued_work (mm d))" using mok(1) by (simp add: mem_ok_def)
  then have rm: "remove1 p (queued_work (mm d)) = filter (\<lambda>q. q \<noteq> p) (queued_work (mm d))"
    by (auto simp: distinct_remove1_removeAll removeAll_filter_not_eq intro!: filter_cong)
  have ok: "drv_ok ?d ws"
    using Cons.prems wq(2) \<open>mem_ok ?m\<close> dq
    by (auto simp: drv_ok_def t4_inv_def wf_chain_def live_cores_def chips_hold_def)
  have eq: "flush_works d = flush_works ?d"
    by (subst flush_works.simps) (simp add: Let_def pos wq(1) wc)
  obtain d' where d': "flush_works ?d = Some (Inr d')" "drv_ok d' []" "chips (a1 (ch d')) = chips (a1 (ch ?d))"
      "queued_work (mm d') = filter (\<lambda>p. p \<notin> set ws) (queued_work (mm ?d))"
      "\<forall>q. works (mm d') q = (if q \<in> set ws then None else works (mm ?d) q)"
    using Cons.IH [OF ok] by blast
  have "queued_work (mm d') = filter (\<lambda>q. q \<notin> set (p # ws)) (queued_work (mm d))"
    unfolding d'(4) by (auto simp: rm intro!: filter_cong)
  with d' eq show ?case by (intro exI [of _ d']) auto
qed

lemma queue_full_ok:
  assumes ok: "drv_ok d ws"
  shows "\<exists>b d' ws'. A1_queue_full mok g d = Inr (b, d') \<and> drv_ok d' ws' \<and> (b \<longleftrightarrow> ws' \<noteq> []) \<and>
    chips (a1 (ch d')) = chips (a1 (ch d)) \<and> unqueued_work (mm d') = None \<and>
    (queued_work (mm d') = queued_work (mm d) \<and> ws' = ws \<or>
     (\<exists>p. unqueued_work (mm d) = Some p \<and> queued_work (mm d') = queued_work (mm d) @ [p] \<and> ws' = (if mok then ws @ [p] else ws)))"
proof -
  let ?a = "a1 (ch d)"
  have m: "mem_ok (mm d)" and rep: "wq_rep (active_wq ?a) ws" using ok by (simp_all add: drv_ok_def)
  obtain r s where r: "get_queued g (mm d) = Inr (r, s)" "mem_ok s" "unqueued_work s = None"
      "case r of None \<Rightarrow> queued_work s = queued_work (mm d)
        | Some p \<Rightarrow> unqueued_work (mm d) = Some p \<and> queued_work s = queued_work (mm d) @ [p]"
    using get_queued_ok [OF m, of g] by (auto split: option.splits)
  let ?ws = "if mok then ws @ (case r of None \<Rightarrow> [] | Some x \<Rightarrow> [x]) else ws"
  let ?wq = "snd (wq_enqueue mok (active_wq ?a) r)"
  let ?d = "(set_chain d (?a\<lparr>active_wq := ?wq\<rparr>))\<lparr>mm := s\<rparr>"
  have rep': "wq_rep ?wq ?ws" using rep by (rule wq_rep_enqueue)
  have eq: "A1_queue_full mok g d = Inr (num_elems ?wq \<ge> 1, ?d)"
    using r(1) by (simp add: A1_queue_full_def Let_def case_prod_beta)
  have "drv_ok ?d ?ws"
  proof (cases r)
    case None
    with ok rep' r(2,4) show ?thesis
      by (auto simp: drv_ok_def t4_inv_def wf_chain_def live_cores_def chips_hold_def)
  next
    case (Some p)
    then have "p \<notin> set (queued_work (mm d))" using m r(4) by (simp add: mem_ok_def)
    with Some ok rep' r(2,4) show ?thesis
      by (auto simp: drv_ok_def t4_inv_def wf_chain_def live_cores_def chips_hold_def)
  qed
  moreover have "(num_elems ?wq \<ge> 1) = (?ws \<noteq> [])" using rep' unfolding wq_rep_def by (cases ?ws) simp_all
  ultimately show ?thesis using eq r(3,4) by (intro exI [of _ "num_elems ?wq \<ge> 1"] exI [of _ ?d] exI [of _ ?ws]) (auto split: option.splits)
qed

section \<open>Filling the queue\<close>

definition A1_filler :: "cfg \<Rightarrow> (drv \<Rightarrow> int \<times> drv) \<Rightarrow> (drv, drv_err) filler" where
  "A1_filler g get = \<lparr>fl_mem = mm, fl_set = (\<lambda>d m. d\<lparr>mm := m\<rparr>), fl_get = get, fl_full = A1_queue_full True g, fl_err = WorkErr\<rparr>"

lemma mem_ok_offer: "mem_ok m \<Longrightarrow> p \<in> dom (works m) \<Longrightarrow> p \<notin> set (queued_work m) \<Longrightarrow> mem_ok (m\<lparr>unqueued_work := Some p\<rparr>)"
  by (auto simp: mem_ok_def)

text \<open>One round is enough when the item that \<open>get_work\<close> returns is current, or when the driver still has one.\<close>

lemma fill_ok:
  assumes slot: "unqueued_work (mm d) = None" and get: "get d = (p, d1)" and ok: "drv_ok d1 ws"
    and slot1: "unqueued_work (mm d1) = None" and p: "p \<in> dom (works (mm d1))" "p \<notin> set (queued_work (mm d1))"
    and cur: "stale_work g ((mm d1)\<lparr>unqueued_work := Some p\<rparr>) p False = Inr False"
  shows "\<exists>d'. fill_queue (A1_filler g get) d = Some (Inr d') \<and> drv_ok d' (ws @ [p]) \<and> chips (a1 (ch d')) = chips (a1 (ch d1)) \<and>
    queued_work (mm d') = queued_work (mm d1) @ [p]"
proof -
  let ?d = "d1\<lparr>mm := (mm d1)\<lparr>unqueued_work := Some p\<rparr>\<rparr>"
  have m1: "mem_ok (mm d1)" using ok by (simp add: drv_ok_def)
  have ok2: "drv_ok ?d ws" using ok mem_ok_offer [OF m1 p] by (intro mem_change_ok) simp_all
  have fs: "fill_slot (A1_filler g get) d = Inr ?d" using slot get slot1 by (simp add: fill_slot_def A1_filler_def)
  have "\<exists>s. get_queued g (mm ?d) = Inr (Some p, s)"
    using cur add_queued_ok(1) [OF mem_ok_offer [OF m1 p], of p] p by (auto simp: get_queued_def)
  then obtain s where s: "get_queued g (mm ?d) = Inr (Some p, s)" by blast
  obtain b d' ws' where d': "A1_queue_full True g ?d = Inr (b, d')" "drv_ok d' ws'" "b \<longleftrightarrow> ws' \<noteq> []"
      "chips (a1 (ch d')) = chips (a1 (ch ?d))" "queued_work (mm d') = queued_work (mm ?d) \<and> ws' = ws \<or>
       (\<exists>q. unqueued_work (mm ?d) = Some q \<and> queued_work (mm d') = queued_work (mm ?d) @ [q] \<and> ws' = ws @ [q])"
    using queue_full_ok [OF ok2, of True g] by auto
  have "mm d' = s" using d'(1) s by (auto simp: A1_queue_full_def Let_def case_prod_beta)
  moreover have "queued_work s = queued_work (mm ?d) @ [p]" using get_queued_ok [of "mm ?d" g] ok2 s by (auto simp: drv_ok_def)
  ultimately have q: "queued_work (mm d') = queued_work (mm d1) @ [p]" by simp
  with d'(5) have ws': "ws' = ws @ [p]" by auto
  have "fill_queue (A1_filler g get) d = Some (Inr d')"
    using fs d'(1,3) ws' by (subst fill_queue.simps) (simp add: A1_filler_def)
  with d'(2,4) ws' q show ?thesis by auto
qed

section \<open>Runs\<close>

text \<open>
  The three entry points in any order, with the rest of the program doing between them whatever keeps the items
  consistent and the device's queue as it is: offering a new item, say, or copying one for a submission.
\<close>

inductive drv_step :: "hw_env \<Rightarrow> cfg \<Rightarrow> drv \<Rightarrow> drv \<Rightarrow> bool" for env g where
  rest: "mem_ok m \<Longrightarrow> queued_work m = queued_work (mm d) \<Longrightarrow> drv_step env g d (d\<lparr>mm := m\<rparr>)"
| full: "A1_queue_full mok g d = Inr (b, d') \<Longrightarrow> drv_step env g d d'"
| scan: "A1_scanwork env x d = Some (Inr (n, d')) \<Longrightarrow> drv_step env g d d'"
| flush: "A1_flush_work d = Some (Inr d') \<Longrightarrow> drv_step env g d d'"

text \<open>The items handed to the chips: queued on the device and no longer waiting in the driver.\<close>

definition handed_out :: "drv \<Rightarrow> int list \<Rightarrow> int set" where
  "handed_out d ws = set (queued_work (mm d)) - set ws"

lemma scanwork_ok:
  assumes ok: "drv_ok d ws"
  shows "case A1_scanwork env x d of None \<Rightarrow> True
    | Some (Inl e) \<Rightarrow> e = ChainErr Exited \<or> e = ChainErr OutOfBounds
    | Some (Inr (n, d')) \<Rightarrow> (\<exists>ws'. drv_ok d' ws' \<and> (ws' = ws \<or> ws' = tl ws)) \<and> queued_work (mm d') = queued_work (mm d)"
proof (cases "num_cores (a1 (ch d)) = 0")
  case True
  with ok show ?thesis by (auto simp: A1_scanwork_def drv_ok_def)
next
  case False
  let ?d = "raise_diff (sa_up x) d"
  let ?sc = "\<lparr>sc_drv = ?d, sc_ranges = 0, sc_hashes = 0\<rparr>"
  have d: "drv_ok (sc_drv ?sc) ws" "queued_work (mm ?d) = queued_work (mm d)" using ok by (simp_all add: raise_diff_def drv_ok_def)
  show ?thesis
  proof (cases "poll_results env (sa_cfg x, sa_diff x) ?sc")
    case None
    with False show ?thesis by (simp add: A1_scanwork_def Let_def)
  next
    case (Some r)
    from poll_results_ok [OF Some d(1)] obtain sc where sc: "r = Inr sc" "drv_ok (sc_drv sc) ws" "scan_kept ?sc sc" by blast
    with Some False have "A1_scanwork env x d = scan_rest env x sc" by (simp add: A1_scanwork_def Let_def)
    with scan_rest_ok [OF sc(2), of env x] sc(3) d(2) show ?thesis
      by (auto simp: scan_kept_def split: option.splits sum.splits)
  qed
qed

lemma drv_step_ok:
  assumes "drv_step env g d d'" and "drv_ok d ws"
  shows "\<exists>ws'. drv_ok d' ws' \<and> handed_out d ws \<subseteq> handed_out d' ws'"
  using assms
proof (induction rule: drv_step.induct)
  case (rest m d)
  then show ?case using mem_change_ok [of d ws m] by (auto simp: handed_out_def)
next
  case (full mok d b d')
  from queue_full_ok [OF full(2), of mok g] full(1) obtain ws' where "drv_ok d' ws'"
      "queued_work (mm d') = queued_work (mm d) \<and> ws' = ws \<or>
       (\<exists>p. unqueued_work (mm d) = Some p \<and> queued_work (mm d') = queued_work (mm d) @ [p] \<and> ws' = (if mok then ws @ [p] else ws))"
    by auto
  moreover have "p \<notin> set (queued_work (mm d))" if "unqueued_work (mm d) = Some p" for p
    using full(2) that by (simp add: drv_ok_def mem_ok_def)
  ultimately show ?case by (intro exI [of _ ws']) (auto simp: handed_out_def split: if_splits)
next
  case (scan x d n d')
  from scanwork_ok [OF scan(2), of env x] scan(1) obtain ws' where
    "drv_ok d' ws'" "ws' = ws \<or> ws' = tl ws" "queued_work (mm d') = queued_work (mm d)" by auto
  moreover have "set (tl ws) \<subseteq> set ws" by (cases ws) auto
  ultimately show ?case by (intro exI [of _ ws']) (auto simp: handed_out_def)
next
  case (flush d d')
  from flush_ok [OF flush(2)] flush(1) have "drv_ok d' []" "queued_work (mm d') = filter (\<lambda>p. p \<notin> set ws) (queued_work (mm d))" by auto
  then show ?case by (intro exI [of _ "[]"]) (auto simp: handed_out_def)
qed

lemma drv_run_ok:
  assumes "(drv_step env g)\<^sup>*\<^sup>* d d'" and "drv_ok d ws"
  shows "\<exists>ws'. drv_ok d' ws' \<and> handed_out d ws \<subseteq> handed_out d' ws'"
  using assms(1)
proof (induction rule: rtranclp_induct)
  case base
  with assms(2) show ?case by blast
next
  case (step u v)
  then obtain ws1 where "drv_ok u ws1" "handed_out d ws \<subseteq> handed_out u ws1" by blast
  with drv_step_ok [OF step(2)] show ?case by blast
qed

lemma handed_out_alive: "drv_ok d ws \<Longrightarrow> p \<in> handed_out d ws \<Longrightarrow> p \<in> dom (works (mm d))"
  by (auto simp: handed_out_def drv_ok_def mem_ok_def)

section \<open>A chain that comes up\<close>

lemma init_one_ok:
  assumes len: "length (chips (a1 s)) = ASIC_CHIP_NUM" and freq: "0 < sint (pll (a1 s))" and alive: "\<forall>c \<in> set (chips (a1 s)). \<not> c_disabled c"
    and few: "\<forall>h. r_val (env h (BistStart (chain_id (a1 s)) 0)) \<le> int ASIC_CHIP_NUM"
    and wq: "num_elems (active_wq (a1 s)) = 0"
  shows "\<exists>r s'. init_one_A1_chain env override s = Inr (r, s') \<and> (r = 0 \<or> r = 1 \<or> r = - 1) \<and>
    (r = 0 \<longrightarrow> cores_ok (a1 s') \<and> 1 \<le> num_active_chips (a1 s') \<and> (0 < override \<longrightarrow> num_active_chips (a1 s') \<le> override) \<and>
      wq_rep (active_wq (a1 s')) [] \<and> chips_hold (a1 s') = chips_hold (a1 s) \<and> 0 < sint (pll (a1 s')))"
proof -
  let ?cid = "chain_id (a1 s)"
  let ?plug = "env (hist s) (GetPlug ?cid)"
  let ?h = "hist s @ [(GetPlug ?cid, ?plug)]"
  show ?thesis
  proof (cases "r_val ?plug = 0")
    case False
    then show ?thesis by (simp add: init_one_A1_chain_def hw_eq Let_def)
  next
    case True
    have "0 < sint (pll (a1 (set_hist s ?h)))" using freq by simp
    from detect_spec [OF this, of env] obtain n m s1 where
      d: "mcompat_chain_detect env (set_hist s ?h) = Inr (n, s1)" "a1 s1 = (a1 s)\<lparr>num_chips := m\<rparr>"
        "1 \<le> n \<Longrightarrow> \<exists>h. n = r_val (env h (BistStart ?cid 0))"
      by (auto split: if_splits)
    show ?thesis
    proof (cases "n < 1")
      case True
      with \<open>r_val ?plug = 0\<close> d(1) show ?thesis by (simp add: init_one_A1_chain_def hw_eq Let_def)
    next
      case False
      define k where kd: "k = (if override > 0 \<and> n > override then override else n)"
      let ?s2 = "s1\<lparr>a1 := (a1 s)\<lparr>num_chips := n, num_active_chips := k, num_cores := 0\<rparr>\<rparr>"
      have "n \<le> int ASIC_CHIP_NUM" using False d(3) few by auto
      then have k: "1 \<le> k" "k \<le> int ASIC_CHIP_NUM" "0 < override \<Longrightarrow> k \<le> override" using False by (auto simp: kd)
      have wf: "wf_chain (a1 ?s2)" using len k by (simp add: wf_chain_def)
      have act: "num_active_chips (a1 ?s2) = k" "chain_id (a1 ?s2) = ?cid" "chips (a1 ?s2) = chips (a1 s)" by simp_all
      have "num_cores (a1 ?s2) = 0" by simp
      from check_all_spec [OF wf this, of env] obtain s3 cs c t where s3: "check_chips env [0..k - 1] ?s2 = Inr s3" "wf_chain (a1 s3)"
          "a1 s3 = (a1 ?s2)\<lparr>chips := cs, num_cores := c\<rparr>"
          "num_cores (a1 s3) = sum_list (map counted (take (nat k) (chips (a1 s3))))"
          "\<forall>j < nat k. checked (chips (a1 s) ! j) (chips (a1 s3) ! j) \<and> cores_read ?cid t (int j + 1) (chips (a1 s3) ! j)"
          "\<forall>j \<ge> nat k. chips (a1 s3) ! j = chips (a1 s) ! j"
        unfolding act by blast
      let ?s4 = "s3\<lparr>a1 := (a1 s3)\<lparr>VidOptimal := True, pllOptimal := True, active_wq := (active_wq (a1 s3))\<lparr>wq_head := []\<rparr>\<rparr>\<rparr>"
      have eq: "init_one_A1_chain env override s = Inr (0, ?s4)"
        using True False d(1,2) s3(1) by (simp add: init_one_A1_chain_def hw_eq Let_def kd)
      have l3: "length (chips (a1 s3)) = ASIC_CHIP_NUM" using s3(2) by (simp add: wf_chain_def)
      have "map counted (take (nat k) (chips (a1 s3))) = map live (take (nat k) (chips (a1 s3)))"
      proof (rule nth_equalityI)
        fix j assume "j < length (map counted (take (nat k) (chips (a1 s3))))"
        then have j: "j < nat k" "j < length (chips (a1 s3))" by simp_all
        then have "\<not> c_disabled (chips (a1 s) ! j)" using alive len l3 by simp
        with s3(5) j show "map counted (take (nat k) (chips (a1 s3))) ! j = map live (take (nat k) (chips (a1 s3))) ! j"
          by (auto simp: checked_def counted_def live_def)
      qed simp
      then have cores: "cores_ok (a1 ?s4)" using s3(2-4) by (simp add: cores_ok_def wf_chain_def live_cores_def cong: map_cong)
      have "c_work (chips (a1 s3) ! j) = c_work (chips (a1 s) ! j)" for j
        using s3(5,6) by (cases "j < nat k") (auto simp: checked_def)
      then have "map c_work (chips (a1 s3)) = map c_work (chips (a1 s))" using l3 len by (simp add: list_eq_iff_nth_eq)
      then have "c_work ` set (chips (a1 s3)) = c_work ` set (chips (a1 s))" by (metis list.set_map)
      then have "chips_hold (a1 ?s4) = chips_hold (a1 s)" by (simp add: chips_hold_def)
      moreover have "wq_rep (active_wq (a1 ?s4)) []" using wq s3(3) by (simp add: wq_rep_def)
      moreover have "num_active_chips (a1 ?s4) = k" "pll (a1 ?s4) = pll (a1 s)" by (simp_all add: s3(3))
      ultimately show ?thesis using eq cores k freq by auto
    qed
  qed
qed

section \<open>Properties\<close>

text \<open>A device on the bus that answers nothing, with one item handed out long ago and one waiting to be queued.\<close>

definition demo_drv :: drv where
  "demo_drv = \<lparr>ch = \<lparr>a1 = demo_chain, g_ctype = CHIP_TYPE_D88, hist = []\<rparr>, mm = demo_mem, dev_disabled = False, max_diff = 50000, debug_stats = False\<rparr>"

lemma demo_drv_ok: "drv_ok demo_drv []"
  using demo_ok(2) demo_mem_ok by (simp add: drv_ok_def demo_drv_def chips_hold_def demo_chain_def demo_chip_def)

text \<open>C3: Whatever sequence of queue fillings, scans and flushes runs, with the rest of the program in between, no entry point of
  the driver touches a freed item, unlinks one twice or finds its queue broken: filling and flushing always succeed, and a scan that ends does so
  with a result or in one of the two ways out of the periodic check.\<close>

theorem driver_never_faults:
  assumes "(drv_step env g)\<^sup>*\<^sup>* d d'" and "drv_ok d ws"
  shows "\<not> isl (A1_queue_full mok g d') \<and> (\<exists>e. A1_flush_work d' = Some (Inr e)) \<and>
    (case A1_scanwork env x d' of Some (Inl e) \<Rightarrow> e = ChainErr Exited \<or> e = ChainErr OutOfBounds | _ \<Rightarrow> True)"
proof -
  obtain ws' where ok: "drv_ok d' ws'" using drv_run_ok [OF assms] by blast
  have "\<not> isl (A1_queue_full mok g d')" using queue_full_ok [OF ok, of mok g] by auto
  moreover have "\<exists>e. A1_flush_work d' = Some (Inr e)" using flush_ok [OF ok] by blast
  moreover have "case A1_scanwork env x d' of Some (Inl e) \<Rightarrow> e = ChainErr Exited \<or> e = ChainErr OutOfBounds | _ \<Rightarrow> True"
    using scanwork_ok [OF ok, of env x] by (auto split: option.splits sum.splits)
  ultimately show ?thesis by blast
qed

theorem driver_never_faults_witness:
  "\<not> isl (A1_queue_full True demo_cfg demo_drv) \<and> (\<exists>e. A1_flush_work demo_drv = Some (Inr e))"
  using driver_never_faults [OF rtranclp.rtrancl_refl demo_drv_ok, of True demo_cfg] by blast

text \<open>C8: An item that was handed to the chips stays allocated and in the device's table for the rest of the run: the driver
  never retires it, neither when the next item takes its place nor on a flush, so the table grows with every item mined.\<close>

theorem dispatched_never_freed:
  assumes "(drv_step env g)\<^sup>*\<^sup>* d d'" and "drv_ok d ws" and "p \<in> handed_out d ws"
  shows "p \<in> set (queued_work (mm d')) \<and> p \<in> dom (works (mm d')) \<and>
    queued_count (mm d') = int (length (queued_work (mm d')))"
proof -
  obtain ws' where w: "drv_ok d' ws'" "p \<in> handed_out d' ws'" using drv_run_ok [OF assms(1,2)] assms(3) by blast
  then have "mem_ok (mm d')" by (simp add: drv_ok_def)
  with w handed_out_alive [OF w] show ?thesis by (simp add: handed_out_def mem_ok_def)
qed

theorem dispatched_never_freed_witness:
  "\<exists>d. A1_flush_work demo_drv = Some (Inr d) \<and> 1 \<in> dom (works (mm d))"
proof -
  obtain d where d: "A1_flush_work demo_drv = Some (Inr d)" using flush_ok [OF demo_drv_ok] by blast
  have "(drv_step demo_env demo_cfg)\<^sup>*\<^sup>* demo_drv d" using drv_step.flush [OF d] by blast
  moreover have "1 \<in> handed_out demo_drv []" by (simp add: handed_out_def demo_drv_def demo_mem_def)
  ultimately have "1 \<in> dom (works (mm d))" using dispatched_never_freed [OF _ demo_drv_ok] by blast
  with d show ?thesis by blast
qed


text \<open>A bus with one result to report, and a scan whose limit for the temperature is \<open>k\<close>.\<close>

definition scan_env :: hw_env where
  "scan_env h c = (if h = [] \<and> c = ReadResult 0 0 RES_LENGTH then \<lparr>r_val = 1, r_buf = result_frame 0 demo_result\<rparr> else \<lparr>r_val = 0, r_buf = []\<rparr>)"

definition demo_args :: "int \<Rightarrow> scan_args" where
  "demo_args k = \<lparr>sa_cfg = demo_cfg, sa_diff = (\<lambda>_. 1), sa_nh = (0, False), sa_shutdown = k, sa_up = 0\<rparr>"


text \<open>C30: A flush returns with an empty queue; it retires the items that waited in the driver, exactly those, and leaves what the
  chips work on.  Filling stops after one round when \<open>get_work\<close> delivers a current item, which is then the
  last in both queues: one item waiting for the whole chain is enough, not two for each chip.\<close>

theorem flush_and_fill:
  assumes "drv_ok d ws"
  shows "(\<exists>d'. A1_flush_work d = Some (Inr d') \<and> drv_ok d' [] \<and> chips (a1 (ch d')) = chips (a1 (ch d)) \<and>
      queued_work (mm d') = filter (\<lambda>p. p \<notin> set ws) (queued_work (mm d)) \<and>
      (\<forall>p. works (mm d') p = (if p \<in> set ws then None else works (mm d) p))) \<and>
    (\<forall>p. unqueued_work (mm d) = None \<and> p \<in> dom (works (mm d)) \<and> p \<notin> set (queued_work (mm d)) \<and>
        stale_work g ((mm d)\<lparr>unqueued_work := Some p\<rparr>) p False = Inr False \<longrightarrow>
      (\<exists>d'. fill_queue (A1_filler g (\<lambda>d. (p, d))) d = Some (Inr d') \<and> drv_ok d' (ws @ [p]) \<and>
        queued_work (mm d') = queued_work (mm d) @ [p]))"
proof -
  have "\<exists>d'. fill_queue (A1_filler g (\<lambda>d. (p, d))) d = Some (Inr d') \<and> drv_ok d' (ws @ [p]) \<and> queued_work (mm d') = queued_work (mm d) @ [p]"
    if "unqueued_work (mm d) = None" "p \<in> dom (works (mm d))" "p \<notin> set (queued_work (mm d))"
      "stale_work g ((mm d)\<lparr>unqueued_work := Some p\<rparr>) p False = Inr False" for p
    using fill_ok [of d "\<lambda>d. (p, d)" p d ws g] that assms by auto
  with flush_ok [OF assms] show ?thesis by blast
qed

text \<open>One item is with the chips and another comes: filling queues it, and a flush frees it and keeps the first.\<close>

definition fill_demo :: drv where
  "fill_demo = demo_drv\<lparr>mm := demo_mem\<lparr>unqueued_work := None\<rparr>\<rparr>"

lemma fill_demo_ok: "drv_ok fill_demo []"
  using mem_change_ok [OF demo_drv_ok, of "demo_mem\<lparr>unqueued_work := None\<rparr>"]
  by (auto simp: fill_demo_def demo_drv_def demo_mem_def mem_ok_def split: if_splits)

theorem flush_and_fill_witness:
  "\<exists>d e. fill_queue (A1_filler demo_cfg (\<lambda>d. (2, d))) fill_demo = Some (Inr d) \<and> queued_work (mm d) = [1, 2] \<and>
     A1_flush_work d = Some (Inr e) \<and> queued_work (mm e) = [1] \<and> works (mm e) 2 = None"
proof -
  have "unqueued_work (mm fill_demo) = None \<and> 2 \<in> dom (works (mm fill_demo)) \<and> 2 \<notin> set (queued_work (mm fill_demo)) \<and>
      stale_work demo_cfg ((mm fill_demo)\<lparr>unqueued_work := Some 2\<rparr>) 2 False = Inr False"
    by (simp add: fill_demo_def demo_mem_def stale_work_def demo_cfg_def at_work_def at_pool_def zero_work_def demo_pool_def)
  with flush_and_fill [OF fill_demo_ok, of demo_cfg] obtain d where
    d: "fill_queue (A1_filler demo_cfg (\<lambda>d. (2, d))) fill_demo = Some (Inr d)" "drv_ok d ([] @ [2])"
      "queued_work (mm d) = queued_work (mm fill_demo) @ [2]" by blast
  moreover have "queued_work (mm fill_demo) = [1]" by (simp add: fill_demo_def demo_mem_def)
  moreover obtain e where "A1_flush_work d = Some (Inr e)"
      "queued_work (mm e) = filter (\<lambda>p. p \<notin> set ([] @ [2])) (queued_work (mm d))" "works (mm e) 2 = None"
    using flush_and_fill [OF d(2), of demo_cfg] by auto
  ultimately show ?thesis by auto
qed

text \<open>A chain with all its chips enabled comes up with a core count that is the sum over its active chips, at most as many as the
  option allows, and an empty queue; otherwise the driver reports -1 for a missing board and 1 for a failed detection.\<close>

theorem init_chain_counts_cores:
  assumes "length (chips (a1 s)) = ASIC_CHIP_NUM" and "0 < sint (pll (a1 s))" and "\<forall>c \<in> set (chips (a1 s)). \<not> c_disabled c"
    and "\<forall>h. r_val (env h (BistStart (chain_id (a1 s)) 0)) \<le> int ASIC_CHIP_NUM" and "num_elems (active_wq (a1 s)) = 0"
  shows "\<exists>r s'. init_one_A1_chain env override s = Inr (r, s') \<and> (r = 0 \<or> r = 1 \<or> r = - 1) \<and>
    (r = 0 \<longrightarrow> cores_ok (a1 s') \<and> 1 \<le> num_active_chips (a1 s') \<and> (0 < override \<longrightarrow> num_active_chips (a1 s') \<le> override) \<and>
      wq_rep (active_wq (a1 s')) [] \<and> chips_hold (a1 s') = chips_hold (a1 s) \<and> 0 < sint (pll (a1 s')))"
  using assms by (rule init_one_ok)

theorem init_chain_counts_cores_witness:
  "\<exists>r s'. init_one_A1_chain demo_env 0 \<lparr>a1 = demo_chain, g_ctype = CHIP_TYPE_D88, hist = []\<rparr> = Inr (r, s') \<and> (r = 0 \<or> r = 1 \<or> r = - 1)"
proof -
  let ?s = "\<lparr>a1 = demo_chain, g_ctype = CHIP_TYPE_D88, hist = []\<rparr>"
  have "length (chips (a1 ?s)) = ASIC_CHIP_NUM" "0 < sint (pll (a1 ?s))" "\<forall>c \<in> set (chips (a1 ?s)). \<not> c_disabled c"
      "\<forall>h. r_val (demo_env h (BistStart (chain_id (a1 ?s)) 0)) \<le> int ASIC_CHIP_NUM" "num_elems (active_wq (a1 ?s)) = 0"
    by (simp_all add: demo_chain_def demo_chip_def demo_env_def t4_consts wq_empty_def)
  with init_chain_counts_cores [of ?s demo_env 0] show ?thesis by blast
qed

end
