(* ===== verification/Pools.thy ===== *)
theory Pools
  imports Prelude
begin

text \<open>
  The pools a miner works for (cgminer.c) and the commands that manage them (api.c): their order of priority, the choice of the
  current pool and of the pool for the next item of work, and their quotas.  Pools are never freed, so the heap is total.  A
  pool is a pointer; what lies in the array behind the pools in use is modelled, because the code can read it.
\<close>

section \<open>State\<close>

datatype pool_enable = POOL_DISABLED | POOL_ENABLED | POOL_REJECTING

datatype pool_strategy = POOL_FAILOVER | POOL_ROUNDROBIN | POOL_ROTATE | POOL_LOADBALANCE | POOL_BALANCE

text \<open>Quotas are never negative: the code checks it wherever one is set.  What was used of one can be: a discarded item is taken back.\<close>

record pool =
  pool_no :: int
  prio :: int
  p_shares :: int
  quota :: nat
  quota_gcd :: nat
  quota_used :: int
  idle :: bool
  enabled :: pool_enable
  removed :: bool
  has_stratum :: bool
  p_stratum_active :: bool
  p_stratum_notify :: bool
  sshares :: int
  is_nicehash :: bool

text \<open>\<open>staged_work\<close> holds the staged items, each with its pool.\<close>

record pools_st =
  heap :: "int \<Rightarrow> pool"
  pools :: "int list"
  total_pools :: nat
  currentpool :: int
  pool_strategy :: pool_strategy
  rotating_pool :: nat
  enabled_pools :: int
  global_quota_gcd :: nat
  staged_work :: "(int \<times> int) list"
  curr_is_nicehash_pool :: bool

datatype pool_err = BadSlot

text \<open>An entry that \<open>realloc\<close> did not fill.\<close>

definition garbage :: int where "garbage = - 1"

definition active :: "pools_st \<Rightarrow> int list" where
  "active s = take (total_pools s) (pools s)"

definition slot :: "pools_st \<Rightarrow> int \<Rightarrow> pool_err + int" where
  "slot s i =
     (if 0 \<le> i \<and> i < int (length (pools s)) \<and> pools s ! nat i \<noteq> garbage then Inr (pools s ! nat i) else Inl BadSlot)"

definition upd :: "int \<Rightarrow> (pool \<Rightarrow> pool) \<Rightarrow> pools_st \<Rightarrow> pools_st" where
  "upd p f s = s\<lparr>heap := (heap s)(p := f (heap s p))\<rparr>"

section \<open>Quotas\<close>

text \<open>\<open>while (quota % gcd) gcd--\<close>; the divisor starts positive and stops at one.\<close>

function gcd_down :: "nat \<Rightarrow> nat \<Rightarrow> nat" where
  "gcd_down q g = (if g = 0 \<or> q mod g = 0 then g else gcd_down q (g - 1))"
  by pat_completeness auto
termination by (relation "measure snd") auto

declare gcd_down.simps [simp del]

definition lowest_quota :: "nat list \<Rightarrow> nat option" where
  "lowest_quota qs = fold (\<lambda>q low. if q = 0 then low else case low of None \<Rightarrow> Some q | Some l \<Rightarrow> Some (if q < l then q else l)) qs None"

definition quotas_gcd :: "nat list \<Rightarrow> nat" where
  "quotas_gcd qs =
     (case lowest_quota qs of None \<Rightarrow> 1 | Some l \<Rightarrow> fold (\<lambda>q g. if q = 0 then g else gcd_down q g) qs l)"

text \<open>\<open>quota_used *= global_quota_gcd; quota_used /= gcd\<close>: an \<open>int\<close> and an \<open>unsigned long\<close>, which is taken to have 64 bits.\<close>

definition rescaled :: "int \<Rightarrow> nat \<Rightarrow> nat \<Rightarrow> int" where
  "rescaled used old g =
     (let used = sint (Word.ucast (word_of_int used * of_nat old :: 64 word) :: 32 word)
      in sint (Word.ucast ((word_of_int used :: 64 word) div of_nat g) :: 32 word))"

definition adjust_quota_gcd :: "pools_st \<Rightarrow> pools_st" where
  "adjust_quota_gcd s =
     (let g = quotas_gcd (map (\<lambda>p. quota (heap s p)) (active s));
          s' = fold (\<lambda>p. upd p (\<lambda>x. x\<lparr>quota_used := rescaled (quota_used x) (global_quota_gcd s) g, quota_gcd := quota x div g\<rparr>)) (active s) s
      in s'\<lparr>global_quota_gcd := g\<rparr>)"

section \<open>Choosing\<close>

definition pool_unusable :: "pool \<Rightarrow> bool" where
  "pool_unusable p \<longleftrightarrow> idle p \<or> enabled p \<noteq> POOL_ENABLED \<or> has_stratum p \<and> (\<not> p_stratum_active p \<or> \<not> p_stratum_notify p)"

definition priority_pool :: "pools_st \<Rightarrow> int \<Rightarrow> pool_err + int" where
  "priority_pool s choice =
     (case find (\<lambda>p. prio (heap s p) = choice) (active s) of Some p \<Rightarrow> Inr p | None \<Rightarrow> slot s choice)"

fun first_usable :: "pools_st \<Rightarrow> nat list \<Rightarrow> pool_err + int option" where
  "first_usable s [] = Inr None"
| "first_usable s (i # is) =
     bindR (priority_pool s (int i)) (\<lambda>p. if pool_unusable (heap s p) then first_usable s is else Inr (Some p))"

definition select_balanced :: "int \<Rightarrow> pools_st \<Rightarrow> int \<times> pools_st" where
  "select_balanced cp s =
     (let (lowest, ret) = fold (\<lambda>p (lowest, ret).
            if pool_unusable (heap s p) then (lowest, ret)
            else if p_shares (heap s p) < lowest then (p_shares (heap s p), p) else (lowest, ret)) (active s) (p_shares (heap s cp), cp)
      in (ret, upd ret (\<lambda>x. x\<lparr>p_shares := p_shares x + 1\<rparr>) s))"

definition next_rotating :: "pools_st \<Rightarrow> pools_st" where
  "next_rotating s = s\<lparr>rotating_pool := (if rotating_pool s + 1 \<ge> total_pools s then 0 else rotating_pool s + 1)\<rparr>"

text \<open>At most \<open>n\<close> pools of the rotation are looked at; the quota of each is charged.\<close>

fun rotate_scan :: "nat \<Rightarrow> pools_st \<Rightarrow> pool_err + int option \<times> pools_st" where
  "rotate_scan 0 s = Inr (None, s)"
| "rotate_scan (Suc n) s =
     bindR (slot s (int (rotating_pool s))) (\<lambda>p.
     let x = heap s p; s = upd p (\<lambda>x. x\<lparr>quota_used := quota_used x + 1\<rparr>) s in
     if quota_used x < int (quota_gcd x) \<and> \<not> pool_unusable x then Inr (Some p, s)
     else rotate_scan n (next_rotating s))"

definition start_round :: "pools_st \<Rightarrow> pools_st" where
  "start_round s =
     (if list_ex (\<lambda>p. quota_used (heap s p) < int (quota_gcd (heap s p))) (active s) then s
      else next_rotating (fold (\<lambda>p. upd p (\<lambda>x. x\<lparr>quota_used := 0\<rparr>)) (active s) s))"

definition select_pool :: "pools_st \<Rightarrow> pool_err + int \<times> pools_st" where
  "select_pool s =
     (let cp = currentpool s in
      if pool_strategy s = POOL_BALANCE then Inr (select_balanced cp s)
      else if pool_strategy s \<noteq> POOL_LOADBALANCE then Inr (cp, s)
      else
        bindR (rotate_scan (total_pools s) (start_round s)) (\<lambda>(r, s).
        case r of Some p \<Rightarrow> Inr (p, s)
        | None \<Rightarrow> bindR (first_usable s [0..<total_pools s]) (\<lambda>r.
            Inr (case r of Some p \<Rightarrow> p | None \<Rightarrow> cp, s))))"

section \<open>Switching\<close>

text \<open>The selected pool goes to the top, those above it move down.\<close>

definition promote :: "int \<Rightarrow> pools_st \<Rightarrow> pools_st" where
  "promote sel s =
     (if prio (heap s sel) \<noteq> 0 then
        upd sel (\<lambda>x. x\<lparr>prio := 0\<rparr>)
          (fold (\<lambda>p s. if prio (heap s p) < prio (heap s sel) then upd p (\<lambda>x. x\<lparr>prio := prio x + 1\<rparr>) s else s) (active s) s)
      else s)"

fun next_alive :: "nat \<Rightarrow> int \<Rightarrow> pools_st \<Rightarrow> pool_err + int option" where
  "next_alive 0 i s = Inr None"
| "next_alive (Suc n) i s =
     (let i = (if i + 1 \<ge> int (total_pools s) then 0 else i + 1) in
      bindR (slot s i) (\<lambda>p. if pool_unusable (heap s p) then next_alive n i s else Inr (Some i)))"

definition clear_pool_work :: "int \<Rightarrow> pools_st \<Rightarrow> pools_st" where
  "clear_pool_work p s = s\<lparr>staged_work := filter (\<lambda>(w, q). q \<noteq> p) (staged_work s)\<rparr>"

text \<open>The number of the pool to go to: the first usable one by priority, or the next one in the circle.\<close>

definition master_pool_no :: "int \<Rightarrow> pools_st \<Rightarrow> pool_err + int" where
  "master_pool_no no s =
     bindR (first_usable s [0..<total_pools s]) (\<lambda>r. Inr (case r of Some p \<Rightarrow> pool_no (heap s p) | None \<Rightarrow> no))"

definition cycle_pool_no :: "int option \<Rightarrow> int \<Rightarrow> pools_st \<Rightarrow> pool_err + int" where
  "cycle_pool_no selected no s =
     (case selected of
        Some p \<Rightarrow> if \<not> idle (heap s p) then Inr (pool_no (heap s p))
                  else bindR (next_alive (total_pools s - 1) no s) (\<lambda>r. Inr (case r of Some i \<Rightarrow> i | None \<Rightarrow> no))
      | None \<Rightarrow> bindR (next_alive (total_pools s - 1) no s) (\<lambda>r. Inr (case r of Some i \<Rightarrow> i | None \<Rightarrow> no)))"

definition switch_pools :: "int option \<Rightarrow> pools_st \<Rightarrow> pool_err + pools_st" where
  "switch_pools selected s =
     (let last_pool = currentpool s; no = pool_no (heap s last_pool);
          s = (case selected of None \<Rightarrow> s | Some p \<Rightarrow> promote p s)
      in bindR (case pool_strategy s of
           POOL_ROUNDROBIN \<Rightarrow> cycle_pool_no selected no s
         | POOL_ROTATE \<Rightarrow> cycle_pool_no selected no s
         | _ \<Rightarrow> master_pool_no no s) (\<lambda>no.
         bindR (slot s no) (\<lambda>p.
         let s = s\<lparr>currentpool := p, curr_is_nicehash_pool := is_nicehash (heap s p)\<rparr> in
         Inr (if p \<noteq> last_pool \<and> pool_strategy s \<noteq> POOL_LOADBALANCE \<and> pool_strategy s \<noteq> POOL_BALANCE
              then clear_pool_work last_pool s else s))))"

section \<open>Adding, removing, enabling\<close>

text \<open>\<open>p\<close> is the address of the new pool, \<open>x\<close> its cleared contents; the array is resized to two entries more than are in use.\<close>

definition add_pool :: "int \<Rightarrow> pool \<Rightarrow> pools_st \<Rightarrow> pools_st" where
  "add_pool p x s =
     (let n = total_pools s;
          arr = take (n + 2) (pools s) @ replicate (n + 2 - length (pools s)) garbage
      in adjust_quota_gcd (s\<lparr>pools := arr[n := p], total_pools := n + 1,
           heap := (heap s)(p := x\<lparr>pool_no := int n, prio := int n, quota := 1\<rparr>)\<rparr>))"

definition remove_pool :: "int \<Rightarrow> pools_st \<Rightarrow> pools_st" where
  "remove_pool p s =
     (let last_pool = total_pools s - 1;
          s = fold (\<lambda>q s. if prio (heap s q) > prio (heap s p) then upd q (\<lambda>x. x\<lparr>prio := prio x - 1\<rparr>) s else s) (active s) s;
          no = pool_no (heap s p);
          s = (if no < int last_pool
               then (upd (pools s ! last_pool) (\<lambda>x. x\<lparr>pool_no := no\<rparr>) s)\<lparr>pools := (pools s)[nat no := pools s ! last_pool]\<rparr>
               else s)
      in (upd p (\<lambda>x. x\<lparr>pool_no := int (total_pools s), removed := True\<rparr>) s)\<lparr>total_pools := total_pools s - 1\<rparr>)"

definition enable_pool :: "int \<Rightarrow> pools_st \<Rightarrow> pools_st" where
  "enable_pool p s =
     (if enabled (heap s p) \<noteq> POOL_ENABLED
      then upd p (\<lambda>x. x\<lparr>enabled := POOL_ENABLED\<rparr>) (s\<lparr>enabled_pools := enabled_pools s + 1\<rparr>) else s)"

definition stop_pool :: "pool_enable \<Rightarrow> int \<Rightarrow> pools_st \<Rightarrow> pools_st" where
  "stop_pool how p s =
     upd p (\<lambda>x. x\<lparr>enabled := how\<rparr>)
       (if enabled (heap s p) = POOL_ENABLED then s\<lparr>enabled_pools := enabled_pools s - 1\<rparr> else s)"

definition disable_pool :: "int \<Rightarrow> pools_st \<Rightarrow> pools_st" where
  "disable_pool = stop_pool POOL_DISABLED"

definition reject_pool :: "int \<Rightarrow> pools_st \<Rightarrow> pools_st" where
  "reject_pool = stop_pool POOL_REJECTING"

text \<open>A pool that does not answer; \<open>idle\<close> is tested and set.\<close>

definition pool_died :: "int \<Rightarrow> pools_st \<Rightarrow> pool_err + pools_st" where
  "pool_died p s =
     (let was = idle (heap s p); s = upd p (\<lambda>x. x\<lparr>idle := True\<rparr>) s in
      if \<not> was \<and> p = currentpool s then switch_pools None s else Inr s)"

definition cnx_needed :: "bool \<Rightarrow> int \<Rightarrow> pools_st \<Rightarrow> bool" where
  "cnx_needed no_work p s =
     (let x = heap s p in
      if enabled x \<noteq> POOL_ENABLED then False
      else pool_strategy s = POOL_BALANCE \<or> pool_strategy s = POOL_LOADBALANCE \<or> (has_stratum x \<and> idle x) \<or>
        currentpool s = p \<or> sshares x \<noteq> 0 \<or>
        (pool_strategy s = POOL_FAILOVER \<and> prio x < prio (heap s (currentpool s))) \<or> no_work)"

section \<open>Commands\<close>

text \<open>The parameter is the number it starts with, if there is one.\<close>

datatype api_msg = MSG_NOPOOL | MSG_MISPID | MSG_INVPID | MSG_DUPPID | MSG_ALRENAP | MSG_ENAPOOL | MSG_ALRDISP | MSG_DISLASTP
  | MSG_DISPOOL | MSG_REMLASTP | MSG_ACTPOOL | MSG_REMPOOL | MSG_SWITCHP | MSG_POOLPRIO | MSG_INVNEG | MSG_SETQUOTA

definition with_pool :: "int option \<Rightarrow> pools_st \<Rightarrow> (int \<Rightarrow> pool_err + api_msg \<times> pools_st) \<Rightarrow> pool_err + api_msg \<times> pools_st" where
  "with_pool param s f =
     (if total_pools s = 0 then Inr (MSG_NOPOOL, s)
      else case param of None \<Rightarrow> Inr (MSG_MISPID, s)
      | Some i \<Rightarrow> if i < 0 \<or> i \<ge> int (total_pools s) then Inr (MSG_INVPID, s) else bindR (slot s i) f)"

definition switchpool :: "int option \<Rightarrow> pools_st \<Rightarrow> pool_err + api_msg \<times> pools_st" where
  "switchpool param s = with_pool param s (\<lambda>p.
     bindR (switch_pools (Some p) (upd p (\<lambda>x. x\<lparr>enabled := POOL_ENABLED\<rparr>) s)) (\<lambda>s. Inr (MSG_SWITCHP, s)))"

definition enablepool :: "int option \<Rightarrow> pools_st \<Rightarrow> pool_err + api_msg \<times> pools_st" where
  "enablepool param s = with_pool param s (\<lambda>p.
     if enabled (heap s p) = POOL_ENABLED then Inr (MSG_ALRENAP, s)
     else let s = upd p (\<lambda>x. x\<lparr>enabled := POOL_ENABLED\<rparr>) s in
       bindR (if prio (heap s p) < prio (heap s (currentpool s)) then switch_pools (Some p) s else Inr s) (\<lambda>s. Inr (MSG_ENAPOOL, s)))"

definition disablepool :: "int option \<Rightarrow> pools_st \<Rightarrow> pool_err + api_msg \<times> pools_st" where
  "disablepool param s = with_pool param s (\<lambda>p.
     if enabled (heap s p) = POOL_DISABLED then Inr (MSG_ALRDISP, s)
     else if enabled_pools s \<le> 1 then Inr (MSG_DISLASTP, s)
     else let s = upd p (\<lambda>x. x\<lparr>enabled := POOL_DISABLED\<rparr>) s in
       bindR (if p = currentpool s then switch_pools None s else Inr s) (\<lambda>s. Inr (MSG_DISPOOL, s)))"

definition removepool :: "int option \<Rightarrow> pools_st \<Rightarrow> pool_err + api_msg \<times> pools_st" where
  "removepool param s = with_pool param s (\<lambda>p.
     if total_pools s \<le> 1 then Inr (MSG_REMLASTP, s)
     else bindR (if p = currentpool s then switch_pools None s else Inr s) (\<lambda>s.
       if p = currentpool s then Inr (MSG_ACTPOOL, s)
       else Inr (MSG_REMPOOL, remove_pool p (upd p (\<lambda>x. x\<lparr>enabled := POOL_DISABLED\<rparr>) s))))"

text \<open>The new priorities by pool number; \<open>None\<close> stands for a pool that is not named.\<close>

fun parse_prios :: "int list \<Rightarrow> int \<Rightarrow> int option list \<Rightarrow> api_msg + int option list \<times> int" where
  "parse_prios [] pr new_prio = Inr (new_prio, pr)"
| "parse_prios (i # is) pr new_prio =
     (if i < 0 \<or> i \<ge> int (length new_prio) then Inl MSG_INVPID
      else if new_prio ! nat i \<noteq> None then Inl MSG_DUPPID
      else parse_prios is (pr + 1) (new_prio[nat i := Some pr]))"

definition set_prio :: "nat \<Rightarrow> int \<Rightarrow> pools_st \<Rightarrow> pools_st" where
  "set_prio i pr s = upd (pools s ! i) (\<lambda>x. x\<lparr>prio := pr\<rparr>) s"

definition assign_prios :: "int option list \<Rightarrow> pools_st \<Rightarrow> pools_st" where
  "assign_prios new_prio s =
     fold (\<lambda>i s. case new_prio ! i of Some pr \<Rightarrow> set_prio i pr s | None \<Rightarrow> s) [0..<length new_prio] s"

text \<open>For each old priority in turn, the pool that has it and was not named gets the next number.\<close>

fun append_others :: "int list \<Rightarrow> int \<Rightarrow> bool list \<Rightarrow> pools_st \<Rightarrow> pools_st" where
  "append_others [] pr changed s = s"
| "append_others (k # ks) pr changed s =
     (case find (\<lambda>i. \<not> changed ! i \<and> prio (heap s (pools s ! i)) = k) [0..<length changed] of
        None \<Rightarrow> append_others ks pr changed s
      | Some i \<Rightarrow> append_others ks (pr + 1) (changed[i := True]) (set_prio i pr s))"

definition poolpriority :: "int list \<Rightarrow> pools_st \<Rightarrow> pool_err + api_msg \<times> pools_st" where
  "poolpriority ids s =
     (let n = total_pools s in
      if n = 0 then Inr (MSG_NOPOOL, s)
      else if ids = [] then Inr (MSG_MISPID, s)
      else case parse_prios ids 0 (replicate n None) of
          Inl e \<Rightarrow> Inr (e, s)
        | Inr (new_prio, pr) \<Rightarrow>
            let s = append_others (map int [0..<n]) pr (map (\<lambda>x. x \<noteq> None) new_prio) (assign_prios new_prio s)
            in bindR (if prio (heap s (currentpool s)) \<noteq> 0 then switch_pools None s else Inr s) (\<lambda>s. Inr (MSG_POOLPRIO, s)))"

definition poolquota :: "int option \<Rightarrow> int \<Rightarrow> pools_st \<Rightarrow> pool_err + api_msg \<times> pools_st" where
  "poolquota param q s = with_pool param s (\<lambda>p.
     if q < 0 then Inr (MSG_INVNEG, s)
     else Inr (MSG_SETQUOTA, adjust_quota_gcd (upd p (\<lambda>x. x\<lparr>quota := nat q\<rparr>) s)))"

section \<open>The order of priority\<close>

text \<open>
  The abstract value of the pools: the list of the pools in use, the most important first.  \<open>ordered s ord\<close> says that the
  array, the numbers and the priorities in the heap stand for \<open>ord\<close>.
\<close>

definition ordered :: "pools_st \<Rightarrow> int list \<Rightarrow> bool" where
  "ordered s ord \<longleftrightarrow> total_pools s \<le> length (pools s) \<and> distinct (active s) \<and> garbage \<notin> set (active s) \<and>
     (\<forall>i < total_pools s. pool_no (heap s (pools s ! i)) = int i) \<and>
     distinct ord \<and> set ord = set (active s) \<and> (\<forall>k < length ord. prio (heap s (ord ! k)) = int k) \<and> currentpool s \<in> set ord"

text \<open>Changes that concern neither.\<close>

definition same_order :: "pools_st \<Rightarrow> pools_st \<Rightarrow> bool" where
  "same_order s s' \<longleftrightarrow> pools s' = pools s \<and> total_pools s' = total_pools s \<and> currentpool s' = currentpool s \<and>
     (\<forall>p. prio (heap s' p) = prio (heap s p) \<and> pool_no (heap s' p) = pool_no (heap s p))"

lemma same_order_refl [simp]: "same_order s s"
  by (simp add: same_order_def)

lemma same_order_trans: "same_order s t \<Longrightarrow> same_order t u \<Longrightarrow> same_order s u"
  by (simp add: same_order_def)

lemma same_order_ordered: "same_order s s' \<Longrightarrow> ordered s ord \<Longrightarrow> ordered s' ord"
  by (auto simp: same_order_def ordered_def active_def)

lemma upd_sel [simp]:
  "pools (upd p f s) = pools s" "total_pools (upd p f s) = total_pools s" "currentpool (upd p f s) = currentpool s"
  "pool_strategy (upd p f s) = pool_strategy s" "rotating_pool (upd p f s) = rotating_pool s" "active (upd p f s) = active s"
  "heap (upd p f s) = (heap s)(p := f (heap s p))" "slot (upd p f s) i = slot s i"
  by (simp_all add: upd_def active_def slot_def)

lemma upd_same_order: "(\<And>x. prio (f x) = prio x \<and> pool_no (f x) = pool_no x) \<Longrightarrow> same_order s (upd p f s)"
  by (simp add: same_order_def)

lemma fold_upd_same_order:
  "(\<And>x. prio (f x) = prio x \<and> pool_no (f x) = pool_no x) \<Longrightarrow> same_order s (fold (\<lambda>p. upd p f) ps s)"
  by (induction ps arbitrary: s) (auto intro: same_order_trans [OF upd_same_order])

lemma fold_upd_sel [simp]:
  "pools (fold (\<lambda>p. upd p f) ps s) = pools s" "total_pools (fold (\<lambda>p. upd p f) ps s) = total_pools s"
  "pool_strategy (fold (\<lambda>p. upd p f) ps s) = pool_strategy s" "rotating_pool (fold (\<lambda>p. upd p f) ps s) = rotating_pool s"
  "active (fold (\<lambda>p. upd p f) ps s) = active s"
  by (induction ps arbitrary: s) simp_all

lemma fold_upd_heap: "distinct ps \<Longrightarrow> heap (fold (\<lambda>p. upd p f) ps s) q = (if q \<in> set ps then f (heap s q) else heap s q)"
  by (induction ps arbitrary: s) auto

lemma adjust_quota_same_order: "same_order s (adjust_quota_gcd s)"
  using fold_upd_same_order [of "\<lambda>x. x\<lparr>quota_used := rescaled (quota_used x) (global_quota_gcd s) (quotas_gcd (map (\<lambda>p. quota (heap s p)) (active s))),
      quota_gcd := quota x div quotas_gcd (map (\<lambda>p. quota (heap s p)) (active s))\<rparr>" s "active s"]
  by (simp add: adjust_quota_gcd_def Let_def same_order_def)

lemma ordered_current: "ordered s ord \<Longrightarrow> currentpool s \<in> set ord" and ordered_set: "ordered s ord \<Longrightarrow> set ord = set (active s)"
    and ordered_distinct: "ordered s ord \<Longrightarrow> distinct ord" and ordered_total: "ordered s ord \<Longrightarrow> total_pools s \<le> length (pools s)"
  unfolding ordered_def by blast+

lemma ordered_prio: "ordered s ord \<Longrightarrow> k < length ord \<Longrightarrow> prio (heap s (ord ! k)) = int k"
  unfolding ordered_def by blast

lemma ordered_length: "ordered s ord \<Longrightarrow> length ord = total_pools s"
  by (metis ordered_def active_def distinct_card length_take min.absorb2)

lemma slot_active: "ordered s ord \<Longrightarrow> i < total_pools s \<Longrightarrow> slot s (int i) = Inr (pools s ! i)"
  by (force simp: ordered_def slot_def active_def in_set_conv_nth)

lemma active_nth: "p \<in> set (active s) \<Longrightarrow> total_pools s \<le> length (pools s) \<Longrightarrow> \<exists>i < total_pools s. p = pools s ! i"
  by (auto simp: active_def in_set_conv_nth)

lemma slot_pool_no: "ordered s ord \<Longrightarrow> p \<in> set ord \<Longrightarrow> slot s (pool_no (heap s p)) = Inr p"
proof -
  assume o: "ordered s ord" "p \<in> set ord"
  then obtain i where "i < total_pools s" "p = pools s ! i" using active_nth [of p s] by (auto simp: ordered_def)
  with o show ?thesis using slot_active [OF o(1)] by (simp add: ordered_def)
qed

lemma priority_pool_ordered:
  assumes o: "ordered s ord" and k: "k < length ord"
  shows "priority_pool s (int k) = Inr (ord ! k)"
proof -
  have uniq: "p = ord ! k" if p: "p \<in> set (active s)" "prio (heap s p) = int k" for p
  proof -
    from p(1) o have "p \<in> set ord" by (simp add: ordered_def)
    then obtain j where "j < length ord" "p = ord ! j" by (auto simp: in_set_conv_nth)
    with o p(2) show ?thesis by (simp add: ordered_def)
  qed
  have "ord ! k \<in> set (active s)" "prio (heap s (ord ! k)) = int k" using o k by (auto simp: ordered_def dest: nth_mem)
  then have "find (\<lambda>p. prio (heap s p) = int k) (active s) \<noteq> None" unfolding find_None_iff by blast
  then obtain p where "find (\<lambda>p. prio (heap s p) = int k) (active s) = Some p" by blast
  moreover from this have "p \<in> set (active s)" "prio (heap s p) = int k" by (auto simp: find_Some_iff)
  ultimately show ?thesis using uniq by (simp add: priority_pool_def)
qed

lemma first_usable_ordered:
  assumes o: "ordered s ord"
  shows "first_usable s [0..<total_pools s] = Inr (find (\<lambda>p. \<not> pool_unusable (heap s p)) ord)"
proof -
  have "k \<le> length ord \<Longrightarrow> first_usable s [k..<length ord] = Inr (find (\<lambda>p. \<not> pool_unusable (heap s p)) (drop k ord))" for k
  proof (induction "length ord - k" arbitrary: k)
    case (Suc n)
    then have k: "k < length ord" by simp
    with Suc show ?case by (simp add: upt_conv_Cons priority_pool_ordered [OF o k] Cons_nth_drop_Suc [symmetric])
  qed simp
  from this [of 0] show ?thesis by (simp add: ordered_length [OF o])
qed

section \<open>Switching keeps the order\<close>

lemma promote_fold:
  assumes "distinct ps"
  shows "fold (\<lambda>p s. if prio (heap s p) < prio (heap s sel) then upd p (\<lambda>x. x\<lparr>prio := prio x + 1\<rparr>) s else s) ps s =
    s\<lparr>heap := \<lambda>q. if q \<in> set ps \<and> prio (heap s q) < prio (heap s sel) then (heap s q)\<lparr>prio := prio (heap s q) + 1\<rparr> else heap s q\<rparr>"
  using assms
proof (induction ps arbitrary: s)
  case (Cons p ps)
  show ?case
  proof (cases "prio (heap s p) < prio (heap s sel)")
    case True
    then have "p \<noteq> sel" by auto
    with True Cons show ?thesis by (auto simp: upd_def intro!: arg_cong [of _ _ "\<lambda>h. s\<lparr>heap := h\<rparr>"])
  next
    case False
    with Cons show ?thesis by (auto intro!: arg_cong [of _ _ "\<lambda>h. s\<lparr>heap := h\<rparr>"])
  qed
qed simp

text \<open>Everything but the priorities.\<close>

definition same_but_prio :: "pools_st \<Rightarrow> pools_st \<Rightarrow> bool" where
  "same_but_prio s s' \<longleftrightarrow> (\<exists>h. s' = s\<lparr>heap := h\<rparr> \<and> (\<forall>q. h q = (heap s q)\<lparr>prio := prio (h q)\<rparr>))"

lemma same_but_prio_refl [simp]: "same_but_prio s s"
  unfolding same_but_prio_def by (intro exI [of _ "heap s"]) simp

lemma same_but_prio_trans: "same_but_prio s t \<Longrightarrow> same_but_prio t u \<Longrightarrow> same_but_prio s u"
  unfolding same_but_prio_def by (elim exE conjE, rule_tac x = ha in exI) (auto, metis pool.surjective pool.update_convs(2))

lemma same_but_prio_sel:
  assumes "same_but_prio s s'"
  shows "pools s' = pools s" "total_pools s' = total_pools s" "currentpool s' = currentpool s" "pool_strategy s' = pool_strategy s"
    "active s' = active s" "staged_work s' = staged_work s" "pool_no (heap s' p) = pool_no (heap s p)"
    "pool_unusable (heap s' p) = pool_unusable (heap s p)" "idle (heap s' p) = idle (heap s p)" "slot s' i = slot s i"
    "is_nicehash (heap s' p) = is_nicehash (heap s p)"
proof -
  obtain h where h: "s' = s\<lparr>heap := h\<rparr>" "\<And>q. h q = (heap s q)\<lparr>prio := prio (h q)\<rparr>" using assms unfolding same_but_prio_def by blast
  then show "pools s' = pools s" "total_pools s' = total_pools s" "currentpool s' = currentpool s" "pool_strategy s' = pool_strategy s"
    "active s' = active s" "staged_work s' = staged_work s" "slot s' i = slot s i" by (simp_all add: active_def slot_def)
  from h(2) [of p] have "pool_no (h p) = pool_no (heap s p)" "idle (h p) = idle (heap s p)" "enabled (h p) = enabled (heap s p)"
      "has_stratum (h p) = has_stratum (heap s p)" "p_stratum_active (h p) = p_stratum_active (heap s p)"
      "p_stratum_notify (h p) = p_stratum_notify (heap s p)" "is_nicehash (h p) = is_nicehash (heap s p)"
    by (metis pool.select_convs pool.update_convs(2) pool.surjective)+
  then show "pool_no (heap s' p) = pool_no (heap s p)" "pool_unusable (heap s' p) = pool_unusable (heap s p)" "idle (heap s' p) = idle (heap s p)"
    "is_nicehash (heap s' p) = is_nicehash (heap s p)"
    by (simp_all add: h(1) pool_unusable_def)
qed

lemma ordered_reorder:
  assumes "ordered s ord" and "same_but_prio s s'" and "distinct ord'" and "set ord' = set ord"
    and "\<And>k. k < length ord' \<Longrightarrow> prio (heap s' (ord' ! k)) = int k"
  shows "ordered s' ord'"
  using assms(1,3-) by (auto simp: ordered_def same_but_prio_sel [OF assms(2)])

lemma promote_ordered:
  assumes o: "ordered s ord" and sel: "sel \<in> set ord"
  shows "ordered (promote sel s) (sel # filter (\<lambda>p. p \<noteq> sel) ord)" "same_but_prio s (promote sel s)"
proof -
  obtain xs ys where ord: "ord = xs @ sel # ys" using sel by (auto simp: in_set_conv_decomp)
  have d: "distinct ord" "set ord = set (active s)" "distinct (active s)" using o by (auto simp: ordered_def)
  have pr: "\<And>k. k < length ord \<Longrightarrow> prio (heap s (ord ! k)) = int k" using o by (simp add: ordered_def)
  have psel: "prio (heap s sel) = int (length xs)" using pr [of "length xs"] by (simp add: ord)
  have "filter (\<lambda>p. p \<noteq> sel) xs = xs" "filter (\<lambda>p. p \<noteq> sel) ys = ys" using d(1) by (auto simp: ord filter_id_conv)
  then have f: "filter (\<lambda>p. p \<noteq> sel) ord = xs @ ys" by (simp add: ord)
  have eq: "promote sel s = s\<lparr>heap := \<lambda>q. if q = sel then (heap s q)\<lparr>prio := 0\<rparr>
      else if q \<in> set ord \<and> prio (heap s q) < int (length xs) then (heap s q)\<lparr>prio := prio (heap s q) + 1\<rparr> else heap s q\<rparr>"
  proof (cases "xs = []")
    case True
    have "q \<in> set ord \<Longrightarrow> \<not> prio (heap s q) < 0" for q using pr by (auto simp: in_set_conv_nth)
    with True psel show ?thesis by (auto simp: promote_def intro!: pools_st.equality ext)
  next
    case False
    then show ?thesis using psel d by (auto simp: promote_def promote_fold upd_def intro!: pools_st.equality ext)
  qed
  show same: "same_but_prio s (promote sel s)" unfolding same_but_prio_def by (rule exI, rule conjI, rule eq) simp
  have "prio (heap (promote sel s) ((sel # xs @ ys) ! k)) = int k" if k: "k < length (sel # xs @ ys)" for k
  proof (cases k)
    case (Suc j)
    show ?thesis
    proof (cases "j < length xs")
      case True
      then have "xs ! j \<noteq> sel" "xs ! j \<in> set ord" using d(1) by (auto simp: ord dest: nth_mem)
      with True Suc pr [of j] show ?thesis by (simp add: eq nth_append ord)
    next
      case False
      then have j: "j - length xs < length ys" using k Suc by simp
      then have "ys ! (j - length xs) \<noteq> sel" using d(1) by (auto simp: ord dest: nth_mem)
      with False Suc j pr [of "Suc j"] show ?thesis by (simp add: eq nth_append ord Suc_diff_le)
    qed
  qed (simp add: eq)
  then show "ordered (promote sel s) (sel # filter (\<lambda>p. p \<noteq> sel) ord)"
    unfolding f using d(1) by (intro ordered_reorder [OF o same]) (auto simp: ord)
qed

text \<open>The circle of pools seen from behind number \<open>i\<close>.\<close>

lemma take_rotate:
  assumes "n < length xs" and "i < length xs"
  shows "take (Suc n) (rotate (Suc i) xs) = xs ! (Suc i mod length xs) # take n (rotate (Suc (Suc i mod length xs)) xs)"
proof -
  let ?r = "rotate (Suc i) xs"
  have ne: "?r \<noteq> []" using assms by auto
  have "0 < length xs" using assms(1) by linarith
  from nth_rotate [OF this, of "Suc i"] have "?r ! 0 = xs ! (Suc i mod length xs)" by simp
  then have hd: "hd ?r = xs ! (Suc i mod length xs)" using ne by (simp add: hd_conv_nth)
  have "rotate (Suc (Suc i mod length xs)) xs = rotate (Suc (Suc i)) xs" by (metis mod_Suc_eq rotate_conv_mod)
  also have "\<dots> = tl ?r @ [hd ?r]" using ne by (simp add: rotate1_hd_tl)
  finally have "take n (rotate (Suc (Suc i mod length xs)) xs) = take n (tl ?r)" using assms(1) by simp
  moreover have "take (Suc n) ?r = hd ?r # take n (tl ?r)" using ne by (cases ?r) auto
  ultimately show ?thesis using hd by simp
qed

lemma find_Some_set: "find P xs = Some x \<Longrightarrow> x \<in> set xs"
  by (auto simp: find_Some_iff)

lemma active_len: "ordered s ord \<Longrightarrow> length (active s) = total_pools s" "ordered s ord \<Longrightarrow> i < total_pools s \<Longrightarrow> active s ! i = pools s ! i"
  by (simp_all add: ordered_def active_def)

lemma next_alive_ordered:
  assumes o: "ordered s ord" and "i < total_pools s" and "n < total_pools s"
  shows "next_alive n (int i) s =
    Inr (map_option (\<lambda>p. pool_no (heap s p)) (find (\<lambda>p. \<not> pool_unusable (heap s p)) (take n (rotate (Suc i) (active s)))))"
  using assms(2,3)
proof (induction n arbitrary: i)
  case (Suc n)
  let ?j = "Suc i mod total_pools s"
  have j: "?j < total_pools s" using Suc.prems by auto
  have nx: "(if int i + 1 \<ge> int (total_pools s) then 0 else int i + 1) = int ?j" using Suc.prems(1) by (auto simp: mod_Suc)
  have "pool_no (heap s (pools s ! ?j)) = int ?j" using o j by (simp add: ordered_def)
  moreover have "take (Suc n) (rotate (Suc i) (active s)) = pools s ! ?j # take n (rotate (Suc ?j) (active s))"
    using take_rotate [of n "active s" i] Suc.prems active_len(2) [OF o j] by (simp add: active_len(1) [OF o])
  ultimately show ?case using Suc.IH [OF j] Suc.prems(2) by (simp only: next_alive.simps Let_def nx slot_active [OF o j] bindR_simps) simp
qed simp

text \<open>Where a switch leads.\<close>

definition switch_target :: "int option \<Rightarrow> pools_st \<Rightarrow> int list \<Rightarrow> int" where
  "switch_target selected s ord =
     (let cp = currentpool s; usable = (\<lambda>p. \<not> pool_unusable (heap s p)) in
      if pool_strategy s \<in> {POOL_ROUNDROBIN, POOL_ROTATE} then
        case selected of
          Some p \<Rightarrow> if \<not> idle (heap s p) then p
            else case_option cp (\<lambda>p. p) (find usable (take (total_pools s - 1) (rotate (Suc (nat (pool_no (heap s cp)))) (active s))))
        | None \<Rightarrow> case_option cp (\<lambda>p. p) (find usable (take (total_pools s - 1) (rotate (Suc (nat (pool_no (heap s cp)))) (active s))))
      else case_option cp (\<lambda>p. p) (find usable ord))"

definition reordered :: "int option \<Rightarrow> int list \<Rightarrow> int list" where
  "reordered selected ord = (case selected of None \<Rightarrow> ord | Some p \<Rightarrow> p # filter (\<lambda>q. q \<noteq> p) ord)"

lemma set_reordered: "(\<And>p. selected = Some p \<Longrightarrow> p \<in> set ord) \<Longrightarrow> set (reordered selected ord) = set ord"
  by (auto simp: reordered_def split: option.splits)

lemma cycle_ordered:
  assumes o: "ordered s ord" and "pool_no (heap s (currentpool s)) = no" and sel: "\<And>p. selected = Some p \<Longrightarrow> p \<in> set ord"
    and st: "pool_strategy s \<in> {POOL_ROUNDROBIN, POOL_ROTATE}"
  shows "cycle_pool_no selected no s = Inr (pool_no (heap s (switch_target selected s ord)))" "switch_target selected s ord \<in> set ord"
proof -
  note cp = ordered_current [OF o] and act = ordered_set [OF o]
  obtain i where i: "i < total_pools s" "currentpool s = pools s ! i" using active_nth [OF _ ordered_total [OF o]] cp act by blast
  then have no: "no = int i" using o assms(2) by (simp add: ordered_def)
  let ?f = "find (\<lambda>p. \<not> pool_unusable (heap s p)) (take (total_pools s - 1) (rotate (Suc i) (active s)))"
  have na: "next_alive (total_pools s - 1) no s = Inr (map_option (\<lambda>p. pool_no (heap s p)) ?f)"
    using next_alive_ordered [OF o i(1), of "total_pools s - 1"] i(1) no by simp
  have mem: "?f = Some p \<Longrightarrow> p \<in> set ord" for p
  proof -
    assume "?f = Some p"
    then have "p \<in> set (rotate (Suc i) (active s))" by (intro in_set_takeD [OF find_Some_set])
    then show ?thesis by (simp only: set_rotate act)
  qed
  have nat: "nat (pool_no (heap s (currentpool s))) = i" using assms(2) no by simp
  show "cycle_pool_no selected no s = Inr (pool_no (heap s (switch_target selected s ord)))"
    using st assms(2) by (cases ?f; simp add: cycle_pool_no_def switch_target_def na [unfolded no, simplified] nat no Let_def split: option.splits)
  show "switch_target selected s ord \<in> set ord"
    using st cp sel mem by (cases ?f) (simp_all add: switch_target_def nat Let_def split: option.splits)
qed

lemma master_ordered:
  assumes o: "ordered s ord" and st: "pool_strategy s \<notin> {POOL_ROUNDROBIN, POOL_ROTATE}"
  shows "master_pool_no (pool_no (heap s (currentpool s))) s = Inr (pool_no (heap s (switch_target selected s ord)))"
    "switch_target selected s ord \<in> set ord"
proof -
  let ?f = "find (\<lambda>p. \<not> pool_unusable (heap s p)) ord"
  show "master_pool_no (pool_no (heap s (currentpool s))) s = Inr (pool_no (heap s (switch_target selected s ord)))"
    using st by (cases ?f) (simp_all add: master_pool_no_def first_usable_ordered [OF o] switch_target_def Let_def)
  have "?f = Some p \<Longrightarrow> p \<in> set ord" for p by (rule find_Some_set)
  then show "switch_target selected s ord \<in> set ord" using st ordered_current [OF o] by (cases ?f) (simp_all add: switch_target_def Let_def)
qed

lemma switch_ordered:
  assumes o: "ordered s ord" and sel: "\<And>p. selected = Some p \<Longrightarrow> p \<in> set ord"
  shows "\<exists>s'. switch_pools selected s = Inr s' \<and> ordered s' (reordered selected ord) \<and>
    currentpool s' = switch_target selected s (reordered selected ord) \<and>
    curr_is_nicehash_pool s' = is_nicehash (heap s (currentpool s')) \<and>
    staged_work s' = (if currentpool s' = currentpool s \<or> pool_strategy s \<in> {POOL_LOADBALANCE, POOL_BALANCE} then staged_work s
      else filter (\<lambda>(w, q). q \<noteq> currentpool s) (staged_work s)) \<and>
    (\<exists>t. same_but_prio s t \<and> heap s' = heap t)"
proof -
  define t where "t = (case selected of None \<Rightarrow> s | Some p \<Rightarrow> promote p s)"
  have t: "ordered t (reordered selected ord)" "same_but_prio s t"
    using o promote_ordered [OF o sel] by (auto simp: t_def reordered_def split: option.splits)
  note same = same_but_prio_sel [OF t(2)]
  have tgt: "switch_target selected t (reordered selected ord) = switch_target selected s (reordered selected ord)"
    by (simp add: switch_target_def same cong: if_cong option.case_cong)
  have sel': "\<And>p. selected = Some p \<Longrightarrow> p \<in> set (reordered selected ord)" by (simp add: reordered_def)
  let ?no = "pool_no (heap s (currentpool s))"
  let ?tg = "switch_target selected s (reordered selected ord)"
  have no: "(case pool_strategy t of POOL_ROUNDROBIN \<Rightarrow> cycle_pool_no selected ?no t | POOL_ROTATE \<Rightarrow> cycle_pool_no selected ?no t
      | _ \<Rightarrow> master_pool_no ?no t) = Inr (pool_no (heap t ?tg)) \<and> ?tg \<in> set (reordered selected ord)"
  proof (cases "pool_strategy t \<in> {POOL_ROUNDROBIN, POOL_ROTATE}")
    case True
    have n: "pool_no (heap t (currentpool t)) = ?no" by (simp only: same)
    have c: "cycle_pool_no selected ?no t = Inr (pool_no (heap t ?tg))" "?tg \<in> set (reordered selected ord)"
      using cycle_ordered [OF t(1) n _ True, of selected, unfolded tgt] sel' by blast+
    from True have "(case pool_strategy t of POOL_ROUNDROBIN \<Rightarrow> cycle_pool_no selected ?no t | POOL_ROTATE \<Rightarrow> cycle_pool_no selected ?no t
      | _ \<Rightarrow> master_pool_no ?no t) = cycle_pool_no selected ?no t" by auto
    with c show ?thesis by simp
  next
    case False
    have n: "pool_no (heap t (currentpool t)) = ?no" by (simp only: same)
    note c = master_ordered [OF t(1) False, of selected, unfolded tgt n]
    from False have "(case pool_strategy t of POOL_ROUNDROBIN \<Rightarrow> cycle_pool_no selected ?no t | POOL_ROTATE \<Rightarrow> cycle_pool_no selected ?no t
      | _ \<Rightarrow> master_pool_no ?no t) = master_pool_no ?no t" by (cases "pool_strategy t") auto
    with c show ?thesis by simp
  qed
  have sl: "slot t (pool_no (heap t ?tg)) = Inr ?tg" using no by (intro slot_pool_no [OF t(1)]) simp
  let ?s' = "t\<lparr>currentpool := ?tg, curr_is_nicehash_pool := is_nicehash (heap t ?tg)\<rparr>"
  let ?r = "if ?tg \<noteq> currentpool s \<and> pool_strategy t \<noteq> POOL_LOADBALANCE \<and> pool_strategy t \<noteq> POOL_BALANCE
    then clear_pool_work (currentpool s) ?s' else ?s'"
  have eq: "switch_pools selected s = Inr ?r"
    using no sl by (simp add: switch_pools_def t_def [symmetric] Let_def)
  have "ordered ?r (reordered selected ord)"
    using t(1) no by (simp add: ordered_def active_def clear_pool_work_def)
  then show ?thesis using eq t(2) by (intro exI [of _ ?r]) (auto simp: clear_pool_work_def same)
qed

lemma switch_result:
  assumes "ordered s ord" and "switch_pools selected s = Inr s'" and "\<forall>p. selected = Some p \<longrightarrow> p \<in> set ord"
  shows "ordered s' (reordered selected ord)"
  using switch_ordered [of s ord selected] assms by auto

lemma switch_total: "ordered s ord \<Longrightarrow> (\<And>p. selected = Some p \<Longrightarrow> p \<in> set ord) \<Longrightarrow> \<not> isl (switch_pools selected s)"
  using switch_ordered [of s ord selected] by auto

section \<open>Adding and removing keep it too\<close>

lemma add_pool_ordered:
  assumes o: "ordered s ord" and p: "p \<notin> set (active s)" "p \<noteq> garbage"
  shows "ordered (add_pool p x s) (ord @ [p])"
proof -
  let ?n = "total_pools s"
  let ?arr = "(take (?n + 2) (pools s) @ replicate (?n + 2 - length (pools s)) garbage)[?n := p]"
  let ?t = "s\<lparr>pools := ?arr, total_pools := ?n + 1, heap := (heap s)(p := x\<lparr>pool_no := int ?n, prio := int ?n, quota := 1\<rparr>)\<rparr>"
  have len: "?n \<le> length (pools s)" by (rule ordered_total [OF o])
  have arr: "take (Suc ?n) ?arr = active s @ [p]" "length ?arr = ?n + 2"
    using len by (simp_all add: active_def take_Suc_conv_app_nth min_def)
  have act: "active ?t = active s @ [p]" using arr(1) by (simp add: active_def)
  have nth: "i < ?n \<Longrightarrow> ?arr ! i = pools s ! i" "?arr ! ?n = p" for i using len by (simp_all add: nth_append)
  have ne: "i < ?n \<Longrightarrow> pools s ! i \<noteq> p" for i using p(1) len by (auto simp: active_def in_set_conv_nth)
  have no: "pool_no (heap ?t (pools ?t ! i)) = int i" if "i < total_pools ?t" for i
  proof (cases "i < ?n")
    case True
    then have "pool_no (heap s (pools s ! i)) = int i" using o by (simp add: ordered_def)
    with True ne nth(1) show ?thesis by simp
  next
    case False
    with that have "i = ?n" by simp
    with nth(2) show ?thesis by simp
  qed
  have pr: "prio (heap ?t ((ord @ [p]) ! k)) = int k" if k: "k < length (ord @ [p])" for k
  proof (cases "k < length ord")
    case True
    then have "ord ! k \<noteq> p" using p(1) ordered_set [OF o] by (metis nth_mem)
    with True o show ?thesis by (simp add: ordered_def nth_append)
  next
    case False
    with k show ?thesis by (simp add: nth_append ordered_length [OF o])
  qed
  have "distinct (active s)" "garbage \<notin> set (active s)" using o by (simp_all add: ordered_def)
  then have "ordered ?t (ord @ [p])"
    unfolding ordered_def act using no pr p ordered_set [OF o] ordered_distinct [OF o] ordered_current [OF o] arr(2) by simp
  then show ?thesis unfolding add_pool_def Let_def by (rule same_order_ordered [OF adjust_quota_same_order])
qed

lemma lower_fold:
  assumes "distinct ps"
  shows "fold (\<lambda>q s. if prio (heap s q) > prio (heap s sel) then upd q (\<lambda>x. x\<lparr>prio := prio x - 1\<rparr>) s else s) ps s =
    s\<lparr>heap := \<lambda>q. if q \<in> set ps \<and> prio (heap s q) > prio (heap s sel) then (heap s q)\<lparr>prio := prio (heap s q) - 1\<rparr> else heap s q\<rparr>"
  using assms
proof (induction ps arbitrary: s)
  case (Cons p ps)
  show ?case
  proof (cases "prio (heap s p) > prio (heap s sel)")
    case True
    then have "p \<noteq> sel" by auto
    with True Cons show ?thesis by (auto simp: upd_def intro!: arg_cong [of _ _ "\<lambda>h. s\<lparr>heap := h\<rparr>"])
  next
    case False
    with Cons show ?thesis by (auto intro!: arg_cong [of _ _ "\<lambda>h. s\<lparr>heap := h\<rparr>"])
  qed
qed simp

lemma take_mem: "xs ! i = q \<Longrightarrow> i < l \<Longrightarrow> l \<le> length xs \<Longrightarrow> q \<in> set (take l xs)"
  by (auto simp: in_set_conv_nth)

lemma remove_pool_ordered:
  assumes o: "ordered s ord" and p: "p \<in> set ord" and cp: "p \<noteq> currentpool s"
  shows "ordered (remove_pool p s) (filter (\<lambda>q. q \<noteq> p) ord)"
proof -
  let ?n = "total_pools s"
  note len = ordered_total [OF o]
  have d: "distinct (active s)" "garbage \<notin> set (active s)" using o by (simp_all add: ordered_def)
  obtain m where m: "m < ?n" "p = pools s ! m" using active_nth [OF _ len] p ordered_set [OF o] by blast
  have pno: "pool_no (heap s p) = int m" using o m by (simp add: ordered_def)
  obtain xs ys where ord: "ord = xs @ p # ys" using p by (auto simp: in_set_conv_decomp)
  have pr: "\<And>k. k < length ord \<Longrightarrow> prio (heap s (ord ! k)) = int k" using o by (simp add: ordered_def)
  have pp: "prio (heap s p) = int (length xs)" using pr [of "length xs"] by (simp add: ord)
  have "filter (\<lambda>q. q \<noteq> p) xs = xs" "filter (\<lambda>q. q \<noteq> p) ys = ys" using ordered_distinct [OF o] by (auto simp: ord filter_id_conv)
  then have f: "filter (\<lambda>q. q \<noteq> p) ord = xs @ ys" by (simp add: ord)
  let ?l = "?n - 1"
  have l: "?l < ?n" "Suc ?l \<le> length (pools s)" using m(1) len by simp_all
  let ?arr = "if m < ?l then (pools s)[m := pools s ! ?l] else pools s"
  let ?t = "remove_pool p s"
  have arr: "pools ?t = ?arr" "total_pools ?t = ?l" "currentpool ?t = currentpool s"
    using m(1) by (auto simp: remove_pool_def Let_def lower_fold [OF d(1)] upd_def pno of_nat_diff)
  have inj: "i < ?n \<Longrightarrow> j < ?n \<Longrightarrow> pools s ! i = pools s ! j \<Longrightarrow> i = j" for i j
    using d(1) len by (auto simp: active_def distinct_conv_nth)
  have anth: "?arr ! i = (if i = m then pools s ! ?l else pools s ! i)" if "i < ?l" for i
    using that m(1) len by (auto simp: nth_list_update)
  have alen: "?l \<le> length ?arr" using l by simp
  have act: "active ?t = take ?l ?arr" by (simp add: active_def arr)
  have amem: "q \<in> set (active ?t) \<longleftrightarrow> q \<in> set (active s) \<and> q \<noteq> p" for q
  proof
    assume "q \<in> set (active ?t)"
    then obtain i where i: "i < ?l" "q = ?arr ! i" unfolding act by (auto simp: in_set_conv_nth)
    with anth have "q = pools s ! (if i = m then ?l else i)" by auto
    moreover have "(if i = m then ?l else i) < ?n" "(if i = m then ?l else i) \<noteq> m" using i(1) l by auto
    ultimately show "q \<in> set (active s) \<and> q \<noteq> p" using inj m len by (auto simp: active_def in_set_conv_nth)
  next
    assume q: "q \<in> set (active s) \<and> q \<noteq> p"
    then obtain i where i: "i < ?n" "q = pools s ! i" using active_nth [OF _ len] by blast
    with q m have "i \<noteq> m" by auto
    show "q \<in> set (active ?t)"
    proof (cases "i = ?l")
      case True
      then have "m < ?l" using \<open>i \<noteq> m\<close> m(1) by simp
      then have "?arr ! m = q" using anth [of m] i(2) True by simp
      with \<open>m < ?l\<close> alen show ?thesis unfolding act by (intro take_mem)
    next
      case False
      then have "i < ?l" "?arr ! i = q" using i anth [of i] \<open>i \<noteq> m\<close> by simp_all
      with alen show ?thesis unfolding act by (intro take_mem)
    qed
  qed
  have hp: "prio (heap ?t q) = (if q \<in> set (active s) \<and> prio (heap s q) > prio (heap s p) then prio (heap s q) - 1 else prio (heap s q))"
    and hn: "pool_no (heap ?t q) = (if m < ?l \<and> q = pools s ! ?l then int m else pool_no (heap s q))" if "q \<noteq> p" for q
    using that m(1) by (auto simp: remove_pool_def Let_def lower_fold [OF d(1)] upd_def pno of_nat_diff)
  have dist: "distinct (active ?t)"
    unfolding act
  proof (rule distinct_conv_nth [THEN iffD2], intro allI impI)
    fix i j assume ij: "i < length (take ?l ?arr)" "j < length (take ?l ?arr)" "i \<noteq> j"
    then have il: "i < ?l" "j < ?l" by simp_all
    have "(if i = m then ?l else i) \<noteq> (if j = m then ?l else j)" "(if i = m then ?l else i) < ?n" "(if j = m then ?l else j) < ?n"
      using ij(3) il l by auto
    then have "pools s ! (if i = m then ?l else i) \<noteq> pools s ! (if j = m then ?l else j)" using inj by blast
    moreover have "?arr ! i = pools s ! (if i = m then ?l else i)" "?arr ! j = pools s ! (if j = m then ?l else j)"
      using anth [OF il(1)] anth [OF il(2)] by simp_all
    ultimately show "take ?l ?arr ! i \<noteq> take ?l ?arr ! j" using il by (simp only: nth_take not_False_eq_True)
  qed
  have no: "pool_no (heap ?t (pools ?t ! i)) = int i" if i: "i < total_pools ?t" for i
  proof -
    have il: "i < ?l" using i by (simp only: arr)
    let ?j = "if i = m then ?l else i"
    have "?j \<noteq> m" "?j < ?n" using il l by auto
    then have ne: "pools s ! ?j \<noteq> p" using inj [of ?j m] m by auto
    have "pools ?t ! i = pools s ! ?j" using anth [OF il] by (simp add: arr)
    moreover have "pools s ! i = pools s ! ?l \<longleftrightarrow> i = ?l" using inj [of i ?l] il l by auto
    moreover have "pool_no (heap s (pools s ! i)) = int i" using o il l by (simp add: ordered_def)
    ultimately show ?thesis using hn [OF ne] il m(1) by (auto split: if_splits)
  qed
  have pr': "prio (heap ?t ((xs @ ys) ! k)) = int k" if k: "k < length (xs @ ys)" for k
  proof (cases "k < length xs")
    case True
    then have "xs ! k \<noteq> p" "xs ! k \<in> set ord" using ordered_distinct [OF o] by (auto simp: ord dest: nth_mem)
    with True pr [of k] pp hp show ?thesis by (simp add: ord nth_append)
  next
    case False
    then have j: "k - length xs < length ys" using k by simp
    then have "ys ! (k - length xs) \<noteq> p" "ys ! (k - length xs) \<in> set ord" using ordered_distinct [OF o] by (auto simp: ord dest: nth_mem)
    with False j pr [of "Suc k"] pp hp ordered_set [OF o] show ?thesis by (simp add: ord nth_append Suc_diff_le)
  qed
  have "set (xs @ ys) = set (active ?t)" using amem ordered_set [OF o] ordered_distinct [OF o] by (auto simp: ord)
  moreover have "currentpool ?t \<in> set (xs @ ys)" using ordered_current [OF o] cp by (auto simp: ord arr)
  moreover have "garbage \<notin> set (active ?t)" using amem d(2) by blast
  moreover have "distinct (xs @ ys)" using ordered_distinct [OF o] by (simp add: ord)
  moreover have "total_pools ?t \<le> length (pools ?t)" using alen by (simp add: arr)
  ultimately show ?thesis unfolding ordered_def f using dist no pr' by blast
qed

section \<open>The priority command\<close>

lemma parse_prios_ok:
  assumes "parse_prios is pr np = Inr (np', pr')"
  shows "pr' = pr + int (length is)" "length np' = length np" "distinct is" "\<forall>i \<in> set is. 0 \<le> i \<and> i < int (length np) \<and> np ! nat i = None"
    "\<forall>k < length is. np' ! nat (is ! k) = Some (pr + int k)" "\<forall>j. int j \<notin> set is \<longrightarrow> np' ! j = np ! j"
proof -
  have "pr' = pr + int (length is) \<and> length np' = length np \<and> distinct is \<and> (\<forall>i \<in> set is. 0 \<le> i \<and> i < int (length np) \<and> np ! nat i = None) \<and>
      (\<forall>k < length is. np' ! nat (is ! k) = Some (pr + int k)) \<and> (\<forall>j. int j \<notin> set is \<longrightarrow> np' ! j = np ! j)"
    using assms
  proof (induction "is" arbitrary: pr np)
    case (Cons i "is")
    let ?np = "np[nat i := Some pr]"
    from Cons.prems have i: "0 \<le> i" "i < int (length np)" "np ! nat i = None" and r: "parse_prios is (pr + 1) ?np = Inr (np', pr')"
      by (auto split: if_splits)
    note ih = Cons.IH [OF r]
    have nin: "i \<notin> set is" using ih i by (auto simp: nth_list_update)
    have "np' ! nat i = ?np ! nat i" using ih nin i(1) by (metis int_nat_eq)
    then have hd: "np' ! nat i = Some pr" using i by simp
    have "\<forall>k < length (i # is). np' ! nat ((i # is) ! k) = Some (pr + int k)"
      using ih hd by (auto simp: nth_Cons' algebra_simps)
    moreover have "\<forall>x \<in> set (i # is). 0 \<le> x \<and> x < int (length np) \<and> np ! nat x = None"
      using ih i nin by (auto simp: nth_list_update split: if_splits)
    moreover have "\<forall>j. int j \<notin> set (i # is) \<longrightarrow> np' ! j = np ! j" using ih i by (auto simp: nth_list_update)
    ultimately show ?case using ih nin by simp
  qed simp
  then show "pr' = pr + int (length is)" "length np' = length np" "distinct is" "\<forall>i \<in> set is. 0 \<le> i \<and> i < int (length np) \<and> np ! nat i = None"
    "\<forall>k < length is. np' ! nat (is ! k) = Some (pr + int k)" "\<forall>j. int j \<notin> set is \<longrightarrow> np' ! j = np ! j" by blast+
qed

text \<open>The numbers that the code accepts, and the first one that it does not.\<close>

definition prio_list :: "nat \<Rightarrow> int list \<Rightarrow> bool" where
  "prio_list n ids \<longleftrightarrow> distinct ids \<and> set ids \<subseteq> {0..<int n}"

lemma parse_prios_err:
  assumes "parse_prios is pr np = Inl e"
  shows "\<exists>pre i post. is = pre @ i # post \<and> prio_list (length np) pre \<and> (\<forall>j \<in> set pre. np ! nat j = None) \<and>
    (i \<notin> {0..<int (length np)} \<and> e = MSG_INVPID \<or> i \<in> {0..<int (length np)} \<and> (i \<in> set pre \<or> np ! nat i \<noteq> None) \<and> e = MSG_DUPPID)"
  using assms
proof (induction "is" arbitrary: pr np)
  case (Cons i "is")
  let ?np = "np[nat i := Some pr]"
  show ?case
  proof (cases "i \<in> {0..<int (length np)} \<and> np ! nat i = None")
    case False
    with Cons.prems show ?thesis
      by (intro exI [of _ "[]"] exI [of _ i] exI [of _ "is"]) (auto simp: prio_list_def split: if_splits)
  next
    case True
    with Cons.prems have "parse_prios is (pr + 1) ?np = Inl e" by simp
    from Cons.IH [OF this] obtain pre j post where j: "is = pre @ j # post" "prio_list (length np) pre" "\<forall>k \<in> set pre. ?np ! nat k = None"
        "j \<notin> {0..<int (length np)} \<and> e = MSG_INVPID \<or> j \<in> {0..<int (length np)} \<and> (j \<in> set pre \<or> ?np ! nat j \<noteq> None) \<and> e = MSG_DUPPID"
      by auto
    have "i \<notin> set pre" using j(3) True by (auto simp: nat_less_iff)
    moreover have "np ! nat k = None" if "k \<in> set pre" for k
      using j(3) that True by (metis atLeastLessThan_iff nat_less_iff nth_list_update option.distinct(1))
    moreover have "?np ! nat j \<noteq> None \<longrightarrow> j = i \<or> np ! nat j \<noteq> None" if "j \<in> {0..<int (length np)}"
      using that True by (auto simp: nth_list_update split: if_splits)
    ultimately show ?thesis using j(1,2,4) True
      by (intro exI [of _ "i # pre"] exI [of _ j] exI [of _ post]) (auto simp: prio_list_def)
  qed
qed simp

lemma same_but_prio_upd: "same_but_prio s (set_prio i pr s)"
  unfolding same_but_prio_def set_prio_def upd_def by (rule exI, rule conjI, rule refl) simp

lemma set_prio_heap: "heap (set_prio i pr s) q = (if q = pools s ! i then (heap s q)\<lparr>prio := pr\<rparr> else heap s q)"
  by (simp add: set_prio_def)

lemma assign_prios_ok:
  assumes inj: "\<forall>i < length np. \<forall>j < length np. pools s ! i = pools s ! j \<longrightarrow> i = j"
  shows "same_but_prio s (assign_prios np s)"
    "\<forall>j < length np. prio (heap (assign_prios np s) (pools s ! j)) = (case np ! j of Some pr \<Rightarrow> pr | None \<Rightarrow> prio (heap s (pools s ! j)))"
proof -
  let ?f = "\<lambda>i s. case np ! i of Some pr \<Rightarrow> set_prio i pr s | None \<Rightarrow> s"
  have "n \<le> length np \<Longrightarrow> same_but_prio s (fold ?f [0..<n] s) \<and>
    (\<forall>j < length np. prio (heap (fold ?f [0..<n] s) (pools s ! j)) =
      (case np ! j of Some pr \<Rightarrow> if j < n then pr else prio (heap s (pools s ! j)) | None \<Rightarrow> prio (heap s (pools s ! j))))" for n
  proof (induction n)
    case (Suc n)
    let ?t = "fold ?f [0..<n] s"
    have ih: "same_but_prio s ?t" "\<And>j. j < length np \<Longrightarrow> prio (heap ?t (pools s ! j)) =
      (case np ! j of Some pr \<Rightarrow> if j < n then pr else prio (heap s (pools s ! j)) | None \<Rightarrow> prio (heap s (pools s ! j)))" using Suc by auto
    have eq: "fold ?f [0..<Suc n] s = ?f n ?t" by simp
    have "same_but_prio s (?f n ?t)" using ih(1) same_but_prio_trans [OF ih(1) same_but_prio_upd] by (auto split: option.splits)
    moreover have "prio (heap (?f n ?t) (pools s ! j)) =
        (case np ! j of Some pr \<Rightarrow> if j < Suc n then pr else prio (heap s (pools s ! j)) | None \<Rightarrow> prio (heap s (pools s ! j)))" if j: "j < length np" for j
    proof -
      have "pools s ! j = pools s ! n \<longleftrightarrow> j = n" using inj j Suc.prems by auto
      then show ?thesis using ih(2) [OF j]
        by (cases "np ! n"; cases "np ! j") (auto simp: set_prio_heap same_but_prio_sel(1) [OF ih(1)] less_Suc_eq)
    qed
    ultimately show ?case unfolding eq by blast
  qed (simp split: option.split)
  from this [of "length np"] show "same_but_prio s (assign_prios np s)"
    "\<forall>j < length np. prio (heap (assign_prios np s) (pools s ! j)) = (case np ! j of Some pr \<Rightarrow> pr | None \<Rightarrow> prio (heap s (pools s ! j)))"
    by (simp_all add: assign_prios_def cong: option.case_cong)
qed

text \<open>\<open>us\<close> are the pools of the order that the loop has yet to come to, the first of them with priority \<open>k\<close>.\<close>

lemma append_others_ok:
  assumes inj: "\<forall>i < length ch. \<forall>j < length ch. pools s ! i = pools s ! j \<longrightarrow> i = j"
    and open_ch: "\<forall>i < length ch. \<not> ch ! i \<longleftrightarrow> pools s ! i \<in> set us \<and> P (pools s ! i)"
    and us: "distinct us" "set us \<subseteq> (!) (pools s) ` {..<length ch}" "\<forall>j < length us. P (us ! j) \<longrightarrow> prio (heap s (us ! j)) = int (k + j)"
  shows "same_but_prio s (append_others (map int [k..<k + length us]) pr ch s)"
    "\<forall>q. q \<notin> set (filter P us) \<longrightarrow> heap (append_others (map int [k..<k + length us]) pr ch s) q = heap s q"
    "\<forall>m < length (filter P us). prio (heap (append_others (map int [k..<k + length us]) pr ch s) (filter P us ! m)) = pr + int m"
proof -
  have "same_but_prio s (append_others (map int [k..<k + length us]) pr ch s) \<and>
    (\<forall>q. q \<notin> set (filter P us) \<longrightarrow> heap (append_others (map int [k..<k + length us]) pr ch s) q = heap s q) \<and>
    (\<forall>m < length (filter P us). prio (heap (append_others (map int [k..<k + length us]) pr ch s) (filter P us ! m)) = pr + int m)"
    using assms
  proof (induction us arbitrary: k pr ch s)
    case (Cons u us)
    note inj = Cons.prems(1) and opn = Cons.prems(2) and dis = Cons.prems(3) and sub = Cons.prems(4) and prs = Cons.prems(5)
    have ks: "map int [k..<k + length (u # us)] = int k # map int [Suc k..<Suc k + length us]" using upt_conv_Cons [of k "k + length (u # us)"] by (simp del: upt_Suc)
    have rest: "\<forall>j < length us. P (us ! j) \<longrightarrow> prio (heap s (us ! j)) = int (Suc k + j)" using prs by auto
    obtain i where i: "i < length ch" "u = pools s ! i" using sub by auto
    have other: "prio (heap s (pools s ! j)) \<noteq> int k" if j: "j < length ch" "\<not> ch ! j" "j \<noteq> i" for j
    proof -
      have "pools s ! j \<noteq> u" using inj i j by auto
      with opn j have "pools s ! j \<in> set us" "P (pools s ! j)" by auto
      then obtain l where "l < length us" "pools s ! j = us ! l" by (auto simp: in_set_conv_nth)
      with rest \<open>P (pools s ! j)\<close> show ?thesis by auto
    qed
    let ?c = "\<lambda>i. \<not> ch ! i \<and> prio (heap s (pools s ! i)) = int k"
    show ?case
    proof (cases "P u")
      case False
      then have "ch ! i" using opn i by auto
      then have "find ?c [0..<length ch] = None" using other by (auto simp: find_None_iff)
      moreover have "\<forall>i < length ch. \<not> ch ! i \<longleftrightarrow> pools s ! i \<in> set us \<and> P (pools s ! i)" using opn False by auto
      ultimately show ?thesis unfolding ks using Cons.IH [OF inj _ _ _ rest, of pr] dis sub False by simp
    next
      case True
      then have ci: "?c i" using opn i prs [rule_format, of 0] by auto
      have "find ?c [0..<length ch] \<noteq> None" using ci i(1) by (auto simp: find_None_iff)
      moreover have "find ?c [0..<length ch] = Some j \<Longrightarrow> j = i" for j using other [of j] by (cases "j = i") (auto simp: find_Some_iff)
      ultimately have fi: "find ?c [0..<length ch] = Some i" by blast
      let ?t = "set_prio i pr s" and ?ch = "ch[i := True]"
      have t: "pools ?t = pools s" "same_but_prio s ?t" using same_but_prio_upd by (simp_all add: set_prio_def)
      have ht: "q \<noteq> u \<Longrightarrow> heap ?t q = heap s q" "prio (heap ?t u) = pr" for q using i(2) by (simp_all add: set_prio_heap)
      have u: "u \<notin> set us" using dis by simp
      have "\<forall>j < length ?ch. \<not> ?ch ! j \<longleftrightarrow> pools ?t ! j \<in> set us \<and> P (pools ?t ! j)"
      proof (intro allI impI)
        fix j assume j: "j < length ?ch"
        show "\<not> ?ch ! j \<longleftrightarrow> pools ?t ! j \<in> set us \<and> P (pools ?t ! j)"
        proof (cases "j = i")
          case True
          with u i show ?thesis by (simp add: t)
        next
          case False
          then have "pools s ! j \<noteq> u" using inj i j by auto
          with False opn j show ?thesis by (simp add: t)
        qed
      qed
      moreover have "\<forall>j < length us. P (us ! j) \<longrightarrow> prio (heap ?t (us ! j)) = int (Suc k + j)"
        using rest ht(1) u by (metis nth_mem)
      moreover have "\<forall>i < length ?ch. \<forall>j < length ?ch. pools ?t ! i = pools ?t ! j \<longrightarrow> i = j" using inj by (simp add: t)
      ultimately have ih: "same_but_prio ?t (append_others (map int [Suc k..<Suc k + length us]) (pr + 1) ?ch ?t)"
        "\<forall>q. q \<notin> set (filter P us) \<longrightarrow> heap (append_others (map int [Suc k..<Suc k + length us]) (pr + 1) ?ch ?t) q = heap ?t q"
        "\<forall>m < length (filter P us). prio (heap (append_others (map int [Suc k..<Suc k + length us]) (pr + 1) ?ch ?t) (filter P us ! m)) = (pr + 1) + int m"
        using Cons.IH [of ?ch ?t "Suc k" "pr + 1"] dis sub by (simp_all add: t)
      have run: "append_others (map int [k..<k + length (u # us)]) pr ch s = append_others (map int [Suc k..<Suc k + length us]) (pr + 1) ?ch ?t"
        unfolding ks by (simp add: fi)
      have "\<forall>m < length (filter P (u # us)). prio (heap (append_others (map int [Suc k..<Suc k + length us]) (pr + 1) ?ch ?t) (filter P (u # us) ! m)) = pr + int m"
        using ih(2,3) ht(2) u True by (auto simp: nth_Cons' algebra_simps)
      then show ?thesis unfolding run using same_but_prio_trans [OF t(2) ih(1)] ih(2) ht(1) True by auto
    qed
  qed simp
  then show "same_but_prio s (append_others (map int [k..<k + length us]) pr ch s)"
    "\<forall>q. q \<notin> set (filter P us) \<longrightarrow> heap (append_others (map int [k..<k + length us]) pr ch s) q = heap s q"
    "\<forall>m < length (filter P us). prio (heap (append_others (map int [k..<k + length us]) pr ch s) (filter P us ! m)) = pr + int m" by blast+
qed

definition named_pools :: "pools_st \<Rightarrow> int list \<Rightarrow> int list" where
  "named_pools s ids = map (\<lambda>i. pools s ! nat i) ids"

text \<open>The order that the command asks for.\<close>

definition prio_order :: "pools_st \<Rightarrow> int list \<Rightarrow> int list \<Rightarrow> int list" where
  "prio_order s ids ord = named_pools s ids @ filter (\<lambda>p. p \<notin> set (named_pools s ids)) ord"

lemma poolpriority_ordered:
  assumes o: "ordered s ord" and ids: "ids \<noteq> []" and parse: "parse_prios ids 0 (replicate (total_pools s) None) = Inr (np, pr)"
  shows "\<exists>t s'. same_but_prio s t \<and> ordered t (prio_order s ids ord) \<and> poolpriority ids s = Inr (MSG_POOLPRIO, s') \<and>
    (if currentpool s = hd (prio_order s ids ord) then s' = t else switch_pools None t = Inr s')"
proof -
  let ?n = "total_pools s" and ?nm = "named_pools s ids"
  let ?P = "\<lambda>p. p \<notin> set ?nm"
  note pp = parse_prios_ok [OF parse, simplified]
  note len = ordered_total [OF o]
  have d: "distinct (active s)" using o by (simp add: ordered_def)
  have inj: "i < ?n \<Longrightarrow> j < ?n \<Longrightarrow> pools s ! i = pools s ! j \<Longrightarrow> i = j" for i j
    using d len by (auto simp: active_def distinct_conv_nth)
  have inr: "\<forall>i \<in> set ids. 0 \<le> i \<and> nat i < ?n" using pp(4) by auto
  have nm_iff: "pools s ! j \<in> set ?nm \<longleftrightarrow> int j \<in> set ids" if "j < ?n" for j
  proof
    assume "pools s ! j \<in> set ?nm"
    then obtain i where "i \<in> set ids" "pools s ! j = pools s ! nat i" by (auto simp: named_pools_def)
    with inj [of j "nat i"] inr that show "int j \<in> set ids" by auto
  next
    assume "int j \<in> set ids"
    then show "pools s ! j \<in> set ?nm" by (force simp: named_pools_def)
  qed
  have np_iff: "np ! j \<noteq> None \<longleftrightarrow> int j \<in> set ids" if "j < ?n" for j
    using pp(5,6) that by (auto simp: in_set_conv_nth)
  let ?t1 = "assign_prios np s"
  have t1: "same_but_prio s ?t1"
    "\<And>j. j < ?n \<Longrightarrow> prio (heap ?t1 (pools s ! j)) = (case np ! j of Some pr \<Rightarrow> pr | None \<Rightarrow> prio (heap s (pools s ! j)))"
    using assign_prios_ok [of np s] inj pp(2) by auto
  let ?ch = "map (\<lambda>x. x \<noteq> None) np"
  let ?t = "append_others (map int [0..<?n]) pr ?ch ?t1"
  have pools1: "pools ?t1 = pools s" by (rule same_but_prio_sel [OF t1(1)])
  have mem: "p \<in> set ord \<Longrightarrow> \<exists>j < ?n. p = pools s ! j" "j < ?n \<Longrightarrow> pools s ! j \<in> set ord" for p j
    using active_nth [OF _ len] ordered_set [OF o] len by (auto simp: active_def in_set_conv_nth)
  have c1: "\<forall>i < length ?ch. \<forall>j < length ?ch. pools ?t1 ! i = pools ?t1 ! j \<longrightarrow> i = j" using inj pp(2) by (simp add: pools1)
  have c2: "\<forall>i < length ?ch. \<not> ?ch ! i \<longleftrightarrow> pools ?t1 ! i \<in> set ord \<and> ?P (pools ?t1 ! i)"
    using np_iff nm_iff mem(2) pp(2) by (auto simp: pools1)
  have c3: "set ord \<subseteq> (!) (pools ?t1) ` {..<length ?ch}" using mem(1) pp(2) by (auto simp: pools1)
  have c4: "\<forall>j < length ord. ?P (ord ! j) \<longrightarrow> prio (heap ?t1 (ord ! j)) = int (0 + j)"
  proof (intro allI impI)
    fix j assume j: "j < length ord" "?P (ord ! j)"
    obtain i where i: "i < ?n" "ord ! j = pools s ! i" using mem(1) [OF nth_mem [OF j(1)]] by blast
    with j(2) nm_iff have "int i \<notin> set ids" by auto
    with np_iff [OF i(1)] have "np ! i = None" by blast
    with i t1(2) ordered_prio [OF o j(1)] show "prio (heap ?t1 (ord ! j)) = int (0 + j)" by simp
  qed
  note ao = append_others_ok [OF c1 c2 ordered_distinct [OF o] c3 c4, of pr, simplified, unfolded ordered_length [OF o]]
  have same: "same_but_prio s ?t" using same_but_prio_trans [OF t1(1)] ao(1) by simp
  have ordt: "ordered ?t (prio_order s ids ord)"
  proof (rule ordered_reorder [OF o same])
    have "inj_on (\<lambda>i. pools s ! nat i) (set ids)"
    proof (rule inj_onI)
      fix x y assume xy: "x \<in> set ids" "y \<in> set ids" "pools s ! nat x = pools s ! nat y"
      then have "nat x = nat y" using inj [of "nat x" "nat y"] inr by blast
      with xy inr show "x = y" by (metis int_nat_eq)
    qed
    then have "distinct ?nm" using pp(3) by (simp add: named_pools_def distinct_map)
    then show "distinct (prio_order s ids ord)" using ordered_distinct [OF o] by (auto simp: prio_order_def)
    have "set ?nm \<subseteq> set ord" using inr mem(2) by (auto simp: named_pools_def)
    then show "set (prio_order s ids ord) = set ord" by (auto simp: prio_order_def)
    fix k assume k: "k < length (prio_order s ids ord)"
    show "prio (heap ?t (prio_order s ids ord ! k)) = int k"
    proof (cases "k < length ids")
      case True
      then have q: "prio_order s ids ord ! k = pools s ! nat (ids ! k)" by (simp add: prio_order_def named_pools_def nth_append)
      have "?nm ! k \<in> set ?nm" using True by (simp add: named_pools_def)
      then have "pools s ! nat (ids ! k) \<notin> set (filter ?P ord)" using True by (simp add: named_pools_def)
      then have "heap ?t (pools s ! nat (ids ! k)) = heap ?t1 (pools s ! nat (ids ! k))" using ao(2) by simp
      moreover have "nat (ids ! k) < ?n" using inr True by simp
      ultimately show ?thesis using t1(2) pp(5) True q by simp
    next
      case False
      then have "prio_order s ids ord ! k = filter ?P ord ! (k - length ids)" "k - length ids < length (filter ?P ord)"
        using k by (auto simp: prio_order_def named_pools_def nth_append)
      with ao(3) False pp(1) show ?thesis by simp
    qed
  qed
  have hd: "prio (heap ?t (currentpool s)) = 0 \<longleftrightarrow> currentpool s = hd (prio_order s ids ord)"
  proof -
    have cp: "currentpool s \<in> set (prio_order s ids ord)" using ordered_current [OF ordt] same_but_prio_sel(3) [OF same] by simp
    then obtain k where k: "k < length (prio_order s ids ord)" "currentpool s = prio_order s ids ord ! k" by (auto simp: in_set_conv_nth)
    then have "prio (heap ?t (currentpool s)) = int k" using ordt by (simp add: ordered_def)
    moreover have "hd (prio_order s ids ord) = prio_order s ids ord ! 0" using k(1) by (intro hd_conv_nth) auto
    moreover have "prio_order s ids ord ! k = prio_order s ids ord ! 0 \<longleftrightarrow> k = 0"
      using ordered_distinct [OF ordt] k(1) by (intro nth_eq_iff_index_eq) auto
    ultimately show ?thesis using k(2) by simp
  qed
  have n: "?n \<noteq> 0" using ordered_current [OF o] mem(1) by fastforce
  obtain s2 where s2: "switch_pools None ?t = Inr s2" using switch_ordered [OF ordt, of None] by auto
  have eq: "poolpriority ids s = bindR (if prio (heap ?t (currentpool s)) \<noteq> 0 then switch_pools None ?t else Inr ?t) (\<lambda>s. Inr (MSG_POOLPRIO, s))"
    using n ids parse same_but_prio_sel(3) [OF same] by (simp add: poolpriority_def Let_def)
  show ?thesis
  proof (cases "currentpool s = hd (prio_order s ids ord)")
    case True
    then have "poolpriority ids s = Inr (MSG_POOLPRIO, ?t)" using eq hd by simp
    with True same ordt show ?thesis by metis
  next
    case False
    then have "poolpriority ids s = Inr (MSG_POOLPRIO, s2)" using eq hd s2 by simp
    with False same ordt s2 show ?thesis by metis
  qed
qed

section \<open>Runs\<close>

lemma command_ordered:
  assumes o: "ordered s ord"
  shows "with_pool param s f = Inr r \<Longrightarrow> r = (MSG_NOPOOL, s) \<or> r = (MSG_MISPID, s) \<or> r = (MSG_INVPID, s) \<or> (\<exists>p \<in> set ord. f p = Inr r)"
    "(\<And>p. p \<in> set ord \<Longrightarrow> \<not> isl (f p)) \<Longrightarrow> \<not> isl (with_pool param s f)"
proof -
  have p: "slot s i = Inr (pools s ! nat i)" "pools s ! nat i \<in> set ord" if "0 \<le> i" "i < int (total_pools s)" for i
  proof -
    have n: "nat i < total_pools s" using that by simp
    from slot_active [OF o n] that(1) show "slot s i = Inr (pools s ! nat i)" by simp
    show "pools s ! nat i \<in> set ord" using take_mem [OF refl n ordered_total [OF o]] by (simp add: ordered_set [OF o] active_def)
  qed
  show "with_pool param s f = Inr r \<Longrightarrow> r = (MSG_NOPOOL, s) \<or> r = (MSG_MISPID, s) \<or> r = (MSG_INVPID, s) \<or> (\<exists>p \<in> set ord. f p = Inr r)"
    using p by (auto simp: with_pool_def split: if_splits option.splits)
  show "(\<And>p. p \<in> set ord \<Longrightarrow> \<not> isl (f p)) \<Longrightarrow> \<not> isl (with_pool param s f)"
    using p by (auto simp: with_pool_def split: option.splits)
qed

text \<open>The commands and the calls of the miner itself; \<open>other\<close> stands for all that leaves order and array alone.\<close>

inductive pool_step :: "pools_st \<Rightarrow> pools_st \<Rightarrow> bool" where
  other: "same_order s s' \<Longrightarrow> pool_step s s'"
| switch: "selected = None \<or> (\<exists>p \<in> set (active s). selected = Some p) \<Longrightarrow> switch_pools selected s = Inr s' \<Longrightarrow> pool_step s s'"
| died: "p \<in> set (active s) \<Longrightarrow> pool_died p s = Inr s' \<Longrightarrow> pool_step s s'"
| select: "select_pool s = Inr (p, s') \<Longrightarrow> pool_step s s'"
| add: "p \<notin> set (active s) \<Longrightarrow> p \<noteq> garbage \<Longrightarrow> pool_step s (add_pool p x s)"
| switchcmd: "switchpool param s = Inr (msg, s') \<Longrightarrow> pool_step s s'"
| enablecmd: "enablepool param s = Inr (msg, s') \<Longrightarrow> pool_step s s'"
| disablecmd: "disablepool param s = Inr (msg, s') \<Longrightarrow> pool_step s s'"
| removecmd: "removepool param s = Inr (msg, s') \<Longrightarrow> pool_step s s'"
| priocmd: "poolpriority ids s = Inr (msg, s') \<Longrightarrow> pool_step s s'"
| quotacmd: "poolquota param q s = Inr (msg, s') \<Longrightarrow> pool_step s s'"

lemma upd_ordered: "(\<And>x. prio (f x) = prio x \<and> pool_no (f x) = pool_no x) \<Longrightarrow> ordered s ord \<Longrightarrow> ordered (upd p f s) ord"
  by (rule same_order_ordered [OF upd_same_order])

lemma next_rotating_same_order: "same_order s (next_rotating s)"
  by (simp add: same_order_def next_rotating_def)

lemma rotate_scan_same_order: "rotate_scan n s = Inr (r, s') \<Longrightarrow> same_order s s'"
proof (induction n arbitrary: s)
  case (Suc n)
  then obtain p where p: "slot s (int (rotating_pool s)) = Inr p" by (cases "slot s (int (rotating_pool s))") auto
  let ?t = "upd p (\<lambda>x. x\<lparr>quota_used := quota_used x + 1\<rparr>) s"
  have t: "same_order s ?t" by (rule upd_same_order) simp
  show ?case
  proof (cases "quota_used (heap s p) < int (quota_gcd (heap s p)) \<and> \<not> pool_unusable (heap s p)")
    case True
    with Suc.prems p have "s' = ?t" by (simp add: Let_def)
    with t show ?thesis by simp
  next
    case False
    with Suc.prems p have "rotate_scan n (next_rotating ?t) = Inr (r, s')" by (simp add: Let_def)
    from Suc.IH [OF this] show ?thesis by (rule same_order_trans [OF same_order_trans [OF t next_rotating_same_order]])
  qed
qed simp

lemma start_round_same_order: "same_order s (start_round s)"
  unfolding start_round_def using same_order_trans [OF fold_upd_same_order next_rotating_same_order] by simp

lemma select_same_order:
  assumes "select_pool s = Inr (p, s')"
  shows "same_order s s'"
proof (cases "pool_strategy s = POOL_LOADBALANCE")
  case True
  with assms obtain r t where "rotate_scan (total_pools s) (start_round s) = Inr (r, t)" "s' = t"
    by (auto simp: select_pool_def bindR_eq_Inr split: option.splits)
  with rotate_scan_same_order start_round_same_order show ?thesis by (blast intro: same_order_trans)
next
  case False
  with assms show ?thesis by (auto simp: select_pool_def select_balanced_def Let_def split: if_splits prod.splits intro: upd_same_order)
qed

lemma pool_step_ordered:
  assumes "pool_step s s'" and "ordered s ord"
  shows "\<exists>ord'. ordered s' ord'"
  using assms
proof (induction arbitrary: ord rule: pool_step.induct)
  case (other s s')
  then show ?case by (blast intro: same_order_ordered)
next
  case (switch selected s s')
  then have "\<forall>p. selected = Some p \<longrightarrow> p \<in> set ord" by (auto simp: ordered_set)
  from switch_result [OF switch(3,2) this] show ?case by blast
next
  case (died p s s')
  let ?t = "upd p (\<lambda>x. x\<lparr>idle := True\<rparr>) s"
  have t: "ordered ?t ord" by (rule upd_ordered [OF _ died(3)]) simp
  from died(2) have "s' = ?t \<or> switch_pools None ?t = Inr s'" by (auto simp: pool_died_def Let_def split: if_splits)
  with t switch_result [OF t, of None] show ?case by auto
next
  case (select s p s')
  then show ?case by (blast intro: same_order_ordered select_same_order)
next
  case (add p s x)
  from add_pool_ordered [OF add(3,1,2)] show ?case by blast
next
  case (switchcmd param s msg s')
  from command_ordered(1) [OF switchcmd(2) switchcmd(1) [unfolded switchpool_def]] show ?case
  proof (elim disjE bexE)
    fix p assume p: "p \<in> set ord" "bindR (switch_pools (Some p) (upd p (\<lambda>x. x\<lparr>enabled := POOL_ENABLED\<rparr>) s)) (\<lambda>s. Inr (MSG_SWITCHP, s)) = Inr (msg, s')"
    have t: "ordered (upd p (\<lambda>x. x\<lparr>enabled := POOL_ENABLED\<rparr>) s) ord" by (rule upd_ordered [OF _ switchcmd(2)]) simp
    with p switch_result [OF t, of "Some p"] show ?thesis by (auto simp: bindR_eq_Inr)
  qed (use switchcmd(2) in auto)
next
  case (enablecmd param s msg s')
  from command_ordered(1) [OF enablecmd(2) enablecmd(1) [unfolded enablepool_def]] show ?case
  proof (elim disjE bexE)
    fix p
    let ?t = "upd p (\<lambda>x. x\<lparr>enabled := POOL_ENABLED\<rparr>) s"
    assume p: "p \<in> set ord" and r: "(if enabled (heap s p) = POOL_ENABLED then Inr (MSG_ALRENAP, s)
      else let s = ?t in bindR (if prio (heap s p) < prio (heap s (currentpool s)) then switch_pools (Some p) s else Inr s) (\<lambda>s. Inr (MSG_ENAPOOL, s))) = Inr (msg, s')"
    have t: "ordered ?t ord" by (rule upd_ordered [OF _ enablecmd(2)]) simp
    from r have "s' = s \<or> s' = ?t \<or> switch_pools (Some p) ?t = Inr s'" by (auto simp: Let_def bindR_eq_Inr split: if_splits)
    with t p enablecmd(2) switch_result [OF t, of "Some p"] show ?thesis by auto
  qed (use enablecmd(2) in auto)
next
  case (disablecmd param s msg s')
  from command_ordered(1) [OF disablecmd(2) disablecmd(1) [unfolded disablepool_def]] show ?case
  proof (elim disjE bexE)
    fix p
    let ?t = "upd p (\<lambda>x. x\<lparr>enabled := POOL_DISABLED\<rparr>) s"
    assume p: "p \<in> set ord" and r: "(if enabled (heap s p) = POOL_DISABLED then Inr (MSG_ALRDISP, s)
      else if enabled_pools s \<le> 1 then Inr (MSG_DISLASTP, s)
      else let s = ?t in bindR (if p = currentpool s then switch_pools None s else Inr s) (\<lambda>s. Inr (MSG_DISPOOL, s))) = Inr (msg, s')"
    have t: "ordered ?t ord" by (rule upd_ordered [OF _ disablecmd(2)]) simp
    from r have "s' = s \<or> s' = ?t \<or> switch_pools None ?t = Inr s'" by (auto simp: Let_def bindR_eq_Inr split: if_splits)
    with t disablecmd(2) switch_result [OF t, of None] show ?thesis by auto
  qed (use disablecmd(2) in auto)
next
  case (removecmd param s msg s')
  from command_ordered(1) [OF removecmd(2) removecmd(1) [unfolded removepool_def]] show ?case
  proof (elim disjE bexE)
    fix p
    assume p: "p \<in> set ord" and r: "(if total_pools s \<le> 1 then Inr (MSG_REMLASTP, s)
      else bindR (if p = currentpool s then switch_pools None s else Inr s) (\<lambda>s. if p = currentpool s then Inr (MSG_ACTPOOL, s)
        else Inr (MSG_REMPOOL, remove_pool p (upd p (\<lambda>x. x\<lparr>enabled := POOL_DISABLED\<rparr>) s)))) = Inr (msg, s')"
    have sw: "ordered t ord" if "switch_pools None s = Inr t" for t using switch_result [OF removecmd(2) that] by (simp add: reordered_def)
    from r have "s' = s \<or> (\<exists>t. (t = s \<or> switch_pools None s = Inr t) \<and>
        (s' = t \<or> p \<noteq> currentpool t \<and> s' = remove_pool p (upd p (\<lambda>x. x\<lparr>enabled := POOL_DISABLED\<rparr>) t)))"
      by (auto simp: bindR_eq_Inr split: if_splits)
    then obtain t where t: "ordered t ord" "s' = t \<or> p \<noteq> currentpool t \<and> s' = remove_pool p (upd p (\<lambda>x. x\<lparr>enabled := POOL_DISABLED\<rparr>) t)"
      using sw removecmd(2) by auto
    have "ordered (upd p (\<lambda>x. x\<lparr>enabled := POOL_DISABLED\<rparr>) t) ord" by (rule upd_ordered [OF _ t(1)]) simp
    from remove_pool_ordered [OF this p] t show ?thesis by auto
  qed (use removecmd(2) in auto)
next
  case (priocmd ids s msg s')
  show ?case
  proof (cases "ids = [] \<or> total_pools s = 0 \<or> isl (parse_prios ids 0 (replicate (total_pools s) None))")
    case True
    with priocmd(1) have "s' = s" by (auto simp: poolpriority_def Let_def split: if_splits sum.splits)
    with priocmd(2) show ?thesis by blast
  next
    case False
    then obtain np pr where "parse_prios ids 0 (replicate (total_pools s) None) = Inr (np, pr)" "ids \<noteq> []"
      by (cases "parse_prios ids 0 (replicate (total_pools s) None)") auto
    from poolpriority_ordered [OF priocmd(2) this(2,1)] priocmd(1) obtain t where
      t: "ordered t (prio_order s ids ord)" "s' = t \<or> switch_pools None t = Inr s'" by (auto split: if_splits)
    with switch_result [OF t(1), of None] show ?thesis by auto
  qed
next
  case (quotacmd param q s msg s')
  from command_ordered(1) [OF quotacmd(2) quotacmd(1) [unfolded poolquota_def]] show ?case
  proof (elim disjE bexE)
    fix p
    let ?t = "upd p (\<lambda>x. x\<lparr>quota := nat q\<rparr>) s"
    assume "(if q < 0 then Inr (MSG_INVNEG, s) else Inr (MSG_SETQUOTA, adjust_quota_gcd ?t)) = Inr (msg, s')"
    then have "s' = s \<or> s' = adjust_quota_gcd ?t" by (auto split: if_splits)
    moreover have "ordered ?t ord" by (rule upd_ordered [OF _ quotacmd(2)]) simp
    then have "ordered (adjust_quota_gcd ?t) ord" by (rule same_order_ordered [OF adjust_quota_same_order])
    ultimately show ?thesis using quotacmd(2) by blast
  qed (use quotacmd(2) in auto)
qed

lemma pool_run_ordered: "pool_step\<^sup>*\<^sup>* s s' \<Longrightarrow> ordered s ord \<Longrightarrow> \<exists>ord'. ordered s' ord'"
  by (induction rule: rtranclp_induct) (blast dest: pool_step_ordered)+

section \<open>Rounds of the load balancer\<close>

text \<open>How much each pool of a list may still take in this round, as the sequence of selections to come.\<close>

definition remaining :: "pools_st \<Rightarrow> int list \<Rightarrow> int list" where
  "remaining s ps = concat (map (\<lambda>p. replicate (nat (int (quota_gcd (heap s p)) - quota_used (heap s p))) p) ps)"

definition on_circle :: "pools_st \<Rightarrow> int list \<Rightarrow> bool" where
  "on_circle s ps \<longleftrightarrow> ps \<noteq> [] \<and> length ps \<le> total_pools s \<and> ps = take (length ps) (rotate (rotating_pool s) (active s))"

text \<open>\<open>ps\<close> are the pools the round has yet to finish, the one at the rotating pointer first; the others are used up.\<close>

definition in_round :: "pools_st \<Rightarrow> int list \<Rightarrow> bool" where
  "in_round s ps \<longleftrightarrow> pool_strategy s = POOL_LOADBALANCE \<and> total_pools s \<le> length (pools s) \<and> distinct (active s) \<and> garbage \<notin> set (active s) \<and>
     rotating_pool s < total_pools s \<and> (\<forall>p \<in> set (active s). \<not> pool_unusable (heap s p)) \<and>
     on_circle s ps \<and> (\<forall>p \<in> set (active s) - set ps. int (quota_gcd (heap s p)) \<le> quota_used (heap s p))"

fun selects :: "nat \<Rightarrow> pools_st \<Rightarrow> pool_err + int list \<times> pools_st" where
  "selects 0 s = Inr ([], s)"
| "selects (Suc n) s = bindR (select_pool s) (\<lambda>(p, s). bindR (selects n s) (\<lambda>(ps, s). Inr (p # ps, s)))"

lemma on_circle_upd: "on_circle (upd p f s) ps = on_circle s ps"
  by (simp add: on_circle_def)

lemma in_round_hd:
  assumes "in_round s (p # ps)"
  shows "slot s (int (rotating_pool s)) = Inr p" "p \<in> set (active s)"
proof -
  let ?r = "rotating_pool s"
  have len: "length (active s) = total_pools s" and r: "?r < total_pools s" using assms by (simp_all add: in_round_def active_def)
  have "p = rotate ?r (active s) ! 0" using assms unfolding in_round_def on_circle_def by (metis length_greater_0_conv nth_Cons_0 nth_take)
  also have "\<dots> = active s ! ?r" using nth_rotate [of 0 "active s" ?r] len r by auto
  finally have p: "p = active s ! ?r" .
  then show mem: "p \<in> set (active s)" using r len by simp
  have "pools s ! ?r = p" using p r by (simp add: active_def)
  moreover have "p \<noteq> garbage" using mem assms by (auto simp: in_round_def)
  ultimately show "slot s (int ?r) = Inr p" using assms by (simp add: slot_def in_round_def)
qed

lemma in_round_charge:
  assumes "in_round s (p # ps)"
  shows "in_round (upd p (\<lambda>x. x\<lparr>quota_used := quota_used x + 1\<rparr>) s) (p # ps)"
    "remaining (upd p (\<lambda>x. x\<lparr>quota_used := quota_used x + 1\<rparr>) s) (p # ps) =
      (if quota_used (heap s p) < int (quota_gcd (heap s p)) then tl (remaining s (p # ps)) else remaining s (p # ps))"
proof -
  show "in_round (upd p (\<lambda>x. x\<lparr>quota_used := quota_used x + 1\<rparr>) s) (p # ps)"
    using assms by (auto simp: in_round_def pool_unusable_def on_circle_upd)
  have "distinct (rotate (rotating_pool s) (active s))" using assms by (simp add: in_round_def)
  then have "distinct (p # ps)" using assms unfolding in_round_def on_circle_def by (metis distinct_take)
  then have "p \<notin> set ps" by simp
  then have "remaining (upd p (\<lambda>x. x\<lparr>quota_used := quota_used x + 1\<rparr>) s) ps = remaining s ps"
    unfolding remaining_def by (intro arg_cong [of _ _ concat] map_cong) auto
  moreover have "remaining t (p # ps) = replicate (nat (int (quota_gcd (heap t p)) - quota_used (heap t p))) p @ remaining t ps" for t by (simp add: remaining_def)
  moreover have "quota_used (heap s p) < int (quota_gcd (heap s p)) \<Longrightarrow>
      replicate (nat (int (quota_gcd (heap s p)) - quota_used (heap s p))) p = p # replicate (nat (int (quota_gcd (heap s p)) - (quota_used (heap s p) + 1))) p"
    by (subst replicate_Suc [symmetric]) (simp add: nat_diff_distrib' Suc_nat_eq_nat_zadd1)
  ultimately show "remaining (upd p (\<lambda>x. x\<lparr>quota_used := quota_used x + 1\<rparr>) s) (p # ps) =
      (if quota_used (heap s p) < int (quota_gcd (heap s p)) then tl (remaining s (p # ps)) else remaining s (p # ps))"
    by simp
qed

lemma in_round_next:
  assumes "in_round s (p # ps)" and "ps \<noteq> []" and "int (quota_gcd (heap s p)) \<le> quota_used (heap s p)"
  shows "in_round (next_rotating s) ps" "remaining (next_rotating s) ps = remaining s (p # ps)"
proof -
  let ?r = "rotating_pool s"
  have len: "length (active s) = total_pools s" and r: "?r < total_pools s" and l: "Suc (length ps) \<le> total_pools s" using assms(1) by (simp_all add: in_round_def on_circle_def active_def)
  have act: "active (next_rotating s) = active s" by (simp add: next_rotating_def active_def)
  have rot: "rotating_pool (next_rotating s) = Suc ?r mod total_pools s" using r by (auto simp: next_rotating_def mod_Suc)
  have "p # ps = take (Suc (length ps)) (rotate ?r (active s))" using assms(1) by (simp add: in_round_def on_circle_def)
  then have "ps = take (length ps) (tl (rotate ?r (active s)))" by (metis list.sel(3) tl_take diff_Suc_1)
  moreover have "rotate (Suc ?r mod total_pools s) (active s) = tl (rotate ?r (active s)) @ [hd (rotate ?r (active s))]"
  proof -
    have "rotate ?r (active s) \<noteq> []" using r len by (metis length_rotate list.size(3) not_less0)
    then show ?thesis using rotate_conv_mod [of "Suc ?r" "active s"] by (simp add: len rotate1_hd_tl)
  qed
  ultimately have "ps = take (length ps) (rotate (Suc ?r mod total_pools s) (active s))" using l len by simp
  then have "on_circle (next_rotating s) ps" using assms(2) l unfolding on_circle_def act rot by (simp add: next_rotating_def)
  with assms r show "in_round (next_rotating s) ps" unfolding in_round_def act by (auto simp: next_rotating_def)
  show "remaining (next_rotating s) ps = remaining s (p # ps)" using assms(3) by (simp add: remaining_def next_rotating_def)
qed

lemma next_rotating_sel [simp]: "heap (next_rotating s) = heap s" "active (next_rotating s) = active s" "total_pools (next_rotating s) = total_pools s"
  by (simp_all add: next_rotating_def active_def)

text \<open>Scanning finds the head of what remains.\<close>

lemma rotate_scan_round:
  assumes "in_round s ps" and "remaining s ps = x # xs" and "length ps \<le> n"
  shows "\<exists>s' ps'. rotate_scan n s = Inr (Some x, s') \<and> in_round s' ps' \<and> remaining s' ps' = xs \<and> active s' = active s \<and>
    (\<forall>p. quota_gcd (heap s' p) = quota_gcd (heap s p))"
  using assms
proof (induction n arbitrary: s ps)
  case (Suc n)
  then obtain p qs where ps: "ps = p # qs" by (cases ps) (simp_all add: in_round_def on_circle_def)
  note ir = Suc.prems(1) [unfolded ps]
  let ?t = "upd p (\<lambda>x. x\<lparr>quota_used := quota_used x + 1\<rparr>) s"
  note ch = in_round_charge [OF ir]
  have us: "\<not> pool_unusable (heap s p)" using ir in_round_hd(2) [OF ir] by (simp add: in_round_def)
  show ?case
  proof (cases "quota_used (heap s p) < int (quota_gcd (heap s p))")
    case True
    then obtain k where "nat (int (quota_gcd (heap s p)) - quota_used (heap s p)) = Suc k" using not0_implies_Suc by force
    then have "\<exists>ys. remaining s (p # qs) = p # ys" by (simp add: remaining_def)
    then have "x = p" "remaining ?t (p # qs) = xs" using ch(2) True Suc.prems(2) ps by auto
    with True us ch(1) show ?thesis
      by (intro exI [of _ ?t] exI [of _ "p # qs"]) (simp add: in_round_hd(1) [OF ir] Let_def)
  next
    case False
    then have rem: "remaining s (p # qs) = remaining s qs" by (simp add: remaining_def)
    with Suc.prems(2) ps have ne: "qs \<noteq> []" by (auto simp: remaining_def)
    have used: "int (quota_gcd (heap ?t p)) \<le> quota_used (heap ?t p)" using False by simp
    note nx = in_round_next [OF ch(1) ne used]
    have "remaining (next_rotating ?t) qs = x # xs" using nx(2) ch(2) False Suc.prems(2) ps by simp
    moreover have "length qs \<le> n" using Suc.prems(3) ps by simp
    ultimately obtain s' ps' where s': "rotate_scan n (next_rotating ?t) = Inr (Some x, s')" "in_round s' ps'" "remaining s' ps' = xs"
        "active s' = active (next_rotating ?t)" "\<forall>p. quota_gcd (heap s' p) = quota_gcd (heap (next_rotating ?t) p)"
      using Suc.IH [OF nx(1)] by blast
    moreover have "rotate_scan (Suc n) s = rotate_scan n (next_rotating ?t)" using False by (simp add: in_round_hd(1) [OF ir] Let_def)
    ultimately show ?thesis by (intro exI [of _ s'] exI [of _ ps']) simp
  qed
qed (simp add: in_round_def on_circle_def)

lemma select_round:
  assumes ir: "in_round s ps" and rem: "remaining s ps = x # xs"
  shows "\<exists>s' ps'. select_pool s = Inr (x, s') \<and> in_round s' ps' \<and> remaining s' ps' = xs \<and> active s' = active s \<and>
    (\<forall>p. quota_gcd (heap s' p) = quota_gcd (heap s p))"
proof -
  obtain p where p: "p \<in> set ps" "quota_used (heap s p) < int (quota_gcd (heap s p))"
  proof -
    have "x \<in> set (remaining s ps)" using rem by simp
    with that show thesis by (force simp: remaining_def)
  qed
  have "set ps \<subseteq> set (active s)" using ir unfolding in_round_def on_circle_def by (metis set_rotate set_take_subset)
  with p have "start_round s = s" by (auto simp: start_round_def list_ex_iff)
  moreover have "pool_strategy s = POOL_LOADBALANCE" "length ps \<le> total_pools s" using ir by (simp_all add: in_round_def on_circle_def)
  moreover from rotate_scan_round [OF ir rem this(2)] obtain s' ps' where "rotate_scan (total_pools s) s = Inr (Some x, s')" "in_round s' ps'"
      "remaining s' ps' = xs" "active s' = active s" "\<forall>p. quota_gcd (heap s' p) = quota_gcd (heap s p)" by blast
  ultimately show ?thesis by (intro exI [of _ s'] exI [of _ ps']) (simp add: select_pool_def)
qed

lemma selects_round:
  assumes "in_round s ps" and "remaining s ps = xs"
  shows "\<exists>s' ps'. selects (length xs) s = Inr (xs, s') \<and> in_round s' ps' \<and> remaining s' ps' = [] \<and> active s' = active s \<and>
    (\<forall>p. quota_gcd (heap s' p) = quota_gcd (heap s p))"
  using assms
proof (induction xs arbitrary: s ps)
  case (Cons x xs)
  from select_round [OF Cons.prems] obtain t qs where t: "select_pool s = Inr (x, t)" "in_round t qs" "remaining t qs = xs"
    "active t = active s" "\<forall>p. quota_gcd (heap t p) = quota_gcd (heap s p)" by blast
  from Cons.IH [OF t(2,3)] obtain s' ps' where s': "selects (length xs) t = Inr (xs, s')" "in_round s' ps'" "remaining s' ps' = []"
    "active s' = active t" "\<forall>p. quota_gcd (heap s' p) = quota_gcd (heap t p)" by blast
  with t show ?case by (intro exI [of _ s'] exI [of _ ps']) simp
qed auto

lemma count_round: "distinct ps \<Longrightarrow> count_list (concat (map (\<lambda>p. replicate (q p) p) ps)) p = (if p \<in> set ps then q p else 0)"
proof (induction ps)
  case (Cons x ps)
  have "count_list (replicate n x) p = (if x = p then n else 0)" for n by (induction n) auto
  with Cons show ?case by (auto simp: count_list_append)
qed simp

text \<open>A new round: all quotas are free again and the pointer has moved on.\<close>

lemma fresh_round:
  assumes ir: "in_round s ps" and rem: "remaining s ps = []"
  shows "in_round (start_round s) (rotate (rotating_pool (start_round s)) (active s))" "active (start_round s) = active s"
    "\<forall>p \<in> set (active s). quota_used (heap (start_round s) p) = 0" "\<forall>p. quota_gcd (heap (start_round s) p) = quota_gcd (heap s p)"
    "start_round (start_round s) = start_round s \<or> (\<forall>p \<in> set (active s). quota_gcd (heap s p) = 0)"
proof -
  have used: "int (quota_gcd (heap s p)) \<le> quota_used (heap s p)" if "p \<in> set (active s)" for p
  proof (cases "p \<in> set ps")
    case True
    with rem show ?thesis by (auto simp: remaining_def)
  next
    case False
    with that ir show ?thesis by (simp add: in_round_def)
  qed
  let ?t = "fold (\<lambda>p. upd p (\<lambda>x. x\<lparr>quota_used := 0\<rparr>)) (active s) s"
  have "\<not> list_ex (\<lambda>p. quota_used (heap s p) < int (quota_gcd (heap s p))) (active s)" unfolding list_ex_iff using used by (meson not_less)
  then have eq: "start_round s = next_rotating ?t" by (simp add: start_round_def)
  show act: "active (start_round s) = active s" by (simp add: eq)
  have hp: "heap (start_round s) p = (if p \<in> set (active s) then (heap s p)\<lparr>quota_used := 0\<rparr> else heap s p)" for p
    using ir by (simp add: eq fold_upd_heap in_round_def)
  then show "\<forall>p \<in> set (active s). quota_used (heap (start_round s) p) = 0" "\<forall>p. quota_gcd (heap (start_round s) p) = quota_gcd (heap s p)" by simp_all
  have "rotating_pool (start_round s) < total_pools s" using ir by (auto simp: eq next_rotating_def in_round_def)
  moreover have "length (active s) = total_pools s" using ir by (simp add: in_round_def active_def)
  moreover have "active s \<noteq> []" using ir calculation by (auto simp: in_round_def)
  ultimately show "in_round (start_round s) (rotate (rotating_pool (start_round s)) (active s))"
    using ir hp unfolding in_round_def on_circle_def act by (auto simp: eq next_rotating_def pool_unusable_def)
  show "start_round (start_round s) = start_round s \<or> (\<forall>p \<in> set (active s). quota_gcd (heap s p) = 0)"
    using hp by (auto simp: start_round_def [of "start_round s"] act list_ex_iff)
qed

lemma selects_add: "selects (m + n) s = bindR (selects m s) (\<lambda>(xs, s). bindR (selects n s) (\<lambda>(ys, s). Inr (xs @ ys, s)))"
proof (induction m arbitrary: s)
  case 0
  show ?case by (cases "selects n s") auto
next
  case (Suc m)
  show ?case
  proof (cases "select_pool s")
    case (Inr r)
    obtain p t where r: "r = (p, t)" by (cases r) auto
    show ?thesis
    proof (cases "selects m t")
      case (Inr q)
      obtain xs u where q: "q = (xs, u)" by (cases q) auto
      show ?thesis by (cases "selects n u") (auto simp: \<open>select_pool s = Inr r\<close> r Inr q Suc)
    qed (simp add: Inr r Suc)
  qed simp
qed

definition round_length :: "pools_st \<Rightarrow> nat" where
  "round_length s = sum_list (map (\<lambda>p. quota_gcd (heap s p)) (active s))"

lemma remaining_fresh:
  assumes "\<forall>p \<in> set ps. quota_used (heap s p) = 0"
  shows "remaining s ps = concat (map (\<lambda>p. replicate (quota_gcd (heap s p)) p) ps)"
  unfolding remaining_def using assms by (intro arg_cong [of _ _ concat] map_cong) simp_all

text \<open>One full round from its start.\<close>

lemma full_round:
  assumes ir: "in_round s (rotate r (active s))" and free: "\<forall>p \<in> set (active s). quota_used (heap s p) = 0"
  shows "\<exists>xs s' ps'. selects (round_length s) s = Inr (xs, s') \<and> in_round s' ps' \<and> remaining s' ps' = [] \<and> active s' = active s \<and>
    (\<forall>p. quota_gcd (heap s' p) = quota_gcd (heap s p)) \<and> (\<forall>p \<in> set (active s). count_list xs p = quota_gcd (heap s p))"
proof -
  let ?xs = "remaining s (rotate r (active s))"
  have eq: "?xs = concat (map (\<lambda>p. replicate (quota_gcd (heap s p)) p) (rotate r (active s)))" using free by (intro remaining_fresh) simp
  have d: "distinct (active s)" using ir by (simp add: in_round_def)
  have "length ?xs = sum_list (map (\<lambda>p. quota_gcd (heap s p)) (rotate r (active s)))" by (simp add: eq length_concat comp_def)
  also have "\<dots> = round_length s" using d by (simp add: round_length_def sum_list_distinct_conv_sum_set)
  finally have len: "length ?xs = round_length s" .
  have "count_list ?xs p = quota_gcd (heap s p)" if "p \<in> set (active s)" for p
    unfolding eq using count_round [of "rotate r (active s)" "\<lambda>p. quota_gcd (heap s p)" p] d that by simp
  with selects_round [OF ir refl] show ?thesis unfolding len by blast
qed

lemma select_start: "start_round (start_round s) = start_round s \<Longrightarrow> select_pool (start_round s) = select_pool s \<or> pool_strategy s \<noteq> POOL_LOADBALANCE"
proof -
  have "pool_strategy (start_round s) = pool_strategy s" by (simp add: start_round_def next_rotating_def)
  moreover have "currentpool (start_round s) = currentpool s" "total_pools (start_round s) = total_pools s"
    using start_round_same_order [of s] by (simp_all add: same_order_def)
  ultimately show "start_round (start_round s) = start_round s \<Longrightarrow> select_pool (start_round s) = select_pool s \<or> pool_strategy s \<noteq> POOL_LOADBALANCE"
    by (simp add: select_pool_def Let_def)
qed

lemma more_rounds:
  assumes "in_round s ps" and "remaining s ps = []" and "0 < round_length s"
  shows "\<exists>xs s' ps'. selects (k * round_length s) s = Inr (xs, s') \<and> in_round s' ps' \<and> remaining s' ps' = [] \<and> active s' = active s \<and>
    (\<forall>p. quota_gcd (heap s' p) = quota_gcd (heap s p)) \<and> (\<forall>p \<in> set (active s). count_list xs p = k * quota_gcd (heap s p))"
  using assms
proof (induction k arbitrary: s ps)
  case (Suc k)
  let ?t = "start_round s"
  note fr = fresh_round [OF Suc.prems(1,2)]
  have rl: "round_length ?t = round_length s" by (simp add: round_length_def fr(2,4))
  have "\<not> (\<forall>p \<in> set (active s). quota_gcd (heap s p) = 0)"
  proof
    assume "\<forall>p \<in> set (active s). quota_gcd (heap s p) = 0"
    then have "map (\<lambda>p. quota_gcd (heap s p)) (active s) = map (\<lambda>_. 0) (active s)" by simp
    with Suc.prems(3) show False by (simp add: round_length_def)
  qed
  then have "select_pool ?t = select_pool s" using fr(5) select_start [of s] Suc.prems(1) by (auto simp: in_round_def)
  then have sel: "selects (round_length s) ?t = selects (round_length s) s" using Suc.prems(3) by (cases "round_length s") simp_all
  have "in_round ?t (rotate (rotating_pool ?t) (active ?t))" using fr(1,2) by simp
  from full_round [OF this] fr(2,3) obtain xs u qs where u: "selects (round_length s) s = Inr (xs, u)" "in_round u qs" "remaining u qs = []"
      "active u = active s" "\<forall>p. quota_gcd (heap u p) = quota_gcd (heap s p)" "\<forall>p \<in> set (active s). count_list xs p = quota_gcd (heap s p)"
    using fr(4) by (auto simp: rl sel)
  have rlu: "round_length u = round_length s" by (simp add: round_length_def u(4,5))
  from Suc.IH [OF u(2,3)] Suc.prems(3) obtain ys s' ps' where s': "selects (k * round_length s) u = Inr (ys, s')" "in_round s' ps'" "remaining s' ps' = []"
      "active s' = active s" "\<forall>p. quota_gcd (heap s' p) = quota_gcd (heap s p)" "\<forall>p \<in> set (active s). count_list ys p = k * quota_gcd (heap s p)"
    by (auto simp: rlu u(4,5))
  have "selects (Suc k * round_length s) s = Inr (xs @ ys, s')" using u(1) s'(1) by (simp add: selects_add)
  with s' u(6) show ?case by (intro exI [of _ "xs @ ys"] exI [of _ s'] exI [of _ ps']) simp
qed auto

lemma balanced_rounds:
  assumes "ordered s ord" and "pool_strategy s = POOL_LOADBALANCE" and "rotating_pool s < total_pools s"
    and "\<forall>p \<in> set ord. \<not> pool_unusable (heap s p) \<and> quota_used (heap s p) = 0" and "\<exists>p \<in> set ord. 0 < quota_gcd (heap s p)"
  shows "\<exists>xs s'. selects (k * round_length s) s = Inr (xs, s') \<and> (\<forall>p \<in> set ord. count_list xs p = k * quota_gcd (heap s p))"
proof (cases k)
  case 0
  then show ?thesis by simp
next
  case (Suc j)
  have act: "set (active s) = set ord" and len: "length (active s) = total_pools s" using ordered_set [OF assms(1)] active_len(1) [OF assms(1)] by simp_all
  have ne: "active s \<noteq> []" using assms(5) act by auto
  have "on_circle s (rotate (rotating_pool s) (active s))" using ne len by (simp add: on_circle_def)
  then have ir: "in_round s (rotate (rotating_pool s) (active s))"
    using assms(1-4) act by (simp add: in_round_def ordered_def)
  have "0 < round_length s" using assms(5) act unfolding round_length_def neq0_conv [symmetric] sum_list_eq_0_iff by auto
  moreover from full_round [OF ir] assms(4) act obtain xs u ps where u: "selects (round_length s) s = Inr (xs, u)" "in_round u ps" "remaining u ps = []"
      "active u = active s" "\<forall>p. quota_gcd (heap u p) = quota_gcd (heap s p)" "\<forall>p \<in> set (active s). count_list xs p = quota_gcd (heap s p)" by auto
  moreover have rl: "round_length u = round_length s" by (simp add: round_length_def u(4,5))
  ultimately obtain ys s' where "selects (j * round_length s) u = Inr (ys, s')" "\<forall>p \<in> set (active s). count_list ys p = j * quota_gcd (heap s p)"
    using more_rounds [OF u(2,3), of j] by (auto simp: rl u(4,5))
  with u(1,6) show ?thesis unfolding act Suc by (intro exI [of _ "xs @ ys"] exI [of _ s']) (simp add: selects_add)
qed

section \<open>Quotas and their divisor\<close>

lemma gcd_down_spec:
  assumes "0 < g"
  shows "0 < gcd_down q g" "gcd_down q g \<le> g" "gcd_down q g dvd q" "d dvd q \<Longrightarrow> d \<le> g \<Longrightarrow> d \<le> gcd_down q g"
proof -
  have "0 < gcd_down q g \<and> gcd_down q g \<le> g \<and> gcd_down q g dvd q \<and> (\<forall>d. d dvd q \<longrightarrow> d \<le> g \<longrightarrow> d \<le> gcd_down q g)"
    using assms
  proof (induction g)
    case (Suc g)
    show ?case
    proof (cases "q mod Suc g = 0")
      case True
      then have "gcd_down q (Suc g) = Suc g" by (simp add: gcd_down.simps)
      with True show ?thesis by (auto simp: mod_eq_0_iff_dvd)
    next
      case False
      then have "0 < g" by (cases g) simp_all
      with Suc have ih: "0 < gcd_down q g \<and> gcd_down q g \<le> g \<and> gcd_down q g dvd q \<and> (\<forall>d. d dvd q \<longrightarrow> d \<le> g \<longrightarrow> d \<le> gcd_down q g)" by simp
      have eq: "gcd_down q (Suc g) = gcd_down q g" using False gcd_down.simps [of q "Suc g"] by simp
      have "d \<le> gcd_down q g" if "d dvd q" "d \<le> Suc g" for d
      proof -
        have "d \<noteq> Suc g" using that False by (auto simp: mod_eq_0_iff_dvd)
        with that ih show ?thesis by auto
      qed
      with ih show ?thesis unfolding eq by auto
    qed
  qed simp
  then show "0 < gcd_down q g" "gcd_down q g \<le> g" "gcd_down q g dvd q" "d dvd q \<Longrightarrow> d \<le> g \<Longrightarrow> d \<le> gcd_down q g" by blast+
qed

lemma lowest_quota_spec:
  "case lowest_quota qs of None \<Rightarrow> \<forall>q \<in> set qs. q = 0 | Some l \<Rightarrow> l \<in> set qs \<and> 0 < l \<and> (\<forall>q \<in> set qs. q \<noteq> 0 \<longrightarrow> l \<le> q)"
  unfolding lowest_quota_def
  by (induction qs rule: rev_induct) (auto split: option.splits)

lemma gcd_fold_spec:
  assumes "0 < l"
  shows "0 < fold (\<lambda>q g. if q = 0 then g else gcd_down q g) qs l" "fold (\<lambda>q g. if q = 0 then g else gcd_down q g) qs l \<le> l"
    "\<forall>q \<in> set qs. d dvd q \<Longrightarrow> d \<le> l \<Longrightarrow> d \<le> fold (\<lambda>q g. if q = 0 then g else gcd_down q g) qs l"
    "\<forall>q \<in> set qs. l dvd q \<Longrightarrow> fold (\<lambda>q g. if q = 0 then g else gcd_down q g) qs l = l"
proof -
  let ?f = "\<lambda>q g. if q = 0 then g else gcd_down q g"
  have "0 < fold ?f qs l \<and> fold ?f qs l \<le> l \<and> ((\<forall>q \<in> set qs. d dvd q) \<longrightarrow> d \<le> l \<longrightarrow> d \<le> fold ?f qs l)" for d
    using assms
  proof (induction qs arbitrary: l)
    case (Cons q qs)
    have f: "0 < ?f q l" "?f q l \<le> l" using gcd_down_spec(1,2) [OF Cons.prems, of q] Cons.prems by simp_all
    have "d dvd q \<Longrightarrow> d \<le> l \<Longrightarrow> d \<le> ?f q l" using gcd_down_spec(4) [OF Cons.prems] by simp
    with Cons.IH [OF f(1)] f(2) show ?case by (auto simp del: fold_simps simp: fold_simps(2)) 
  qed simp
  then show "0 < fold ?f qs l" "fold ?f qs l \<le> l" "\<forall>q \<in> set qs. d dvd q \<Longrightarrow> d \<le> l \<Longrightarrow> d \<le> fold ?f qs l" 
    "\<forall>q \<in> set qs. l dvd q \<Longrightarrow> fold ?f qs l = l" by (blast intro: le_antisym)+
qed

lemma quotas_gcd_spec:
  "0 < quotas_gcd qs" "q \<in> set qs \<Longrightarrow> q \<noteq> 0 \<Longrightarrow> quotas_gcd qs \<le> q" "q \<in> set qs \<Longrightarrow> q \<noteq> 0 \<Longrightarrow> Gcd (set qs) \<le> quotas_gcd qs"
  "q \<in> set qs \<Longrightarrow> q \<noteq> 0 \<Longrightarrow> \<forall>q' \<in> set qs. q dvd q' \<Longrightarrow> quotas_gcd qs = q"
proof -
  show pos: "0 < quotas_gcd qs"
    using lowest_quota_spec [of qs] gcd_fold_spec(1) by (auto simp: quotas_gcd_def split: option.splits)
  assume q: "q \<in> set qs" "q \<noteq> 0"
  then obtain l where l: "lowest_quota qs = Some l" "l \<in> set qs" "0 < l" "\<forall>q \<in> set qs. q \<noteq> 0 \<longrightarrow> l \<le> q"
    using lowest_quota_spec [of qs] by (auto split: option.splits)
  then have eq: "quotas_gcd qs = fold (\<lambda>q g. if q = 0 then g else gcd_down q g) qs l" by (simp add: quotas_gcd_def)
  show "quotas_gcd qs \<le> q" using gcd_fold_spec(2) [OF l(3), of qs] l(4) q eq by fastforce
  have "Gcd (set qs) dvd l" using l(2) by (rule Gcd_dvd)
  then have "Gcd (set qs) \<le> l" using l(3) by (rule dvd_imp_le)
  then show "Gcd (set qs) \<le> quotas_gcd qs" unfolding eq by (intro gcd_fold_spec(3) [OF l(3)]) (auto intro: Gcd_dvd)
  assume dvd: "\<forall>q' \<in> set qs. q dvd q'"
  then have "q dvd l" using l(2) by blast
  then have "q \<le> l" using l(3) by (rule dvd_imp_le)
  then have "l = q" using l(4) q by (simp add: le_antisym)
  with dvd show "quotas_gcd qs = q" unfolding eq using gcd_fold_spec(4) [OF l(3)] by simp
qed

lemma gcd_fold_dvd:
  assumes "\<exists>q \<in> set qs. q \<noteq> 0" and "0 < l"
  shows "\<exists>q \<in> set qs. q \<noteq> 0 \<and> fold (\<lambda>q g. if q = 0 then g else gcd_down q g) qs l dvd q"
  using assms(1)
proof (induction qs rule: rev_induct)
  case (snoc q qs)
  show ?case
  proof (cases "q = 0")
    case True
    with snoc show ?thesis by auto
  next
    case False
    have "gcd_down q (fold (\<lambda>q g. if q = 0 then g else gcd_down q g) qs l) dvd q"
      using gcd_fold_spec(1) [OF assms(2)] by (rule gcd_down_spec(3))
    with False show ?thesis by simp
  qed
qed simp

text \<open>The quotas divided by the divisor are in the ratio of the quotas just when it is the greatest common one.\<close>

lemma quotas_gcd_exact:
  assumes "\<exists>q \<in> set qs. q \<noteq> 0"
  shows "(\<forall>a \<in> set qs. \<forall>b \<in> set qs. a div quotas_gcd qs * b = b div quotas_gcd qs * a) \<longleftrightarrow> quotas_gcd qs = Gcd (set qs)"
proof -
  let ?g = "quotas_gcd qs"
  obtain l where l: "lowest_quota qs = Some l" "0 < l"
    using lowest_quota_spec [of qs] assms by (cases "lowest_quota qs") auto
  then have "?g = fold (\<lambda>q g. if q = 0 then g else gcd_down q g) qs l" by (simp add: quotas_gcd_def)
  with gcd_fold_dvd [OF assms l(2)] obtain q where q: "q \<in> set qs" "q \<noteq> 0" "?g dvd q" by metis
  have pos: "0 < ?g" by (rule quotas_gcd_spec(1))
  show ?thesis
  proof
    assume ratio: "\<forall>a \<in> set qs. \<forall>b \<in> set qs. a div ?g * b = b div ?g * a"
    have "?g dvd a" if "a \<in> set qs" for a
    proof -
      obtain k where k: "q = ?g * k" using q(3) by blast
      with q(2) have "0 < k" by (cases k) simp_all
      have "a div ?g * q = q div ?g * a" using ratio that q(1) by blast
      then have "k * (?g * (a div ?g)) = k * a" using k pos by (metis mult.assoc mult.commute nonzero_mult_div_cancel_left not_gr_zero)
      with \<open>0 < k\<close> have "?g * (a div ?g) = a" by simp
      then show ?thesis by (metis dvd_triv_left)
    qed
    then have "?g dvd Gcd (set qs)" by (rule Gcd_greatest)
    moreover have "Gcd (set qs) \<noteq> 0" using q by (metis Gcd_dvd dvd_0_left)
    ultimately have "?g \<le> Gcd (set qs)" by (meson dvd_imp_le neq0_conv)
    with quotas_gcd_spec(3) [OF q(1,2)] show "?g = Gcd (set qs)" by simp
  next
    assume eq: "?g = Gcd (set qs)"
    have "a div ?g * b = b div ?g * a" if "a \<in> set qs" "b \<in> set qs" for a b
    proof -
      have "?g dvd a" "?g dvd b" unfolding eq using that by (simp_all add: Gcd_dvd)
      then show ?thesis by (metis div_mult_swap dvd_div_mult mult.commute)
    qed
    then show "\<forall>a \<in> set qs. \<forall>b \<in> set qs. a div ?g * b = b div ?g * a" by blast
  qed
qed

lemma rescaled_0 [simp]: "rescaled 0 a b = 0"
  by (simp add: rescaled_def)

lemma adjust_quota_heap:
  assumes "distinct (active s)"
  shows "heap (adjust_quota_gcd s) p = (if p \<in> set (active s) then (heap s p)\<lparr>
      quota_used := rescaled (quota_used (heap s p)) (global_quota_gcd s) (quotas_gcd (map (\<lambda>p. quota (heap s p)) (active s))),
      quota_gcd := quota (heap s p) div quotas_gcd (map (\<lambda>p. quota (heap s p)) (active s))\<rparr> else heap s p)"
  using assms by (simp add: adjust_quota_gcd_def Let_def fold_upd_heap)

section \<open>Properties\<close>

definition demo_pool :: "int \<Rightarrow> pool" where
  "demo_pool i = \<lparr>pool_no = i, prio = i, p_shares = 0, quota = 1, quota_gcd = 1, quota_used = 0, idle = False, enabled = POOL_ENABLED,
     removed = False, has_stratum = False, p_stratum_active = False, p_stratum_notify = False, sshares = 0, is_nicehash = False\<rparr>"

definition demo_pools :: "pool_strategy \<Rightarrow> nat \<Rightarrow> nat \<Rightarrow> pools_st" where
  "demo_pools strategy n rot = \<lparr>heap = demo_pool, pools = map int [0..<n] @ [garbage, garbage], total_pools = n, currentpool = 0,
     pool_strategy = strategy, rotating_pool = rot, enabled_pools = int n, global_quota_gcd = 1, staged_work = [(7, 0), (8, 1)],
     curr_is_nicehash_pool = False\<rparr>"

lemma active_demo [simp]: "active (demo_pools st n r) = map int [0..<n]"
  by (simp add: active_def demo_pools_def)

lemma demo_pools_ordered: "0 < n \<Longrightarrow> ordered (demo_pools st n r) (map int [0..<n])"
  unfolding ordered_def active_demo by (auto simp: demo_pools_def demo_pool_def distinct_map nth_append garbage_def)

text \<open>C13: Whatever sequence of commands, switches, selections and additions runs, the pools in use keep a strict order of priority from
  0 on, every pool's number is its place in the array, and the current pool is one of them; and in every state so reached no
  switch and no command of the interface leaves the array.\<close>

theorem pools_run_invariant:
  assumes "pool_step\<^sup>*\<^sup>* s s'" and "ordered s ord"
  shows "(\<exists>ord'. ordered s' ord') \<and> \<not> isl (switch_pools None s') \<and> \<not> isl (switchpool param s') \<and> \<not> isl (enablepool param s') \<and>
    \<not> isl (disablepool param s') \<and> \<not> isl (removepool param s') \<and> \<not> isl (poolpriority ids s') \<and> \<not> isl (poolquota param q s')"
proof -
  obtain ord' where o: "ordered s' ord'" using pool_run_ordered [OF assms] by blast
  have sw: "\<not> isl (bindR (switch_pools sel (upd p (\<lambda>x. x\<lparr>enabled := e\<rparr>) s')) (\<lambda>s. Inr (m, s)))" if "sel = None \<or> sel = Some p" "p \<in> set ord'" for sel p e and m :: api_msg
  proof -
    have "ordered (upd p (\<lambda>x. x\<lparr>enabled := e\<rparr>) s') ord'" by (rule upd_ordered [OF _ o]) simp
    from switch_ordered [OF this, of sel] that show ?thesis by auto
  qed
  have "\<not> isl (switchpool param s')" unfolding switchpool_def by (rule command_ordered(2) [OF o]) (simp add: sw)
  moreover have "\<not> isl (enablepool param s')" unfolding enablepool_def by (rule command_ordered(2) [OF o]) (simp add: sw Let_def)
  moreover have "\<not> isl (disablepool param s')" unfolding disablepool_def by (rule command_ordered(2) [OF o]) (simp add: sw Let_def ordered_current [OF o])
  moreover have "\<not> isl (removepool param s')"
  proof -
    obtain t where "switch_pools None s' = Inr t" using switch_ordered [OF o, of None] by auto
    then show ?thesis unfolding removepool_def by (intro command_ordered(2) [OF o]) (simp split: if_split)
  qed
  moreover have "\<not> isl (poolquota param q s')" unfolding poolquota_def by (rule command_ordered(2) [OF o]) simp
  moreover have "\<not> isl (poolpriority ids s')"
  proof (cases "ids = [] \<or> total_pools s' = 0 \<or> isl (parse_prios ids 0 (replicate (total_pools s') None))")
    case True
    then show ?thesis by (auto simp: poolpriority_def Let_def split: sum.split)
  next
    case False
    then obtain np pr where "parse_prios ids 0 (replicate (total_pools s') None) = Inr (np, pr)" "ids \<noteq> []"
      by (cases "parse_prios ids 0 (replicate (total_pools s') None)") auto
    from poolpriority_ordered [OF o this(2,1)] show ?thesis by auto
  qed
  ultimately show ?thesis using o switch_total [OF o, of None] by blast
qed

theorem pools_run_invariant_witness:
  "\<not> isl (switch_pools None (add_pool 9 (demo_pool 9) (demo_pools POOL_FAILOVER 3 0)))"
proof -
  have "pool_step (demo_pools POOL_FAILOVER 3 0) (add_pool 9 (demo_pool 9) (demo_pools POOL_FAILOVER 3 0))"
    by (rule pool_step.add) (auto simp: garbage_def)
  then show ?thesis using pools_run_invariant [OF r_into_rtranclp demo_pools_ordered] by simp
qed

text \<open>C23: A switch goes to the most important pool that can be used, or in the cyclic strategies to the next one in the circle; a
  selected pool becomes the most important one and the others keep their order; staged items of the pool that is left are dropped
  unless several pools are in use at once.  Without a usable pool the current one stays.\<close>

theorem switch_pools_spec:
  assumes "ordered s ord" and "\<And>p. selected = Some p \<Longrightarrow> p \<in> set ord"
  shows "\<exists>s'. switch_pools selected s = Inr s' \<and> ordered s' (reordered selected ord) \<and>
    currentpool s' = switch_target selected s (reordered selected ord) \<and>
    (pool_strategy s \<notin> {POOL_ROUNDROBIN, POOL_ROTATE} \<longrightarrow>
      currentpool s' = (case find (\<lambda>p. \<not> pool_unusable (heap s p)) (reordered selected ord) of Some p \<Rightarrow> p | None \<Rightarrow> currentpool s)) \<and>
    staged_work s' = (if currentpool s' = currentpool s \<or> pool_strategy s \<in> {POOL_LOADBALANCE, POOL_BALANCE} then staged_work s
      else filter (\<lambda>(w, q). q \<noteq> currentpool s) (staged_work s))"
proof -
  obtain s' where s': "switch_pools selected s = Inr s'" "ordered s' (reordered selected ord)"
    "currentpool s' = switch_target selected s (reordered selected ord)"
    "staged_work s' = (if currentpool s' = currentpool s \<or> pool_strategy s \<in> {POOL_LOADBALANCE, POOL_BALANCE} then staged_work s
      else filter (\<lambda>(w, q). q \<noteq> currentpool s) (staged_work s))" using switch_ordered [OF assms] by blast
  have "switch_target selected s (reordered selected ord) =
      (case find (\<lambda>p. \<not> pool_unusable (heap s p)) (reordered selected ord) of Some p \<Rightarrow> p | None \<Rightarrow> currentpool s)"
    if "pool_strategy s \<notin> {POOL_ROUNDROBIN, POOL_ROTATE}" using that by (auto simp: switch_target_def Let_def split: option.splits)
  with s' show ?thesis by metis
qed

theorem switch_pools_spec_witness:
  "\<exists>s'. switch_pools (Some 2) (demo_pools POOL_FAILOVER 3 0) = Inr s' \<and> currentpool s' = 2 \<and> ordered s' [2, 0, 1]"
proof -
  have u: "map int [0..<3] = [0, 1, 2]" by (simp add: upt_rec)
  have o: "ordered (demo_pools POOL_FAILOVER 3 0) [0, 1, 2]" using demo_pools_ordered [of 3 POOL_FAILOVER 0] by (simp add: u)
  from switch_pools_spec [OF o, of "Some 2"] show ?thesis
    by (auto simp: reordered_def demo_pools_def demo_pool_def pool_unusable_def)
qed

text \<open>C34: The priority command accepts just the lists of pool numbers without repetition; it then puts the named pools first, in the
  order given, and the others behind them in their old order.  Otherwise it changes nothing and reports what is wrong with the first
  number that no list of this kind could go on with: it is no pool's, or it was named before.\<close>

theorem poolpriority_spec:
  assumes "ordered s ord" and "ids \<noteq> []"
  shows "if distinct ids \<and> set ids \<subseteq> {0..<int (total_pools s)}
    then \<exists>s'. poolpriority ids s = Inr (MSG_POOLPRIO, s') \<and> ordered s' (named_pools s ids @ filter (\<lambda>p. p \<notin> set (named_pools s ids)) ord)
    else \<exists>pre i post. ids = pre @ i # post \<and> distinct pre \<and> set pre \<subseteq> {0..<int (total_pools s)} \<and>
      (i \<in> set pre \<and> poolpriority ids s = Inr (MSG_DUPPID, s) \<or>
       i \<notin> {0..<int (total_pools s)} \<and> poolpriority ids s = Inr (MSG_INVPID, s))"
proof (cases "parse_prios ids 0 (replicate (total_pools s) None)")
  case (Inl e)
  from parse_prios_err [OF this] obtain pre i post where i: "ids = pre @ i # post" "distinct pre" "set pre \<subseteq> {0..<int (total_pools s)}"
      "i \<notin> {0..<int (total_pools s)} \<and> e = MSG_INVPID \<or> i \<in> set pre \<and> e = MSG_DUPPID"
    by (auto simp: prio_list_def)
  have "total_pools s \<noteq> 0" using assms(1) by (cases "total_pools s") (auto simp: ordered_def active_def)
  then have "poolpriority ids s = Inr (e, s)" using Inl assms(2) by (simp add: poolpriority_def Let_def)
  with i show ?thesis by (auto simp del: atLeastLessThan_iff)
next
  case (Inr r)
  obtain np pr where r: "r = (np, pr)" by (cases r)
  note parse = Inr [unfolded r]
  from poolpriority_ordered [OF assms parse] obtain t s' where t: "ordered t (prio_order s ids ord)" "poolpriority ids s = Inr (MSG_POOLPRIO, s')"
      "s' = t \<or> switch_pools None t = Inr s'" by (auto split: if_splits)
  then have "ordered s' (prio_order s ids ord)" using switch_result [OF t(1), of None] by (auto simp: reordered_def)
  moreover have "distinct ids \<and> set ids \<subseteq> {0..<int (total_pools s)}" using parse_prios_ok(3,4) [OF parse] by auto
  ultimately show ?thesis using t(2) by (simp add: prio_order_def)
qed

theorem poolpriority_spec_witness:
  "(\<exists>s'. poolpriority [0] (demo_pools POOL_FAILOVER 3 0) = Inr (MSG_POOLPRIO, s') \<and> ordered s' [0, 1, 2]) \<and>
   (\<exists>s'. poolpriority [2] (demo_pools POOL_FAILOVER 3 0) = Inr (MSG_POOLPRIO, s') \<and> ordered s' [2, 0, 1]) \<and>
   poolpriority [2, 3] (demo_pools POOL_FAILOVER 3 0) = Inr (MSG_INVPID, demo_pools POOL_FAILOVER 3 0) \<and>
   poolpriority [2, 2] (demo_pools POOL_FAILOVER 3 0) = Inr (MSG_DUPPID, demo_pools POOL_FAILOVER 3 0)"
proof -
  let ?s = "demo_pools POOL_FAILOVER 3 0"
  have u: "map int [0..<3] = [0, 1, 2]" by (simp add: upt_rec)
  have o: "ordered ?s [0, 1, 2]" using demo_pools_ordered [of 3 POOL_FAILOVER 0] by (simp add: u)
  have n: "named_pools ?s [0] = [0]" "named_pools ?s [2] = [2]" "total_pools ?s = 3"
    by (simp_all add: named_pools_def demo_pools_def nth_append)
  have "poolpriority [2, 3] ?s = Inr (MSG_INVPID, ?s)" "poolpriority [2, 2] ?s = Inr (MSG_DUPPID, ?s)"
    using poolpriority_spec [OF o, of "[2, 3]"] poolpriority_spec [OF o, of "[2, 2]"] by (auto simp: n Cons_eq_append_conv)
  then show ?thesis using poolpriority_spec [OF o, of "[0]"] poolpriority_spec [OF o, of "[2]"] by (simp add: n)
qed


text \<open>Two pools with the given quotas.\<close>

definition quota_pools :: "nat \<Rightarrow> nat \<Rightarrow> pools_st" where
  "quota_pools a b = (demo_pools POOL_LOADBALANCE 2 0)\<lparr>heap := \<lambda>i. (demo_pool i)\<lparr>quota := if i = 0 then a else b\<rparr>\<rparr>"

lemma quota_pools_ok: "ordered (quota_pools a b) [0, 1]" "pool_strategy (quota_pools a b) = POOL_LOADBALANCE"
    "rotating_pool (quota_pools a b) < total_pools (quota_pools a b)"
    "\<forall>p \<in> set [0, 1]. \<not> pool_unusable (heap (quota_pools a b) p) \<and> quota_used (heap (quota_pools a b) p) = 0"
    "active (quota_pools a b) = [0, 1]" "quota (heap (quota_pools a b) 0) = a" "quota (heap (quota_pools a b) 1) = b"
  by (simp_all add: quota_pools_def demo_pools_def demo_pool_def pool_unusable_def ordered_def active_def garbage_def upt_rec nth_append less_Suc_eq
      numeral_2_eq_2)


text \<open>The divisor the quotas are reduced by is positive, at most every quota and at least the greatest common divisor, and is that
  divisor when one quota divides all others; in general it is larger and the reduced quotas lose their proportion: quotas of
  4 and 6 give 1 and 2.\<close>

theorem quota_divisor:
  assumes "ordered s ord" and "p \<in> set ord" and "quota (heap s p) \<noteq> 0"
  shows "(let g = global_quota_gcd (adjust_quota_gcd s) in
      0 < g \<and> Gcd (quota ` heap s ` set ord) \<le> g \<and> g \<le> quota (heap s p) \<and>
      (\<forall>q \<in> set ord. quota_gcd (heap (adjust_quota_gcd s) q) = quota (heap s q) div g) \<and>
      ((\<forall>q \<in> set ord. quota (heap s p) dvd quota (heap s q)) \<longrightarrow> (\<forall>q \<in> set ord. quota_gcd (heap (adjust_quota_gcd s) q) * quota (heap s p) = quota (heap s q)))) \<and>
    map (\<lambda>q. q div quotas_gcd [4, 6]) [4, 6] = [1, 2]"
proof -
  have act: "set (active s) = set ord" using ordered_set [OF assms(1)] by simp
  let ?qs = "map (\<lambda>p. quota (heap s p)) (active s)"
  have g: "global_quota_gcd (adjust_quota_gcd s) = quotas_gcd ?qs" by (simp add: adjust_quota_gcd_def Let_def)
  have d: "distinct (active s)" using assms(1) by (simp add: ordered_def)
  have set: "set ?qs = quota ` heap s ` set ord" by (simp add: act image_image)
  have m: "quota (heap s p) \<in> set ?qs" using assms(2) act by simp
  note sp = quotas_gcd_spec(1) [of ?qs] quotas_gcd_spec(2-) [OF m assms(3)]
  have h: "quota_gcd (heap (adjust_quota_gcd s) q) = quota (heap s q) div quotas_gcd ?qs" if "q \<in> set ord" for q
    using that act by (simp add: adjust_quota_heap [OF d])
  have "quota_gcd (heap (adjust_quota_gcd s) q) * quota (heap s p) = quota (heap s q)"
    if "\<forall>q \<in> set ord. quota (heap s p) dvd quota (heap s q)" "q \<in> set ord" for q
    using sp(4) that act h [OF that(2)] by simp
  moreover have "map (\<lambda>q. q div quotas_gcd [4, 6]) [4, 6] = [1, 2]" by code_simp
  ultimately show ?thesis using sp(1-3) h unfolding Let_def g set [symmetric] by blast
qed

theorem quota_divisor_witness: "quota_gcd (heap (adjust_quota_gcd (demo_pools POOL_LOADBALANCE 3 0)) 1) = 1"
proof -
  have u: "map int [0..<3] = [0, 1, 2]" by (simp add: upt_rec)
  have o: "ordered (demo_pools POOL_LOADBALANCE 3 0) [0, 1, 2]" using demo_pools_ordered [of 3 POOL_LOADBALANCE 0] by (simp add: u)
  from quota_divisor [OF o, of 1] show ?thesis by (simp add: demo_pools_def demo_pool_def Let_def)
qed

definition shrink_pools :: "pools_st \<Rightarrow> pool_err + pools_st" where
  "shrink_pools s =
     bindR (removepool (Some 4) s) (\<lambda>(_, s). bindR (removepool (Some 3) s) (\<lambda>(_, s). bindR (removepool (Some 2) s) (\<lambda>(_, s).
       if 9 \<in> set (active s) then Inl BadSlot else Inr (add_pool 9 (demo_pool 9) s))))"

text \<open>The rotating pointer is not adjusted when pools are removed: after three of five pools are gone and one is added, the load
  balancer reads an entry of the array that no longer exists.\<close>

theorem removed_pools_fault:
  "\<exists>s s'. ordered s (map int [0..<5]) \<and> rotating_pool s < total_pools s \<and> pool_step\<^sup>*\<^sup>* s s' \<and> select_pool s' = Inl BadSlot"
proof -
  let ?s = "demo_pools POOL_LOADBALANCE 5 4"
  have "case shrink_pools ?s of Inr s' \<Rightarrow> isl (select_pool s') | _ \<Rightarrow> False" by code_simp
  then obtain s' where s': "shrink_pools ?s = Inr s'" "isl (select_pool s')" by (auto split: sum.splits)
  from s'(1) obtain m1 m2 m3 d1 d2 d3 where "removepool (Some 4) ?s = Inr (m1, d1)" "removepool (Some 3) d1 = Inr (m2, d2)"
      "removepool (Some 2) d2 = Inr (m3, d3)" "9 \<notin> set (active d3)" "s' = add_pool 9 (demo_pool 9) d3"
    by (auto simp: shrink_pools_def bindR_eq_Inr split: if_splits)
  then have "pool_step ?s d1" "pool_step d1 d2" "pool_step d2 d3" "pool_step d3 s'"
    using pool_step.removecmd pool_step.add [of 9 d3] by (blast, blast, blast, simp add: garbage_def)
  then have "pool_step\<^sup>*\<^sup>* ?s s'" by (meson r_into_rtranclp rtranclp_trans)
  moreover have "select_pool s' = Inl BadSlot" using s'(2) by (cases "select_pool s'") (auto intro: pool_err.exhaust)
  moreover have "rotating_pool ?s < total_pools ?s" by (simp add: demo_pools_def)
  ultimately show ?thesis using demo_pools_ordered [of 5] by (intro exI [of _ ?s] exI [of _ s']) simp
qed

end
