(* ===== verification/Json.thy ===== *)
theory Json
  imports Prelude Complex_Main
begin

text \<open>
  JSON values as the program reads them through jansson (compat/jansson-2.9/src/value.c): the accessors
  take a null pointer and a value of the wrong type, and answer with the null pointer, zero or false.
  A \<open>json_t *\<close> is a \<open>json option\<close>.  The keys of an object are unique; strings end at their first NUL.
\<close>

datatype json = JNull | JTrue | JFalse | JString cstr | JInteger int | JReal rat
  | JArray "json list" | JObject "(cstr \<times> json) list"

definition json_object_get :: "json option \<Rightarrow> cstr \<Rightarrow> json option" where
  "json_object_get j key = (case j of Some (JObject kvs) \<Rightarrow> map_of kvs key | _ \<Rightarrow> None)"

definition json_array_size :: "json option \<Rightarrow> nat" where
  "json_array_size j = (case j of Some (JArray xs) \<Rightarrow> length xs | _ \<Rightarrow> 0)"

definition json_array_get :: "json option \<Rightarrow> nat \<Rightarrow> json option" where
  "json_array_get j index = (case j of
     Some (JArray xs) \<Rightarrow> if length xs \<le> index then None else Some (xs ! index) | _ \<Rightarrow> None)"

definition json_string_value :: "json option \<Rightarrow> cstr option" where
  "json_string_value j = (case j of Some (JString s) \<Rightarrow> Some s | _ \<Rightarrow> None)"

definition json_integer_value :: "json option \<Rightarrow> int" where
  "json_integer_value j = (case j of Some (JInteger i) \<Rightarrow> i | _ \<Rightarrow> 0)"

definition json_number_value :: "json option \<Rightarrow> rat" where
  "json_number_value j = (case j of Some (JInteger i) \<Rightarrow> of_int i | Some (JReal r) \<Rightarrow> r | _ \<Rightarrow> 0)"

definition json_is_array :: "json option \<Rightarrow> bool" where
  "json_is_array j = (case j of Some (JArray _) \<Rightarrow> True | _ \<Rightarrow> False)"

definition json_is_null :: "json option \<Rightarrow> bool" where
  "json_is_null j = (j = Some JNull)"

definition json_is_true :: "json option \<Rightarrow> bool" where
  "json_is_true j = (j = Some JTrue)"

definition json_is_false :: "json option \<Rightarrow> bool" where
  "json_is_false j = (j = Some JFalse)"

text \<open>A \<open>long long\<close> stored in an \<open>int\<close>.\<close>

definition c_int :: "int \<Rightarrow> int" where
  "c_int i = sint (word_of_int i :: 32 word)"

text \<open>The string of an array's entry (util.c); the bound lets the index one past the end through to
  \<open>json_array_get\<close>, which refuses it.\<close>

definition raw_array_string :: "json option \<Rightarrow> nat \<Rightarrow> cstr option" where
  "raw_array_string val entry =
     (if json_is_null val then None
      else if \<not> json_is_array val then None
      else if json_array_size val < entry then None
      else json_string_value (json_array_get val entry))"

definition json_array_string :: "json option \<Rightarrow> nat \<Rightarrow> cstr option" where
  "json_array_string val entry = raw_array_string val entry"

lemmas json_defs = json_object_get_def json_array_size_def json_array_get_def json_string_value_def
  json_integer_value_def json_number_value_def json_is_array_def json_is_null_def json_is_true_def
  json_is_false_def

lemma json_array_string_eq: "json_array_string val entry = json_string_value (json_array_get val entry)"
  by (auto simp: json_array_string_def raw_array_string_def json_defs split: option.splits json.splits)

lemma json_array_string_array:
  "json_array_string (Some (JArray xs)) i = Some s \<longleftrightarrow> i < length xs \<and> xs ! i = JString s"
  by (auto simp: json_array_string_eq json_defs split: json.splits)

lemma c_int_small: "- (2 ^ 31) \<le> i \<Longrightarrow> i < 2 ^ 31 \<Longrightarrow> c_int i = i"
  by (simp add: c_int_def signed_of_int signed_take_bit_int_eq_self)

end
