(* ===== verification/Merkle.thy ===== *)
theory Merkle
  imports Sha256 Hexcode Json
begin

text \<open>
  Merkle trees of block templates (cgminer.c): \<open>gbt_merkle_bins\<close> computes, in place in one buffer, the
  branch that connects the coinbase to the root; \<open>__gbt_merkleroot\<close> folds a coinbase with the branch;
  \<open>gbt_witness_data\<close> computes the whole tree of the witness commitment.  The reference is the tree of
  the Bitcoin protocol on a list of hashes.  Transactions without data, and hashes that are not 64
  digits, stop the code where they stop it.
\<close>

section \<open>Hashing\<close>

definition gen_hash :: "sha256_ctx \<Rightarrow> u8 list \<Rightarrow> u8 list" where
  "gen_hash stack data = sha256 stack (sha256 stack data)"

text \<open>Reversing the bytes of words: \<open>flip32\<close> of each word, \<open>swap256\<close> of the words, \<open>swab256\<close> of both.\<close>

fun words_of :: "u8 list \<Rightarrow> u8 list list" where
  "words_of (a # b # c # d # r) = [a, b, c, d] # words_of r"
| "words_of r = []"

definition flip32 :: "u8 list \<Rightarrow> u8 list" where
  "flip32 src = concat (map rev (words_of (take 32 src)))"

definition flip80 :: "u8 list \<Rightarrow> u8 list" where
  "flip80 src = concat (map rev (words_of (take 80 src)))"

definition swap256 :: "u8 list \<Rightarrow> u8 list" where
  "swap256 src = concat (rev (words_of (take 32 src)))"

definition swab256 :: "u8 list \<Rightarrow> u8 list" where
  "swab256 src = concat (rev (map rev (words_of (take 32 src))))"

section \<open>The code\<close>

text \<open>
  The merkle branch of a pool is an array for 16 hashes.  A negative length handed to \<open>hex2bin\<close> and a
  missing string are used as they are by the code.
\<close>

datatype merkle_err = BranchOverflow

record txns =
  t_txn_data :: "cstr option"
  t_transactions :: nat
  t_merkles :: nat
  t_merklebin :: "u8 list"

function pair_hashes :: "sha256_ctx \<Rightarrow> nat \<Rightarrow> nat \<Rightarrow> nat \<Rightarrow> u8 list \<Rightarrow> u8 list" where
  "pair_hashes stack binlen i j hashbin =
     (if j < binlen
      then pair_hashes stack binlen (i + 32) (j + 64)
             (mem_write i (gen_hash stack (take 64 (drop j hashbin))) hashbin)
      else hashbin)"
  by pat_completeness auto
termination by (relation "measure (\<lambda>(_, binlen, _, j, _). binlen - j)") auto

text \<open>One level after the other: the first hash of a level (behind the coinbase's place) joins the branch.\<close>

definition dup_last :: "nat \<Rightarrow> nat \<Rightarrow> u8 list \<Rightarrow> u8 list" where
  "dup_last binleft binlen hashbin =
     (if binleft mod 2 = 1 then mem_write binlen (take 32 (drop (binlen - 32) hashbin)) hashbin else hashbin)"

function branch_loop :: "sha256_ctx \<Rightarrow> nat \<Rightarrow> u8 list \<Rightarrow> 'a txns_scheme \<Rightarrow> merkle_err + 'a txns_scheme" where
  "branch_loop stack binleft hashbin t =
     (if binleft \<le> 1 then Inr t
      else if 16 \<le> t_merkles t then Inl BranchOverflow
      else
        let t = t\<lparr>t_merklebin := mem_write (t_merkles t * 32) (take 32 (drop 32 hashbin)) (t_merklebin t),
                  t_merkles := t_merkles t + 1\<rparr>;
            binlen = 32 * binleft;
            hashbin = dup_last binleft binlen hashbin;
            binlen = 32 * (binleft + binleft mod 2);
            hashbin = pair_hashes stack binlen 32 64 hashbin
        in branch_loop stack ((binleft + binleft mod 2) div 2) hashbin t)"
  by pat_completeness auto
termination
  by (relation "measure (\<lambda>(_, binleft, _, _). binleft)") (simp, clarsimp simp del: One_nat_def, presburger)

declare pair_hashes.simps [simp del] branch_loop.simps [simp del]

text \<open>The data strings of all transactions, or none when one of them has none.\<close>

definition txn_string :: "json option \<Rightarrow> nat \<Rightarrow> string \<Rightarrow> cstr option" where
  "txn_string arr i key = json_string_value (json_object_get (json_array_get arr i) (bytes_of key))"

fun txn_strings :: "json option \<Rightarrow> nat list \<Rightarrow> cstr list option" where
  "txn_strings arr [] = Some []"
| "txn_strings arr (i # is) = (case txn_string arr i ''data'' of None \<Rightarrow> None
     | Some txn \<Rightarrow> map_option ((#) txn) (txn_strings arr is))"

text \<open>The hashes of the transactions written to the buffer, until one is missing or malformed.\<close>

definition txn_id :: "json option \<Rightarrow> nat \<Rightarrow> cstr option" where
  "txn_id arr i = (case txn_string arr i ''txid'' of None \<Rightarrow> txn_string arr i ''hash'' | Some s \<Rightarrow> Some s)"

fun put_txids :: "(nat \<Rightarrow> cstr option) \<Rightarrow> nat \<Rightarrow> nat list \<Rightarrow> u8 list \<Rightarrow> u8 list option" where
  "put_txids id_of base [] hashbin = Some hashbin"
| "put_txids id_of base (i # is) hashbin = (case id_of i of None \<Rightarrow> None
     | Some txid \<Rightarrow> (case hex2bin txid 32 of (ok, binswap) \<Rightarrow>
         if \<not> ok then None
         else put_txids id_of base is (mem_write (base + 32 * i) (swab256 binswap) hashbin)))"

text \<open>
  \<open>alloc\<close> is the stack buffer: \<open>32 * (n + 2)\<close> bytes, the first 32 cleared.  A failure leaves no branch but
  keeps the number of transactions, and the transaction data allocated (its tail not yet written,
  which is not modelled: the prefix copied is kept).
\<close>

fun copied_txns :: "json option \<Rightarrow> nat list \<Rightarrow> cstr" where
  "copied_txns arr [] = []"
| "copied_txns arr (i # is) = (case txn_string arr i ''data'' of None \<Rightarrow> []
     | Some txn \<Rightarrow> txn @ (case txn_id arr i of None \<Rightarrow> []
         | Some txid \<Rightarrow> if fst (hex2bin txid 32) then copied_txns arr is else []))"

definition gbt_merkle_bins :: "sha256_ctx \<Rightarrow> u8 list \<Rightarrow> 'a txns_scheme \<Rightarrow> json option \<Rightarrow> merkle_err + 'a txns_scheme" where
  "gbt_merkle_bins stack alloc t arr =
     (let n = json_array_size arr;
          t = t\<lparr>t_txn_data := None, t_transactions := n, t_merkles := 0\<rparr>;
          hashbin = mem_write 0 (replicate 32 0) (take (32 * (n + 2)) alloc)
      in if n = 0 then Inr t
      else (case txn_strings arr [0..<n] of None \<Rightarrow> Inr t
        | Some _ \<Rightarrow>
            let t = t\<lparr>t_txn_data := Some (copied_txns arr [0..<n])\<rparr>
            in (case put_txids (txn_id arr) 32 [0..<n] hashbin of None \<Rightarrow> Inr t
                | Some hashbin \<Rightarrow> branch_loop stack (n + 1) hashbin t)))"

fun fold_branch :: "sha256_ctx \<Rightarrow> u8 list \<Rightarrow> u8 list list \<Rightarrow> u8 list" where
  "fold_branch stack sha [] = sha"
| "fold_branch stack sha (b # bs) = fold_branch stack (gen_hash stack (sha @ b)) bs"

definition gbt_branch :: "'a txns_scheme \<Rightarrow> u8 list list" where
  "gbt_branch t = map (\<lambda>i. take 32 (drop (i * 32) (t_merklebin t))) [0..<t_merkles t]"

definition gbt_merkleroot :: "sha256_ctx \<Rightarrow> 'a txns_scheme \<Rightarrow> u8 list \<Rightarrow> u8 list" where
  "gbt_merkleroot stack t coinbase = fold_branch stack (gen_hash stack coinbase) (gbt_branch t)"

text \<open>The witness tree runs over the whole buffer; input and output of the first pair overlap.\<close>

function witness_pairs :: "sha256_ctx \<Rightarrow> nat \<Rightarrow> nat \<Rightarrow> u8 list \<Rightarrow> u8 list" where
  "witness_pairs stack txncount i hashbin =
     (if i < txncount
      then witness_pairs stack txncount (i + 2)
             (mem_write (32 * (i div 2)) (gen_hash stack (take 64 (drop (32 * i) hashbin))) hashbin)
      else hashbin)"
  by pat_completeness auto
termination by (relation "measure (\<lambda>(_, n, i, _). n - i)") auto

function witness_loop :: "sha256_ctx \<Rightarrow> nat \<Rightarrow> u8 list \<Rightarrow> u8 list" where
  "witness_loop stack txncount hashbin =
     (if 1 < txncount
      then let hashbin = dup_last txncount (32 * txncount) hashbin;
               txncount = txncount + txncount mod 2
           in witness_loop stack (txncount div 2) (witness_pairs stack txncount 0 hashbin)
      else hashbin)"
  by pat_completeness auto
termination
  by (relation "measure (\<lambda>(_, n, _). n)") (simp, clarsimp simp del: One_nat_def, presburger)

declare witness_pairs.simps [simp del] witness_loop.simps [simp del]

definition witness_header :: "u8 list" where
  "witness_header = [0xaa, 0x21, 0xa9, 0xed]"

definition gbt_witness_data :: "sha256_ctx \<Rightarrow> u8 list \<Rightarrow> json option \<Rightarrow> nat \<Rightarrow> u8 list option" where
  "gbt_witness_data stack alloc arr avail_size =
     (let n = json_array_size arr;
          hashbin = mem_write 0 (replicate 32 0) (take (32 * (n + 2)) alloc)
      in if avail_size < length witness_header + 32 then None
      else (case put_txids (\<lambda>i. txn_string arr i ''hash'') 32 [0..<n] hashbin of None \<Rightarrow> None
        | Some hashbin \<Rightarrow>
            let hashbin = witness_loop stack (n + 1) hashbin;
                hashbin = mem_write 32 (replicate 32 0) hashbin
            in Some (witness_header @ gen_hash stack (take 64 hashbin))))"

section \<open>The reference\<close>

text \<open>Pairs of a level are hashed together; the last hash of an odd level is paired with itself.\<close>

fun tree_level :: "(u8 list \<Rightarrow> u8 list) \<Rightarrow> u8 list list \<Rightarrow> u8 list list" where
  "tree_level H [] = []"
| "tree_level H [a] = [H (a @ a)]"
| "tree_level H (a # b # r) = H (a @ b) # tree_level H r"

lemma length_tree_level [simp]: "length (tree_level H xs) = (length xs + 1) div 2"
  by (induction H xs rule: tree_level.induct) auto

fun tree_root :: "(u8 list \<Rightarrow> u8 list) \<Rightarrow> u8 list list \<Rightarrow> u8 list" where
  "tree_root H [] = []"
| "tree_root H [a] = a"
| "tree_root H (a # b # r) = tree_root H (tree_level H (a # b # r))"

text \<open>The branch of the first leaf: its sibling on every level.\<close>

fun tree_branch :: "(u8 list \<Rightarrow> u8 list) \<Rightarrow> u8 list list \<Rightarrow> u8 list list" where
  "tree_branch H [] = []"
| "tree_branch H (t # ts) = t # tree_branch H (tree_level H ts)"

lemma tree_branch_root: "foldl (\<lambda>c b. H (c @ b)) c (tree_branch H ts) = tree_root H (c # ts)"
  by (induction H ts arbitrary: c rule: tree_branch.induct) simp_all

lemma tree_level_dup: "odd (length xs) \<Longrightarrow> tree_level H (xs @ [last xs]) = tree_level H xs"
  by (induction H xs rule: tree_level.induct) auto

lemma length_tree_branch: "length ts < 2 ^ n \<Longrightarrow> length (tree_branch H ts) \<le> n"
proof (induction H ts arbitrary: n rule: tree_branch.induct)
  case (2 H t ts)
  then obtain m where m: "n = Suc m" by (cases n) auto
  with 2(2) have "length (tree_level H ts) < 2 ^ m" by simp
  from 2(1) [OF this] m show ?case by simp
qed simp

locale tree_hash =
  fixes H :: "u8 list \<Rightarrow> u8 list"
  assumes length_H [simp]: "length (H x) = 32"
begin

lemma level_lengths: "\<forall>h \<in> set (tree_level H xs). length h = 32"
  by (induction xs rule: induct_list012) simp_all

lemma branch_lengths: "\<forall>h \<in> set ts. length h = 32 \<Longrightarrow> \<forall>h \<in> set (tree_branch H ts). length h = 32"
proof (induction n \<equiv> "length ts" arbitrary: ts rule: less_induct)
  case less
  show ?case
  proof (cases ts)
    case (Cons t us)
    then have "length (tree_level H us) < length ts" by simp
    from less(1) [OF this] level_lengths Cons less(2) show ?thesis by simp
  qed simp
qed

end

definition dsha :: "u8 list \<Rightarrow> u8 list" where
  "dsha M = fips_sha256 (fips_sha256 M)"

lemma length_fips_bytes [simp]: "length (fips_bytes v) = 32"
  by (cases v rule: fips_bytes.cases) (simp add: be_nat_bytes_unat UNPACK32_def)

lemma length_fips_sha256 [simp]: "length (fips_sha256 M) = 32"
  by (simp add: fips_sha256_def)

interpretation dtree: tree_hash dsha
  by unfold_locales (simp add: dsha_def)

lemma sha256_fips:
  assumes "length (ctx_block stack) = 128" and "length M < 2 ^ 29"
  shows "sha256 stack M = fips_sha256 M"
proof -
  have "ctx_rep (foldl sha256_update (sha256_init stack) [M]) ([] @ concat [M])"
    by (rule ctx_rep_updates [OF ctx_rep_init]) (use assms in simp_all)
  then have "ctx_rep (sha256_update (sha256_init stack) M) M" by simp
  from ctx_rep_final [OF this] assms(2) show ?thesis by (simp add: sha256_def)
qed

lemma gen_hash_dsha:
  "length (ctx_block stack) = 128 \<Longrightarrow> length M < 2 ^ 29 \<Longrightarrow> gen_hash stack M = dsha M"
  by (simp add: gen_hash_def dsha_def sha256_fips)

section \<open>Levels in the buffer\<close>

lemma length_concat32: "\<forall>h \<in> set ts. length h = 32 \<Longrightarrow> length (concat ts) = 32 * length ts"
  by (induction ts) simp_all

lemma drop_mem_write:
  "off + length xs \<le> n \<Longrightarrow> off \<le> length mem \<Longrightarrow> drop n (mem_write off xs mem) = drop n mem"
  by (simp add: mem_write_def drop_drop add.commute)

lemma pair_hashes_level:
  assumes stk: "length (ctx_block stack) = 128"
  shows "even (length L) \<Longrightarrow> \<forall>h \<in> set L. length h = 32 \<Longrightarrow> i \<le> j \<Longrightarrow> binlen = j + 32 * length L \<Longrightarrow>
    binlen \<le> length hb \<Longrightarrow> take (32 * length L) (drop j hb) = concat L \<Longrightarrow>
    length (pair_hashes stack binlen i j hb) = length hb \<and>
    take (i + 16 * length L) (pair_hashes stack binlen i j hb) = take i hb @ concat (tree_level dsha L)"
proof (induction L arbitrary: i j hb rule: induct_list012)
  case 1
  then show ?case by (simp add: pair_hashes.simps)
next
  case (3 a b r)
  define hb' where "hb' = mem_write i (dsha (a @ b)) hb"
  have ab: "take 64 (drop j hb) = a @ b"
  proof -
    have "take 64 (drop j hb) = take 64 (take (32 * length (a # b # r)) (drop j hb))" by simp
    also have "\<dots> = a @ b" unfolding "3.prems"(6) using "3.prems"(2) by simp
    finally show ?thesis .
  qed
  have fit: "i + length (dsha (a @ b)) \<le> length hb" using "3.prems" by simp
  have step: "pair_hashes stack binlen i j hb = pair_hashes stack binlen (i + 32) (j + 64) hb'"
    using "3.prems"(2,4) by (simp add: pair_hashes.simps [of _ _ i] ab gen_hash_dsha [OF stk] hb'_def)
  have rest: "take (32 * length r) (drop (j + 64) hb') = concat r"
  proof -
    have "drop (j + 64) hb' = drop (j + 64) hb"
      unfolding hb'_def by (rule drop_mem_write) (use "3.prems" in simp_all)
    also have "take (32 * length r) \<dots> = drop 64 (take (32 * length (a # b # r)) (drop j hb))"
      by (simp add: drop_take add.commute)
    also have "\<dots> = concat r" unfolding "3.prems"(6) using "3.prems"(2) by simp
    finally show ?thesis .
  qed
  have len: "length hb' = length hb" unfolding hb'_def by (rule length_mem_write [OF fit])
  have hd: "take (i + 32) hb' = take i hb @ dsha (a @ b)"
    using take_mem_write [OF fit] by (simp add: hb'_def)
  have "length (pair_hashes stack binlen (i + 32) (j + 64) hb') = length hb' \<and>
    take (i + 32 + 16 * length r) (pair_hashes stack binlen (i + 32) (j + 64) hb') =
      take (i + 32) hb' @ concat (tree_level dsha r)"
    by (rule "3.IH"(1)) (use "3.prems" rest len in simp_all)
  then show ?case by (simp add: step len hd add.assoc)
qed simp

lemma dup_last_level:
  assumes "take (32 * length ts) (drop off hb) = concat ts" and "\<forall>h \<in> set ts. length h = 32"
    and "binleft * 32 = off + 32 * length ts" and "off + 32 * length ts + 32 \<le> length hb" and "ts \<noteq> []"
  shows "length (dup_last binleft (32 * binleft) hb) = length hb \<and>
    take off (dup_last binleft (32 * binleft) hb) = take off hb \<and>
    take (32 * length (if odd binleft then ts @ [last ts] else ts)) (drop off (dup_last binleft (32 * binleft) hb)) =
      concat (if odd binleft then ts @ [last ts] else ts)"
proof (cases "odd binleft")
  case True
  have last: "take 32 (drop (32 * binleft - 32) hb) = last ts"
  proof -
    have split: "ts = butlast ts @ [last ts]" using assms(5) by simp
    have l32: "length (last ts) = 32" and bl: "\<forall>h \<in> set (butlast ts). length h = 32"
      using assms(2,5) by (auto dest: in_set_butlastD)
    have len: "length (concat (butlast ts)) = 32 * (length ts - 1)"
      using length_concat32 [OF bl] by simp
    have "32 * binleft - 32 = off + 32 * (length ts - 1)" using assms(3,5) by (cases ts) auto
    then have "take 32 (drop (32 * binleft - 32) hb) =
        drop (32 * (length ts - 1)) (take (32 * length ts) (drop off hb))"
      using assms(5) by (cases ts) (simp_all add: drop_take add.commute)
    also have "\<dots> = drop (length (concat (butlast ts))) (concat (butlast ts @ [last ts]))"
      unfolding assms(1) len using split by simp
    finally show ?thesis by simp
  qed
  have fit: "32 * binleft + length (last ts) \<le> length hb" using assms by simp
  have d: "dup_last binleft (32 * binleft) hb = mem_write (32 * binleft) (last ts) hb"
    using True last by (simp add: dup_last_def odd_iff_mod_2_eq_one)
  have t: "take (32 * binleft + 32) (mem_write (32 * binleft) (last ts) hb) = take (32 * binleft) hb @ last ts"
    using take_mem_write [OF fit] assms(2,5) by simp
  have "take (32 * length ts + 32) (drop off (mem_write (32 * binleft) (last ts) hb)) =
      drop off (take (32 * binleft + 32) (mem_write (32 * binleft) (last ts) hb))"
    using assms(3) by (simp add: take_drop add.commute add.left_commute mult.commute)
  also have "\<dots> = drop off (take (32 * binleft) hb) @ last ts"
    unfolding t using assms(3,4) by simp
  also have "drop off (take (32 * binleft) hb) = concat ts"
    unfolding assms(1) [symmetric] using assms(3) by (simp add: take_drop add.commute mult.commute)
  finally have "take (32 * length ts + 32) (drop off (mem_write (32 * binleft) (last ts) hb)) = concat ts @ last ts" .
  moreover have "take off (mem_write (32 * binleft) (last ts) hb) = take off hb"
    using assms(3,4) by (simp add: mem_write_def)
  ultimately show ?thesis using True d length_mem_write [OF fit] by (simp add: add.commute)
qed (use assms in \<open>simp add: dup_last_def even_iff_mod_2_eq_zero\<close>)

definition even_level :: "u8 list list \<Rightarrow> u8 list list" where
  "even_level ls = (if odd (length ls) then ls @ [last ls] else ls)"

lemma even_even_level: "even (length (even_level ls))"
  by (simp add: even_level_def)

lemma length_even_level: "length (even_level ls) = length ls + length ls mod 2"
  by (simp add: even_level_def odd_iff_mod_2_eq_one)

lemma even_level_lengths: "\<forall>h \<in> set ls. length h = 32 \<Longrightarrow> \<forall>h \<in> set (even_level ls). length h = 32"
  by (cases ls rule: rev_cases) (simp_all add: even_level_def)

lemmas even_level_simps = even_even_level even_level_lengths length_even_level

lemma tree_level_even: "tree_level H (even_level ls) = tree_level H ls"
  by (simp add: even_level_def tree_level_dup)

lemma mod_up: "n + 1 + (n + 1) mod 2 \<le> n + (2 :: nat)"
  by simp

lemma half_up: "(k + 2 + k mod 2) div 2 = (k + 1) div 2 + (1 :: nat)"
  by (cases "even k") (auto elim!: evenE oddE)

lemma double_up: "16 * (k + k mod 2) = 32 * ((k + 1) div (2 :: nat))"
  by (cases "even k") (auto elim!: evenE oddE)

lemma gbt_branch_snoc:
  assumes "length x = 32" and "t_merkles t < 16" and "length (t_merklebin t) = 512"
  shows "gbt_branch (t\<lparr>t_merklebin := mem_write (t_merkles t * 32) x (t_merklebin t), t_merkles := t_merkles t + 1\<rparr>) =
    gbt_branch t @ [x]"
proof -
  define m where "m = t_merkles t"
  have fit: "m * 32 + length x \<le> length (t_merklebin t)" using assms by (simp add: m_def)
  have old: "take 32 (drop (i * 32) (mem_write (m * 32) x (t_merklebin t))) = take 32 (drop (i * 32) (t_merklebin t))"
    if "i < m" for i
  proof -
    have "take 32 (drop (i * 32) (mem_write (m * 32) x (t_merklebin t))) =
        take 32 (drop (i * 32) (take (m * 32) (mem_write (m * 32) x (t_merklebin t))))"
      using that by (simp add: drop_take)
    also have "take (m * 32) (mem_write (m * 32) x (t_merklebin t)) = take (m * 32) (t_merklebin t)"
      using fit by (simp add: mem_write_def)
    finally show ?thesis using that by (simp add: drop_take)
  qed
  have new: "take 32 (drop (m * 32) (mem_write (m * 32) x (t_merklebin t))) = x"
    using assms(1) fit by (simp add: mem_write_def)
  show ?thesis by (simp add: gbt_branch_def m_def [symmetric] old new cong: map_cong)
qed

lemma branch_loop_spec:
  assumes stk: "length (ctx_block stack) = 128"
  shows "take (32 * length ts) (drop 32 hb) = concat ts \<Longrightarrow> \<forall>h \<in> set ts. length h = 32 \<Longrightarrow>
    32 * (length ts + 2) \<le> length hb \<Longrightarrow> length (t_merklebin t) = 512 \<Longrightarrow>
    (if t_merkles t + length (tree_branch dsha ts) \<le> 16 \<or> ts = []
     then \<exists>t'. branch_loop stack (length ts + 1) hb t = Inr t' \<and>
       gbt_branch t' = gbt_branch t @ tree_branch dsha ts \<and> length (t_merklebin t') = 512 \<and>
       txns.more t' = txns.more t \<and> t_transactions t' = t_transactions t \<and> t_txn_data t' = t_txn_data t
     else branch_loop stack (length ts + 1) hb t = Inl BranchOverflow)"
proof (induction n \<equiv> "length ts" arbitrary: ts hb t rule: less_induct)
  case less
  show ?case
  proof (cases ts)
    case Nil
    then show ?thesis using less(5) by (simp add: branch_loop.simps)
  next
    case (Cons u us)
    let ?n = "length ts + 1" and ?us = "tree_level dsha us" and ?t' = "t\<lparr>t_merklebin := mem_write (t_merkles t * 32) u (t_merklebin t), t_merkles := t_merkles t + 1\<rparr>"
    define hb1 where "hb1 = dup_last ?n (32 * ?n) hb"
    define hb2 where "hb2 = pair_hashes stack (32 * (?n + ?n mod 2)) 32 64 hb1"
    have u: "take 32 (drop 32 hb) = u" and ulen: "length u = 32"
    proof -
      have "take 32 (drop 32 hb) = take 32 (take (32 * length ts) (drop 32 hb))" using Cons by simp
      also have "\<dots> = u" unfolding less(2) using less(3) Cons by simp
      finally show "take 32 (drop 32 hb) = u" .
      show "length u = 32" using less(3) Cons by simp
    qed
    have dup: "length hb1 = length hb \<and> take (32 * length (if odd ?n then ts @ [last ts] else ts)) (drop 32 hb1) =
        concat (if odd ?n then ts @ [last ts] else ts)"
      unfolding hb1_def using dup_last_level [OF less(2,3), of ?n] less(4) Cons by simp
    have ev: "(if odd ?n then ts @ [last ts] else ts) = u # even_level us"
      using Cons by (cases us rule: rev_cases) (auto simp: even_level_def)
    have us32: "\<forall>h \<in> set us. length h = 32" using less(3) Cons by simp
    note el = even_level_simps [of us]
    have m2: "length us mod 2 = ?n mod 2" using Cons by simp
    have dropped: "take (32 * length (even_level us)) (drop 64 hb1) = concat (even_level us)"
    proof -
      have "take (32 * length (even_level us)) (drop 64 hb1) =
          drop 32 (take (32 * length (u # even_level us)) (drop 32 hb1))"
        by (simp add: drop_take)
      then show ?thesis using dup ulen unfolding ev by simp
    qed
    have nus: "?n = length us + 2" using Cons by simp
    have bl: "32 * (?n + ?n mod 2) = 64 + 32 * length (even_level us)"
      unfolding el(3) m2 nus by simp
    have "?n + ?n mod 2 \<le> length ts + 2" by (rule mod_up)
    from mult_le_mono2 [OF this, of 32] less(4) have "32 * (?n + ?n mod 2) \<le> length hb1"
      unfolding conjunct1 [OF dup] by (rule le_trans)
    then have pairs: "length hb2 = length hb1 \<and>
        take (32 + 16 * length (even_level us)) hb2 = take 32 hb1 @ concat (tree_level dsha (even_level us))"
      unfolding hb2_def
      by (intro pair_hashes_level [OF stk el(1) el(2) [OF us32] _ bl _ dropped]) simp_all
    have n': "(?n + ?n mod 2) div 2 = length ?us + 1"
      unfolding m2 [symmetric] using half_up [of "length us"] Cons by simp
    show ?thesis
    proof (cases "t_merkles t < 16")
      case False
      then show ?thesis using Cons by (simp add: branch_loop.simps)
    next
      case True
      have "\<not> ?n \<le> 1" "\<not> 16 \<le> t_merkles t" using Cons True by simp_all
      then have "branch_loop stack ?n hb t = branch_loop stack ((?n + ?n mod 2) div 2) hb2 ?t'"
        by (simp only: branch_loop.simps [of stack ?n] u Let_def hb1_def hb2_def if_False)
      then have step: "branch_loop stack ?n hb t = branch_loop stack (length ?us + 1) hb2 ?t'" unfolding n' .
      have lev: "take (32 * length ?us) (drop 32 hb2) = concat ?us"
      proof -
        have "16 * length (even_level us) = 32 * length ?us" using el(3) double_up [of "length us"] by simp
        then have "take (32 + 32 * length ?us) hb2 = take 32 hb1 @ concat ?us"
          using pairs by (simp add: tree_level_even)
        then have "drop 32 (take (32 + 32 * length ?us) hb2) = concat ?us" using dup less(4) by simp
        then show ?thesis by (simp add: drop_take)
      qed
      have br: "gbt_branch ?t' = gbt_branch t @ [u]" by (rule gbt_branch_snoc [OF ulen True less(5)])
      have mb: "length (t_merklebin ?t') = 512" using True less(5) ulen by simp
      have room: "32 * (length ?us + 2) \<le> length hb2" using pairs dup less(4) Cons by simp
      have shorter: "length ?us < length ts" using Cons by simp
      define t1 where "t1 = ?t'"
      note ih = less(1) [OF shorter lev dtree.level_lengths room mb, folded t1_def]
      have t1: "t_merkles t1 = t_merkles t + 1" "txns.more t1 = txns.more t" "t_transactions t1 = t_transactions t"
        "t_txn_data t1 = t_txn_data t"
        by (simp_all add: t1_def)
      from ih show ?thesis unfolding Cons tree_branch.simps
        using step [folded t1_def] br [folded t1_def] t1 Cons True
        by (cases "?us = []") (simp_all split: if_splits)
    qed
  qed
qed

section \<open>Transactions in the buffer\<close>

lemma concat_words_of: "length x = 4 * n \<Longrightarrow> concat (words_of x) = x"
proof (induction n arbitrary: x)
  case (Suc n)
  then obtain a b c d r where "x = a # b # c # d # r" by (cases x rule: words_of.cases) auto
  with Suc show ?case by simp
qed simp

lemma words_of_append: "length x = 4 * n \<Longrightarrow> words_of (x @ y) = words_of x @ words_of y"
proof (induction n arbitrary: x)
  case (Suc n)
  then obtain a b c d r where "x = a # b # c # d # r" by (cases x rule: words_of.cases) auto
  with Suc show ?case by simp
qed simp

text \<open>Flipping the words of a buffer of whole words.\<close>

definition flip_words :: "u8 list \<Rightarrow> u8 list" where
  "flip_words x = concat (map rev (words_of x))"

lemma flip_words_append: "length x = 4 * n \<Longrightarrow> flip_words (x @ y) = flip_words x @ flip_words y"
  by (simp add: flip_words_def words_of_append)

lemma flip_words_word: "length x = 4 \<Longrightarrow> flip_words x = rev x"
  by (auto simp: flip_words_def length_4_cases)

lemma flip_words_length: "length x = 4 * n \<Longrightarrow> length (flip_words x) = 4 * n"
proof (induction n arbitrary: x)
  case (Suc n)
  then obtain a b c d r where "x = a # b # c # d # r" by (cases x rule: words_of.cases) auto
  with Suc show ?case by (simp add: flip_words_def)
qed (simp add: flip_words_def)

lemma flip_words_flip: "length x = 4 * n \<Longrightarrow> flip_words (flip_words x) = x"
proof (induction n arbitrary: x)
  case (Suc n)
  then obtain a b c d r where "x = a # b # c # d # r" by (cases x rule: words_of.cases) auto
  with Suc show ?case by (simp add: flip_words_def)
qed (simp add: flip_words_def)

lemma flip_words_eqs: "flip32 x = flip_words (take 32 x)" "flip80 x = flip_words (take 80 x)"
  by (simp_all add: flip32_def flip80_def flip_words_def)

lemma swab256_rev: "length x = 32 \<Longrightarrow> swab256 x = rev x"
  using concat_words_of [of x 8] rev_concat [of "words_of x"] by (simp add: swab256_def rev_map)

text \<open>Hashes are shown as the digits of their bytes in reverse.\<close>

definition shown :: "cstr option \<Rightarrow> u8 list \<Rightarrow> bool" where
  "shown t h = (case t of None \<Rightarrow> False | Some s \<Rightarrow> hex2bin s 32 = (True, rev h))"

lemma shown_Some: "shown t h \<longleftrightarrow> (\<exists>s. t = Some s \<and> hex2bin s 32 = (True, rev h))"
  by (cases t) (simp_all add: shown_def)

lemma shown_length: "shown t h \<Longrightarrow> length h = 32"
  by (auto simp: shown_Some dest!: hex_text_hex2bin)

lemma put_txids_spec:
  "list_all2 (\<lambda>i h. shown (id_of i) h) [k..<k + length hs] hs \<Longrightarrow> base + 32 * (k + length hs) \<le> length hb \<Longrightarrow>
    \<exists>hb'. put_txids id_of base [k..<k + length hs] hb = Some hb' \<and> length hb' = length hb \<and>
      take (base + 32 * (k + length hs)) hb' = take (base + 32 * k) hb @ concat hs"
proof (induction hs arbitrary: k hb)
  case (Cons h hs)
  have split: "[k..<k + length (h # hs)] = k # [Suc k..<Suc k + length hs]"
    by (simp add: upt_rec)
  have h: "shown (id_of k) h" and rest: "list_all2 (\<lambda>i h. shown (id_of i) h) [Suc k..<Suc k + length hs] hs"
    using Cons.prems(1) unfolding split by simp_all
  from h obtain s where s: "id_of k = Some s" "hex2bin s 32 = (True, rev h)" by (auto simp: shown_Some)
  have h32: "length h = 32" using h by (rule shown_length)
  define hb1 where "hb1 = mem_write (base + 32 * k) h hb"
  have fit: "base + 32 * k + length h \<le> length hb" using Cons.prems(2) h32 by simp
  have len: "length hb1 = length hb" unfolding hb1_def by (rule length_mem_write [OF fit])
  have tk: "take (base + 32 * Suc k) hb1 = take (base + 32 * k) hb @ h"
    using take_mem_write [OF fit] h32 by (simp add: hb1_def add.commute add.left_commute)
  have "base + 32 * (Suc k + length hs) \<le> length hb1" using Cons.prems(2) len by simp
  from Cons.IH [OF rest this] obtain hb' where "put_txids id_of base [Suc k..<Suc k + length hs] hb1 = Some hb'"
    "length hb' = length hb1" "take (base + 32 * (Suc k + length hs)) hb' = take (base + 32 * Suc k) hb1 @ concat hs"
    by blast
  then show ?case unfolding split using s h32 len tk by (simp add: swab256_rev hb1_def)
qed simp

lemma put_txids_None:
  "i \<in> set is \<Longrightarrow> \<not> (\<exists>h. shown (id_of i) h) \<Longrightarrow> put_txids id_of base is hb = None"
proof (induction "is" arbitrary: hb)
  case (Cons j js)
  have "fst (hex2bin s 32) \<longrightarrow> shown (Some s) (rev (snd (hex2bin s 32)))" for s
    by (cases "hex2bin s 32") (simp add: shown_def)
  with Cons show ?case by (auto split: option.splits prod.splits) force
qed simp

lemma txn_strings_Some: "\<forall>i \<in> set is. txn_string arr i ''data'' \<noteq> None \<Longrightarrow> txn_strings arr is \<noteq> None"
  by (induction "is") auto

lemma list_all2_upt: "length hs = n \<Longrightarrow> (\<forall>i < n. P i (hs ! i)) \<Longrightarrow> list_all2 P [0..<n] hs"
  by (simp add: list_all2_conv_all_nth)

section \<open>The branch and the root\<close>

lemma fold_branch_dsha:
  "length (ctx_block stack) = 128 \<Longrightarrow> length c = 32 \<Longrightarrow> \<forall>b \<in> set bs. length b = 32 \<Longrightarrow>
    fold_branch stack c bs = foldl (\<lambda>c b. dsha (c @ b)) c bs"
  by (induction bs arbitrary: c) (simp_all add: gen_hash_dsha)

definition stack_ok :: "sha256_ctx \<Rightarrow> bool" where
  "stack_ok stack \<longleftrightarrow> length (ctx_block stack) = 128"

text \<open>A template whose transactions have these hashes.\<close>

definition template :: "json option \<Rightarrow> (nat \<Rightarrow> cstr option) \<Rightarrow> u8 list list \<Rightarrow> bool" where
  "template arr id_of ids \<longleftrightarrow> json_array_size arr = length ids \<and> (\<forall>i < length ids. shown (id_of i) (ids ! i))"

lemma copied_txns_all:
  "\<forall>i \<in> set is. txn_string arr i ''data'' \<noteq> None \<and> (\<exists>h. shown (txn_id arr i) h) \<Longrightarrow>
    copied_txns arr is = concat (map (\<lambda>i. the (txn_string arr i ''data'')) is)"
  by (induction "is") (auto simp: shown_Some)

lemma gbt_merkle_bins_branch:
  assumes "stack_ok stack" and "template arr (txn_id arr) ids" and "length alloc = 32 * (length ids + 2)"
    and "\<forall>i < length ids. txn_string arr i ''data'' \<noteq> None" and "length (t_merklebin t) = 512"
  shows "if length (tree_branch dsha ids) \<le> 16
    then \<exists>t'. gbt_merkle_bins stack alloc t arr = Inr t' \<and> t_transactions t' = length ids \<and>
      gbt_branch t' = tree_branch dsha ids \<and> length (t_merklebin t') = 512 \<and> txns.more t' = txns.more t \<and>
      t_txn_data t' = (if ids = [] then None else Some (copied_txns arr [0..<length ids]))
    else gbt_merkle_bins stack alloc t arr = Inl BranchOverflow"
proof (cases "ids = []")
  case True
  with assms show ?thesis by (simp add: gbt_merkle_bins_def template_def gbt_branch_def)
next
  case False
  let ?n = "length ids"
  define hb where "hb = mem_write 0 (replicate 32 0) (take (32 * (?n + 2)) alloc)"
  define t1 where "t1 = t\<lparr>t_txn_data := None, t_transactions := ?n, t_merkles := 0\<rparr>\<lparr>t_txn_data := Some (copied_txns arr [0..<?n])\<rparr>"
  have n: "json_array_size arr = ?n" and sh: "\<forall>i < ?n. shown (txn_id arr i) (ids ! i)"
    using assms(2) by (simp_all add: template_def)
  have len: "length hb = 32 * (?n + 2)" using assms(3) by (simp add: hb_def mem_write_def)
  have "list_all2 (\<lambda>i h. shown (txn_id arr i) h) [0..<0 + ?n] ids" using sh by (simp add: list_all2_upt)
  from put_txids_spec [OF this, of 32 hb] len obtain hb' where
    put: "put_txids (txn_id arr) 32 [0..<?n] hb = Some hb'" and len': "length hb' = length hb"
    and tk: "take (32 + 32 * ?n) hb' = take 32 hb @ concat ids" by auto
  have "txn_strings arr [0..<?n] \<noteq> None" by (rule txn_strings_Some) (use assms(4) in simp)
  then have run: "gbt_merkle_bins stack alloc t arr = branch_loop stack (?n + 1) hb' t1"
    using False n put [unfolded hb_def] by (auto simp: gbt_merkle_bins_def Let_def t1_def)
  have "take (32 * ?n) (drop 32 hb') = drop 32 (take (32 + 32 * ?n) hb')" by (simp add: drop_take)
  also have "\<dots> = concat ids" unfolding tk using len by simp
  finally have lev: "take (32 * ?n) (drop 32 hb') = concat ids" .
  have id32: "\<forall>h \<in> set ids. length h = 32" using sh by (auto simp: in_set_conv_nth dest!: shown_length)
  have t1: "length (t_merklebin t1) = 512" "gbt_branch t1 = []" "t_merkles t1 = 0" "t_transactions t1 = ?n" "txns.more t1 = txns.more t"
    "t_txn_data t1 = Some (copied_txns arr [0..<?n])"
    using assms(5) by (simp_all add: t1_def gbt_branch_def)
  from branch_loop_spec [of stack, OF _ lev id32 _ t1(1)] assms(1) len len' t1 False show ?thesis
    unfolding run by (fastforce simp: stack_ok_def split: if_splits)
qed

lemma tree_branch_ge: "2 ^ n \<le> length ts \<Longrightarrow> n < length (tree_branch H ts)"
proof (induction n arbitrary: ts)
  case 0
  then show ?case by (cases ts) auto
next
  case (Suc n)
  then obtain u us where ts: "ts = u # us" by (cases ts) auto
  with Suc.prems have "2 ^ n \<le> length (tree_level H us)" by simp
  from Suc.IH [OF this] ts show ?case by simp
qed

lemma gbt_merkleroot_tree:
  assumes "stack_ok stack" and "gbt_branch t = tree_branch dsha ids" and "\<forall>h \<in> set ids. length h = 32"
    and "length coinbase < 2 ^ 29"
  shows "gbt_merkleroot stack t coinbase = tree_root dsha (dsha coinbase # ids)"
  using assms dtree.branch_lengths [OF assms(3)]
  by (simp add: gbt_merkleroot_def stack_ok_def gen_hash_dsha fold_branch_dsha tree_branch_root)

section \<open>The witness tree\<close>

lemma witness_pairs_eq: "even i \<Longrightarrow> witness_pairs stack n i hb = pair_hashes stack (32 * n) (16 * i) (32 * i) hb"
proof (induction stack n i hb rule: witness_pairs.induct)
  case (1 stack n i hb)
  have half: "32 * (i div 2) = 16 * i" using 1(2) by auto
  show ?case
  proof (cases "i < n")
    case True
    then have "witness_pairs stack n i hb = witness_pairs stack n (i + 2)
        (mem_write (16 * i) (gen_hash stack (take 64 (drop (32 * i) hb))) hb)"
      by (simp add: witness_pairs.simps [of _ _ i] half)
    also have "\<dots> = pair_hashes stack (32 * n) (16 * i + 32) (32 * i + 64)
        (mem_write (16 * i) (gen_hash stack (take 64 (drop (32 * i) hb))) hb)"
      using 1(1) [OF True] 1(2) by (simp add: half add.commute)
    finally show ?thesis using True by (simp add: pair_hashes.simps [of _ _ "16 * i"])
  next
    case False
    then show ?thesis by (simp add: witness_pairs.simps [of _ _ i] pair_hashes.simps [of _ _ "16 * i"])
  qed
qed

lemma witness_loop_root:
  assumes stk: "length (ctx_block stack) = 128"
  shows "take (32 * length ls) hb = concat ls \<Longrightarrow> \<forall>h \<in> set ls. length h = 32 \<Longrightarrow> ls \<noteq> [] \<Longrightarrow>
    32 * (length ls + 1) \<le> length hb \<Longrightarrow>
    length (witness_loop stack (length ls) hb) = length hb \<and>
    take 32 (witness_loop stack (length ls) hb) = tree_root dsha ls"
proof (induction n \<equiv> "length ls" arbitrary: ls hb rule: less_induct)
  case less
  show ?case
  proof (cases "1 < length ls")
    case False
    with less(4) obtain a where "ls = [a]" by (cases ls) auto
    with less(2) False show ?thesis by (simp add: witness_loop.simps)
  next
    case True
    let ?n = "length ls" and ?lv = "tree_level dsha ls"
    define hb1 where "hb1 = dup_last ?n (32 * ?n) hb"
    define hb2 where "hb2 = witness_pairs stack (?n + ?n mod 2) 0 hb1"
    note el = even_level_simps [of ls]
    have dup: "length hb1 = length hb" "take (32 * length (even_level ls)) hb1 = concat (even_level ls)"
      using dup_last_level [of ls 0 hb ?n] less(2-5) by (simp_all add: hb1_def even_level_def split: if_splits)
    have "?n + ?n mod 2 \<le> ?n + 1" by simp
    from mult_le_mono2 [OF this, of 32] less(5) have fits: "32 * length (even_level ls) \<le> length hb1"
      unfolding el(3) dup(1) by (rule le_trans)
    have "length hb2 = length hb1 \<and> take (0 + 16 * length (even_level ls)) hb2 =
        take 0 hb1 @ concat (tree_level dsha (even_level ls))"
      unfolding hb2_def el(3) [symmetric] witness_pairs_eq [OF even_zero] mult_0_right
      by (rule pair_hashes_level [OF stk el(1) el(2) [OF less(3)]]) (use fits dup in simp_all)
    then have lev: "length hb2 = length hb" "take (32 * length ?lv) hb2 = concat ?lv"
      using double_up [of ?n] dup(1) by (simp_all add: el(3) tree_level_even)
    have "(?n + ?n mod 2) div 2 = length ?lv" using double_up [of ?n] by simp
    with True have step: "witness_loop stack ?n hb = witness_loop stack (length ?lv) hb2"
      by (simp only: witness_loop.simps [of stack ?n] Let_def hb1_def hb2_def if_True)
    obtain a b r where ls: "ls = a # b # r" using True by (cases ls rule: remdups_adj.cases) auto
    have shorter: "length ?lv < ?n" and ne: "?lv \<noteq> []" and root: "tree_root dsha ls = tree_root dsha ?lv"
      by (simp_all add: ls)
    have "length ?lv + 1 \<le> ?n + 1" using shorter by (simp only: add_le_cancel_right less_imp_le)
    from mult_le_mono2 [OF this, of 32] less(5) have "32 * (length ?lv + 1) \<le> length hb2"
      unfolding lev(1) by (rule le_trans)
    from less(1) [OF shorter lev(2) dtree.level_lengths ne this] show ?thesis
      unfolding step root by (simp add: lev(1))
  qed
qed

section \<open>Properties\<close>

text \<open>C9: For a template of up to 65535 transactions the branch that \<open>gbt_merkle_bins\<close> computes in place, folded with
  any coinbase by \<open>__gbt_merkleroot\<close>, gives the root of the protocol's Merkle tree over the double SHA-256 of the
  coinbase and the transactions' identifiers; from 65536 transactions on it writes behind the array of the branch.\<close>

theorem gbt_merkle_is_tree:
  assumes "stack_ok stack" and "template arr (txn_id arr) ids" and "length alloc = 32 * (length ids + 2)"
    and "\<forall>i < length ids. txn_string arr i ''data'' \<noteq> None" and "length (t_merklebin t) = 512"
  shows "if length ids < 65536
    then \<exists>t'. gbt_merkle_bins stack alloc t arr = Inr t' \<and> t_transactions t' = length ids \<and>
      (\<forall>coinbase. length coinbase < 2 ^ 29 \<longrightarrow>
        gbt_merkleroot stack t' coinbase = tree_root dsha (dsha coinbase # ids))
    else gbt_merkle_bins stack alloc t arr = Inl BranchOverflow"
proof (cases "length ids < 65536")
  case True
  have "\<forall>h \<in> set ids. length h = 32"
    using assms(2) by (auto simp: template_def in_set_conv_nth dest!: shown_length)
  moreover have "length (tree_branch dsha ids) \<le> 16" using True by (intro length_tree_branch) simp
  ultimately show ?thesis
    using True gbt_merkle_bins_branch [OF assms] gbt_merkleroot_tree [OF assms(1)] by fastforce
next
  case False
  then have "16 < length (tree_branch dsha ids)" by (intro tree_branch_ge) simp
  with False gbt_merkle_bins_branch [OF assms] show ?thesis by simp
qed

text \<open>A template of two transactions, the second without \<open>txid\<close>.\<close>

definition demo_txns :: "json option" where
  "demo_txns = Some (JArray
     [JObject [(bytes_of ''data'', JString (bytes_of ''01'')), (bytes_of ''txid'', JString (replicate 64 49))],
      JObject [(bytes_of ''data'', JString []), (bytes_of ''hash'', JString (replicate 64 50))]])"

definition demo_t :: txns where
  "demo_t = \<lparr>t_txn_data = None, t_transactions = 9, t_merkles = 3, t_merklebin = replicate 512 7\<rparr>"

lemma demo_template: "template demo_txns (txn_id demo_txns) [replicate 32 0x11, replicate 32 0x22]"
  unfolding template_def by code_simp

theorem gbt_merkle_is_tree_witness:
  "\<exists>t'. gbt_merkle_bins wit_stack (replicate 128 0xAA) demo_t demo_txns = Inr t' \<and> t_transactions t' = 2 \<and>
    gbt_merkleroot wit_stack t' [1, 2, 3] =
      tree_root dsha (dsha [1, 2, 3] # [replicate 32 0x11, replicate 32 0x22])"
proof -
  have "stack_ok wit_stack" by (simp add: stack_ok_def wit_stack_def)
  moreover have "txn_string demo_txns 0 ''data'' \<noteq> None" "txn_string demo_txns 1 ''data'' \<noteq> None" by code_simp+
  then have "\<forall>i < length [replicate 32 0x11 :: u8 list, replicate 32 0x22]. txn_string demo_txns i ''data'' \<noteq> None"
    by (simp add: less_Suc_eq)
  moreover have "length (t_merklebin demo_t) = 512" by (simp add: demo_t_def)
  ultimately show ?thesis
    using gbt_merkle_is_tree [of wit_stack demo_txns, OF _ demo_template, of "replicate 128 0xAA" demo_t] by auto
qed

text \<open>The witness commitment is its header followed by the double SHA-256 of the root of the Merkle tree over a zero
  hash and the transactions' hashes, and of the zero witness nonce; it is refused exactly when a hash is missing or malformed,
  for the buffer of 36 bytes the caller has.\<close>

theorem gbt_witness_is_tree:
  assumes "stack_ok stack" and "length alloc = 32 * (json_array_size arr + 2)"
  shows "(\<forall>ids. template arr (\<lambda>i. txn_string arr i ''hash'') ids \<longrightarrow>
      gbt_witness_data stack alloc arr 36 =
        Some ([0xaa, 0x21, 0xa9, 0xed] @ dsha (tree_root dsha (replicate 32 0 # ids) @ replicate 32 0))) \<and>
    ((\<nexists>ids. template arr (\<lambda>i. txn_string arr i ''hash'') ids) \<longrightarrow> gbt_witness_data stack alloc arr 36 = None)"
proof (intro conjI allI impI)
  fix ids assume t: "template arr (\<lambda>i. txn_string arr i ''hash'') ids"
  let ?n = "length ids" and ?ls = "replicate 32 0 # ids"
  define hb where "hb = mem_write 0 (replicate 32 0) (take (32 * (?n + 2)) alloc)"
  have n: "json_array_size arr = ?n" and sh: "\<forall>i < ?n. shown (txn_string arr i ''hash'') (ids ! i)"
    using t by (simp_all add: template_def)
  have len: "length hb = 32 * (?n + 2)" and hd: "take 32 hb = replicate 32 0"
    using assms(2) n by (simp_all add: hb_def mem_write_def)
  have "list_all2 (\<lambda>i h. shown (txn_string arr i ''hash'') h) [0..<0 + ?n] ids" using sh by (simp add: list_all2_upt)
  from put_txids_spec [OF this, of 32 hb] len obtain hb' where
    put: "put_txids (\<lambda>i. txn_string arr i ''hash'') 32 [0..<?n] hb = Some hb'" and len': "length hb' = length hb"
    and tk: "take (32 + 32 * ?n) hb' = replicate 32 0 @ concat ids" by (auto simp: hd)
  have l32: "\<forall>h \<in> set ?ls. length h = 32" using sh by (auto simp: in_set_conv_nth dest!: shown_length)
  have "length (witness_loop stack (length ?ls) hb') = length hb' \<and>
      take 32 (witness_loop stack (length ?ls) hb') = tree_root dsha ?ls"
    by (rule witness_loop_root [OF _ _ l32]) (use assms(1) tk len len' in \<open>simp_all add: stack_ok_def\<close>)
  moreover have "take 64 (mem_write 32 (replicate 32 0) h) = take 32 h @ replicate 32 0" if "64 \<le> length h" for h :: "u8 list"
    using that by (simp add: mem_write_def)
  ultimately show "gbt_witness_data stack alloc arr 36 =
      Some ([0xaa, 0x21, 0xa9, 0xed] @ dsha (tree_root dsha ?ls @ replicate 32 0))"
    using n put [unfolded hb_def] len len' assms(1)
    by (simp add: gbt_witness_data_def witness_header_def Let_def gen_hash_dsha stack_ok_def)
next
  assume none: "\<nexists>ids. template arr (\<lambda>i. txn_string arr i ''hash'') ids"
  have "\<exists>i < json_array_size arr. \<not> (\<exists>h. shown (txn_string arr i ''hash'') h)"
  proof (rule ccontr)
    assume "\<not> ?thesis"
    then have "\<forall>i < json_array_size arr. \<exists>h. shown (txn_string arr i ''hash'') h" by blast
    then obtain h where h: "\<forall>i < json_array_size arr. shown (txn_string arr i ''hash'') (h i)" by metis
    then have "template arr (\<lambda>i. txn_string arr i ''hash'') (map h [0..<json_array_size arr])" by (simp add: template_def)
    with none show False by blast
  qed
  then obtain i where "i \<in> set [0..<json_array_size arr]" "\<not> (\<exists>h. shown (txn_string arr i ''hash'') h)" by auto
  from put_txids_None [of i _ "\<lambda>i. txn_string arr i ''hash''", OF this]
  show "gbt_witness_data stack alloc arr 36 = None"
    by (simp add: gbt_witness_data_def witness_header_def Let_def)
qed

text \<open>The witness tree of one transaction.\<close>

theorem gbt_witness_is_tree_witness:
  "gbt_witness_data wit_stack (replicate 96 0xAA) (Some (JArray [JObject [(bytes_of ''hash'', JString (replicate 64 50))]])) 36 =
    Some ([0xaa, 0x21, 0xa9, 0xed] @ dsha (tree_root dsha [replicate 32 0, replicate 32 0x22] @ replicate 32 0))"
proof -
  let ?arr = "Some (JArray [JObject [(bytes_of ''hash'', JString (replicate 64 50))]])"
  have "template ?arr (\<lambda>i. txn_string ?arr i ''hash'') [replicate 32 0x22]"
    unfolding template_def by code_simp
  moreover have "stack_ok wit_stack" "length (replicate 96 (0xAA :: u8)) = 32 * (json_array_size ?arr + 2)"
    by (simp_all add: stack_ok_def wit_stack_def json_array_size_def)
  ultimately show ?thesis using gbt_witness_is_tree [of wit_stack "replicate 96 0xAA" ?arr] by simp
qed

text \<open>A transaction without a usable identifier leaves the template without a branch, but with its count.\<close>

lemma gbt_merkle_bins_drops:
  assumes "i < json_array_size arr" and "\<not> (\<exists>h. shown (txn_id arr i) h)"
    and "\<forall>i < json_array_size arr. txn_string arr i ''data'' \<noteq> None"
  shows "\<exists>t'. gbt_merkle_bins stack alloc t arr = Inr t' \<and> t_merkles t' = 0 \<and>
    t_transactions t' = json_array_size arr \<and> gbt_merkleroot stack t' coinbase = gen_hash stack coinbase"
proof -
  have "txn_strings arr [0..<json_array_size arr] \<noteq> None" by (rule txn_strings_Some) (use assms(3) in simp)
  moreover have "put_txids (txn_id arr) 32 [0..<json_array_size arr] hb = None" for hb
    by (rule put_txids_None [where id_of = "txn_id arr" and i = i]) (use assms(1,2) in simp_all)
  ultimately show ?thesis using assms(1)
    by (auto simp: gbt_merkle_bins_def Let_def gbt_merkleroot_def gbt_branch_def)
qed

end
