(* ===== verification/Stratum.thy ===== *)
theory Stratum
  imports Merkle Works
begin

text \<open>
  The stratum side of a pool: what \<open>mining.notify\<close> and \<open>mining.set_difficulty\<close> store (\<open>parse_notify\<close>,
  \<open>parse_diff\<close> of util.c) and the work items made from it (\<open>gen_stratum_work\<close>, cgminer.c).  Allocated
  memory that may be freed, unset or missing is explicit, so undefined behaviour is an error of the model.
\<close>

section \<open>State\<close>

text \<open>
  A cell of the array of branch hashes: allocated with the bytes written so far, freed, or a
  pointer never set.  The pool's buffers hold strings; \<open>np_prev_hash\<close> is the buffer itself, since all 64
  bytes of it are compared.  The global counters are kept with the pool.
\<close>

datatype cell = Live "u8 list" | Freed | Wild

datatype net_err = NullString | OverRead | DoubleFree | WildPointer | BufferOverflow | UseAfterFree
  | NullCoinbase | Branch merkle_err

record npool = txns +
  np_no :: nat
  np_job_id :: "cstr option"
  np_clean :: bool
  np_prev_hash :: "u8 list"
  np_bbversion :: cstr
  np_nbit :: cstr
  np_ntime :: cstr
  np_next_diff :: rat
  np_diff_after :: rat
  np_sdiff :: rat
  np_coinbase :: "u8 list option"
  np_coinbase_len :: nat
  np_nonce2_offset :: nat
  np_nonce2 :: u64
  np_n2size :: nat
  np_sessionid :: "cstr option"
  np_nonce1 :: "cstr option"
  np_nonce1bin :: "u8 list"
  np_n1_len :: nat
  np_merkle_bin :: "cell list"
  np_header_bin :: "u8 list"
  np_bad_work :: int
  np_getwork_requested :: int
  np_last_diff :: rat
  np_min_diff :: rat
  np_min_diff_count :: int
  np_max_diff :: rat
  np_max_diff_count :: int
  np_total_getworks :: int
  np_work_update :: bool
  np_local_work :: int

text \<open>A work item with the fields of stratum and template work.\<close>

datatype getwork_mode = MODE_STRATUM | MODE_GBT | MODE_SOLO

record swork = gwork +
  sw_nonce2 :: u64
  sw_nonce2_len :: nat
  sw_sdiff :: rat
  sw_longpoll :: bool
  sw_gbt :: bool
  sw_gbt_txns :: nat
  sw_getwork_mode :: "getwork_mode option"
  sw_drv_rolllimit :: nat

text \<open>A new item, as \<open>make_work\<close> hands it out.\<close>

definition zero_swork :: swork where
  "zero_swork = gwork.extend zero_work (swork.fields 0 0 0 False False 0 None 0)"

section \<open>Notifications\<close>

record notify =
  n_job_id :: cstr
  n_prev_hash :: cstr
  n_coinbase1 :: cstr
  n_coinbase2 :: cstr
  n_bbversion :: cstr
  n_nbit :: cstr
  n_ntime :: cstr
  n_clean :: bool
  n_branch :: "json option"

definition blank_merkle :: cstr where
  "blank_merkle = replicate 64 48"

definition workpadding :: cstr where
  "workpadding = bytes_of ''000000800000000000000000000000000000000000000000000000000000000000000000000000000000000080020000''"

text \<open>The parameters of a notification, when all are there and valid.\<close>

definition notify_params :: "json option \<Rightarrow> notify option" where
  "notify_params val =
     (let arr = json_array_get val 4 in
      if arr = None \<or> \<not> json_is_array arr then None
      else
        let job_id = json_array_string val 0; prev_hash = raw_array_string val 1;
            coinbase1 = json_array_string val 2; coinbase2 = json_array_string val 3;
            bbversion = raw_array_string val 5; nbit = raw_array_string val 6;
            ntime = raw_array_string val 7; clean = json_is_true (json_array_get val 8)
        in if \<not> valid_ascii job_id \<or> \<not> valid_hex prev_hash \<or> \<not> valid_hex coinbase1 \<or> \<not> valid_hex coinbase2 \<or>
              \<not> valid_hex bbversion \<or> \<not> valid_hex nbit \<or> \<not> valid_hex ntime then None
           else Some \<lparr>n_job_id = the job_id, n_prev_hash = the prev_hash, n_coinbase1 = the coinbase1,
             n_coinbase2 = the coinbase2, n_bbversion = the bbversion, n_nbit = the nbit, n_ntime = the ntime,
             n_clean = clean, n_branch = arr\<rparr>)"

text \<open>What \<open>snprintf (buf, size, "%s", s)\<close> leaves in a buffer as a string.\<close>

definition snprintf_s :: "nat \<Rightarrow> cstr \<Rightarrow> cstr" where
  "snprintf_s sz s = take (sz - 1) s"

text \<open>\<open>memcmp\<close> of 64 bytes: a string of less than 63 digits is read behind its end.\<close>

definition same_prev :: "npool \<Rightarrow> cstr \<Rightarrow> net_err + bool" where
  "same_prev p s = (if length s + 1 < 64 then Inl OverRead
     else Inr (take 64 (np_prev_hash p) = take 64 (s @ [0])))"

definition next_difficulty :: "npool \<Rightarrow> npool" where
  "next_difficulty p =
     (if 0 < np_next_diff p
      then p\<lparr>np_sdiff := np_next_diff p, np_next_diff := np_diff_after p, np_diff_after := 0\<rparr> else p)"

text \<open>Job, block and difficulty, and the sizes of the coinbase.\<close>

definition notify_job :: "npool \<Rightarrow> notify \<Rightarrow> net_err + npool" where
  "notify_job p n =
     bindR (same_prev p (n_prev_hash n)) (\<lambda>same.
     let cb1_len = length (n_coinbase1 n) div 2; cb2_len = length (n_coinbase2 n) div 2;
         p = p\<lparr>np_job_id := Some (n_job_id n), np_clean := (if same then n_clean n else True),
               np_prev_hash := mem_write 0 (snprintf_s 65 (n_prev_hash n) @ [0]) (np_prev_hash p),
               np_bbversion := snprintf_s 9 (n_bbversion n), np_nbit := snprintf_s 9 (n_nbit n),
               np_ntime := snprintf_s 9 (n_ntime n)\<rparr>;
         p = next_difficulty p
     in Inr (p\<lparr>np_coinbase_len := cb1_len + np_n1_len p + np_n2size p + cb2_len,
               np_nonce2_offset := cb1_len + np_n1_len p\<rparr>))"

text \<open>Freeing the first cells of the array.\<close>

fun free_cells :: "nat \<Rightarrow> cell list \<Rightarrow> net_err + cell list" where
  "free_cells 0 cs = Inr cs"
| "free_cells (Suc n) [] = Inl WildPointer"
| "free_cells (Suc n) (Wild # cs) = Inl WildPointer"
| "free_cells (Suc n) (Freed # cs) = Inl DoubleFree"
| "free_cells (Suc n) (Live b # cs) = bindR (free_cells n cs) (\<lambda>cs. Inr (Freed # cs))"

definition realloc_cells :: "nat \<Rightarrow> cell list \<Rightarrow> cell list" where
  "realloc_cells m cs = take m cs @ replicate (m - length cs) Wild"

text \<open>Converting the hashes of the branch, up to the first that is malformed.\<close>

fun fill_cells :: "json option \<Rightarrow> nat list \<Rightarrow> cell list \<Rightarrow> net_err + (bool \<times> cell list)" where
  "fill_cells arr [] cs = Inr (True, cs)"
| "fill_cells arr (i # is) cs = (case json_array_string arr i of None \<Rightarrow> Inl NullString
     | Some merkle \<Rightarrow> (case hex2bin merkle 32 of (ret, out) \<Rightarrow>
         if ret then fill_cells arr is (cs[i := Live out]) else Inr (False, cs[i := Live out])))"

definition notify_branch :: "npool \<Rightarrow> notify \<Rightarrow> net_err + (bool \<times> npool)" where
  "notify_branch p n =
     (let merkles = json_array_size (n_branch n) in
      bindR (free_cells (t_merkles p) (np_merkle_bin p)) (\<lambda>cs.
      bindR (if merkles = 0 then Inr (True, cs) else fill_cells (n_branch n) [0..<merkles] (realloc_cells merkles cs))
        (\<lambda>(ret, cs).
        let p = p\<lparr>np_merkle_bin := cs\<rparr>
        in if \<not> ret then Inr (False, p)
        else Inr (True, p\<lparr>t_merkles := merkles,
          np_bad_work := (if merkles < 2 then np_bad_work p + 1 else np_bad_work p),
          np_nonce2 := (if n_clean n then 0 else np_nonce2 p)\<rparr>))))"

text \<open>The template of the header in hexadecimal, cut at 256 digits, and its bytes.\<close>

definition header_text :: "npool \<Rightarrow> cstr" where
  "header_text p = snprintf_s 257 (np_bbversion p @ cstr_of (np_prev_hash p) @ blank_merkle @ np_ntime p @ np_nbit p @
     replicate 8 48 @ workpadding)"

definition notify_header :: "npool \<Rightarrow> bool \<times> npool" where
  "notify_header p = (case hex2bin (header_text p) 128 of (ret, out) \<Rightarrow>
     (ret, p\<lparr>np_header_bin := mem_write 0 out (np_header_bin p)\<rparr>))"

text \<open>The coinbase with room for the second nonce.\<close>

definition notify_coinbase :: "npool \<Rightarrow> notify \<Rightarrow> net_err + (bool \<times> npool)" where
  "notify_coinbase p n =
     (case hex2bin (n_coinbase1 n) (length (n_coinbase1 n) div 2) of (ret, cb1) \<Rightarrow>
      if \<not> ret then Inr (False, p)
      else (case hex2bin (n_coinbase2 n) (length (n_coinbase2 n) div 2) of (ret, cb2) \<Rightarrow>
      if \<not> ret then Inr (False, p)
      else if length (np_nonce1bin p) < np_n1_len p then Inl OverRead
      else Inr (True, p\<lparr>np_coinbase :=
        Some (cb1 @ take (np_n1_len p) (np_nonce1bin p) @ replicate (np_n2size p) 0 @ cb2)\<rparr>)))"

text \<open>After the lock is released the notification counts as one for work, whether it was good or not.\<close>

definition count_getwork :: "bool \<Rightarrow> npool \<Rightarrow> npool" where
  "count_getwork is_current p = p\<lparr>np_getwork_requested := np_getwork_requested p + 1,
     np_total_getworks := np_total_getworks p + 1, np_work_update := (np_work_update p \<or> is_current)\<rparr>"

definition parse_notify :: "bool \<Rightarrow> npool \<Rightarrow> json option \<Rightarrow> net_err + (bool \<times> npool)" where
  "parse_notify is_current p val = (case notify_params val of None \<Rightarrow> Inr (False, p)
     | Some n \<Rightarrow>
         bindR (notify_job p n) (\<lambda>p.
         bindR (bindR (notify_branch p n) (\<lambda>(ret, p).
           if \<not> ret then Inr (False, p)
           else (case notify_header p of (ret, p) \<Rightarrow>
             if \<not> ret then Inr (False, p) else notify_coinbase p n)))
         (\<lambda>(ret, p). Inr (ret, count_getwork is_current p))))"

definition parse_diff :: "npool \<Rightarrow> json option \<Rightarrow> bool \<times> npool" where
  "parse_diff p val =
     (let diff = json_number_value (json_array_get val 0) in
      if diff \<le> 0 then (False, p)
      else (True, if np_next_diff p \<noteq> 0 then p\<lparr>np_diff_after := diff\<rparr> else p\<lparr>np_next_diff := diff\<rparr>))"

section \<open>Work\<close>

definition le64_bytes :: "u64 \<Rightarrow> u8 list" where
  "le64_bytes x = map (\<lambda>k. ucast (drop_bit (8 * k) x)) [0..<8]"

text \<open>The second nonce goes into the coinbase; its value has eight bytes in memory.\<close>

definition put_nonce2 :: "'a npool_scheme \<Rightarrow> net_err + 'a npool_scheme" where
  "put_nonce2 p = (case np_coinbase p of None \<Rightarrow> Inl NullCoinbase
     | Some c \<Rightarrow>
         if 8 < np_n2size p then Inl OverRead
         else if length c < np_nonce2_offset p + np_n2size p then Inl BufferOverflow
         else Inr (p\<lparr>np_coinbase := Some (mem_write (np_nonce2_offset p) (take (np_n2size p) (le64_bytes (np_nonce2 p))) c),
                     np_nonce2 := np_nonce2 p + 1\<rparr>))"

definition read_coinbase :: "'a npool_scheme \<Rightarrow> net_err + u8 list" where
  "read_coinbase p = (case np_coinbase p of None \<Rightarrow> Inl NullCoinbase
     | Some c \<Rightarrow> if length c < np_coinbase_len p then Inl OverRead else Inr (take (np_coinbase_len p) c))"

fun read_cells :: "nat \<Rightarrow> cell list \<Rightarrow> net_err + u8 list list" where
  "read_cells 0 cs = Inr []"
| "read_cells (Suc n) [] = Inl WildPointer"
| "read_cells (Suc n) (Wild # cs) = Inl WildPointer"
| "read_cells (Suc n) (Freed # cs) = Inl UseAfterFree"
| "read_cells (Suc n) (Live b # cs) = (if length b < 32 then Inl OverRead
     else bindR (read_cells n cs) (\<lambda>bs. Inr (b # bs)))"

text \<open>\<open>known\<close> is the difficulty, or zero to compute it from the target by \<open>diff\<close>.\<close>

definition calc_diff :: "(u8 list \<Rightarrow> rat) \<Rightarrow> swork \<Rightarrow> rat \<Rightarrow> 'a npool_scheme \<Rightarrow> swork \<times> 'a npool_scheme" where
  "calc_diff diff w known p =
     (let difficulty = (if known \<noteq> 0 then known else diff (w_target w));
          p = p\<lparr>np_last_diff := difficulty\<rparr>;
          p = (if difficulty = np_min_diff p then p\<lparr>np_min_diff_count := np_min_diff_count p + 1\<rparr>
               else if difficulty < np_min_diff p \<or> np_min_diff p = 0
               then p\<lparr>np_min_diff := difficulty, np_min_diff_count := 1\<rparr> else p);
          p = (if difficulty = np_max_diff p then p\<lparr>np_max_diff_count := np_max_diff_count p + 1\<rparr>
               else if np_max_diff p < difficulty
               then p\<lparr>np_max_diff := difficulty, np_max_diff_count := 1\<rparr> else p)
      in (w\<lparr>w_work_difficulty := difficulty\<rparr>, p))"

text \<open>
  The stack the hashes use, the functions between targets and difficulties (floating point in the code), and the
  number of the current block.
\<close>

record gen_env =
  ge_stack :: sha256_ctx
  ge_target :: "rat \<Rightarrow> u8 list"
  ge_diff :: "u8 list \<Rightarrow> rat"
  ge_work_block :: u32

definition header_of :: "'a npool_scheme \<Rightarrow> u8 list \<Rightarrow> u8 list \<Rightarrow> u8 list" where
  "header_of p merkle_root data = mem_write 36 (flip32 merkle_root) (mem_write 0 (take 112 (np_header_bin p)) data)"

definition gen_stratum_work :: "gen_env \<Rightarrow> npool \<Rightarrow> swork \<Rightarrow> net_err + (swork \<times> npool)" where
  "gen_stratum_work e p w =
     bindR (put_nonce2 p) (\<lambda>p'.
     bindR (read_coinbase p') (\<lambda>cb.
     bindR (read_cells (t_merkles p') (np_merkle_bin p')) (\<lambda>branch.
     (case (np_job_id p', np_nonce1 p') of
       (Some job_id, Some nonce1) \<Rightarrow>
         let merkle_root = fold_branch (ge_stack e) (gen_hash (ge_stack e) cb) branch;
             w = w\<lparr>sw_nonce2 := np_nonce2 p, sw_nonce2_len := np_n2size p', w_data := header_of p' merkle_root (w_data w),
                   sw_sdiff := np_sdiff p', w_job_id := Some job_id, w_nonce1 := Some nonce1, w_ntime := Some (np_ntime p')\<rparr>;
             w = w\<lparr>w_target := ge_target e (sw_sdiff w)\<rparr>;
             p' = p'\<lparr>np_local_work := np_local_work p' + 1\<rparr>;
             w = w\<lparr>w_pool := Some (np_no p'), w_stratum := True, w_nonce := 0, sw_longpoll := False,
                   sw_getwork_mode := Some MODE_STRATUM, w_work_block := ge_work_block e, sw_drv_rolllimit := 60\<rparr>
         in Inr (calc_diff (ge_diff e) w (sw_sdiff w) p')
     | _ \<Rightarrow> Inl NullString))))"

section \<open>Well-formed pools\<close>

text \<open>The array holds the hashes \<open>t_merkles\<close> counts, and the buffers have their sizes.\<close>

definition pool_ok :: "npool \<Rightarrow> bool" where
  "pool_ok p \<longleftrightarrow> length (np_prev_hash p) = 68 \<and> length (np_header_bin p) = 128 \<and>
     length (np_nonce1bin p) = np_n1_len p \<and> np_nonce1 p \<noteq> None \<and> np_n2size p \<le> 8 \<and>
     (\<exists>bs. read_cells (t_merkles p) (np_merkle_bin p) = Inr bs)"

lemma read_free_cells: "read_cells n cs = Inr bs \<Longrightarrow> \<exists>cs'. free_cells n cs = Inr cs' \<and> length cs' = length cs"
  by (induction n cs arbitrary: bs rule: free_cells.induct) (auto simp: bindR_eq_Inr split: if_splits)

lemma read_cells_Live:
  "\<forall>b \<in> set bs. length b = 32 \<Longrightarrow> read_cells (length bs) (map Live bs @ cs) = Inr bs"
  by (induction bs) auto

definition branch_hash :: "json option \<Rightarrow> nat \<Rightarrow> u8 list \<Rightarrow> bool" where
  "branch_hash arr i b \<longleftrightarrow> (\<exists>s. json_array_string arr i = Some s \<and> hex2bin s 32 = (True, b))"

lemma mem_write_update: "k < length cs \<Longrightarrow> mem_write (Suc k) xs (cs[k := x]) = mem_write k (x # xs) cs"
  by (simp add: mem_write_def take_Suc_conv_app_nth)

lemma mem_write_nil: "mem_write k [] cs = cs"
  by (simp add: mem_write_def)

lemma fill_cells_ok:
  "list_all2 (branch_hash arr) [k..<k + length bs] bs \<Longrightarrow> k + length bs \<le> length cs \<Longrightarrow>
    fill_cells arr [k..<k + length bs] cs = Inr (True, mem_write k (map Live bs) cs)"
proof (induction bs arbitrary: k cs)
  case (Cons b bs)
  have split: "[k..<k + length (b # bs)] = k # [Suc k..<Suc k + length bs]" by (simp add: upt_rec)
  have b: "branch_hash arr k b" and rest: "list_all2 (branch_hash arr) [Suc k..<Suc k + length bs] bs"
    using Cons.prems(1) unfolding split by simp_all
  have "Suc k + length bs \<le> length (cs[k := Live b])" using Cons.prems(2) by simp
  from Cons.IH [OF rest this] b Cons.prems(2) show ?case
    unfolding split by (auto simp: branch_hash_def mem_write_update)
qed (simp add: mem_write_nil)

lemma hex2bin_append:
  "hex2bin s k = (True, a) \<Longrightarrow> hex2bin (s @ t) (k + m) = (case hex2bin t m of (ret, b) \<Rightarrow> (ret, a @ b))"
proof (induction s k arbitrary: a rule: hex2bin.induct)
  case (3 c1 c2 s len)
  from "3.prems" obtain out where ok: "len \<noteq> 0" "\<not> hex2bin_tbl ! unat c1 < 0" "\<not> hex2bin_tbl ! unat c2 < 0"
    and rec: "hex2bin s (len - 1) = (True, out)"
    and a: "a = (push_bit 4 (of_int (hex2bin_tbl ! unat c1)) OR of_int (hex2bin_tbl ! unat c2)) # out"
    by (auto simp: Let_def split: if_splits prod.splits)
  from ok have "hex2bin (s @ t) (len - 1 + m) = (case hex2bin t m of (ret, b) \<Rightarrow> (ret, out @ b))"
    using "3.IH" [OF _ refl refl _ rec] by simp
  moreover have "len + m - 1 = len - 1 + m" using ok by simp
  ultimately show ?case using ok a by (simp add: Let_def case_prod_beta)
qed auto

lemma hex2bin_ok:
  assumes "hex2bin s k = (True, a)"
  shows "length s = 2 * k" and "length a = k" and "0 \<notin> set s"
proof -
  have v: "length s = 2 * k \<and> valid_hex (Some s)" using assms hex2bin_True_iff [of s k] by simp
  then show "length s = 2 * k" by simp
  show "length a = k" using hex_text_hex2bin [OF assms] by simp
  show "0 \<notin> set s"
  proof
    assume "0 \<in> set s"
    then have "\<not> hex_digit_val (unat (0 :: u8)) < 0" using v by (auto simp: valid_hex_def list_all_iff)
    then show False by (simp add: hex_digit_val_def)
  qed
qed

section \<open>Making work\<close>

text \<open>A pool fed with a notification: the parts of the coinbase, the branch and the template of the header.\<close>

definition fed :: "npool \<Rightarrow> u8 list \<Rightarrow> u8 list \<Rightarrow> u8 list list \<Rightarrow> bool" where
  "fed p cb1 cb2 bs \<longleftrightarrow>
     (\<exists>mid. length mid = np_n2size p \<and> np_coinbase p = Some (cb1 @ np_nonce1bin p @ mid @ cb2)) \<and>
     np_nonce2_offset p = length cb1 + np_n1_len p \<and>
     np_coinbase_len p = length cb1 + np_n1_len p + np_n2size p + length cb2 \<and>
     read_cells (t_merkles p) (np_merkle_bin p) = Inr bs \<and> (\<forall>b \<in> set bs. length b = 32) \<and> np_job_id p \<noteq> None"

text \<open>The coinbase of a value of the second nonce, and the root it leads to.\<close>

definition coinbase_of :: "npool \<Rightarrow> u8 list \<Rightarrow> u8 list \<Rightarrow> u64 \<Rightarrow> u8 list" where
  "coinbase_of p cb1 cb2 nonce2 = cb1 @ np_nonce1bin p @ take (np_n2size p) (le64_bytes nonce2) @ cb2"

definition branch_root :: "u8 list list \<Rightarrow> u8 list \<Rightarrow> u8 list" where
  "branch_root bs coinbase = foldl (\<lambda>c b. dsha (c @ b)) (dsha coinbase) bs"

lemma length_le64 [simp]: "length (le64_bytes x) = 8"
  by (simp add: le64_bytes_def)

lemma put_nonce2_ok:
  assumes "fed p cb1 cb2 bs" and "length (np_nonce1bin p) = np_n1_len p" and "np_n2size p \<le> 8"
  shows "put_nonce2 p = Inr (p\<lparr>np_coinbase := Some (coinbase_of p cb1 cb2 (np_nonce2 p)), np_nonce2 := np_nonce2 p + 1\<rparr>)"
proof -
  obtain mid where mid: "length mid = np_n2size p" "np_coinbase p = Some (cb1 @ np_nonce1bin p @ mid @ cb2)"
    using assms(1) by (auto simp: fed_def)
  have off: "np_nonce2_offset p = length cb1 + length (np_nonce1bin p)" using assms by (simp add: fed_def)
  show ?thesis using assms(3) mid off by (simp add: put_nonce2_def coinbase_of_def mem_write_def)
qed

text \<open>What making work leaves alone.\<close>

definition feed_of :: "npool \<Rightarrow> _" where
  "feed_of p = ((np_header_bin p, np_nonce1bin p, np_n2size p, np_n1_len p, np_sdiff p, np_job_id p, np_nonce1 p),
     np_ntime p, np_nonce2_offset p, np_coinbase_len p, t_merkles p, np_merkle_bin p, np_prev_hash p)"

lemma feed_of_eqD:
  assumes "feed_of p' = feed_of p"
  shows "np_header_bin p' = np_header_bin p" "np_nonce1bin p' = np_nonce1bin p" "np_n2size p' = np_n2size p"
    "np_n1_len p' = np_n1_len p" "np_sdiff p' = np_sdiff p" "np_job_id p' = np_job_id p" "np_nonce1 p' = np_nonce1 p"
    "np_ntime p' = np_ntime p" "np_nonce2_offset p' = np_nonce2_offset p" "np_coinbase_len p' = np_coinbase_len p"
    "t_merkles p' = t_merkles p" "np_merkle_bin p' = np_merkle_bin p" "np_prev_hash p' = np_prev_hash p"
  using assms by (simp_all add: feed_of_def)

lemma feed_of_updates [simp]:
  "feed_of (p\<lparr>np_coinbase := c\<rparr>) = feed_of p" "feed_of (p\<lparr>np_nonce2 := n\<rparr>) = feed_of p"
  "feed_of (p\<lparr>np_local_work := l\<rparr>) = feed_of p" "feed_of (p\<lparr>np_last_diff := d\<rparr>) = feed_of p"
  "feed_of (p\<lparr>np_min_diff := d\<rparr>) = feed_of p" "feed_of (p\<lparr>np_min_diff_count := i\<rparr>) = feed_of p"
  "feed_of (p\<lparr>np_max_diff := d\<rparr>) = feed_of p" "feed_of (p\<lparr>np_max_diff_count := i\<rparr>) = feed_of p"
  by (simp_all add: feed_of_def)

lemma pool_ok_feed:
  assumes "feed_of p' = feed_of p"
  shows "pool_ok p' = pool_ok p"
  unfolding pool_ok_def feed_of_eqD [OF assms] ..

lemma fed_feed:
  assumes "feed_of p' = feed_of p" and "fed p cb1 cb2 bs" and "np_coinbase p' = Some (coinbase_of p cb1 cb2 x)"
    and "np_n2size p \<le> 8"
  shows "fed p' cb1 cb2 bs"
  using assms(2,3,4) unfolding fed_def feed_of_eqD [OF assms(1)] coinbase_of_def
  by (auto intro!: exI [of _ "take (np_n2size p) (le64_bytes x)"])

lemma calc_diff_fst: "fst (calc_diff d w known p) = w\<lparr>w_work_difficulty := if known \<noteq> 0 then known else d (w_target w)\<rparr>"
  by (simp add: calc_diff_def Let_def)

lemma calc_diff_snd: "feed_of (snd (calc_diff d w known p)) = feed_of p"
  "np_coinbase (snd (calc_diff d w known p)) = np_coinbase p"
  "np_nonce2 (snd (calc_diff d w known p)) = np_nonce2 p"
  by (simp_all add: calc_diff_def Let_def)

text \<open>What a work item shows of the pool it was made from.\<close>

definition made_from :: "npool \<Rightarrow> u64 \<Rightarrow> u8 list \<Rightarrow> swork \<Rightarrow> bool" where
  "made_from p nonce2 header w \<longleftrightarrow> w_data w = header \<and> sw_nonce2 w = nonce2 \<and> sw_nonce2_len w = np_n2size p \<and>
     sw_sdiff w = np_sdiff p \<and> w_job_id w = np_job_id p \<and> w_nonce1 w = np_nonce1 p \<and> w_ntime w = Some (np_ntime p)"

lemma gen_stratum_work_ok:
  assumes fed: "fed p cb1 cb2 bs" and ok: "pool_ok p" and e: "stack_ok (ge_stack e)"
    and size: "length cb1 + np_n1_len p + np_n2size p + length cb2 < 2 ^ 29"
  shows "\<exists>w' p'. gen_stratum_work e p w = Inr (w', p') \<and>
    made_from p (np_nonce2 p) (header_of p (branch_root bs (coinbase_of p cb1 cb2 (np_nonce2 p))) (w_data w)) w' \<and>
    feed_of p' = feed_of p \<and> np_coinbase p' = Some (coinbase_of p cb1 cb2 (np_nonce2 p)) \<and>
    np_nonce2 p' = np_nonce2 p + 1"
proof -
  let ?cb = "coinbase_of p cb1 cb2 (np_nonce2 p)"
  let ?p1 = "p\<lparr>np_coinbase := Some ?cb, np_nonce2 := np_nonce2 p + 1\<rparr>"
  have n1: "length (np_nonce1bin p) = np_n1_len p" and n2: "np_n2size p \<le> 8" using ok by (simp_all add: pool_ok_def)
  have put: "put_nonce2 p = Inr ?p1" by (rule put_nonce2_ok [OF fed n1 n2])
  have len: "length ?cb = length cb1 + np_n1_len p + np_n2size p + length cb2"
    using n1 n2 by (simp add: coinbase_of_def)
  have rd: "read_coinbase ?p1 = Inr ?cb" using fed len by (simp add: read_coinbase_def fed_def)
  have cells: "read_cells (t_merkles ?p1) (np_merkle_bin ?p1) = Inr bs" and b32: "\<forall>b \<in> set bs. length b = 32"
    using fed by (simp_all add: fed_def)
  obtain job n1s where j: "np_job_id p = Some job" "np_nonce1 p = Some n1s"
    using fed ok by (auto simp: fed_def pool_ok_def)
  have root: "fold_branch (ge_stack e) (gen_hash (ge_stack e) ?cb) bs = branch_root bs ?cb"
    using e b32 len size by (simp add: branch_root_def stack_ok_def gen_hash_dsha fold_branch_dsha)
  obtain w0 where g: "gen_stratum_work e p w = Inr (calc_diff (ge_diff e) w0 (np_sdiff p) (?p1\<lparr>np_local_work := np_local_work p + 1\<rparr>))"
    and w0: "made_from p (np_nonce2 p) (header_of p (branch_root bs ?cb) (w_data w)) w0"
    using put rd cells j root unfolding gen_stratum_work_def
    by (simp add: Let_def header_of_def made_from_def)
  let ?r = "calc_diff (ge_diff e) w0 (np_sdiff p) (?p1\<lparr>np_local_work := np_local_work p + 1\<rparr>)"
  have "made_from p (np_nonce2 p) (header_of p (branch_root bs ?cb) (w_data w)) (fst ?r)"
    using w0 by (simp add: calc_diff_fst made_from_def)
  then show ?thesis unfolding g by (intro exI [of _ "fst ?r"] exI [of _ "snd ?r"]) (simp add: calc_diff_snd)
qed

section \<open>Storing a notification\<close>

text \<open>The job a notification announces, as bytes, and the block header of a Merkle root as the protocol defines it.\<close>

record job =
  j_version :: "u8 list"
  j_prev :: "u8 list"
  j_ntime :: "u8 list"
  j_nbits :: "u8 list"
  j_cb1 :: "u8 list"
  j_cb2 :: "u8 list"
  j_branch :: "u8 list list"

definition announces :: "notify \<Rightarrow> job \<Rightarrow> bool" where
  "announces n j \<longleftrightarrow>
     hex2bin (n_bbversion n) 4 = (True, j_version j) \<and> hex2bin (n_prev_hash n) 32 = (True, j_prev j) \<and>
     hex2bin (n_ntime n) 4 = (True, j_ntime j) \<and> hex2bin (n_nbit n) 4 = (True, j_nbits j) \<and>
     hex2bin (n_coinbase1 n) (length (j_cb1 j)) = (True, j_cb1 j) \<and>
     hex2bin (n_coinbase2 n) (length (j_cb2 j)) = (True, j_cb2 j) \<and>
     json_array_size (n_branch n) = length (j_branch j) \<and>
     list_all2 (branch_hash (n_branch n)) [0..<length (j_branch j)] (j_branch j)"

definition block_header :: "job \<Rightarrow> u8 list \<Rightarrow> u8 list" where
  "block_header j mroot = rev (j_version j) @ flip32 (j_prev j) @ mroot @ rev (j_ntime j) @ rev (j_nbits j) @ replicate 4 0"

definition padding :: "u8 list" where
  "padding = [0, 0, 0, 0x80] @ replicate 40 0 @ [0x80, 2, 0, 0]"

lemma hex2bin_padding: "hex2bin workpadding 48 = (True, padding)"
  by code_simp

lemma hex2bin_zeros: "hex2bin (replicate 8 48) 4 = (True, replicate 4 0)" "hex2bin blank_merkle 32 = (True, replicate 32 0)"
  by code_simp+

lemma next_difficulty_simps [simp]:
  "t_merkles (next_difficulty p) = t_merkles p" "np_job_id (next_difficulty p) = np_job_id p"
  "np_prev_hash (next_difficulty p) = np_prev_hash p" "np_bbversion (next_difficulty p) = np_bbversion p"
  "np_nbit (next_difficulty p) = np_nbit p" "np_ntime (next_difficulty p) = np_ntime p"
  "np_n1_len (next_difficulty p) = np_n1_len p" "np_n2size (next_difficulty p) = np_n2size p"
  "np_nonce2 (next_difficulty p) = np_nonce2 p" "np_nonce1 (next_difficulty p) = np_nonce1 p"
  "np_nonce1bin (next_difficulty p) = np_nonce1bin p" "np_merkle_bin (next_difficulty p) = np_merkle_bin p"
  "np_header_bin (next_difficulty p) = np_header_bin p" "np_coinbase (next_difficulty p) = np_coinbase p"
  "np_clean (next_difficulty p) = np_clean p"
  by (simp_all add: next_difficulty_def)

lemma announces_lengths:
  assumes "announces n j"
  shows "length (n_bbversion n) = 8" "length (n_prev_hash n) = 64" "length (n_ntime n) = 8" "length (n_nbit n) = 8"
    "length (n_coinbase1 n) = 2 * length (j_cb1 j)" "length (n_coinbase2 n) = 2 * length (j_cb2 j)"
    "length (j_version j) = 4" "length (j_prev j) = 32" "length (j_ntime j) = 4" "length (j_nbits j) = 4"
    "0 \<notin> set (n_prev_hash n)" "\<forall>b \<in> set (j_branch j). length b = 32"
proof -
  note a = assms [unfolded announces_def]
  show "length (n_bbversion n) = 8" "length (n_prev_hash n) = 64" "length (n_ntime n) = 8" "length (n_nbit n) = 8"
    "length (n_coinbase1 n) = 2 * length (j_cb1 j)" "length (n_coinbase2 n) = 2 * length (j_cb2 j)"
    "length (j_version j) = 4" "length (j_prev j) = 32" "length (j_ntime j) = 4" "length (j_nbits j) = 4"
    "0 \<notin> set (n_prev_hash n)"
    using a by (auto dest: hex2bin_ok(1) hex2bin_ok(2)) (blast dest: hex2bin_ok(3))
  show "\<forall>b \<in> set (j_branch j). length b = 32"
    using a by (auto simp: in_set_conv_nth list_all2_conv_all_nth branch_hash_def dest!: hex2bin_ok(2))
qed

lemma header_text_hex:
  assumes "hex2bin (np_bbversion p) 4 = (True, v)" and "hex2bin (cstr_of (np_prev_hash p)) 32 = (True, h)"
    and "hex2bin (np_ntime p) 4 = (True, t)" and "hex2bin (np_nbit p) 4 = (True, b)"
  shows "hex2bin (header_text p) 128 = (True, v @ h @ replicate 32 0 @ t @ b @ replicate 4 0 @ padding)"
proof -
  have len: "length workpadding = 96" "length blank_merkle = 64" "length (np_bbversion p) = 8" "length (cstr_of (np_prev_hash p)) = 64"
    "length (np_ntime p) = 8" "length (np_nbit p) = 8"
    using hex2bin_ok(1) [OF hex2bin_padding] hex2bin_ok(1) [OF hex2bin_zeros(2)] assms [THEN hex2bin_ok(1)] by simp_all
  have t: "header_text p = np_bbversion p @ cstr_of (np_prev_hash p) @ blank_merkle @ np_ntime p @ np_nbit p @ replicate 8 48 @ workpadding"
    using len by (simp add: header_text_def snprintf_s_def)
  have "hex2bin (header_text p) (4 + (32 + (32 + (4 + (4 + (4 + 48)))))) =
    (True, v @ h @ replicate 32 0 @ t @ b @ replicate 4 0 @ padding)"
    unfolding t using assms
    by (simp only: hex2bin_append [where k = 4] hex2bin_append [where k = 32] hex2bin_zeros hex2bin_padding prod.case)
  then show ?thesis by simp
qed

lemma header_text_bytes:
  assumes a: "announces n j" and p: "np_bbversion p = n_bbversion n" "cstr_of (np_prev_hash p) = n_prev_hash n"
    "np_ntime p = n_ntime n" "np_nbit p = n_nbit n"
  shows "hex2bin (header_text p) 128 =
    (True, j_version j @ j_prev j @ replicate 32 0 @ j_ntime j @ j_nbits j @ replicate 4 0 @ padding)"
  using a by (intro header_text_hex) (simp_all add: p announces_def)

text \<open>The stages of a good notification.\<close>

definition job_stored :: "npool \<Rightarrow> notify \<Rightarrow> npool \<Rightarrow> bool" where
  "job_stored p n p' \<longleftrightarrow> np_job_id p' = Some (n_job_id n) \<and> length (np_prev_hash p') = 68 \<and>
     cstr_of (np_prev_hash p') = n_prev_hash n \<and> np_bbversion p' = n_bbversion n \<and> np_nbit p' = n_nbit n \<and>
     np_ntime p' = n_ntime n \<and> np_sdiff p' = np_sdiff (next_difficulty p) \<and>
     (np_next_diff p' = np_next_diff (next_difficulty p) \<and> np_diff_after p' = np_diff_after (next_difficulty p)) \<and>
     (np_nonce1 p' = np_nonce1 p \<and> np_nonce1bin p' = np_nonce1bin p \<and> np_n1_len p' = np_n1_len p \<and> np_n2size p' = np_n2size p)"

lemma notify_job_ok:
  assumes ok: "pool_ok p" and a: "announces n j"
  shows "\<exists>p'. notify_job p n = Inr p' \<and> job_stored p n p' \<and>
    np_coinbase_len p' = length (j_cb1 j) + np_n1_len p + np_n2size p + length (j_cb2 j) \<and>
    np_nonce2_offset p' = length (j_cb1 j) + np_n1_len p \<and>
    t_merkles p' = t_merkles p \<and> np_merkle_bin p' = np_merkle_bin p \<and> np_nonce2 p' = np_nonce2 p \<and>
    np_header_bin p' = np_header_bin p"
proof -
  note l = announces_lengths [OF a]
  obtain same where sp: "same_prev p (n_prev_hash n) = Inr same" using l(2) by (simp add: same_prev_def)
  have b68: "length (mem_write 0 (n_prev_hash n @ [0]) (np_prev_hash p)) = 68"
    using l(2) ok by (simp add: pool_ok_def)
  have cs: "cstr_of (mem_write 0 (n_prev_hash n @ [0]) (np_prev_hash p)) = n_prev_hash n"
    using l(11) by (simp add: mem_write_def cstr_of_nul)
  define q where "q = p\<lparr>np_job_id := Some (n_job_id n), np_clean := (if same then n_clean n else True),
     np_prev_hash := mem_write 0 (n_prev_hash n @ [0]) (np_prev_hash p),
     np_bbversion := n_bbversion n, np_nbit := n_nbit n, np_ntime := n_ntime n\<rparr>"
  define p' where "p' = (next_difficulty q)\<lparr>
     np_coinbase_len := length (j_cb1 j) + np_n1_len p + np_n2size p + length (j_cb2 j),
     np_nonce2_offset := length (j_cb1 j) + np_n1_len p\<rparr>"
  have nd: "np_sdiff (next_difficulty q) = np_sdiff (next_difficulty p)"
    "np_next_diff (next_difficulty q) = np_next_diff (next_difficulty p)"
    "np_diff_after (next_difficulty q) = np_diff_after (next_difficulty p)"
    by (simp_all add: next_difficulty_def q_def)
  have run: "notify_job p n = Inr p'"
    unfolding notify_job_def sp p'_def using l by (simp add: Let_def snprintf_s_def q_def)
  have "job_stored p n p'" unfolding job_stored_def p'_def using b68 cs nd by (simp add: q_def)
  then show ?thesis using run by (simp add: p'_def) (simp add: q_def)
qed

lemma notify_branch_ok:
  assumes cells: "read_cells (t_merkles p) (np_merkle_bin p) = Inr bs" and a: "announces n j"
  shows "\<exists>p'. notify_branch p n = Inr (True, p') \<and> read_cells (t_merkles p') (np_merkle_bin p') = Inr (j_branch j) \<and>
    np_nonce2 p' = (if n_clean n then 0 else np_nonce2 p) \<and>
    p' = p\<lparr>np_merkle_bin := np_merkle_bin p', t_merkles := t_merkles p', np_bad_work := np_bad_work p', np_nonce2 := np_nonce2 p'\<rparr>"
proof -
  note a' = a [unfolded announces_def]
  have n: "json_array_size (n_branch n) = length (j_branch j)"
    and l2: "list_all2 (branch_hash (n_branch n)) [0..<0 + length (j_branch j)] (j_branch j)" using a' by simp_all
  obtain cs where free: "free_cells (t_merkles p) (np_merkle_bin p) = Inr cs" using read_free_cells [OF cells] by blast
  show ?thesis
  proof (cases "j_branch j = []")
    case True
    then show ?thesis using n free by (simp add: notify_branch_def Let_def)
  next
    case False
    have "0 + length (j_branch j) \<le> length (realloc_cells (length (j_branch j)) cs)" by (simp add: realloc_cells_def)
    from fill_cells_ok [OF l2 this] have "fill_cells (n_branch n) [0..<length (j_branch j)] (realloc_cells (length (j_branch j)) cs) =
        Inr (True, map Live (j_branch j) @ drop (length (j_branch j)) (realloc_cells (length (j_branch j)) cs))"
      by (simp add: mem_write_def)
    moreover have "read_cells (length (j_branch j)) (map Live (j_branch j) @ drop (length (j_branch j)) (realloc_cells (length (j_branch j)) cs)) = Inr (j_branch j)"
      by (rule read_cells_Live [OF announces_lengths(12) [OF a]])
    ultimately show ?thesis using n free False by (simp add: notify_branch_def Let_def)
  qed
qed

definition header_bytes :: "job \<Rightarrow> u8 list" where
  "header_bytes j = j_version j @ j_prev j @ replicate 32 0 @ j_ntime j @ j_nbits j @ replicate 4 0 @ padding"

lemma parse_notify_ok:
  assumes ok: "pool_ok p" and n: "notify_params val = Some n" and a: "announces n j"
  shows "\<exists>p'. parse_notify cur p val = Inr (True, p') \<and> pool_ok p' \<and> fed p' (j_cb1 j) (j_cb2 j) (j_branch j) \<and>
    np_header_bin p' = header_bytes j \<and> np_job_id p' = Some (n_job_id n) \<and> np_ntime p' = n_ntime n \<and>
    np_sdiff p' = np_sdiff (next_difficulty p) \<and> np_nonce2 p' = (if n_clean n then 0 else np_nonce2 p) \<and>
    np_nonce1 p' = np_nonce1 p \<and> np_nonce1bin p' = np_nonce1bin p \<and> np_n2size p' = np_n2size p \<and> np_n1_len p' = np_n1_len p \<and>
    np_next_diff p' = np_next_diff (next_difficulty p) \<and> np_diff_after p' = np_diff_after (next_difficulty p)"
proof -
  note a' = a [unfolded announces_def]
  note l = announces_lengths [OF a]
  obtain p1 where p1: "notify_job p n = Inr p1" "job_stored p n p1"
    "np_coinbase_len p1 = length (j_cb1 j) + np_n1_len p + np_n2size p + length (j_cb2 j)"
    "np_nonce2_offset p1 = length (j_cb1 j) + np_n1_len p" "t_merkles p1 = t_merkles p" "np_merkle_bin p1 = np_merkle_bin p"
    "np_nonce2 p1 = np_nonce2 p" "np_header_bin p1 = np_header_bin p"
    using notify_job_ok [OF ok a] by blast
  obtain bs where "read_cells (t_merkles p1) (np_merkle_bin p1) = Inr bs" using ok p1(5,6) by (auto simp: pool_ok_def)
  from notify_branch_ok [OF this a] obtain p2 where p2: "notify_branch p1 n = Inr (True, p2)"
    "read_cells (t_merkles p2) (np_merkle_bin p2) = Inr (j_branch j)" "np_nonce2 p2 = (if n_clean n then 0 else np_nonce2 p1)"
    and eq2: "p2 = p1\<lparr>np_merkle_bin := np_merkle_bin p2, t_merkles := t_merkles p2, np_bad_work := np_bad_work p2, np_nonce2 := np_nonce2 p2\<rparr>"
    by blast
  note js = p1(2) [unfolded job_stored_def]
  have f2: "np_bbversion p2 = n_bbversion n" "cstr_of (np_prev_hash p2) = n_prev_hash n" "np_ntime p2 = n_ntime n"
    "np_nbit p2 = n_nbit n" "length (np_prev_hash p2) = 68" "np_header_bin p2 = np_header_bin p" "np_job_id p2 = Some (n_job_id n)"
    "np_sdiff p2 = np_sdiff (next_difficulty p)" "np_nonce1 p2 = np_nonce1 p" "np_nonce1bin p2 = np_nonce1bin p"
    "np_n1_len p2 = np_n1_len p" "np_n2size p2 = np_n2size p"
    "np_coinbase_len p2 = length (j_cb1 j) + np_n1_len p + np_n2size p + length (j_cb2 j)"
    "np_nonce2_offset p2 = length (j_cb1 j) + np_n1_len p"
    "np_next_diff p2 = np_next_diff (next_difficulty p)" "np_diff_after p2 = np_diff_after (next_difficulty p)"
    using js p1 by (subst eq2, simp)+
  let ?p3 = "p2\<lparr>np_header_bin := header_bytes j\<rparr>"
  have "length (header_bytes j) = 128" using l by (simp add: header_bytes_def padding_def)
  then have p3: "notify_header p2 = (True, ?p3)" and h128: "length (header_bytes j) = 128"
    using header_text_bytes [OF a f2(1-4)] f2(6) ok
    by (simp_all add: notify_header_def header_bytes_def [symmetric] mem_write_def pool_ok_def)
  let ?p4 = "?p3\<lparr>np_coinbase := Some (j_cb1 j @ np_nonce1bin p @ replicate (np_n2size p) 0 @ j_cb2 j)\<rparr>"
  have n1: "length (np_nonce1bin p) = np_n1_len p" using ok by (simp add: pool_ok_def)
  have p4: "notify_coinbase ?p3 n = Inr (True, ?p4)"
    using a' l(5,6) f2 n1 by (simp add: notify_coinbase_def)
  have run: "parse_notify cur p val = Inr (True, count_getwork cur ?p4)"
    by (simp add: parse_notify_def n p1(1) p2(1) p3 p4)
  have "fed (count_getwork cur ?p4) (j_cb1 j) (j_cb2 j) (j_branch j)"
    using f2 p2(2) l(12) n1 by (auto simp: fed_def count_getwork_def)
  moreover have "pool_ok (count_getwork cur ?p4)"
    using f2 p2(2) h128 n1 ok by (simp add: pool_ok_def count_getwork_def)
  ultimately show ?thesis using run f2 p2(3) p1(7) by (simp add: count_getwork_def)
qed

section \<open>Properties\<close>

text \<open>The work items made one after the other, each in a new item.\<close>

fun nth_work :: "gen_env \<Rightarrow> nat \<Rightarrow> npool \<Rightarrow> swork \<Rightarrow> net_err + (swork \<times> npool)" where
  "nth_work e 0 p w = gen_stratum_work e p w"
| "nth_work e (Suc k) p w = bindR (gen_stratum_work e p w) (\<lambda>(_, p). nth_work e k p w)"

lemma nth_work_ok:
  assumes e: "stack_ok (ge_stack e)"
  shows "fed p cb1 cb2 bs \<Longrightarrow> pool_ok p \<Longrightarrow> length cb1 + np_n1_len p + np_n2size p + length cb2 < 2 ^ 29 \<Longrightarrow>
    \<exists>w' p'. nth_work e k p w = Inr (w', p') \<and>
      made_from p (np_nonce2 p + of_nat k)
        (header_of p (branch_root bs (coinbase_of p cb1 cb2 (np_nonce2 p + of_nat k))) (w_data w)) w' \<and>
      np_coinbase p' = Some (coinbase_of p cb1 cb2 (np_nonce2 p + of_nat k)) \<and> feed_of p' = feed_of p"
proof (induction k arbitrary: p)
  case 0
  from gen_stratum_work_ok [OF 0(1,2) e 0(3)] show ?case by fastforce
next
  case (Suc k)
  from gen_stratum_work_ok [OF Suc.prems(1,2) e Suc.prems(3), of w] obtain w1 p1 where
    g: "gen_stratum_work e p w = Inr (w1, p1)" "np_nonce2 p1 = np_nonce2 p + 1"
    "np_coinbase p1 = Some (coinbase_of p cb1 cb2 (np_nonce2 p))" and f: "feed_of p1 = feed_of p" by blast
  have "np_n2size p \<le> 8" using Suc.prems(2) by (simp add: pool_ok_def)
  then have fed1: "fed p1 cb1 cb2 bs" by (rule fed_feed [OF f Suc.prems(1) g(3)])
  have ok1: "pool_ok p1" using pool_ok_feed [OF f] Suc.prems(2) by simp
  note eq = feed_of_eqD [OF f]
  have nn: "np_nonce2 p1 + of_nat k = np_nonce2 p + of_nat (Suc k)" using g(2) by simp
  have c: "coinbase_of p1 cb1 cb2 x = coinbase_of p cb1 cb2 x" for x by (simp add: coinbase_of_def eq)
  have h: "header_of p1 r d = header_of p r d" for r d by (simp add: header_of_def eq)
  have m: "made_from p1 x y z = made_from p x y z" for x y z by (simp add: made_from_def eq)
  have "length cb1 + np_n1_len p1 + np_n2size p1 + length cb2 < 2 ^ 29" using Suc.prems(3) eq by simp
  from Suc.IH [OF fed1 ok1 this] show ?case unfolding nn c h m f by (simp add: g(1))
qed

lemma length_dsha [simp]: "length (dsha x) = 32"
  by (simp add: dsha_def)

lemma length_branch_root [simp]: "length (branch_root bs c) = 32"
  by (induction bs rule: rev_induct) (simp_all add: branch_root_def)

lemma header_of_block:
  assumes "np_header_bin p = header_bytes j" and "announces n j" and "length data = 128" and "length r = 32"
  shows "flip80 (header_of p r data) = block_header j r"
proof -
  note l = announces_lengths [OF assms(2)]
  have r: "length (flip32 r) = 32" using assms(4) flip_words_length [of r 8] by (simp add: flip_words_eqs)
  have "take 80 (header_of p r data) = j_version j @ j_prev j @ flip32 r @ j_ntime j @ j_nbits j @ replicate 4 0"
    using l assms(3) r by (simp add: header_of_def assms(1) header_bytes_def padding_def mem_write_def)
  then have "flip80 (header_of p r data) =
      rev (j_version j) @ flip_words (j_prev j) @ flip_words (flip_words r) @ rev (j_ntime j) @ rev (j_nbits j) @ replicate 4 0"
    using l r assms(4)
    by (simp add: flip_words_eqs flip_words_append [where n = 1] flip_words_append [where n = 8] flip_words_word)
  then show ?thesis using flip_words_flip [of r 8] l assms(4) by (simp add: block_header_def flip_words_eqs)
qed

text \<open>C5: After a valid \<open>mining.notify\<close> the k-th work item carries exactly the block header the protocol defines: version, previous
  hash, time and bits of the notification, and the Merkle root over the coinbase made of its two parts, the pool's first nonce
  and the k-th second nonce (counted from zero when the notification asks for it); it also carries the job and the difficulty
  that the notification brings into force.\<close>

theorem notify_then_work:
  assumes "pool_ok p" and "notify_params val = Some n" and "announces n j" and "stack_ok (ge_stack e)"
    and "length (j_cb1 j) + np_n1_len p + np_n2size p + length (j_cb2 j) < 2 ^ 29" and "length (w_data w) = 128"
  shows "\<exists>p'. parse_notify cur p val = Inr (True, p') \<and> pool_ok p' \<and>
    (let nonce2 = (\<lambda>k. (if n_clean n then 0 else np_nonce2 p) + of_nat k);
         coinbase = (\<lambda>k. j_cb1 j @ np_nonce1bin p @ take (np_n2size p) (le64_bytes (nonce2 k)) @ j_cb2 j)
     in \<forall>k. \<exists>w' p''. nth_work e k p' w = Inr (w', p'') \<and> np_coinbase p'' = Some (coinbase k) \<and>
       flip80 (w_data w') = block_header j (branch_root (j_branch j) (coinbase k)) \<and>
       w_job_id w' = Some (n_job_id n) \<and> sw_nonce2 w' = nonce2 k \<and> sw_sdiff w' = np_sdiff (next_difficulty p))"
proof -
  obtain p' where p': "parse_notify cur p val = Inr (True, p')" "pool_ok p'" "fed p' (j_cb1 j) (j_cb2 j) (j_branch j)"
    "np_header_bin p' = header_bytes j" "np_job_id p' = Some (n_job_id n)" "np_sdiff p' = np_sdiff (next_difficulty p)"
    "np_nonce2 p' = (if n_clean n then 0 else np_nonce2 p)" "np_nonce1bin p' = np_nonce1bin p" "np_n2size p' = np_n2size p"
    "np_n1_len p' = np_n1_len p"
    using parse_notify_ok [OF assms(1-3)] by blast
  have "length (j_cb1 j) + np_n1_len p' + np_n2size p' + length (j_cb2 j) < 2 ^ 29" using assms(5) p' by simp
  note work = nth_work_ok [OF assms(4) p'(3,2) this, where w = w]
  have c: "coinbase_of p' (j_cb1 j) (j_cb2 j) x = j_cb1 j @ np_nonce1bin p @ take (np_n2size p) (le64_bytes x) @ j_cb2 j" for x
    by (simp add: coinbase_of_def p')
  have "\<exists>w' p''. nth_work e k p' w = Inr (w', p'') \<and> np_coinbase p'' = Some (coinbase_of p' (j_cb1 j) (j_cb2 j) (np_nonce2 p' + of_nat k)) \<and>
      flip80 (w_data w') = block_header j (branch_root (j_branch j) (coinbase_of p' (j_cb1 j) (j_cb2 j) (np_nonce2 p' + of_nat k))) \<and>
      w_job_id w' = Some (n_job_id n) \<and> sw_nonce2 w' = np_nonce2 p' + of_nat k \<and> sw_sdiff w' = np_sdiff (next_difficulty p)" for k
    using work [of k] header_of_block [OF p'(4) assms(3,6)] p'(5,6) by (fastforce simp: made_from_def)
  then show ?thesis using p'(1,2) unfolding c p'(7) Let_def by blast
qed

text \<open>A pool subscribed with a first nonce of two bytes and room for four more, and a notification with one branch hash.\<close>

definition demo_npool :: npool where
  "demo_npool = \<lparr>t_txn_data = None, t_transactions = 0, t_merkles = 0, t_merklebin = [],
     np_no = 0, np_job_id = None, np_clean = False, np_prev_hash = replicate 68 0, np_bbversion = [], np_nbit = [],
     np_ntime = [], np_next_diff = 1024, np_diff_after = 0, np_sdiff = 1, np_coinbase = None, np_coinbase_len = 0,
     np_nonce2_offset = 0, np_nonce2 = 77, np_n2size = 4, np_sessionid = None, np_nonce1 = Some (bytes_of ''0badcafe''),
     np_nonce1bin = [0x0b, 0xad, 0xca, 0xfe], np_n1_len = 4, np_merkle_bin = [], np_header_bin = replicate 128 0,
     np_bad_work = 0, np_getwork_requested = 0, np_last_diff = 0, np_min_diff = 0, np_min_diff_count = 0,
     np_max_diff = 0, np_max_diff_count = 0, np_total_getworks = 0, np_work_update = False, np_local_work = 0\<rparr>"

definition demo_params :: "json option" where
  "demo_params = Some (JArray [JString (bytes_of ''j1''), JString (replicate 64 49), JString (bytes_of ''010203''),
     JString (bytes_of ''FF''), JArray [JString (replicate 64 50)], JString (bytes_of ''20000000''),
     JString (bytes_of ''1d00ffff''), JString (bytes_of ''5a5a5a5a''), JTrue])"

definition demo_notify :: notify where
  "demo_notify = \<lparr>n_job_id = bytes_of ''j1'', n_prev_hash = replicate 64 49, n_coinbase1 = bytes_of ''010203'',
     n_coinbase2 = bytes_of ''FF'', n_bbversion = bytes_of ''20000000'', n_nbit = bytes_of ''1d00ffff'',
     n_ntime = bytes_of ''5a5a5a5a'', n_clean = True, n_branch = Some (JArray [JString (replicate 64 50)])\<rparr>"

definition demo_job :: job where
  "demo_job = \<lparr>j_version = [0x20, 0, 0, 0], j_prev = replicate 32 0x11, j_ntime = replicate 4 0x5a,
     j_nbits = [0x1d, 0, 0xff, 0xff], j_cb1 = [1, 2, 3], j_cb2 = [0xff], j_branch = [replicate 32 0x22]\<rparr>"

definition demo_env :: gen_env where
  "demo_env = \<lparr>ge_stack = wit_stack, ge_target = (\<lambda>_. replicate 32 0), ge_diff = (\<lambda>_. 1), ge_work_block = 3\<rparr>"

lemma demo_notify_params: "notify_params demo_params = Some demo_notify"
  by code_simp

lemma demo_announces: "announces demo_notify demo_job"
proof -
  have "hex2bin (replicate 64 50) 32 = (True, replicate 32 0x22)" by code_simp
  then have "branch_hash (n_branch demo_notify) 0 (replicate 32 0x22)"
    unfolding branch_hash_def by (intro exI [of _ "replicate 64 50"]) (simp add: demo_notify_def json_array_string_array)
  moreover have "hex2bin (n_bbversion demo_notify) 4 = (True, j_version demo_job)"
    "hex2bin (n_prev_hash demo_notify) 32 = (True, j_prev demo_job)"
    "hex2bin (n_ntime demo_notify) 4 = (True, j_ntime demo_job)" "hex2bin (n_nbit demo_notify) 4 = (True, j_nbits demo_job)"
    "hex2bin (n_coinbase1 demo_notify) (length (j_cb1 demo_job)) = (True, j_cb1 demo_job)"
    "hex2bin (n_coinbase2 demo_notify) (length (j_cb2 demo_job)) = (True, j_cb2 demo_job)"
    "json_array_size (n_branch demo_notify) = length (j_branch demo_job)" by code_simp+
  moreover have "j_branch demo_job = [replicate 32 0x22]" by (simp add: demo_job_def)
  ultimately show ?thesis by (simp add: announces_def)
qed

lemma demo_npool_ok: "pool_ok demo_npool"
  by (simp add: pool_ok_def demo_npool_def)

lemma demo_env_ok: "stack_ok (ge_stack demo_env)"
  by (simp add: demo_env_def stack_ok_def wit_stack_def)

lemma zero_swork_data: "length (w_data zero_swork) = 128"
  by (simp add: zero_swork_def zero_work_def gwork.extend_def swork.fields_def)

text \<open>The sixth item of the example.\<close>

theorem notify_then_work_witness:
  "\<exists>p'. parse_notify True demo_npool demo_params = Inr (True, p') \<and>
    (\<exists>w' p''. nth_work demo_env 5 p' zero_swork = Inr (w', p'') \<and> sw_sdiff w' = 1024 \<and>
      flip80 (w_data w') = block_header demo_job
        (branch_root [replicate 32 0x22] ([1, 2, 3, 0x0b, 0xad, 0xca, 0xfe, 5, 0, 0, 0, 0xff])))"
proof -
  have "length (j_cb1 demo_job) + np_n1_len demo_npool + np_n2size demo_npool + length (j_cb2 demo_job) < 2 ^ 29"
    by (simp add: demo_job_def demo_npool_def)
  note t = notify_then_work [OF demo_npool_ok demo_notify_params demo_announces demo_env_ok this zero_swork_data, of True]
  have "j_cb1 demo_job @ np_nonce1bin demo_npool @ take (np_n2size demo_npool)
      (le64_bytes ((if n_clean demo_notify then 0 else np_nonce2 demo_npool) + of_nat 5)) @ j_cb2 demo_job =
      [1, 2, 3, 0x0b, 0xad, 0xca, 0xfe, 5, 0, 0, 0, 0xff]"
    "np_sdiff (next_difficulty demo_npool) = 1024" "j_branch demo_job = [replicate 32 0x22]"
    by code_simp+
  with t show ?thesis unfolding Let_def by metis
qed

section \<open>The space of the second nonce\<close>

lemma le_val_inject: "length xs = length ys \<Longrightarrow> le_val xs = le_val ys \<longleftrightarrow> xs = ys"
proof (induction xs ys rule: list_induct2)
  case (Cons x xs y ys)
  have split: "u + 256 * a = v + 256 * b \<longleftrightarrow> u = v \<and> a = b" if "u < 256" "v < 256" for u v a b :: nat
  proof
    assume eq: "u + 256 * a = v + 256 * b"
    have "(u + 256 * a) mod 256 = (v + 256 * b) mod 256" unfolding eq ..
    then have "u = v" using that by simp
    with eq show "u = v \<and> a = b" by simp
  qed simp
  show ?case using Cons.IH by (simp add: split word_unat_eq_iff)
qed simp

lemma le_val_bytes: "le_val (map (\<lambda>k. ucast (drop_bit (8 * k) (x :: u64)) :: u8) [0..<s]) = unat x mod 256 ^ s"
proof (induction s)
  case (Suc s)
  have "unat (ucast (drop_bit (8 * s) x) :: u8) = unat x div 256 ^ s mod 256"
    by (simp add: unat_ucast8 unat_drop_bit_div power_mult)
  then have "le_val (map (\<lambda>k. ucast (drop_bit (8 * k) x) :: u8) [0..<Suc s]) =
      unat x mod 256 ^ s + 256 ^ s * (unat x div 256 ^ s mod 256)"
    using Suc.IH by (simp add: le_val_append)
  also have "\<dots> = unat x mod 256 ^ Suc s" using mod_mult2_eq [of "unat x" "256 ^ s" 256] by (simp add: mult.commute)
  finally show ?case .
qed simp

lemma le64_take_eq:
  assumes "s \<le> 8"
  shows "take s (le64_bytes x) = take s (le64_bytes y) \<longleftrightarrow> unat x mod 256 ^ s = unat y mod 256 ^ s"
proof -
  have t: "take s (le64_bytes z) = map (\<lambda>k. ucast (drop_bit (8 * k) z)) [0..<s]" for z
    using assms by (simp add: le64_bytes_def take_map)
  show ?thesis unfolding t le_val_bytes [symmetric] by (rule le_val_inject [symmetric]) simp
qed

lemma pow256_dvd: "s \<le> 8 \<Longrightarrow> (256 :: nat) ^ s dvd 2 ^ 64"
  using le_imp_power_dvd [of s 8 "256 :: nat"] by simp

lemma nonce2_mod:
  assumes "s \<le> 8"
  shows "unat (a + of_nat i :: u64) mod 256 ^ s = unat (a + of_nat k) mod 256 ^ s \<longleftrightarrow> i mod 256 ^ s = k mod (256 ^ s :: nat)"
proof -
  have w: "unat (a + of_nat n :: u64) mod 256 ^ s = (unat a + n) mod 256 ^ s" for n
    using pow256_dvd [OF assms]
    by (simp add: unat_word_ariths unsigned_of_nat take_bit_eq_mod mod_mod_cancel mod_add_right_eq)
  have "(unat a + i) mod 256 ^ s = (unat a + k) mod 256 ^ s \<longleftrightarrow>
      int (unat a + i) mod int (256 ^ s) = int (unat a + k) mod int (256 ^ s)"
    by (metis of_nat_eq_iff zmod_int)
  also have "\<dots> \<longleftrightarrow> int i mod int (256 ^ s) = int k mod int (256 ^ s)"
    by (simp add: mod_eq_dvd_iff)
  also have "\<dots> \<longleftrightarrow> i mod 256 ^ s = k mod 256 ^ s" by (metis of_nat_eq_iff zmod_int)
  finally show ?thesis unfolding w .
qed

text \<open>C31: The coinbases of two work items of one notification are the same exactly when their numbers agree modulo
  256 to the size of the second nonce: no work is made twice before that space is used up, and then it repeats.\<close>

theorem stratum_work_distinct:
  assumes "pool_ok p" and "notify_params val = Some n" and "announces n j" and "stack_ok (ge_stack e)"
    and "length (j_cb1 j) + np_n1_len p + np_n2size p + length (j_cb2 j) < 2 ^ 29"
  shows "\<exists>p' cb. parse_notify cur p val = Inr (True, p') \<and>
    (\<forall>k. \<exists>w' p''. nth_work e k p' w = Inr (w', p'') \<and> np_coinbase p'' = Some (cb k)) \<and>
    (\<forall>i k. cb i = cb k \<longleftrightarrow> i mod 256 ^ np_n2size p = k mod 256 ^ np_n2size p)"
proof -
  obtain p' where p': "parse_notify cur p val = Inr (True, p')" "pool_ok p'" "fed p' (j_cb1 j) (j_cb2 j) (j_branch j)"
    "np_n2size p' = np_n2size p" "np_n1_len p' = np_n1_len p"
    using parse_notify_ok [OF assms(1-3)] by blast
  have "length (j_cb1 j) + np_n1_len p' + np_n2size p' + length (j_cb2 j) < 2 ^ 29" using assms(5) p' by simp
  note work = nth_work_ok [OF assms(4) p'(3,2) this, where w = w]
  define cb where "cb = (\<lambda>k. coinbase_of p' (j_cb1 j) (j_cb2 j) (np_nonce2 p' + of_nat k))"
  have n2: "np_n2size p \<le> 8" using assms(1) by (simp add: pool_ok_def)
  have "cb i = cb k \<longleftrightarrow> i mod 256 ^ np_n2size p = k mod 256 ^ np_n2size p" for i k
    unfolding cb_def coinbase_of_def p'(4)
    by (simp add: le64_take_eq [OF n2] nonce2_mod [OF n2])
  moreover have "\<exists>w' p''. nth_work e k p' w = Inr (w', p'') \<and> np_coinbase p'' = Some (cb k)" for k
    using work [of k] unfolding cb_def by blast
  ultimately show ?thesis using p'(1) by blast
qed

text \<open>In the example the works 5 and 300 differ.\<close>

theorem stratum_work_distinct_witness:
  "\<exists>p' w1 p1 w2 p2. parse_notify False demo_npool demo_params = Inr (True, p') \<and>
    nth_work demo_env 5 p' zero_swork = Inr (w1, p1) \<and> nth_work demo_env 300 p' zero_swork = Inr (w2, p2) \<and>
    np_coinbase p1 \<noteq> np_coinbase p2"
proof -
  have "length (j_cb1 demo_job) + np_n1_len demo_npool + np_n2size demo_npool + length (j_cb2 demo_job) < 2 ^ 29"
    by (simp add: demo_job_def demo_npool_def)
  from stratum_work_distinct [OF demo_npool_ok demo_notify_params demo_announces demo_env_ok this, of False zero_swork]
  obtain p' cb where p': "parse_notify False demo_npool demo_params = Inr (True, p')"
    and w: "\<And>k. \<exists>w' p''. nth_work demo_env k p' zero_swork = Inr (w', p'') \<and> np_coinbase p'' = Some (cb k)"
    and d: "\<And>i k. cb i = cb k \<longleftrightarrow> i mod 256 ^ np_n2size demo_npool = k mod 256 ^ np_n2size demo_npool" by blast
  have "cb 5 \<noteq> cb 300" unfolding d by (simp add: demo_npool_def)
  with p' w [of 5] w [of 300] show ?thesis by fastforce
qed

section \<open>Difficulties\<close>

text \<open>The difficulties announced and not yet in force: at most two.\<close>

definition pending :: "npool \<Rightarrow> rat list" where
  "pending p = (if np_next_diff p = 0 then []
     else if np_diff_after p = 0 then [np_next_diff p] else [np_next_diff p, np_diff_after p])"

definition diffs_ok :: "npool \<Rightarrow> bool" where
  "diffs_ok p \<longleftrightarrow> 0 \<le> np_next_diff p \<and> 0 \<le> np_diff_after p \<and> (np_next_diff p = 0 \<longrightarrow> np_diff_after p = 0)"

text \<open>Announced difficulties form a queue of two: \<open>mining.set_difficulty\<close> enters a positive value at its end, or over its
  second place when it is full, and refuses any other; each valid notification brings the first one into force and removes it.\<close>

theorem difficulty_queue:
  assumes "diffs_ok p"
  shows "(let d = json_number_value (json_array_get val 0); (r, p') = parse_diff p val
      in if d \<le> 0 then \<not> r \<and> p' = p
         else r \<and> diffs_ok p' \<and> np_sdiff p' = np_sdiff p \<and>
           pending p' = (if length (pending p) < 2 then pending p @ [d] else [hd (pending p), d])) \<and>
    (pool_ok p \<longrightarrow> notify_params msg = Some n \<longrightarrow> announces n j \<longrightarrow>
      (\<exists>p'. parse_notify cur p msg = Inr (True, p') \<and> diffs_ok p' \<and>
        np_sdiff p' = (case pending p of [] \<Rightarrow> np_sdiff p | d # _ \<Rightarrow> d) \<and> pending p' = tl (pending p)))"
proof (intro conjI impI)
  show "let d = json_number_value (json_array_get val 0); (r, p') = parse_diff p val
      in if d \<le> 0 then \<not> r \<and> p' = p
         else r \<and> diffs_ok p' \<and> np_sdiff p' = np_sdiff p \<and>
           pending p' = (if length (pending p) < 2 then pending p @ [d] else [hd (pending p), d])"
    using assms by (simp add: parse_diff_def Let_def pending_def diffs_ok_def)
next
  assume "pool_ok p" "notify_params msg = Some n" "announces n j"
  from parse_notify_ok [OF this] obtain p' where p': "parse_notify cur p msg = Inr (True, p')"
    "np_sdiff p' = np_sdiff (next_difficulty p)" "np_next_diff p' = np_next_diff (next_difficulty p)"
    "np_diff_after p' = np_diff_after (next_difficulty p)" by blast
  have "diffs_ok p'" "np_sdiff p' = (case pending p of [] \<Rightarrow> np_sdiff p | d # _ \<Rightarrow> d)" "pending p' = tl (pending p)"
    using assms p'(2-4) by (auto simp: diffs_ok_def pending_def next_difficulty_def)
  with p'(1) show "\<exists>p'. parse_notify cur p msg = Inr (True, p') \<and> diffs_ok p' \<and>
        np_sdiff p' = (case pending p of [] \<Rightarrow> np_sdiff p | d # _ \<Rightarrow> d) \<and> pending p' = tl (pending p)" by blast
qed

theorem difficulty_queue_witness:
  "pending (snd (parse_diff demo_npool (Some (JArray [JInteger 2048])))) = [1024, 2048] \<and>
   (\<exists>p'. parse_notify True demo_npool demo_params = Inr (True, p') \<and> np_sdiff p' = 1024 \<and> pending p' = [])"
proof -
  have "diffs_ok demo_npool" and p: "pending demo_npool = [1024]"
    by (simp_all add: diffs_ok_def pending_def demo_npool_def)
  note t = difficulty_queue [OF this(1), of "Some (JArray [JInteger 2048])" demo_params demo_notify demo_job True]
  show ?thesis using t demo_npool_ok demo_notify_params demo_announces
    by (simp add: p json_number_value_def json_array_get_def Let_def case_prod_beta) blast
qed

section \<open>Refused notifications\<close>

lemma read_free_Freed: "read_cells n cs = Inr bs \<Longrightarrow> free_cells n cs = Inr (replicate n Freed @ drop n cs) \<and> n \<le> length cs"
  by (induction n cs arbitrary: bs rule: free_cells.induct) (auto simp: bindR_eq_Inr split: if_splits)

lemma free_cells_bad:
  "j < n \<Longrightarrow> j \<le> length cs \<Longrightarrow> \<forall>k < j. \<exists>b. cs ! k = Live b \<Longrightarrow> (j < length cs \<longrightarrow> cs ! j = Freed) \<Longrightarrow>
    free_cells n cs = Inl (if j < length cs then DoubleFree else WildPointer)"
proof (induction n cs arbitrary: j rule: free_cells.induct)
  case (3 n cs)
  then show ?case by (cases j) auto
next
  case (4 n cs)
  then show ?case by (cases j) auto
next
  case (5 n b cs)
  show ?case
  proof (cases j)
    case (Suc i)
    have "\<forall>k < i. \<exists>b. cs ! k = Live b" using "5.prems"(3) Suc by fastforce
    with 5 Suc show ?thesis by simp
  qed (use 5 in simp)
qed simp_all

text \<open>A branch whose first malformed hash is the one at \<open>i\<close>.\<close>

definition bad_branch :: "json option \<Rightarrow> nat \<Rightarrow> bool" where
  "bad_branch arr i \<longleftrightarrow> i < json_array_size arr \<and> (\<forall>k < i. \<exists>b. branch_hash arr k b) \<and>
     (\<exists>s. json_array_string arr i = Some s \<and> \<not> fst (hex2bin s 32))"

lemma fill_cells_bad:
  assumes "bad_branch arr i"
  shows "k \<le> i \<Longrightarrow> json_array_size arr \<le> length cs \<Longrightarrow>
    \<exists>bs. length bs = Suc i - k \<and> fill_cells arr [k..<json_array_size arr] cs = Inr (False, mem_write k (map Live bs) cs)"
proof (induction "i - k" arbitrary: k cs)
  case 0
  then have k: "k = i" by simp
  obtain s where s: "json_array_string arr i = Some s" "\<not> fst (hex2bin s 32)" and i: "i < json_array_size arr"
    using assms by (auto simp: bad_branch_def)
  have "fill_cells arr [i..<json_array_size arr] cs = Inr (False, mem_write i (map Live [snd (hex2bin s 32)]) cs)"
    using s i 0(3) by (simp add: upt_conv_Cons case_prod_beta mem_write_update [symmetric] mem_write_nil)
  then show ?case unfolding k by (intro exI [of _ "[snd (hex2bin s 32)]"]) simp
next
  case (Suc d)
  then have lt: "k < i" by simp
  then obtain b where b: "branch_hash arr k b" and kn: "k < json_array_size arr"
    using assms by (auto simp: bad_branch_def)
  have "d = i - Suc k" "Suc k \<le> i" "json_array_size arr \<le> length (cs[k := Live b])" using Suc.hyps(2) lt Suc.prems(2) by simp_all
  from Suc.hyps(1) [OF this] obtain bs where bs: "length bs = Suc i - Suc k"
    "fill_cells arr [Suc k..<json_array_size arr] (cs[k := Live b]) = Inr (False, mem_write (Suc k) (map Live bs) (cs[k := Live b]))"
    by blast
  have "fill_cells arr [k..<json_array_size arr] cs = Inr (False, mem_write k (map Live (b # bs)) cs)"
    using b bs(2) kn Suc.prems(2) by (auto simp: upt_conv_Cons branch_hash_def mem_write_update)
  then show ?case using bs(1) lt by (intro exI [of _ "b # bs"]) simp
qed

lemma mem_write_cells:
  assumes "length bs = Suc i" and "Suc i \<le> length cs"
  shows "\<forall>k < Suc i. \<exists>b. mem_write 0 (map Live bs) cs ! k = Live b"
    and "Suc i < length cs \<Longrightarrow> mem_write 0 (map Live bs) cs ! Suc i = cs ! Suc i"
  using assms by (simp_all add: mem_write_def nth_append)

text \<open>The state after a notification with a malformed branch.\<close>

lemma notify_branch_bad:
  assumes cells: "read_cells (t_merkles p) (np_merkle_bin p) = Inr bs" and bad: "bad_branch (n_branch n) i"
    and more: "Suc i < t_merkles p"
  shows "\<exists>p'. notify_branch p n = Inr (False, p') \<and> p' = p\<lparr>np_merkle_bin := np_merkle_bin p'\<rparr> \<and>
    free_cells (t_merkles p') (np_merkle_bin p') =
      Inl (if Suc i < json_array_size (n_branch n) then DoubleFree else WildPointer)"
proof -
  let ?m = "json_array_size (n_branch n)" and ?cs = "replicate (t_merkles p) Freed @ drop (t_merkles p) (np_merkle_bin p)"
  let ?rs = "realloc_cells ?m ?cs"
  have m: "i < ?m" using bad by (simp add: bad_branch_def)
  note free = read_free_Freed [OF cells]
  have lrs: "length ?rs = ?m" by (simp add: realloc_cells_def)
  then have fits: "?m \<le> length ?rs" by simp
  from fill_cells_bad [OF bad le0 fits] obtain hs where hs: "length hs = Suc i"
    "fill_cells (n_branch n) [0..<?m] ?rs = Inr (False, mem_write 0 (map Live hs) ?rs)" by (auto simp del: One_nat_def)
  let ?cs' = "mem_write 0 (map Live hs) ?rs"
  have nb: "notify_branch p n = Inr (False, p\<lparr>np_merkle_bin := ?cs'\<rparr>)"
    using free m hs(2) by (simp add: notify_branch_def Let_def)
  have le: "Suc i \<le> length ?rs" using m lrs by simp
  have len: "length ?cs' = ?m" using hs(1) le lrs by simp
  have "?cs' ! Suc i = Freed" if "Suc i < ?m"
  proof -
    have "?rs ! Suc i = Freed" using that more by (simp add: realloc_cells_def nth_append)
    then show ?thesis using mem_write_cells(2) [OF hs(1) le] that lrs by simp
  qed
  moreover have "Suc i \<le> length ?cs'" using m len by simp
  ultimately have "free_cells (t_merkles p) ?cs' = Inl (if Suc i < ?m then DoubleFree else WildPointer)"
    using free_cells_bad [OF more _ mem_write_cells(1) [OF hs(1) le]] len by simp
  then show ?thesis unfolding nb by simp
qed

lemma notify_job_total:
  assumes "63 \<le> length (n_prev_hash n)"
  shows "\<exists>p'. notify_job p n = Inr p' \<and> np_job_id p' = Some (n_job_id n) \<and> np_coinbase p' = np_coinbase p \<and>
    t_merkles p' = t_merkles p \<and> np_merkle_bin p' = np_merkle_bin p"
  using assms by (simp add: notify_job_def same_prev_def Let_def)

text \<open>C37: A notification whose branch has a malformed hash is refused, but its job identifier stays, beside the coinbase of the job
  before it; and when the branch before it was longer than the hashes converted, the next notification frees memory twice or
  follows a pointer outside the array.\<close>

theorem refused_notify_breaks:
  assumes "pool_ok p" and "notify_params val = Some n" and "63 \<le> length (n_prev_hash n)"
    and "bad_branch (n_branch n) i" and "Suc i < t_merkles p"
    and "notify_params val2 = Some n2" and "63 \<le> length (n_prev_hash n2)"
  shows "\<exists>p'. parse_notify cur p val = Inr (False, p') \<and> np_job_id p' = Some (n_job_id n) \<and> np_coinbase p' = np_coinbase p \<and>
    parse_notify cur2 p' val2 = Inl (if Suc i < json_array_size (n_branch n) then DoubleFree else WildPointer)"
proof -
  obtain bs where bs: "read_cells (t_merkles p) (np_merkle_bin p) = Inr bs" using assms(1) by (auto simp: pool_ok_def)
  obtain p1 where p1: "notify_job p n = Inr p1" "np_job_id p1 = Some (n_job_id n)" "np_coinbase p1 = np_coinbase p"
    "t_merkles p1 = t_merkles p" "np_merkle_bin p1 = np_merkle_bin p" using notify_job_total [OF assms(3)] by blast
  have "read_cells (t_merkles p1) (np_merkle_bin p1) = Inr bs" "Suc i < t_merkles p1" using bs p1 assms(5) by simp_all
  from notify_branch_bad [OF this(1) assms(4) this(2)] obtain p2 where p2: "notify_branch p1 n = Inr (False, p2)"
    and eq: "p2 = p1\<lparr>np_merkle_bin := np_merkle_bin p2\<rparr>"
    and fr: "free_cells (t_merkles p2) (np_merkle_bin p2) =
      Inl (if Suc i < json_array_size (n_branch n) then DoubleFree else WildPointer)" by blast
  let ?p3 = "count_getwork cur p2"
  have run: "parse_notify cur p val = Inr (False, ?p3)" by (simp add: parse_notify_def assms(2) p1(1) p2)
  have keep: "np_job_id ?p3 = Some (n_job_id n)" "np_coinbase ?p3 = np_coinbase p"
    unfolding count_getwork_def by (subst eq, simp add: p1)+
  obtain p4 where p4: "notify_job ?p3 n2 = Inr p4" "t_merkles p4 = t_merkles p2" "np_merkle_bin p4 = np_merkle_bin p2"
    using notify_job_total [OF assms(7), of ?p3] by (auto simp: count_getwork_def)
  have "notify_branch p4 n2 = Inl (if Suc i < json_array_size (n_branch n) then DoubleFree else WildPointer)"
    using fr p4 by (simp add: notify_branch_def)
  then have "parse_notify cur2 ?p3 val2 = Inl (if Suc i < json_array_size (n_branch n) then DoubleFree else WildPointer)"
    by (simp add: parse_notify_def assms(6) p4(1))
  with run keep show ?thesis by blast
qed

text \<open>A pool with two hashes, and a branch whose first hash is one digit short.\<close>

definition demo_bad :: "json option" where
  "demo_bad = Some (JArray [JString (bytes_of ''j2''), JString (replicate 64 49), JString (bytes_of ''010203''),
     JString (bytes_of ''FF''), JArray [JString (replicate 63 50), JString (replicate 64 50)], JString (bytes_of ''20000000''),
     JString (bytes_of ''1d00ffff''), JString (bytes_of ''5a5a5a5a''), JTrue])"

theorem refused_notify_breaks_witness:
  "\<exists>p'. parse_notify True (demo_npool\<lparr>t_merkles := 2, np_merkle_bin := [Live (replicate 32 1), Live (replicate 32 2)]\<rparr>) demo_bad =
      Inr (False, p') \<and> parse_notify True p' demo_params = Inl DoubleFree"
proof -
  let ?p = "demo_npool\<lparr>t_merkles := 2, np_merkle_bin := [Live (replicate 32 1), Live (replicate 32 2)]\<rparr>"
  let ?n = "demo_notify\<lparr>n_job_id := bytes_of ''j2'', n_branch := Some (JArray [JString (replicate 63 50), JString (replicate 64 50)])\<rparr>"
  have "read_cells 2 [Live (replicate 32 1), Live (replicate 32 2)] = Inr [replicate 32 1, replicate 32 2]" by code_simp
  then have ok: "pool_ok ?p" using demo_npool_ok by (simp add: pool_ok_def)
  have n: "notify_params demo_bad = Some ?n" by code_simp
  have l: "63 \<le> length (n_prev_hash ?n)" "63 \<le> length (n_prev_hash demo_notify)" by (simp_all add: demo_notify_def)
  have "\<not> fst (hex2bin (replicate 63 50) 32)" by code_simp
  then have bad: "bad_branch (n_branch ?n) 0"
    by (simp add: bad_branch_def json_array_string_eq json_defs)
  have "json_array_size (n_branch ?n) = 2" by (simp add: json_array_size_def)
  then show ?thesis using refused_notify_breaks [OF ok n l(1) bad _ demo_notify_params l(2), of True True] by auto
qed

end
