(* ===== verification/Gbt.thy ===== *)
theory Gbt
  imports Stratum Scriptser
begin

text \<open>
  Block templates (cgminer.c): decoding the answer to \<open>getblocktemplate\<close> of a pool (\<open>gbt_decode\<close>) or of one's
  own node (\<open>gbt_solo_decode\<close>, which composes the coinbase itself), the work items made from it
  (\<open>gen_gbt_work\<close>, \<open>gen_solo_work\<close>), and the block that is submitted (\<open>submit_upstream_work\<close>).
  Answers to remote calls are arguments.
\<close>

section \<open>State\<close>

text \<open>Numbers the code keeps in the byte order of the header are kept as their bytes; \<open>gp_locked\<close> is the template lock left held.\<close>

record gpool = npool +
  gp_coinbasetxn :: "cstr option"
  gp_longpollid :: "cstr option"
  gp_workid :: "cstr option"
  gp_previousblockhash :: "u8 list"
  gp_target :: "u8 list"
  gp_expires :: int
  gp_version :: "u8 list"
  gp_curtime :: "u8 list"
  gp_bits :: "u8 list"
  gp_submit_old :: bool
  gp_gbt_txns :: nat
  gp_height :: int
  gp_scriptsig_base :: "u8 list"
  gp_script_pubkey :: "u8 list"
  gp_solo :: bool
  gp_locked :: bool
  gp_lastwork :: int
  gp_seq_getfails :: nat
  gp_died :: bool

text \<open>
  What the code finds in its environment: uninitialised stack memory for hashes (\<open>te_junk\<close>) and of a given size, the
  clock, and the signature to put into the coinbase.
\<close>

record tmpl_env = gen_env +
  te_junk :: "u8 list"
  te_alloc :: "nat \<Rightarrow> u8 list"
  te_now :: "u32 \<times> u32"
  te_btc_sig :: "cstr option"

datatype tmpl_err = Net net_err | Quit | SigOverflow | TextOverflow | Deadlock

definition netR :: "net_err + 'a \<Rightarrow> tmpl_err + 'a" where
  "netR r = (case r of Inl e \<Rightarrow> Inl (Net e) | Inr x \<Rightarrow> Inr x)"

definition key :: "json option \<Rightarrow> string \<Rightarrow> json option" where
  "key j name = json_object_get j (bytes_of name)"

definition int_key :: "json option \<Rightarrow> string \<Rightarrow> int" where
  "int_key j name = c_int (json_integer_value (key j name))"

definition str_key :: "json option \<Rightarrow> string \<Rightarrow> cstr option" where
  "str_key j name = json_string_value (key j name)"

section \<open>Templates of a pool\<close>

text \<open>
  The coinbase transaction with eight more bytes at the end of its script: the bytes, their number and
  where the new ones are.  The length of the script is one byte.
\<close>

definition hex_at :: "nat \<Rightarrow> cstr \<Rightarrow> nat \<Rightarrow> u8 list \<Rightarrow> u8 list" where
  "hex_at off s len buf = mem_write off (snd (hex2bin s len)) buf"

definition gbt_coinbase :: "cstr \<Rightarrow> net_err + (u8 list \<times> nat \<times> nat)" where
  "gbt_coinbase txn =
     (let cbt_len = length txn div 2; n2size = 8;
          buf = hex_at 0 txn 42 (replicate (cbt_len + n2size + 1) 0)
      in if length buf \<le> 41 then Inl BufferOverflow
      else if length txn < 84 then Inl OverRead
      else
        let extra_len = buf ! 41; orig_len = unat extra_len;
            buf = hex_at 42 (drop 84 txn) orig_len buf;
            extra_len = extra_len + of_nat n2size; buf = buf[41 := extra_len]
        in if length txn < 84 + orig_len * 2 then Inl OverRead
        else Inr (hex_at (42 + unat extra_len) (drop (84 + orig_len * 2) txn) (cbt_len - orig_len - 42) buf,
               cbt_len + n2size, orig_len + 42))"

definition gbt_decode :: "tmpl_env \<Rightarrow> gpool \<Rightarrow> json option \<Rightarrow> tmpl_err + (bool \<times> gpool)" where
  "gbt_decode e p res =
     (let expires = int_key res ''expires''; version = int_key res ''version''; curtime = int_key res ''curtime'' in
      case (str_key res ''previousblockhash'', str_key res ''target'', str_key (key res ''coinbasetxn'') ''data'',
            str_key res ''longpollid'', str_key res ''bits'') of
        (Some previousblockhash, Some target, Some coinbasetxn, Some longpollid, Some bits) \<Rightarrow>
          if expires = 0 \<or> version = 0 \<or> curtime = 0 then Inr (False, p)
          else if gp_locked p then Inl Deadlock
          else bindR (netR (gbt_coinbase coinbasetxn)) (\<lambda>(coinbase, coinbase_len, nonce2_offset).
            let hash_swap = hex_at 0 previousblockhash 32 (te_junk e);
                prev = swap256 hash_swap;
                hash_swap = hex_at 0 target 32 hash_swap;
                p = p\<lparr>gp_coinbasetxn := Some coinbasetxn, np_n2size := 8, np_coinbase_len := coinbase_len,
                      np_coinbase := Some coinbase, np_nonce2_offset := nonce2_offset, gp_longpollid := Some longpollid,
                      gp_workid := str_key res ''workid'', gp_previousblockhash := prev, gp_target := swab256 hash_swap,
                      gp_expires := expires, gp_version := be32_bytes (word_of_int version),
                      gp_curtime := be32_bytes (word_of_int curtime), gp_submit_old := json_is_true (key res ''submitold''),
                      gp_bits := hex_at 0 bits 4 (gp_bits p)\<rparr>;
                arr = key res ''transactions''
            in (case gbt_merkle_bins (ge_stack e) (te_alloc e (32 * (json_array_size arr + 2))) p arr of
                  Inl err \<Rightarrow> Inl (Net (Branch err))
                | Inr p \<Rightarrow> Inr (True, p\<lparr>np_bad_work := (if t_transactions p < 3 then np_bad_work p + 1 else np_bad_work p)\<rparr>)))
      | _ \<Rightarrow> Inr (False, p))"

section \<open>Templates of one's own node\<close>

definition scriptsig_header :: cstr where
  "scriptsig_header = bytes_of ''01000000010000000000000000000000000000000000000000000000000000000000000000ffffffff''"

definition scriptsig_header_bin :: "u8 list" where
  "scriptsig_header_bin = snd (hex2bin scriptsig_header 41)"

text \<open>
  The rules of the template: after a leading exclamation mark, the first rule that does not start with
  \<open>segwit\<close> asks for the witness commitment.
\<close>

definition asks_witness :: "cstr \<Rightarrow> bool" where
  "asks_witness rule =
     (let rule = (if rule \<noteq> [] \<and> hd rule = 33 then tl rule else rule) in take 6 rule \<noteq> bytes_of ''segwit'')"

definition insert_witness :: "json option \<Rightarrow> bool" where
  "insert_witness rules =
     list_ex (\<lambda>i. case json_string_value (json_array_get rules i) of None \<Rightarrow> False | Some rule \<Rightarrow> asks_witness rule)
       [0..<json_array_size rules]"

text \<open>
  The script of the coinbase, in the pool's buffer of 100 bytes, of which the first 42 are cleared: writing a piece and
  going on by a number of bytes.  Result: the buffer, where the second nonce goes, and the length, the byte for it
  included; the byte after the last piece belongs to the script too.
\<close>

definition put :: "u8 list \<Rightarrow> nat \<Rightarrow> u8 list \<times> nat \<Rightarrow> u8 list \<times> nat" where
  "put bs n st = (case st of (buf, ofs) \<Rightarrow> (mem_write ofs bs buf, ofs + n))"

definition put_sig :: "cstr option \<Rightarrow> u8 list \<times> nat \<Rightarrow> u8 list \<times> nat" where
  "put_sig btc_sig st = (case btc_sig of None \<Rightarrow> st
     | Some s \<Rightarrow> let len = min (length s) 32 in put (take len s) len (put [of_nat len] 1 st))"

definition solo_script :: "tmpl_env \<Rightarrow> int \<Rightarrow> cstr \<Rightarrow> u8 list \<Rightarrow> tmpl_err + (u8 list \<times> nat \<times> nat)" where
  "solo_script e height flags base =
     (let st = (mem_write 0 (replicate 42 0) base, 1);
          st = (case ser_number (word_of_int height) of (num, k) \<Rightarrow> put num k st);
          len = length flags div 2;
          st = put [of_nat len] 1 st;
          st = put (snd (hex2bin flags len)) len st;
          st = put (0xfe # le32_bytes (fst (te_now e))) 5 st;
          st = put (0xfe # le32_bytes (snd (te_now e))) 5 st;
          st = put [9, 0x63, 0x67, 0x6d, 0x69, 0x6e, 0x65, 0x72, 0x34, 0x32] 10 st;
          st = put [8] 1 st;
          nonce2_offset = 41 + snd st;
          st = put [] 8 st;
          (base, ofs) = put_sig (te_btc_sig e) st
      in if 100 < ofs + 1 then Inl SigOverflow else Inr (base[0 := of_nat ofs], nonce2_offset, ofs + 1))"

definition witness_out :: "u8 list \<Rightarrow> u8 list" where
  "witness_out witnessdata = replicate 8 0 @ [of_nat (length witnessdata + 2), 0x6a, of_nat (length witnessdata)] @ witnessdata"

text \<open>The coinbase of a script, without the header and the output script \<open>__setup_gbt_solo\<close> fills in.\<close>

definition solo_coinbase :: "u8 list \<Rightarrow> nat \<Rightarrow> u64 \<Rightarrow> u8 list option \<Rightarrow> u8 list" where
  "solo_coinbase base ofs coinbasevalue witness =
     (let len = 41 + ofs + 4 + 1 + 8 + 1 + 25 + 4 + (case witness of None \<Rightarrow> 0 | Some w \<Rightarrow> 8 + 1 + 2 + length w);
          cb = mem_write 41 (take ofs base) (replicate len 0);
          cb = mem_write (41 + ofs) [0xff, 0xff, 0xff, 0xff] cb;
          cb = cb[41 + ofs + 4 := (if witness = None then 1 else 2)];
          cb = mem_write (41 + ofs + 4 + 1) (le64_bytes coinbasevalue) cb
      in (case witness of None \<Rightarrow> cb | Some w \<Rightarrow> mem_write (41 + ofs + 4 + 1 + 8 + 1 + 25) (witness_out w) cb))"

text \<open>
  The witness commitment the template asks for: none, or its 36 bytes, compared with the one of the template, if it has one.
  \<open>Inr None\<close> is a failure.
\<close>

definition solo_witness :: "tmpl_env \<Rightarrow> json option \<Rightarrow> json option \<Rightarrow> tmpl_err + u8 list option option" where
  "solo_witness e res arr =
     (if \<not> insert_witness (key res ''rules'') then Inr (Some None)
      else (case gbt_witness_data (ge_stack e) (te_alloc e (32 * (json_array_size arr + 2))) arr 36 of
        None \<Rightarrow> Inr None
      | Some witnessdata \<Rightarrow>
          (case str_key res ''default_witness_commitment'' of None \<Rightarrow> Inr (Some (Some witnessdata))
           | Some dwc \<Rightarrow>
               if length dwc < 4 then Inl (Net OverRead)
               else if hex_text witnessdata \<noteq> take 72 (drop 4 dwc) then Inr None
               else Inr (Some (Some witnessdata)))))"

text \<open>When the witness commitment fails the function returns with the lock held.\<close>

definition gbt_solo_decode :: "tmpl_env \<Rightarrow> gpool \<Rightarrow> json option \<Rightarrow> tmpl_err + (bool \<times> gpool)" where
  "gbt_solo_decode e p res =
     (let version = int_key res ''version''; curtime = int_key res ''curtime''; height = int_key res ''height'';
          coinbasevalue = word_of_int (json_integer_value (key res ''coinbasevalue'')) :: u64;
          coinbase_aux = key res ''coinbaseaux''; arr = key res ''transactions''
      in case (str_key res ''previousblockhash'', str_key res ''target'', str_key res ''bits'', str_key coinbase_aux ''flags'') of
        (Some previousblockhash, Some target, Some bits, Some flags) \<Rightarrow>
          if version = 0 \<or> curtime = 0 then Inr (False, p)
          else if gp_locked p then Inl Deadlock
          else
            let hash_swap = hex_at 0 previousblockhash 32 (te_junk e);
                prev = swap256 hash_swap;
                hash_swap = hex_at 0 target 32 hash_swap;
                target = swab256 hash_swap;
                p = p\<lparr>gp_previousblockhash := prev, np_prev_hash := mem_write 0 (bin2hex_raw prev) (np_prev_hash p),
                      gp_target := target, np_sdiff := ge_diff e target,
                      gp_version := be32_bytes (word_of_int version), gp_curtime := be32_bytes (word_of_int curtime),
                      np_ntime := hex_text (be32_bytes (word_of_int curtime)),
                      np_bbversion := hex_text (be32_bytes (word_of_int version)),
                      np_nbit := snprintf_s 9 bits, gp_bits := hex_at 0 bits 4 (gp_bits p)\<rparr>
            in (case gbt_merkle_bins (ge_stack e) (te_alloc e (32 * (json_array_size arr + 2))) p arr of
                  Inl err \<Rightarrow> Inl (Net (Branch err))
                | Inr p \<Rightarrow>
                  bindR (solo_witness e res arr) (\<lambda>w. case w of None \<Rightarrow> Inr (False, p\<lparr>gp_locked := True\<rparr>)
                  | Some witness \<Rightarrow>
                  bindR (solo_script e height flags (gp_scriptsig_base p)) (\<lambda>(base, nonce2_offset, ofs).
                  let cb = solo_coinbase base ofs coinbasevalue witness;
                      p = p\<lparr>np_bad_work := (if t_transactions p < 3 then np_bad_work p + 1 else np_bad_work p),
                            gp_height := height, gp_scriptsig_base := base, np_nonce2_offset := nonce2_offset,
                            np_n1_len := ofs, np_coinbase := Some cb, np_nonce2 := 0, np_n2size := 4,
                            np_coinbase_len := length cb\<rparr>
                  in (case hex2bin (header_text (npool.truncate p)) 128 of (ok, out) \<Rightarrow>
                        if \<not> ok then Inl Quit else Inr (True, p\<lparr>np_header_bin := mem_write 0 out (np_header_bin p)\<rparr>)))))
      | _ \<Rightarrow> Inr (False, p))"

text \<open>The header of the coinbase transaction and the script of its output.\<close>

definition setup_gbt_solo_locked :: "gpool \<Rightarrow> tmpl_err + gpool" where
  "setup_gbt_solo_locked p =
     (if gp_locked p then Inl Deadlock
      else (case np_coinbase p of None \<Rightarrow> Inl (Net NullCoinbase)
      | Some cb \<Rightarrow>
          let pos = 41 + np_n1_len p + 4 + 1 + 8 in
          if length cb < pos + 26 then Inl (Net BufferOverflow)
          else Inr (p\<lparr>np_coinbase := Some (mem_write (pos + 1) (take 25 (gp_script_pubkey p))
            ((mem_write 0 scriptsig_header_bin cb)[pos := 25]))\<rparr>)))"

text \<open>\<open>reply\<close> is the answer to \<open>validateaddress\<close>.\<close>

definition setup_gbt_solo :: "gpool \<Rightarrow> cstr option \<Rightarrow> json option \<Rightarrow> tmpl_err + (bool \<times> gpool)" where
  "setup_gbt_solo p opt_btc_address reply =
     (case opt_btc_address of None \<Rightarrow> Inr (False, p)
      | Some addr \<Rightarrow>
          if json_is_true (key (key reply ''result'') ''isvalid'')
          then (case address_to_pubkeyhash addr of None \<Rightarrow> Inl (Net OverRead)
            | Some pkh \<Rightarrow> bindR (setup_gbt_solo_locked (p\<lparr>gp_script_pubkey := mem_write 0 pkh (gp_script_pubkey p)\<rparr>))
                 (\<lambda>p. Inr (True, p)))
          else Inr (False, p))"

section \<open>Work\<close>

definition work_decode :: "tmpl_env \<Rightarrow> gpool \<Rightarrow> swork \<Rightarrow> int \<Rightarrow> json option \<Rightarrow> tmpl_err + (bool \<times> gpool \<times> swork)" where
  "work_decode e p w now val =
     (let res = key val ''result''; p = p\<lparr>gp_lastwork := now\<rparr> in
      if res = None \<or> json_is_null res then Inr (False, p, w)
      else if gp_solo p then bindR (gbt_solo_decode e p res) (\<lambda>(ok, p). Inr (ok, p, w))
      else bindR (gbt_decode e p res) (\<lambda>(ok, p).
        Inr (ok, p, if ok then w\<lparr>sw_gbt := True, w_hash := replicate 32 0\<rparr> else w)))"

text \<open>A template older than a minute is asked for again; \<open>reply\<close> is the answer, if any.\<close>

definition update_gbt :: "tmpl_env \<Rightarrow> bool \<Rightarrow> gpool \<Rightarrow> int \<Rightarrow> json option \<Rightarrow> tmpl_err + gpool" where
  "update_gbt e is_current p now reply =
     (if reply = None then Inr p
      else bindR (work_decode e p zero_swork now reply) (\<lambda>(ok, p, _).
        Inr (p\<lparr>np_total_getworks := np_total_getworks p + 1, np_getwork_requested := np_getwork_requested p + 1,
              np_work_update := (np_work_update p \<or> ok \<and> is_current)\<rparr>)))"

definition gbt_header :: "gpool \<Rightarrow> u8 list \<Rightarrow> u8 list" where
  "gbt_header p merkleroot = gp_version p @ gp_previousblockhash p @ flip32 merkleroot @ gp_curtime p @ gp_bits p @
     replicate 4 0 @ snd (hex2bin workpadding 48)"

definition gen_gbt_work :: "tmpl_env \<Rightarrow> bool \<Rightarrow> gpool \<Rightarrow> swork \<Rightarrow> int \<Rightarrow> json option \<Rightarrow> tmpl_err + (swork \<times> gpool)" where
  "gen_gbt_work e is_current p w now reply =
     bindR (if 60 < now - gp_lastwork p then update_gbt e is_current p now reply else Inr p) (\<lambda>p.
     if gp_locked p then Inl Deadlock else
     bindR (netR (put_nonce2 p)) (\<lambda>p.
     bindR (netR (read_coinbase p)) (\<lambda>cb.
     let merkleroot = gbt_merkleroot (ge_stack e) p cb;
         w = w\<lparr>w_data := gbt_header p merkleroot, w_target := gp_target p, w_coinbase := Some (hex_text cb),
               sw_gbt_txns := gp_gbt_txns p + 1,
               w_job_id := (case gp_workid p of None \<Rightarrow> w_job_id w | Some workid \<Rightarrow> Some workid)\<rparr>;
         p = p\<lparr>np_local_work := np_local_work p + 1\<rparr>;
         w = w\<lparr>w_pool := Some (np_no p), sw_gbt := True, sw_longpoll := False, sw_getwork_mode := Some MODE_GBT,
               w_work_block := ge_work_block e, sw_drv_rolllimit := 60\<rparr>
     in Inr (calc_diff (ge_diff e) w 0 p))))"

text \<open>Solo work from the template at hand.\<close>

definition solo_work :: "tmpl_env \<Rightarrow> gpool \<Rightarrow> swork \<Rightarrow> tmpl_err + (swork \<times> gpool)" where
  "solo_work e p w =
     (if gp_locked p then Inl Deadlock else
      bindR (netR (put_nonce2 p)) (\<lambda>p'.
      bindR (netR (read_coinbase p')) (\<lambda>cb.
      let merkle_root = gbt_merkleroot (ge_stack e) p' cb;
          w = w\<lparr>sw_nonce2 := np_nonce2 p, sw_nonce2_len := np_n2size p', sw_gbt_txns := t_transactions p' + 1,
                w_coinbase := Some (hex_text cb), w_data := header_of p' merkle_root (w_data w), sw_sdiff := np_sdiff p',
                w_ntime := Some (np_ntime p'), w_target := gp_target p'\<rparr>;
          p' = p'\<lparr>np_local_work := np_local_work p' + 1\<rparr>;
          w = w\<lparr>sw_gbt := True, w_pool := Some (np_no p'), w_nonce := 0, sw_longpoll := False,
                sw_getwork_mode := Some MODE_SOLO, w_work_block := ge_work_block e, sw_drv_rolllimit := 60\<rparr>
      in Inr (calc_diff (ge_diff e) w (sw_sdiff w) p'))))"

text \<open>
  Asking one's own node until it answers or has failed too often; \<open>replies\<close> are its answers, in order.  The work
  made on the way is staged.
\<close>

function update_gbt_solo ::
  "tmpl_env \<Rightarrow> gpool \<Rightarrow> int \<Rightarrow> (nat \<Rightarrow> json option) \<Rightarrow> nat \<Rightarrow> tmpl_err + (swork list \<times> gpool)" where
  "update_gbt_solo e p now replies i = (case replies i of
     None \<Rightarrow>
       if 5 < gp_seq_getfails p + 1 then Inr ([], p\<lparr>gp_seq_getfails := gp_seq_getfails p + 1, gp_died := True\<rparr>)
       else update_gbt_solo e (p\<lparr>gp_seq_getfails := gp_seq_getfails p + 1\<rparr>) now replies (i + 1)
   | Some val \<Rightarrow>
       bindR (work_decode e p zero_swork now (Some val)) (\<lambda>(ok, p, w).
         if \<not> ok then Inr ([], p)
         else bindR (setup_gbt_solo_locked p) (\<lambda>p. bindR (solo_work e p w) (\<lambda>(w, p). Inr ([w], p)))))"
  by pat_completeness auto
termination by (relation "measure (\<lambda>(_, p, _, _, _). 6 - gp_seq_getfails p)") auto

declare update_gbt_solo.simps [simp del]

definition gen_solo_work :: "tmpl_env \<Rightarrow> gpool \<Rightarrow> swork \<Rightarrow> int \<Rightarrow> (nat \<Rightarrow> json option) \<Rightarrow> tmpl_err + (swork list \<times> swork \<times> gpool)" where
  "gen_solo_work e p w now replies =
     bindR (if 60 < now - gp_lastwork p then update_gbt_solo e p now replies 0 else Inr ([], p)) (\<lambda>(staged, p).
     bindR (solo_work e p w) (\<lambda>(w, p). Inr (staged, w, p)))"

section \<open>The block\<close>

definition block_varint :: "nat \<Rightarrow> cstr" where
  "block_varint n =
     (if n < 0xfd then hex_text [of_nat n]
      else if n \<le> 0xffff then bytes_of ''fd'' @ hex_text (rev (be16_bytes (of_nat n)))
      else bytes_of ''fe'' @ hex_text (le32_bytes (of_nat n)))"

text \<open>The text of the block in the call: 1024 bytes for the block itself, and as many for the call it begins.\<close>

definition submit_block_text :: "bool \<Rightarrow> gpool \<Rightarrow> swork \<Rightarrow> tmpl_err + cstr" where
  "submit_block_text has_gbt p w = (case w_coinbase w of None \<Rightarrow> Inl (Net NullString)
     | Some coinbase \<Rightarrow>
         let gbt_block = hex_text (flip80 (w_data w)) @ block_varint (sw_gbt_txns w) @ coinbase in
         if 1024 \<le> length (bytes_of ''{\"id\": 0, \"method\": \"submitblock\", \"params\": [\"'') + length gbt_block
         then Inl TextOverflow
         else if has_gbt then Inr gbt_block
         else if gp_locked p then Inl Deadlock
         else Inr (gbt_block @ (case t_txn_data p of None \<Rightarrow> [] | Some txns \<Rightarrow> txns)))"

section \<open>Decoding in pieces\<close>

lemma hex2bin_Cons_True:
  assumes "hex2bin (c1 # c2 # s) k = (True, a)"
  obtains n out b where "k = Suc n" "hex2bin s n = (True, out)" "a = b # out"
    "\<And>m. hex2bin (c1 # c2 # s) (Suc m) = (case hex2bin s m of (r, o') \<Rightarrow> (r, b # o'))"
  using assms by (cases k) (auto simp: Let_def split: if_splits prod.splits)

lemma hex2bin_take: "hex2bin s k = (True, a) \<Longrightarrow> m \<le> k \<Longrightarrow> snd (hex2bin s m) = take m a"
proof (induction s k arbitrary: a m rule: hex2bin.induct)
  case (3 c1 c2 s len)
  from "3.prems"(1) show ?case
  proof (rule hex2bin_Cons_True)
    fix n out b
    assume n: "len = Suc n" and rec: "hex2bin s n = (True, out)" and a: "a = b # out"
      and step: "\<And>m. hex2bin (c1 # c2 # s) (Suc m) = (case hex2bin s m of (r, o') \<Rightarrow> (r, b # o'))"
    have ih: "j \<le> n \<Longrightarrow> snd (hex2bin s j) = take j out" for j
      using 3 n rec by (auto simp: Let_def split: if_splits)
    show ?thesis
    proof (cases m)
      case (Suc j)
      then show ?thesis unfolding Suc step a using ih [of j] "3.prems"(2) n Suc by (simp add: case_prod_beta)
    qed simp
  qed
qed auto

lemma hex2bin_drop: "hex2bin s k = (True, a) \<Longrightarrow> m \<le> k \<Longrightarrow> hex2bin (drop (2 * m) s) (k - m) = (True, drop m a)"
proof (induction s k arbitrary: a m rule: hex2bin.induct)
  case (3 c1 c2 s len)
  from "3.prems"(1) show ?case
  proof (rule hex2bin_Cons_True)
    fix n out b
    assume n: "len = Suc n" and rec: "hex2bin s n = (True, out)" and a: "a = b # out"
    have ih: "j \<le> n \<Longrightarrow> hex2bin (drop (2 * j) s) (n - j) = (True, drop j out)" for j
      using 3 n rec by (auto simp: Let_def split: if_splits)
    show ?thesis
    proof (cases m)
      case (Suc j)
      then show ?thesis using ih [of j] "3.prems"(2) n a by simp
    qed (use "3.prems"(1) in simp)
  qed
qed auto

lemma hex_at_start: "length bs = k \<Longrightarrow> hex2bin s k = (True, bs) \<Longrightarrow> length buf = k \<Longrightarrow> hex_at 0 s k buf = bs"
  by (simp add: hex_at_def mem_write_def)

text \<open>The coinbase of a template: 41 bytes, the length of the script, the script and the rest.\<close>

lemma gbt_coinbase_ok:
  assumes txn: "hex2bin txn (length pre + 1 + length sig + length rest) = (True, pre @ [of_nat (length sig)] @ sig @ rest)"
    and pre: "length pre = 41" and sig: "length sig < 248"
  shows "gbt_coinbase txn = Inr (pre @ [of_nat (length sig + 8)] @ sig @ replicate 8 0 @ rest @ [0],
    42 + length sig + length rest + 8, length sig + 42)"
proof -
  let ?a = "pre @ [of_nat (length sig)] @ sig @ rest" and ?L = "length sig"
  let ?N = "42 + ?L + length rest"
  have txn': "hex2bin txn ?N = (True, ?a)" using txn pre by (simp add: add.assoc)
  have len: "length txn = 2 * ?N" using hex2bin_ok(1) [OF txn'] .
  have L: "unat (of_nat ?L :: u8) = ?L" "unat (of_nat ?L + 8 :: u8) = ?L + 8"
    using sig unat_word_of_nat_small [of ?L, where 'a = 8] unat_word_of_nat_small [of "?L + 8", where 'a = 8] by simp_all
  have p1: "snd (hex2bin txn 42) = pre @ [of_nat ?L]" using hex2bin_take [OF txn', of 42] pre by simp
  have d1: "hex2bin (drop 84 txn) (?L + length rest) = (True, sig @ rest)"
    using hex2bin_drop [OF txn', of 42] pre by simp
  have p2: "snd (hex2bin (drop 84 txn) ?L) = sig" using hex2bin_take [OF d1, of ?L] by simp
  have "hex2bin (drop (2 * (42 + ?L)) txn) (length rest) = (True, rest)"
    using hex2bin_drop [OF txn', of "42 + ?L"] pre by simp
  then have p3: "snd (hex2bin (drop (84 + ?L * 2) txn) (length rest)) = rest" by (simp add: mult.commute)
  define buf where "buf = hex_at 0 txn 42 (replicate (?N + 8 + 1) 0)"
  have buf: "buf = pre @ [of_nat ?L] @ replicate (?L + length rest + 9) 0"
    using pre by (simp add: buf_def hex_at_def p1 mem_write_def)
  have b41: "buf ! 41 = of_nat ?L" "length buf = ?N + 9" using pre by (simp_all add: buf nth_append)
  have b2: "(hex_at 42 (drop 84 txn) ?L buf)[41 := of_nat ?L + 8] = pre @ [of_nat ?L + 8] @ sig @ replicate (length rest + 9) 0"
    using pre by (simp add: hex_at_def p2 buf mem_write_def list_update_append)
  have b3: "hex_at (42 + (?L + 8)) (drop (84 + ?L * 2) txn) (?N - ?L - 42)
      (pre @ [of_nat ?L + 8] @ sig @ replicate (length rest + 9) 0) =
      pre @ [of_nat ?L + 8] @ sig @ replicate 8 0 @ rest @ [0]"
  proof -
    have "replicate (length rest + 9) (0 :: u8) = replicate 8 0 @ replicate (length rest) 0 @ replicate 1 0"
      unfolding replicate_add [symmetric] by (simp add: add.commute)
    then have split: "pre @ [of_nat ?L + 8] @ sig @ replicate (length rest + 9) 0 =
        (pre @ [of_nat ?L + 8] @ sig @ replicate 8 0) @ replicate (length rest) 0 @ [0]" by simp
    have e: "?N - ?L - 42 = length rest" by simp
    have "mem_write (42 + (?L + 8)) rest ((pre @ [of_nat ?L + 8] @ sig @ replicate 8 0) @ replicate (length rest) 0 @ [0]) =
        (pre @ [of_nat ?L + 8] @ sig @ replicate 8 0) @ rest @ [0]"
      by (rule mem_write_mid) (use pre in simp_all)
    then show ?thesis unfolding split hex_at_def e p3 by simp
  qed
  have half: "length txn div 2 = ?N" using len by simp
  show ?thesis
    unfolding gbt_coinbase_def Let_def half buf_def [symmetric]
    using b41 b2 b3 len L by simp
qed

section \<open>Work from a pool's template\<close>

lemma put_nonce2_mid:
  assumes "np_coinbase p = Some (A @ mid @ B)" and "np_nonce2_offset p = length A" and "length mid = np_n2size p" and "np_n2size p \<le> 8"
  shows "put_nonce2 p = Inr (p\<lparr>np_coinbase := Some (A @ take (np_n2size p) (le64_bytes (np_nonce2 p)) @ B), np_nonce2 := np_nonce2 p + 1\<rparr>)"
  using assms by (simp add: put_nonce2_def mem_write_def)

lemma txns_more_eq:
  "txns.more p' = txns.more p \<Longrightarrow>
    p' = p\<lparr>t_txn_data := t_txn_data p', t_transactions := t_transactions p', t_merkles := t_merkles p', t_merklebin := t_merklebin p'\<rparr>"
  by (cases p', cases p) simp

lemma words_of_flip: "length x = 4 * n \<Longrightarrow> flip_words (concat (rev (words_of x))) = rev x"
proof (induction n arbitrary: x)
  case (Suc n)
  then obtain a b c d r where x: "x = a # b # c # d # r" by (cases x rule: words_of.cases) auto
  with Suc.prems have r: "length r = 4 * n" by simp
  have "length (concat (rev (words_of r))) = 4 * n"
    using concat_words_of [OF r] r by (metis length_concat rev_map sum_list_rev)
  from flip_words_append [OF this, of "[a, b, c, d]"] Suc.IH [OF r] show ?case
    by (simp add: x flip_words_word)
qed (simp add: flip_words_def)

lemma flip_swap256: "length x = 32 \<Longrightarrow> flip_words (swap256 x) = rev x"
  using words_of_flip [of x 8] by (simp add: swap256_def)

lemma length_swap256: "length x = 32 \<Longrightarrow> length (swap256 x) = 32"
  using arg_cong [OF concat_words_of [of x 8], of length] by (simp add: swap256_def length_concat rev_map [symmetric])

lemma hex_at_shown:
  assumes "shown (Some s) h" and "length buf = 32"
  shows "hex_at 0 s 32 buf = rev h"
  using assms by (intro hex_at_start) (auto simp: shown_def dest: hex2bin_ok(2))

lemma rev_be32: "rev (be32_bytes x) = le32_bytes x"
  by (simp add: be32_bytes_rev)

text \<open>What a template says, in the order of bytes of the protocol.\<close>

record tmpl =
  tm_version :: int
  tm_prev :: "u8 list"
  tm_target :: "u8 list"
  tm_time :: int
  tm_bits :: "u8 list"
  tm_ids :: "u8 list list"

definition describes :: "json option \<Rightarrow> tmpl \<Rightarrow> bool" where
  "describes res t \<longleftrightarrow>
     int_key res ''version'' = tm_version t \<and> tm_version t \<noteq> 0 \<and> int_key res ''curtime'' = tm_time t \<and> tm_time t \<noteq> 0 \<and>
     shown (str_key res ''previousblockhash'') (tm_prev t) \<and> shown (str_key res ''target'') (tm_target t) \<and>
     (\<exists>b. str_key res ''bits'' = Some b \<and> hex2bin b 4 = (True, tm_bits t)) \<and>
     template (key res ''transactions'') (txn_id (key res ''transactions'')) (tm_ids t) \<and> length (tm_ids t) < 65536 \<and>
     (\<forall>i < length (tm_ids t). txn_string (key res ''transactions'') i ''data'' \<noteq> None)"

definition pool_template :: "json option \<Rightarrow> u8 list \<Rightarrow> u8 list \<Rightarrow> u8 list \<Rightarrow> bool" where
  "pool_template res pre sig rest \<longleftrightarrow> int_key res ''expires'' \<noteq> 0 \<and> str_key res ''longpollid'' \<noteq> None \<and>
     length pre = 41 \<and> length sig < 248 \<and>
     (\<exists>c. str_key (key res ''coinbasetxn'') ''data'' = Some c \<and>
       hex2bin c (length pre + 1 + length sig + length rest) = (True, pre @ [of_nat (length sig)] @ sig @ rest))"

definition tmpl_env_ok :: "tmpl_env \<Rightarrow> bool" where
  "tmpl_env_ok e \<longleftrightarrow> stack_ok (ge_stack e) \<and> length (te_junk e) = 32 \<and> (\<forall>n. length (te_alloc e n) = n)"

definition gpool_ok :: "gpool \<Rightarrow> bool" where
  "gpool_ok p \<longleftrightarrow> \<not> gp_locked p \<and> length (t_merklebin p) = 512 \<and> length (gp_bits p) = 4"

definition tmpl_header :: "tmpl \<Rightarrow> u8 list \<Rightarrow> u8 list" where
  "tmpl_header t mroot = le32_bytes (word_of_int (tm_version t)) @ tm_prev t @ mroot @
     le32_bytes (word_of_int (tm_time t)) @ rev (tm_bits t) @ replicate 4 0"

lemma describes_lengths:
  assumes "describes res t"
  shows "length (tm_prev t) = 32" "length (tm_target t) = 32" "length (tm_bits t) = 4" "\<forall>h \<in> set (tm_ids t). length h = 32"
proof -
  note d = assms [unfolded describes_def template_def]
  show "length (tm_prev t) = 32" "length (tm_target t) = 32" "length (tm_bits t) = 4"
    using d by (auto dest: shown_length hex2bin_ok(2))
  have "length (tm_ids t ! i) = 32" if "i < length (tm_ids t)" for i using d that by (blast dest: shown_length)
  then show "\<forall>h \<in> set (tm_ids t). length h = 32" by (auto simp: in_set_conv_nth)
qed

text \<open>The transactions of a template, whatever else the pool holds.\<close>

lemma template_bins:
  assumes d: "describes res t" and e: "tmpl_env_ok e" and mb: "length (t_merklebin p) = 512"
  defines "arr \<equiv> key res ''transactions''"
  shows "\<exists>p'. gbt_merkle_bins (ge_stack e) (te_alloc e (32 * (json_array_size arr + 2))) p arr = Inr p' \<and>
    t_transactions p' = length (tm_ids t) \<and> gbt_branch p' = tree_branch dsha (tm_ids t) \<and>
    (case t_txn_data p' of None \<Rightarrow> [] | Some txns \<Rightarrow> txns) =
      concat (map (\<lambda>i. the (txn_string arr i ''data'')) [0..<length (tm_ids t)]) \<and>
    p' = p\<lparr>t_txn_data := t_txn_data p', t_transactions := t_transactions p', t_merkles := t_merkles p', t_merklebin := t_merklebin p'\<rparr> \<and>
    length (t_merklebin p') = 512"
proof -
  have tm: "template arr (txn_id arr) (tm_ids t)" and da: "\<forall>i < length (tm_ids t). txn_string arr i ''data'' \<noteq> None"
    and lt: "length (tm_ids t) < 65536" using d by (simp_all add: describes_def arr_def)
  have n: "json_array_size arr = length (tm_ids t)" using tm by (simp add: template_def)
  have "length (tree_branch dsha (tm_ids t)) \<le> 16" using lt by (intro length_tree_branch) simp
  moreover have "stack_ok (ge_stack e)" "length (te_alloc e (32 * (length (tm_ids t) + 2))) = 32 * (length (tm_ids t) + 2)"
    using e by (simp_all add: tmpl_env_ok_def)
  ultimately obtain p' where p': "gbt_merkle_bins (ge_stack e) (te_alloc e (32 * (length (tm_ids t) + 2))) p arr = Inr p'"
    "t_transactions p' = length (tm_ids t)" "gbt_branch p' = tree_branch dsha (tm_ids t)" "length (t_merklebin p') = 512"
    "txns.more p' = txns.more p" "t_txn_data p' = (if tm_ids t = [] then None else Some (copied_txns arr [0..<length (tm_ids t)]))"
    using gbt_merkle_bins_branch [of "ge_stack e" arr "tm_ids t" _ p, OF _ tm _ da mb] by fastforce
  have "copied_txns arr [0..<length (tm_ids t)] = concat (map (\<lambda>i. the (txn_string arr i ''data'')) [0..<length (tm_ids t)])"
    by (rule copied_txns_all) (use da tm in \<open>auto simp: template_def\<close>)
  then have "(case t_txn_data p' of None \<Rightarrow> [] | Some txns \<Rightarrow> txns) =
      concat (map (\<lambda>i. the (txn_string arr i ''data'')) [0..<length (tm_ids t)])"
    using p'(6) by simp
  then show ?thesis unfolding n using p'(1-4) txns_more_eq [OF p'(5)] by blast
qed

lemma length_padding_hex: "length (snd (hex2bin workpadding 48)) = 48"
  using hex2bin_padding by (simp add: padding_def)

lemma le32_length [simp]: "length (rev (be32_bytes x)) = 4"
  by simp

text \<open>The header of a template as work, flipped back.\<close>

lemma flip80_header:
  assumes "length v = 4" "length x = 32" "length r = 32" "length c = 4" "length b = 4"
  shows "flip80 (v @ swap256 x @ flip32 r @ c @ b @ replicate 4 0 @ pad) =
    rev v @ rev x @ r @ rev c @ rev b @ replicate 4 0"
proof -
  have l: "length (swap256 x) = 32" "length (flip32 r) = 32"
    using length_swap256 [OF assms(2)] flip_words_length [of r 8] assms(3) by (simp_all add: flip_words_eqs)
  have "take 80 (v @ swap256 x @ flip32 r @ c @ b @ replicate 4 0 @ pad) = v @ swap256 x @ flip32 r @ c @ b @ replicate 4 0"
    using assms l by simp
  then have "flip80 (v @ swap256 x @ flip32 r @ c @ b @ replicate 4 0 @ pad) =
      rev v @ flip_words (swap256 x) @ flip_words (flip32 r) @ rev c @ rev b @ replicate 4 0"
    using assms l
    by (simp add: flip_words_eqs(2) flip_words_append [where n = 1] flip_words_append [where n = 8] flip_words_word)
  then show ?thesis using flip_swap256 [OF assms(2)] flip_words_flip [of r 8] assms(3) by (simp add: flip_words_eqs(1))
qed

text \<open>What decoding a pool's template leaves.\<close>

lemma gbt_decode_ok:
  assumes d: "describes res t" and pt: "pool_template res pre sig rest" and e: "tmpl_env_ok e" and ok: "gpool_ok p"
  shows "\<exists>p'. gbt_decode e p res = Inr (True, p') \<and> gpool_ok p' \<and> gbt_branch p' = tree_branch dsha (tm_ids t) \<and>
    np_coinbase p' = Some (pre @ [of_nat (length sig + 8)] @ sig @ replicate 8 0 @ rest @ [0]) \<and>
    np_coinbase_len p' = 42 + length sig + length rest + 8 \<and> np_nonce2_offset p' = length sig + 42 \<and> np_n2size p' = 8 \<and>
    np_nonce2 p' = np_nonce2 p \<and> gp_version p' = be32_bytes (word_of_int (tm_version t)) \<and>
    gp_previousblockhash p' = swap256 (rev (tm_prev t)) \<and> gp_target p' = tm_target t \<and>
    gp_curtime p' = be32_bytes (word_of_int (tm_time t)) \<and> gp_bits p' = tm_bits t \<and> gp_lastwork p' = gp_lastwork p"
proof -
  obtain ps ts b where s: "str_key res ''previousblockhash'' = Some ps" "str_key res ''target'' = Some ts"
    "str_key res ''bits'' = Some b" and bits: "hex2bin b 4 = (True, tm_bits t)"
    and sh: "shown (Some ps) (tm_prev t)" "shown (Some ts) (tm_target t)"
    and ver: "int_key res ''version'' = tm_version t" "int_key res ''curtime'' = tm_time t" "tm_version t \<noteq> 0" "tm_time t \<noteq> 0"
    using d by (auto simp: describes_def shown_Some)
  obtain c lp where c: "str_key (key res ''coinbasetxn'') ''data'' = Some c" "str_key res ''longpollid'' = Some lp"
    "int_key res ''expires'' \<noteq> 0"
    and cb: "hex2bin c (length pre + 1 + length sig + length rest) = (True, pre @ [of_nat (length sig)] @ sig @ rest)"
    and pre: "length pre = 41" "length sig < 248" using pt unfolding pool_template_def by blast
  note coin = gbt_coinbase_ok [OF cb pre]
  have hs: "hex_at 0 ps 32 (te_junk e) = rev (tm_prev t)" using e by (intro hex_at_shown [OF sh(1)]) (simp add: tmpl_env_ok_def)
  have ht: "hex_at 0 ts 32 (rev (tm_prev t)) = rev (tm_target t)"
    using describes_lengths(1) [OF d] by (intro hex_at_shown [OF sh(2)]) simp
  have hb: "hex_at 0 b 4 (gp_bits p) = tm_bits t"
    using ok bits by (intro hex_at_start) (auto simp: gpool_ok_def dest: hex2bin_ok(2))
  have tg: "swab256 (rev (tm_target t)) = tm_target t" using describes_lengths(2) [OF d] by (simp add: swab256_rev)
  define q where "q = p\<lparr>gp_coinbasetxn := Some c, np_n2size := 8, np_coinbase_len := 42 + length sig + length rest + 8,
     np_coinbase := Some (pre @ [of_nat (length sig + 8)] @ sig @ replicate 8 0 @ rest @ [0]),
     np_nonce2_offset := length sig + 42, gp_longpollid := Some lp,
     gp_workid := str_key res ''workid'', gp_previousblockhash := swap256 (rev (tm_prev t)), gp_target := tm_target t,
     gp_expires := int_key res ''expires'', gp_version := be32_bytes (word_of_int (tm_version t)),
     gp_curtime := be32_bytes (word_of_int (tm_time t)), gp_submit_old := json_is_true (key res ''submitold''),
     gp_bits := tm_bits t\<rparr>"
  have "length (t_merklebin q) = 512" using ok by (simp add: q_def gpool_ok_def)
  from template_bins [OF d e this] obtain p1 where
    p1: "gbt_merkle_bins (ge_stack e) (te_alloc e (32 * (json_array_size (key res ''transactions'') + 2))) q (key res ''transactions'') = Inr p1"
    "gbt_branch p1 = tree_branch dsha (tm_ids t)" "length (t_merklebin p1) = 512"
    and eq: "p1 = q\<lparr>t_txn_data := t_txn_data p1, t_transactions := t_transactions p1, t_merkles := t_merkles p1, t_merklebin := t_merklebin p1\<rparr>"
    by blast
  let ?p2 = "p1\<lparr>np_bad_work := (if t_transactions p1 < 3 then np_bad_work p1 + 1 else np_bad_work p1)\<rparr>"
  have "gbt_decode e p res = Inr (True, ?p2)"
    using ok c(3) ver p1(1) [unfolded q_def]
    by (simp add: gbt_decode_def Let_def s c coin netR_def hs ht hb tg gpool_ok_def)
  moreover have f: "np_coinbase p1 = np_coinbase q" "np_coinbase_len p1 = np_coinbase_len q" "np_nonce2_offset p1 = np_nonce2_offset q"
    "np_n2size p1 = np_n2size q" "np_nonce2 p1 = np_nonce2 q" "gp_version p1 = gp_version q"
    "gp_previousblockhash p1 = gp_previousblockhash q" "gp_target p1 = gp_target q" "gp_curtime p1 = gp_curtime q"
    "gp_bits p1 = gp_bits q" "gp_lastwork p1 = gp_lastwork q" "gp_locked p1 = gp_locked q"
    by (subst eq, simp)+
  moreover have "gpool_ok ?p2" using ok p1(3) f describes_lengths(3) [OF d] by (simp add: gpool_ok_def q_def)
  moreover have "gbt_branch ?p2 = tree_branch dsha (tm_ids t)" using p1(2) by (simp add: gbt_branch_def)
  ultimately show ?thesis by (simp add: q_def)
qed

lemma gbt_root:
  assumes "stack_ok stack" and "gbt_branch p = tree_branch dsha (tm_ids t)" and "describes res t" and "length cb < 2 ^ 29"
  shows "gbt_merkleroot stack p cb = tree_root dsha (dsha cb # tm_ids t)"
  by (rule gbt_merkleroot_tree [OF assms(1,2) describes_lengths(4) [OF assms(3)] assms(4)])

lemma length_tree_root: "length (tree_root dsha (dsha c # ids)) = 32" if "\<forall>h \<in> set ids. length h = 32"
proof -
  have "length (foldl (\<lambda>c b. dsha (c @ b)) x bs) = 32" if "length x = 32" for x bs
    using that by (induction bs rule: rev_induct) simp_all
  from this [of "dsha c" "tree_branch dsha ids"] show ?thesis by (simp add: tree_branch_root)
qed

text \<open>C19: From a pool's template, work items carry exactly the block header of the protocol: the template's version, time and bits, the
  previous hash, and the root of the Merkle tree over the coinbase and the template's transactions, where the coinbase is the
  template's with the eight bytes of the second nonce after its script and the length of the script adjusted.\<close>

theorem gbt_work_is_block:
  assumes "describes res t" and "pool_template res pre sig rest" and "tmpl_env_ok e" and "gpool_ok p" and "length rest < 2 ^ 28"
  shows "\<exists>p'. gbt_decode e p res = Inr (True, p') \<and>
    (\<forall>cur w now reply. now - gp_lastwork p \<le> 60 \<longrightarrow>
      (let cb = pre @ [of_nat (length sig + 8)] @ sig @ le64_bytes (np_nonce2 p) @ rest
       in \<exists>w' p''. gen_gbt_work e cur p' w now reply = Inr (w', p'') \<and>
         flip80 (w_data w') = tmpl_header t (tree_root dsha (dsha cb # tm_ids t)) \<and>
         w_coinbase w' = Some (hex_text cb) \<and> w_target w' = tm_target t \<and> np_nonce2 p'' = np_nonce2 p + 1))"
proof -
  obtain p' where dec: "gbt_decode e p res = Inr (True, p')" and ok: "gpool_ok p'"
    and br: "gbt_branch p' = tree_branch dsha (tm_ids t)"
    and co: "np_coinbase p' = Some (pre @ [of_nat (length sig + 8)] @ sig @ replicate 8 0 @ rest @ [0])"
    and f: "np_coinbase_len p' = 42 + length sig + length rest + 8" "np_nonce2_offset p' = length sig + 42" "np_n2size p' = 8"
    "np_nonce2 p' = np_nonce2 p" "gp_version p' = be32_bytes (word_of_int (tm_version t))"
    "gp_previousblockhash p' = swap256 (rev (tm_prev t))" "gp_target p' = tm_target t"
    "gp_curtime p' = be32_bytes (word_of_int (tm_time t))" "gp_bits p' = tm_bits t" "gp_lastwork p' = gp_lastwork p"
    using gbt_decode_ok [OF assms(1-4)] by blast
  have pre: "length pre = 41" "length sig < 248" using assms(2) by (simp_all add: pool_template_def)
  define cb where "cb = pre @ [of_nat (length sig + 8)] @ sig @ le64_bytes (np_nonce2 p) @ rest"
  let ?p1 = "p'\<lparr>np_coinbase := Some (cb @ [0]), np_nonce2 := np_nonce2 p + 1\<rparr>"
  have "np_coinbase p' = Some ((pre @ [of_nat (length sig + 8)] @ sig) @ replicate 8 0 @ (rest @ [0]))" using co by simp
  from put_nonce2_mid [OF this] have put: "put_nonce2 p' = Inr ?p1"
    using f pre by (simp add: cb_def)
  have lcb: "length cb = 42 + length sig + length rest + 8" using pre by (simp add: cb_def)
  have rd: "read_coinbase ?p1 = Inr cb" using f lcb by (simp add: read_coinbase_def)
  have "length cb < 2 ^ 29" using lcb pre assms(5) by simp
  moreover have "gbt_branch ?p1 = tree_branch dsha (tm_ids t)" using br by (simp add: gbt_branch_def)
  ultimately have root: "gbt_merkleroot (ge_stack e) ?p1 cb = tree_root dsha (dsha cb # tm_ids t)"
    using assms(1,3) by (intro gbt_root) (simp_all add: tmpl_env_ok_def)
  note l = describes_lengths [OF assms(1)]
  have hd: "flip80 (gbt_header ?p1 (tree_root dsha (dsha cb # tm_ids t))) = tmpl_header t (tree_root dsha (dsha cb # tm_ids t))"
    using l length_tree_root [OF l(4)] by (simp add: gbt_header_def f flip80_header tmpl_header_def rev_be32)
  have run: "\<exists>w' p''. gen_gbt_work e cur p' w now reply = Inr (w', p'') \<and>
         flip80 (w_data w') = tmpl_header t (tree_root dsha (dsha cb # tm_ids t)) \<and>
         w_coinbase w' = Some (hex_text cb) \<and> w_target w' = tm_target t \<and> np_nonce2 p'' = np_nonce2 p + 1"
    if "now - gp_lastwork p \<le> 60" for cur w now reply
  proof -
    have nu: "\<not> 60 < now - gp_lastwork p'" "\<not> gp_locked p'" "\<not> gp_locked ?p1"
      using that f(10) ok by (simp_all add: gpool_ok_def)
    obtain w0 p0 where g: "gen_gbt_work e cur p' w now reply = Inr (calc_diff (ge_diff e) w0 0 p0)"
      and w0: "w_data w0 = gbt_header ?p1 (tree_root dsha (dsha cb # tm_ids t))" "w_coinbase w0 = Some (hex_text cb)"
        "w_target w0 = tm_target t" "np_nonce2 p0 = np_nonce2 p + 1"
      using nu put rd root f(7) unfolding gen_gbt_work_def by (simp add: Let_def netR_def)
    show ?thesis unfolding g
      by (intro exI [of _ "fst (calc_diff (ge_diff e) w0 0 p0)"] exI [of _ "snd (calc_diff (ge_diff e) w0 0 p0)"])
        (simp add: calc_diff_fst w0 hd calc_diff_def Let_def)
  qed
  show ?thesis using dec run unfolding Let_def cb_def by blast
qed

text \<open>A template of one transaction, the pool before it and its environment.\<close>

definition demo_entries :: "(cstr \<times> json) list" where
  "demo_entries =
     [(bytes_of ''previousblockhash'', JString (replicate 62 48 @ bytes_of ''01'')),
      (bytes_of ''target'', JString (bytes_of ''0f'' @ replicate 62 48)),
      (bytes_of ''coinbasetxn'', JObject [(bytes_of ''data'', JString (replicate 82 49 @ bytes_of ''02aabbcc''))]),
      (bytes_of ''longpollid'', JString []), (bytes_of ''expires'', JInteger 120), (bytes_of ''version'', JInteger 4),
      (bytes_of ''curtime'', JInteger 258), (bytes_of ''bits'', JString (bytes_of ''1d00ffff'')),
      (bytes_of ''transactions'', JArray
        [JObject [(bytes_of ''data'', JString (bytes_of ''01'')), (bytes_of ''txid'', JString (replicate 64 50)),
                  (bytes_of ''hash'', JString (replicate 64 51))]]),
      (bytes_of ''height'', JInteger 840000), (bytes_of ''coinbasevalue'', JInteger 5000000000),
      (bytes_of ''coinbaseaux'', JObject [(bytes_of ''flags'', JString (bytes_of ''0062''))])]"

definition demo_res :: "json option" where
  "demo_res = Some (JObject demo_entries)"

definition demo_tmpl :: tmpl where
  "demo_tmpl = \<lparr>tm_version = 4, tm_prev = 1 # replicate 31 0, tm_target = replicate 31 0 @ [0x0f], tm_time = 258,
     tm_bits = [0x1d, 0, 0xff, 0xff], tm_ids = [replicate 32 0x22]\<rparr>"

definition demo_gpool :: gpool where
  "demo_gpool = npool.extend (demo_npool\<lparr>t_merklebin := replicate 512 0\<rparr>)
     (gpool.fields None None None (replicate 32 0) (replicate 32 0) 0 [] [] (replicate 4 0) False 0 0 (replicate 100 7)
       (replicate 28 0) False False 1000 0 False)"

definition demo_tmpl_env :: tmpl_env where
  "demo_tmpl_env = gen_env.extend demo_env (tmpl_env.fields (replicate 32 0xAA) (\<lambda>n. replicate n 0xAA) (1700000000, 42)
     (Some (bytes_of ''solo'')))"

lemma demo_describes: "describes demo_res demo_tmpl"
proof -
  have "hex2bin (bytes_of ''1d00ffff'') 4 = (True, tm_bits demo_tmpl)" "str_key demo_res ''bits'' = Some (bytes_of ''1d00ffff'')"
    by code_simp+
  moreover have "template (key demo_res ''transactions'') (txn_id (key demo_res ''transactions'')) (tm_ids demo_tmpl)"
    unfolding template_def by code_simp
  moreover have "txn_string (key demo_res ''transactions'') 0 ''data'' = Some (bytes_of ''01'')" "length (tm_ids demo_tmpl) = 1"
    by code_simp+
  moreover have "int_key demo_res ''version'' = tm_version demo_tmpl" "int_key demo_res ''curtime'' = tm_time demo_tmpl"
    "shown (str_key demo_res ''previousblockhash'') (tm_prev demo_tmpl)" "shown (str_key demo_res ''target'') (tm_target demo_tmpl)"
    by code_simp+
  moreover have "tm_version demo_tmpl \<noteq> 0" "tm_time demo_tmpl \<noteq> 0" by (simp_all add: demo_tmpl_def)
  ultimately show ?thesis unfolding describes_def by simp
qed

lemma demo_tmpl_env_ok: "tmpl_env_ok demo_tmpl_env"
  using demo_env_ok
  by (simp add: tmpl_env_ok_def demo_tmpl_env_def gen_env.extend_def tmpl_env.fields_def demo_env_def stack_ok_def)

lemma demo_gpool_ok: "gpool_ok demo_gpool"
  by (simp add: gpool_ok_def demo_gpool_def npool.extend_def gpool.fields_def demo_npool_def)

theorem gbt_work_is_block_witness:
  "\<exists>p' w' p''. gbt_decode demo_tmpl_env demo_gpool demo_res = Inr (True, p') \<and>
    gen_gbt_work demo_tmpl_env True p' zero_swork 1060 None = Inr (w', p'') \<and>
    flip80 (w_data w') = tmpl_header demo_tmpl (tree_root dsha
      (dsha (replicate 41 0x11 @ [10, 0xaa, 0xbb] @ [77, 0, 0, 0, 0, 0, 0, 0] @ [0xcc]) # [replicate 32 0x22]))"
proof -
  have "str_key (key demo_res ''coinbasetxn'') ''data'' = Some (replicate 82 49 @ bytes_of ''02aabbcc'')"
    "hex2bin (replicate 82 49 @ bytes_of ''02aabbcc'') 45 = (True, replicate 41 0x11 @ [2] @ [0xaa, 0xbb] @ [0xcc])"
    "int_key demo_res ''expires'' \<noteq> 0" "str_key demo_res ''longpollid'' \<noteq> None"
    by code_simp+
  then have pt: "pool_template demo_res (replicate 41 0x11) [0xaa, 0xbb] [0xcc]"
    unfolding pool_template_def by simp
  have n: "np_nonce2 demo_gpool = 77" "gp_lastwork demo_gpool = 1000" "tm_ids demo_tmpl = [replicate 32 0x22]"
    by (simp_all add: demo_gpool_def npool.extend_def gpool.fields_def demo_npool_def demo_tmpl_def)
  have le: "le64_bytes 77 = [77, 0, 0, 0, 0, 0, 0, 0]" by code_simp
  show ?thesis
    using gbt_work_is_block [OF demo_describes pt demo_tmpl_env_ok demo_gpool_ok]
    by (simp add: n le Let_def) (blast intro: order_refl)
qed

section \<open>The coinbase of one's own node\<close>

text \<open>A state of the writer: the buffer of 100 bytes begins with what has been written.\<close>

definition holds :: "u8 list \<times> nat \<Rightarrow> u8 list \<Rightarrow> bool" where
  "holds st A \<longleftrightarrow> length (fst st) = 100 \<and> length A \<le> 100 \<and> take (length A) (fst st) = A \<and> snd st = length A"

lemma holds_put:
  assumes "holds st A" and "length A + length bs \<le> 100" and "n \<le> length bs"
  shows "holds (put bs n st) (A @ take n bs)"
proof -
  obtain buf ofs where st: "st = (buf, ofs)" by (cases st)
  have fit: "ofs + length bs \<le> length buf" and o: "ofs = length A" and tk: "take ofs buf = A"
    using assms by (simp_all add: holds_def st)
  have "take (ofs + n) (mem_write ofs bs buf) = take (ofs + n) (take (ofs + length bs) (mem_write ofs bs buf))"
    using assms(3) by (simp add: min_def)
  also have "\<dots> = A @ take n bs" unfolding take_mem_write [OF fit] tk using o by simp
  finally show ?thesis using assms o length_mem_write [OF fit] by (simp add: holds_def st put_def min_def)
qed

lemma holds_put_all: "holds st A \<Longrightarrow> length A + length bs \<le> 100 \<Longrightarrow> holds (put bs (length bs) st) (A @ bs)"
  using holds_put [of st A bs "length bs"] by simp

lemma holds_skip:
  assumes "holds st A" and "length A + n \<le> 100"
  shows "\<exists>x. length x = n \<and> holds (put [] n st) (A @ x)"
proof -
  obtain buf ofs where st: "st = (buf, ofs)" by (cases st)
  have "holds (put [] n st) (A @ take n (drop (length A) buf))"
    using assms by (simp add: holds_def st put_def mem_write_def take_add)
  moreover have "length (take n (drop (length A) buf)) = n" using assms by (simp add: holds_def st)
  ultimately show ?thesis by blast
qed

text \<open>The pieces of the script before and behind the second nonce.\<close>

definition script_head :: "tmpl_env \<Rightarrow> int \<Rightarrow> u8 list \<Rightarrow> u8 list" where
  "script_head e height flags =
     (case ser_number (word_of_int height) of (num, k) \<Rightarrow> take k num) @ [of_nat (length flags)] @ flags @
     (0xfe # le32_bytes (fst (te_now e))) @ (0xfe # le32_bytes (snd (te_now e))) @
     [9, 0x63, 0x67, 0x6d, 0x69, 0x6e, 0x65, 0x72, 0x34, 0x32] @ [8]"

definition script_sig :: "tmpl_env \<Rightarrow> u8 list" where
  "script_sig e = (case te_btc_sig e of None \<Rightarrow> [] | Some s \<Rightarrow> of_nat (min (length s) 32) # take 32 s)"

lemma ser_number_length:
  assumes "ser_number v = (num, k)"
  shows "length num = 5" "k \<le> 5" "1 \<le> k"
  using assms by (auto simp: ser_number_def Let_def split: if_splits)

lemma script_head_length: "length (script_head e height flags) \<le> 27 + length flags" "1 \<le> length (script_head e height flags)"
  using ser_number_length [of "word_of_int height"]
  by (cases "ser_number (word_of_int height)"; simp add: script_head_def)+

lemma script_sig_length: "length (script_sig e) \<le> 33"
  by (simp add: script_sig_def split: option.split)

lemma put_sig_holds:
  assumes "holds st A" and "length A + length (script_sig e) \<le> 100"
  shows "holds (put_sig (te_btc_sig e) st) (A @ script_sig e)"
proof (cases "te_btc_sig e")
  case (Some s)
  have t: "take (min (length s) 32) s = take 32 s" by (simp add: min_def)
  have s1: "holds (put [of_nat (min (length s) 32)] 1 st) (A @ [of_nat (min (length s) 32)])"
    using holds_put_all [OF assms(1), of "[of_nat (min (length s) 32)]"] assms(2) Some by (simp add: script_sig_def)
  have "holds (put (take 32 s) (length (take 32 s)) (put [of_nat (min (length s) 32)] 1 st))
      ((A @ [of_nat (min (length s) 32)]) @ take 32 s)"
    by (rule holds_put_all [OF s1]) (use assms(2) Some in \<open>simp add: script_sig_def\<close>)
  then show ?thesis using Some by (simp add: put_sig_def script_sig_def Let_def t)
qed (use assms in \<open>simp add: put_sig_def script_sig_def\<close>)

lemma solo_script_ok:
  fixes e :: tmpl_env and height :: int and flags :: "u8 list"
  assumes fl: "hex2bin f (length flags) = (True, flags)" "length flags \<le> 30" and base: "length base = 100"
  defines "P \<equiv> script_head e height flags" and "S \<equiv> script_sig e"
  shows "\<exists>base' x y. solo_script e height f base = Inr (base', 42 + length P, 10 + length P + length S) \<and>
    length x = 8 \<and> length base' = 100 \<and> 10 + length P + length S \<le> 100 \<and>
    take (10 + length P + length S) base' = of_nat (9 + length P + length S) # P @ x @ S @ [y]"
proof -
  obtain num k where sn: "ser_number (word_of_int height) = (num, k)" by (cases "ser_number (word_of_int height)")
  note nk = ser_number_length [OF sn]
  have flen: "length f div 2 = length flags" using hex2bin_ok(1) [OF fl(1)] by simp
  have fs: "snd (hex2bin f (length flags)) = flags" using fl(1) by simp
  let ?t1 = "0xfe # le32_bytes (fst (te_now e))" and ?t2 = "0xfe # le32_bytes (snd (te_now e))"
  let ?tag = "[9, 0x63, 0x67, 0x6d, 0x69, 0x6e, 0x65, 0x72, 0x34, 0x32] :: u8 list"
  let ?n = "take k num"
  define s0 where "s0 = (mem_write 0 (replicate 42 0) base, 1 :: nat)"
  define s1 where "s1 = put num k s0"
  define s2 where "s2 = put [of_nat (length flags)] 1 s1"
  define s3 where "s3 = put flags (length flags) s2"
  define s4 where "s4 = put ?t1 5 s3"
  define s5 where "s5 = put ?t2 5 s4"
  define s6 where "s6 = put ?tag 10 s5"
  define s7 where "s7 = put [8] 1 s6"
  have h0: "holds s0 [0]" using base by (simp add: holds_def s0_def mem_write_def)
  have h1: "holds s1 ([0] @ ?n)" unfolding s1_def by (rule holds_put [OF h0]) (use nk in simp_all)
  have h2: "holds s2 (([0] @ ?n) @ [of_nat (length flags)])"
    using holds_put_all [OF h1, of "[of_nat (length flags)]"] nk by (simp add: s2_def)
  have h3: "holds s3 ((([0] @ ?n) @ [of_nat (length flags)]) @ flags)"
    unfolding s3_def by (rule holds_put_all [OF h2]) (use nk fl(2) in simp)
  have h4: "holds s4 (((([0] @ ?n) @ [of_nat (length flags)]) @ flags) @ ?t1)"
    using holds_put_all [OF h3, of ?t1] nk fl(2) by (simp add: s4_def)
  have h5: "holds s5 ((((([0] @ ?n) @ [of_nat (length flags)]) @ flags) @ ?t1) @ ?t2)"
    using holds_put_all [OF h4, of ?t2] nk fl(2) by (simp add: s5_def)
  have h6: "holds s6 (((((([0] @ ?n) @ [of_nat (length flags)]) @ flags) @ ?t1) @ ?t2) @ ?tag)"
    using holds_put [OF h5, of ?tag 10] nk fl(2) by (simp add: s6_def)
  have h7: "holds s7 ((((((([0] @ ?n) @ [of_nat (length flags)]) @ flags) @ ?t1) @ ?t2) @ ?tag) @ [8])"
    using holds_put_all [OF h6, of "[8]"] nk fl(2) by (simp add: s7_def)
  have P: "P = ?n @ [of_nat (length flags)] @ flags @ ?t1 @ ?t2 @ ?tag @ [8]" by (simp add: P_def script_head_def sn)
  have h7: "holds s7 (0 # P)" using h7 by (simp add: P)
  have lP: "length P \<le> 27 + length flags" and lS: "length S \<le> 33"
    unfolding P_def S_def by (rule script_head_length script_sig_length)+
  obtain x where x: "length x = 8" "holds (put [] 8 s7) ((0 # P) @ x)" using holds_skip [OF h7, of 8] lP fl(2) by auto
  define s9 where "s9 = put_sig (te_btc_sig e) (put [] 8 s7)"
  have h9: "holds s9 (((0 # P) @ x) @ S)"
    unfolding s9_def S_def by (rule put_sig_holds [OF x(2)]) (use x(1) lP lS fl(2) in \<open>simp add: S_def\<close>)
  obtain buf where s9: "s9 = (buf, 9 + length P + length S)" using h9 x(1) by (cases s9) (simp add: holds_def)
  have tot: "10 + length P + length S \<le> 100" using lP lS fl(2) by linarith
  have off: "41 + snd s7 = 42 + length P" using h7 by (simp add: holds_def)
  have run: "solo_script e height f base = Inr (buf[0 := of_nat (9 + length P + length S)], 42 + length P, 10 + length P + length S)"
    unfolding solo_script_def Let_def flen fs sn prod.case s0_def [symmetric] s1_def [symmetric] s2_def [symmetric] s3_def [symmetric]
      s4_def [symmetric] s5_def [symmetric] s6_def [symmetric] s7_def [symmetric] s9_def [symmetric] off s9
    using tot by simp
  have lb: "length buf = 100" and tk: "take (9 + length P + length S) buf = ((0 # P) @ x) @ S"
    using h9 x(1) by (simp_all add: holds_def s9 add.assoc)
  have "take (10 + length P + length S) buf = take (9 + length P + length S) buf @ [buf ! (9 + length P + length S)]"
    using take_Suc_conv_app_nth [of "9 + length P + length S" buf] tot lb by (simp add: add.assoc)
  then have "take (10 + length P + length S) (buf[0 := of_nat (9 + length P + length S)]) =
      of_nat (9 + length P + length S) # P @ x @ S @ [buf ! (9 + length P + length S)]"
    unfolding take_update_swap by (simp add: tk)
  then show ?thesis using run x(1) lb tot
    by (intro exI [of _ "buf[0 := of_nat (9 + length P + length S)]"] exI [of _ x] exI [of _ "buf ! (9 + length P + length S)"]) simp
qed

text \<open>The coinbase around a script, before and after \<open>__setup_gbt_solo\<close>.\<close>

definition outputs :: "u8 list option \<Rightarrow> u8 list" where
  "outputs wo = (case wo of None \<Rightarrow> [] | Some w \<Rightarrow> witness_out w)"

lemma length_witness_out [simp]: "length (witness_out w) = 8 + 1 + 2 + length w"
  by (simp add: witness_out_def)

lemma upd_mid: "length A = k \<Longrightarrow> (A @ y # B)[k := x] = A @ x # B"
  by (simp add: list_update_append)

lemma replicate_split: "replicate (m + n) z = replicate m z @ replicate n z"
  by (simp add: replicate_add)

lemma solo_coinbase_bytes:
  assumes "take ofs base = scr" and "length scr = ofs"
  shows "solo_coinbase base ofs v wo = replicate 41 0 @ scr @ replicate 4 0xff @ (if wo = None then 1 else 2) #
    le64_bytes v @ replicate 26 0 @ outputs wo @ replicate 4 0"
proof -
  let ?w = "case wo of None \<Rightarrow> 0 | Some w \<Rightarrow> 8 + 1 + 2 + length w" and ?z = "\<lambda>n. replicate n (0 :: u8)"
  have w: "length (outputs wo) = ?w" by (simp add: outputs_def split: option.split)
  have z: "?z (41 + ofs + 4 + 1 + 8 + 1 + 25 + 4 + ?w) = ?z 41 @ ?z ofs @ (?z 4 @ 0 # ?z 8 @ ?z 26 @ ?z ?w @ ?z 4)"
    by (simp add: replicate_add [symmetric] add.commute flip: replicate_Suc)
  have 1: "mem_write 41 (take ofs base) (?z 41 @ ?z ofs @ (?z 4 @ 0 # ?z 8 @ ?z 26 @ ?z ?w @ ?z 4)) =
      ?z 41 @ scr @ (?z 4 @ 0 # ?z 8 @ ?z 26 @ ?z ?w @ ?z 4)"
    unfolding assms(1) by (rule mem_write_mid) (simp_all add: assms(2))
  have 2: "mem_write (41 + ofs) [0xff, 0xff, 0xff, 0xff] ((?z 41 @ scr) @ ?z 4 @ (0 # ?z 8 @ ?z 26 @ ?z ?w @ ?z 4)) =
      (?z 41 @ scr) @ [0xff, 0xff, 0xff, 0xff] @ (0 # ?z 8 @ ?z 26 @ ?z ?w @ ?z 4)"
    by (rule mem_write_mid) (simp_all add: assms(2))
  let ?n = "if wo = None then 1 else 2 :: u8"
  have 3: "((?z 41 @ scr @ [0xff, 0xff, 0xff, 0xff]) @ 0 # (?z 8 @ ?z 26 @ ?z ?w @ ?z 4))[41 + ofs + 4 := ?n] =
      (?z 41 @ scr @ [0xff, 0xff, 0xff, 0xff]) @ ?n # (?z 8 @ ?z 26 @ ?z ?w @ ?z 4)"
    by (rule upd_mid) (simp add: assms(2))
  have 4: "mem_write (41 + ofs + 4 + 1) (le64_bytes v) ((?z 41 @ scr @ [0xff, 0xff, 0xff, 0xff] @ [?n]) @ ?z 8 @ (?z 26 @ ?z ?w @ ?z 4)) =
      (?z 41 @ scr @ [0xff, 0xff, 0xff, 0xff] @ [?n]) @ le64_bytes v @ (?z 26 @ ?z ?w @ ?z 4)"
    by (rule mem_write_mid) (simp_all add: assms(2))
  let ?A = "?z 41 @ scr @ [0xff, 0xff, 0xff, 0xff] @ [?n] @ le64_bytes v @ ?z 26"
  have 5: "mem_write (41 + ofs + 4 + 1 + 8 + 1 + 25) (outputs wo) (?A @ ?z ?w @ ?z 4) = ?A @ outputs wo @ ?z 4"
    by (rule mem_write_mid) (simp_all add: assms(2) w)
  have four: "replicate 4 (0xff :: u8) = [0xff, 0xff, 0xff, 0xff]" by (simp add: numeral_eq_Suc)
  have "solo_coinbase base ofs v wo = (case wo of None \<Rightarrow> ?A @ ?z ?w @ ?z 4
      | Some w \<Rightarrow> mem_write (41 + ofs + 4 + 1 + 8 + 1 + 25) (witness_out w) (?A @ ?z ?w @ ?z 4))"
  proof (cases wo)
    case None
    then show ?thesis unfolding solo_coinbase_def Let_def z 1 using 2 3 4 by simp
  next
    case (Some w)
    then show ?thesis unfolding solo_coinbase_def Let_def z 1 using 2 3 4 by simp
  qed
  also have "\<dots> = ?A @ outputs wo @ ?z 4" using 5 by (cases wo) (simp_all add: outputs_def)
  finally show ?thesis unfolding four by simp
qed

lemma scriptsig_header_bin_length: "length scriptsig_header_bin = 41"
  by code_simp

lemma setup_bytes:
  assumes "np_coinbase p = Some (replicate 41 0 @ scr @ ff @ n # val @ replicate 26 0 @ B)" and "length scr = np_n1_len p"
    and "length ff = 4" and "length val = 8" and "\<not> gp_locked p" and "25 \<le> length (gp_script_pubkey p)"
  shows "setup_gbt_solo_locked p = Inr (p\<lparr>np_coinbase :=
    Some (scriptsig_header_bin @ scr @ ff @ n # val @ 25 # take 25 (gp_script_pubkey p) @ B)\<rparr>)"
proof -
  let ?pos = "41 + np_n1_len p + 4 + 1 + 8" and ?cb = "replicate 41 0 @ scr @ ff @ n # val @ replicate 26 0 @ B"
  have 1: "mem_write 0 scriptsig_header_bin ?cb = scriptsig_header_bin @ scr @ ff @ n # val @ replicate 26 0 @ B"
    by (simp add: mem_write_def scriptsig_header_bin_length)
  have z: "replicate 26 (0 :: u8) = 0 # replicate 25 0" by (simp flip: replicate_Suc)
  have 2: "((scriptsig_header_bin @ scr @ ff @ n # val) @ 0 # (replicate 25 0 @ B))[?pos := 25] =
      (scriptsig_header_bin @ scr @ ff @ n # val) @ 25 # (replicate 25 0 @ B)"
    by (rule upd_mid) (simp add: assms scriptsig_header_bin_length)
  have 3: "mem_write (?pos + 1) (take 25 (gp_script_pubkey p)) ((scriptsig_header_bin @ scr @ ff @ n # val @ [25]) @ replicate 25 0 @ B) =
      (scriptsig_header_bin @ scr @ ff @ n # val @ [25]) @ take 25 (gp_script_pubkey p) @ B"
    by (rule mem_write_mid) (simp_all add: assms scriptsig_header_bin_length)
  have 4: "((scriptsig_header_bin @ scr @ ff @ n # val @ (0 # replicate 25 0) @ B))[?pos := 25] =
      (scriptsig_header_bin @ scr @ ff @ n # val @ [25]) @ replicate 25 0 @ B"
    using 2 by (simp only: append_assoc append_Cons append_Nil)
  have "\<not> length ?cb < ?pos + 26" using assms(2-4) by simp
  then have "setup_gbt_solo_locked p = Inr (p\<lparr>np_coinbase :=
      Some (mem_write (?pos + 1) (take 25 (gp_script_pubkey p)) ((mem_write 0 scriptsig_header_bin ?cb)[?pos := 25]))\<rparr>)"
    using assms(5) by (simp only: setup_gbt_solo_locked_def assms(1) option.case Let_def if_False)
  then show ?thesis unfolding 1 unfolding z unfolding 4 3 by simp
qed

text \<open>The coinbase transaction of the node: the template of the script around the second nonce, and the outputs.\<close>

definition solo_tx :: "tmpl_env \<Rightarrow> gpool \<Rightarrow> int \<Rightarrow> u8 list \<Rightarrow> u64 \<Rightarrow> u8 list option \<Rightarrow> u8 list \<Rightarrow> u8 list \<Rightarrow> u8 \<Rightarrow> u8 list" where
  "solo_tx e p height flags v wo nonce2 x y =
     (let script = script_head e height flags @ nonce2 @ x @ script_sig e @ [y]
      in scriptsig_header_bin @ of_nat (length script) # script @ replicate 4 0xff @ (if wo = None then 1 else 2) #
         le64_bytes v @ 25 # take 25 (gp_script_pubkey p) @ outputs wo @ replicate 4 0)"

lemma witness_data_length:
  assumes "gbt_witness_data stack alloc arr 36 = Some w" and "stack_ok stack"
  shows "length w = 36"
proof -
  obtain hb where "w = witness_header @ gen_hash stack (take 64 hb)"
    using assms(1) by (auto simp: gbt_witness_data_def Let_def split: if_splits option.splits)
  moreover have "length (take 64 hb) < 2 ^ 29" by simp
  ultimately show ?thesis using assms(2) by (simp add: gen_hash_dsha stack_ok_def witness_header_def)
qed

lemma solo_witness_length:
  "solo_witness e res arr = Inr (Some (Some w)) \<Longrightarrow> stack_ok (ge_stack e) \<Longrightarrow> length w = 36"
  by (auto simp: solo_witness_def split: if_splits option.splits dest: witness_data_length)

lemma hex2bin_be32: "hex2bin (hex_text (be32_bytes x)) 4 = (True, be32_bytes x)"
  using hex2bin_hex_text [of "be32_bytes x"] by simp

text \<open>What decoding one's own node's template leaves.\<close>

lemma gbt_solo_decode_ok:
  assumes d: "describes res t" and e: "tmpl_env_ok e" and ok: "gpool_ok p"
    and aux: "str_key (key res ''coinbaseaux'') ''flags'' = Some f" and fl: "hex2bin f (length flags) = (True, flags)" "length flags \<le> 30"
    and w: "solo_witness e res (key res ''transactions'') = Inr (Some wo)"
    and sizes: "length (gp_scriptsig_base p) = 100" "length (np_header_bin p) = 128"
  defines "h \<equiv> int_key res ''height''" and "v \<equiv> word_of_int (json_integer_value (key res ''coinbasevalue''))"
  shows "\<exists>p' x y. gbt_solo_decode e p res = Inr (True, p') \<and> length x = 8 \<and> \<not> gp_locked p' \<and>
    gbt_branch p' = tree_branch dsha (tm_ids t) \<and> t_transactions p' = length (tm_ids t) \<and>
    (case t_txn_data p' of None \<Rightarrow> [] | Some txns \<Rightarrow> txns) =
      concat (map (\<lambda>i. the (txn_string (key res ''transactions'') i ''data'')) [0..<length (tm_ids t)]) \<and>
    np_coinbase p' = Some (replicate 41 0 @ (of_nat (length (script_head e h flags @ x @ script_sig e @ [y])) #
      script_head e h flags @ x @ script_sig e @ [y]) @ replicate 4 0xff @ (if wo = None then 1 else 2) #
      le64_bytes v @ replicate 26 0 @ outputs wo @ replicate 4 0) \<and>
    np_coinbase_len p' = length (the (np_coinbase p')) \<and> length (the (np_coinbase p')) \<le> 300 \<and>
    np_n1_len p' = 10 + length (script_head e h flags) + length (script_sig e) \<and>
    np_nonce2_offset p' = 42 + length (script_head e h flags) \<and> np_n2size p' = 4 \<and> np_nonce2 p' = 0 \<and>
    gp_target p' = tm_target t \<and> gp_script_pubkey p' = gp_script_pubkey p \<and> length (np_header_bin p') = 128 \<and>
    np_header_bin p' = be32_bytes (word_of_int (tm_version t)) @ swap256 (rev (tm_prev t)) @ replicate 32 0 @
      be32_bytes (word_of_int (tm_time t)) @ tm_bits t @ replicate 4 0 @ padding"
proof -
  let ?arr = "key res ''transactions''"
  obtain ps ts b where s: "str_key res ''previousblockhash'' = Some ps" "str_key res ''target'' = Some ts"
    "str_key res ''bits'' = Some b" and bits: "hex2bin b 4 = (True, tm_bits t)"
    and sh: "shown (Some ps) (tm_prev t)" "shown (Some ts) (tm_target t)"
    and ver: "int_key res ''version'' = tm_version t" "int_key res ''curtime'' = tm_time t" "tm_version t \<noteq> 0" "tm_time t \<noteq> 0"
    using d by (auto simp: describes_def shown_Some)
  note l = describes_lengths [OF d]
  have hs: "hex_at 0 ps 32 (te_junk e) = rev (tm_prev t)" using e by (intro hex_at_shown [OF sh(1)]) (simp add: tmpl_env_ok_def)
  have ht: "hex_at 0 ts 32 (rev (tm_prev t)) = rev (tm_target t)" using l(1) by (intro hex_at_shown [OF sh(2)]) simp
  have hb: "hex_at 0 b 4 (gp_bits p) = tm_bits t"
    using ok bits by (intro hex_at_start) (auto simp: gpool_ok_def dest: hex2bin_ok(2))
  have tg: "swab256 (rev (tm_target t)) = tm_target t" using l(2) by (simp add: swab256_rev)
  have b8: "snprintf_s 9 b = b" using hex2bin_ok(1) [OF bits] by (simp add: snprintf_s_def)
  let ?prev = "swap256 (rev (tm_prev t))"
  define q where "q = p\<lparr>gp_previousblockhash := ?prev, np_prev_hash := mem_write 0 (bin2hex_raw ?prev) (np_prev_hash p),
     gp_target := tm_target t, np_sdiff := ge_diff e (tm_target t),
     gp_version := be32_bytes (word_of_int (tm_version t)), gp_curtime := be32_bytes (word_of_int (tm_time t)),
     np_ntime := hex_text (be32_bytes (word_of_int (tm_time t))),
     np_bbversion := hex_text (be32_bytes (word_of_int (tm_version t))), np_nbit := b, gp_bits := tm_bits t\<rparr>"
  have "length (t_merklebin q) = 512" using ok by (simp add: q_def gpool_ok_def)
  from template_bins [OF d e this] obtain p1 where
    p1: "gbt_merkle_bins (ge_stack e) (te_alloc e (32 * (json_array_size ?arr + 2))) q ?arr = Inr p1"
    "t_transactions p1 = length (tm_ids t)" "gbt_branch p1 = tree_branch dsha (tm_ids t)"
    "(case t_txn_data p1 of None \<Rightarrow> [] | Some txns \<Rightarrow> txns) =
      concat (map (\<lambda>i. the (txn_string ?arr i ''data'')) [0..<length (tm_ids t)])"
    and eq: "p1 = q\<lparr>t_txn_data := t_txn_data p1, t_transactions := t_transactions p1, t_merkles := t_merkles p1, t_merklebin := t_merklebin p1\<rparr>"
    by blast
  have f: "np_bbversion p1 = np_bbversion q" "np_prev_hash p1 = np_prev_hash q" "np_ntime p1 = np_ntime q" "np_nbit p1 = np_nbit q"
    "gp_target p1 = gp_target q" "gp_script_pubkey p1 = gp_script_pubkey q" "np_header_bin p1 = np_header_bin q"
    "gp_locked p1 = gp_locked q" "gp_scriptsig_base p1 = gp_scriptsig_base q"
    by (subst eq, simp)+
  let ?P = "script_head e h flags" and ?S = "script_sig e"
  have "length (gp_scriptsig_base p1) = 100" using sizes(1) f(9) by (simp add: q_def)
  from solo_script_ok [OF fl this, of e h] obtain base x y where
    sc: "solo_script e h f (gp_scriptsig_base p1) = Inr (base, 42 + length ?P, 10 + length ?P + length ?S)" "length x = 8"
    "length base = 100" "10 + length ?P + length ?S \<le> 100"
    "take (10 + length ?P + length ?S) base = of_nat (9 + length ?P + length ?S) # ?P @ x @ ?S @ [y]" by blast
  let ?scr = "of_nat (9 + length ?P + length ?S) # ?P @ x @ ?S @ [y]"
  define cb where "cb = solo_coinbase base (10 + length ?P + length ?S) v wo"
  have cb: "cb = replicate 41 0 @ ?scr @ replicate 4 0xff @ (if wo = None then 1 else 2) #
      le64_bytes v @ replicate 26 0 @ outputs wo @ replicate 4 0"
    unfolding cb_def by (rule solo_coinbase_bytes [OF sc(5)]) (use sc(2) in simp)
  have "length (outputs wo) \<le> 47"
    using solo_witness_length [of e res ?arr] w e by (cases wo) (auto simp: outputs_def tmpl_env_ok_def)
  then have lcb: "length cb \<le> 300" using sc(2,4) unfolding cb by simp
  define p2 where "p2 = p1\<lparr>np_bad_work := (if t_transactions p1 < 3 then np_bad_work p1 + 1 else np_bad_work p1),
     gp_height := h, gp_scriptsig_base := base, np_nonce2_offset := 42 + length ?P,
     np_n1_len := 10 + length ?P + length ?S, np_coinbase := Some cb, np_nonce2 := 0, np_n2size := 4, np_coinbase_len := length cb\<rparr>"
  let ?hdr = "be32_bytes (word_of_int (tm_version t)) @ ?prev @ replicate 32 0 @ be32_bytes (word_of_int (tm_time t)) @ tm_bits t @
    replicate 4 0 @ padding"
  have lprev: "length ?prev = 32" using length_swap256 [of "rev (tm_prev t)"] l(1) by simp
  have hd: "hex2bin (header_text (npool.truncate p2)) 128 = (True, ?hdr)"
  proof (rule header_text_hex)
    show "hex2bin (np_bbversion (npool.truncate p2)) 4 = (True, be32_bytes (word_of_int (tm_version t)))"
      by (simp add: p2_def f(1) q_def hex2bin_be32 npool.truncate_def)
    show "hex2bin (np_ntime (npool.truncate p2)) 4 = (True, be32_bytes (word_of_int (tm_time t)))"
      by (simp add: p2_def f(3) q_def hex2bin_be32 npool.truncate_def)
    show "hex2bin (np_nbit (npool.truncate p2)) 4 = (True, tm_bits t)"
      using bits by (simp add: p2_def f(4) q_def npool.truncate_def)
    have "cstr_of (np_prev_hash (npool.truncate p2)) = hex_text ?prev"
      by (simp add: p2_def f(2) q_def npool.truncate_def mem_write_def bin2hex_raw_eq cstr_of_nul hex_text_nonzero)
    then show "hex2bin (cstr_of (np_prev_hash (npool.truncate p2))) 32 = (True, ?prev)"
      using hex2bin_hex_text [of ?prev] lprev by simp
  qed
  have lh: "length ?hdr = 128" using lprev l(3) by (simp add: padding_def)
  have h0: "mem_write 0 ?hdr (np_header_bin p2) = ?hdr"
    using lh sizes(2) by (simp add: p2_def f(7) q_def mem_write_def)
  have "gbt_solo_decode e p res = Inr (True, p2\<lparr>np_header_bin := ?hdr\<rparr>)"
    using ok ver(3,4) p1(1) [unfolded q_def] sc(1) hd h0 w
    by (simp add: gbt_solo_decode_def Let_def s aux hs ht hb tg b8 ver(1,2) gpool_ok_def h_def [symmetric] v_def [symmetric]
      cb_def [symmetric] p2_def [symmetric])
  moreover have "gbt_branch (p2\<lparr>np_header_bin := ?hdr\<rparr>) = tree_branch dsha (tm_ids t)"
    using p1(3) by (simp add: gbt_branch_def p2_def)
  moreover have "length (?P @ x @ ?S @ [y]) = 9 + length ?P + length ?S" using sc(2) by simp
  moreover have "gp_locked q = False" using ok by (simp add: gpool_ok_def q_def)
  ultimately show ?thesis using p1(2,4) sc(2) lcb f lh
    by (intro exI [of _ "p2\<lparr>np_header_bin := ?hdr\<rparr>"] exI [of _ x] exI [of _ y]) (simp add: p2_def cb q_def)
qed

section \<open>The block of one's own node\<close>

text \<open>The number of transactions as the protocol writes it.\<close>

definition compact_size :: "nat \<Rightarrow> u8 list" where
  "compact_size n =
     (if n < 0xfd then [of_nat n]
      else if n \<le> 0xffff then 0xfd # rev (be16_bytes (of_nat n))
      else 0xfe # le32_bytes (of_nat n))"

lemma hex_text_append: "hex_text (a @ b) = hex_text a @ hex_text b"
  by (induction a) simp_all

lemma block_varint_hex: "block_varint n = hex_text (compact_size n)"
proof -
  have "bytes_of ''fd'' = hex_text [0xfd]" "bytes_of ''fe'' = hex_text [0xfe]" by code_simp+
  then show ?thesis by (simp add: block_varint_def compact_size_def)
qed

lemma compact_size_length: "length (compact_size n) \<le> 5"
  by (simp add: compact_size_def)

text \<open>Work from a decoded template: the coinbase completed, then hashed.\<close>

lemma solo_work_ok:
  assumes co: "np_coinbase p = Some (A @ mid @ B)" "np_nonce2_offset p = length A" "length mid = 4" "np_n2size p = 4"
    "np_coinbase_len p = length (A @ mid @ B)" "np_nonce2 p = 0" and lk: "\<not> gp_locked p"
    and br: "gbt_branch p = tree_branch dsha (tm_ids t)" and d: "describes res t" and e: "tmpl_env_ok e"
    and small: "length (A @ mid @ B) \<le> 300" and data: "length (w_data w) = 128"
    and hdr: "np_header_bin p = be32_bytes (word_of_int (tm_version t)) @ swap256 (rev (tm_prev t)) @ replicate 32 0 @
      be32_bytes (word_of_int (tm_time t)) @ tm_bits t @ replicate 4 0 @ padding"
  defines "cb \<equiv> A @ replicate 4 0 @ B"
  shows "\<exists>w' p'. solo_work e p w = Inr (w', p') \<and>
    flip80 (w_data w') = tmpl_header t (tree_root dsha (dsha cb # tm_ids t)) \<and>
    w_coinbase w' = Some (hex_text cb) \<and> sw_gbt_txns w' = t_transactions p + 1 \<and> t_txn_data p' = t_txn_data p \<and>
    \<not> gp_locked p'"
proof -
  note l = describes_lengths [OF d]
  let ?p1 = "p\<lparr>np_coinbase := Some cb, np_nonce2 := 1\<rparr>" and ?root = "tree_root dsha (dsha cb # tm_ids t)"
  have "take 4 (le64_bytes 0) = replicate 4 0" by code_simp
  then have put: "put_nonce2 p = Inr ?p1" using put_nonce2_mid [OF co(1,2)] co(3,4,6) by (simp add: cb_def)
  have lcb: "length cb = np_coinbase_len p" using co(3,5) by (simp add: cb_def)
  then have rd: "read_coinbase ?p1 = Inr cb" by (simp add: read_coinbase_def)
  have "length cb < 2 ^ 29" using lcb co(5) small by simp
  moreover have "gbt_branch ?p1 = tree_branch dsha (tm_ids t)" using br by (simp add: gbt_branch_def)
  ultimately have root: "gbt_merkleroot (ge_stack e) ?p1 cb = ?root"
    using d e by (intro gbt_root) (simp_all add: tmpl_env_ok_def)
  have lr: "length ?root = 32" by (rule length_tree_root [OF l(4)])
  have lf: "length (flip32 ?root) = 32" using flip_words_length [of ?root 8] lr by (simp add: flip_words_eqs)
  have lp: "length (swap256 (rev (tm_prev t))) = 32" using length_swap256 [of "rev (tm_prev t)"] l(1) by simp
  let ?v = "be32_bytes (word_of_int (tm_version t))" and ?c = "be32_bytes (word_of_int (tm_time t))"
  have "take 112 (np_header_bin p) = (?v @ swap256 (rev (tm_prev t))) @ replicate 32 0 @ (?c @ tm_bits t @ replicate 4 0 @ take 32 padding)"
    using lp l(3) by (simp add: hdr)
  then have "mem_write 0 (take 112 (np_header_bin p)) (w_data w) =
      (?v @ swap256 (rev (tm_prev t))) @ replicate 32 0 @ (?c @ tm_bits t @ replicate 4 0 @ take 32 padding @ drop 112 (w_data w))"
    using lp l(3) by (simp add: mem_write_def padding_def)
  then have "header_of ?p1 ?root (w_data w) =
      (?v @ swap256 (rev (tm_prev t))) @ flip32 ?root @ (?c @ tm_bits t @ replicate 4 0 @ take 32 padding @ drop 112 (w_data w))"
    unfolding header_of_def using lp lf by (simp add: mem_write_mid del: append_assoc)
  then have "header_of ?p1 ?root (w_data w) =
      ?v @ swap256 (rev (tm_prev t)) @ flip32 ?root @ ?c @ tm_bits t @ replicate 4 0 @ (take 32 padding @ drop 112 (w_data w))"
    by simp
  then have hd: "flip80 (header_of ?p1 ?root (w_data w)) = tmpl_header t ?root"
    using flip80_header [of ?v "rev (tm_prev t)" ?root ?c "tm_bits t"] l lr by (simp add: tmpl_header_def rev_be32)
  obtain w0 p0 where g: "solo_work e p w = Inr (calc_diff (ge_diff e) w0 (np_sdiff p) p0)"
    and w0: "w_data w0 = header_of ?p1 ?root (w_data w)" "w_coinbase w0 = Some (hex_text cb)" "sw_gbt_txns w0 = t_transactions p + 1"
    and p0: "p0 = ?p1\<lparr>np_local_work := np_local_work p + 1\<rparr>"
    using lk put rd root unfolding solo_work_def by (simp add: Let_def netR_def)
  show ?thesis unfolding g
    by (intro exI [of _ "fst (calc_diff (ge_diff e) w0 (np_sdiff p) p0)"] exI [of _ "snd (calc_diff (ge_diff e) w0 (np_sdiff p) p0)"])
      (simp add: calc_diff_fst w0 hd, simp add: calc_diff_def Let_def p0 lk)
qed

text \<open>C4: Mining for one's own node, what is submitted is a block of the protocol: from the node's template the program composes the coinbase (height,
  flags, time, tag and second nonce in its script, the value to its own output, and the witness commitment when it is asked for),
  and the work item and the submitted text carry the header with the Merkle root over exactly that coinbase and the template's
  transactions, their number, the coinbase and the transactions.\<close>

theorem solo_block:
  assumes "describes res t" and "tmpl_env_ok e" and "gpool_ok p"
    and "str_key (key res ''coinbaseaux'') ''flags'' = Some f" and "hex2bin f (length flags) = (True, flags)" and "length flags \<le> 30"
    and "solo_witness e res (key res ''transactions'') = Inr (Some wo)"
    and "length (gp_scriptsig_base p) = 100" and "length (np_header_bin p) = 128" and "25 \<le> length (gp_script_pubkey p)"
    and "length (w_data w) = 128"
  shows "\<exists>p1 p2 w' p3 x y. gbt_solo_decode e p res = Inr (True, p1) \<and> setup_gbt_solo_locked p1 = Inr p2 \<and>
    solo_work e p2 w = Inr (w', p3) \<and> length x = 4 \<and>
    (let cb = solo_tx e p (int_key res ''height'') flags (word_of_int (json_integer_value (key res ''coinbasevalue''))) wo
           (replicate 4 0) x y;
         header = tmpl_header t (tree_root dsha (dsha cb # tm_ids t))
     in flip80 (w_data w') = header \<and>
        submit_block_text False p3 w' = Inr (hex_text (header @ compact_size (length (tm_ids t) + 1) @ cb) @
          concat (map (\<lambda>i. the (txn_string (key res ''transactions'') i ''data'')) [0..<length (tm_ids t)])))"
proof -
  let ?h = "int_key res ''height''" and ?v = "word_of_int (json_integer_value (key res ''coinbasevalue'')) :: u64"
  let ?P = "script_head e ?h flags" and ?S = "script_sig e" and ?n = "if wo = None then 1 else 2 :: u8"
  let ?pk = "take 25 (gp_script_pubkey p)"
  obtain p1 z y where p1: "gbt_solo_decode e p res = Inr (True, p1)" "length z = 8" "\<not> gp_locked p1"
    "gbt_branch p1 = tree_branch dsha (tm_ids t)" "t_transactions p1 = length (tm_ids t)"
    "(case t_txn_data p1 of None \<Rightarrow> [] | Some txns \<Rightarrow> txns) =
      concat (map (\<lambda>i. the (txn_string (key res ''transactions'') i ''data'')) [0..<length (tm_ids t)])"
    and co: "np_coinbase p1 = Some (replicate 41 0 @ (of_nat (length (?P @ z @ ?S @ [y])) # ?P @ z @ ?S @ [y]) @ replicate 4 0xff @
      ?n # le64_bytes ?v @ replicate 26 0 @ outputs wo @ replicate 4 0)"
    and len: "np_coinbase_len p1 = length (the (np_coinbase p1))" "length (the (np_coinbase p1)) \<le> 300"
    and f: "np_n1_len p1 = 10 + length ?P + length ?S" "np_nonce2_offset p1 = 42 + length ?P" "np_n2size p1 = 4" "np_nonce2 p1 = 0"
      "gp_script_pubkey p1 = gp_script_pubkey p"
    and hdr: "np_header_bin p1 = be32_bytes (word_of_int (tm_version t)) @ swap256 (rev (tm_prev t)) @ replicate 32 0 @
      be32_bytes (word_of_int (tm_time t)) @ tm_bits t @ replicate 4 0 @ padding"
    using gbt_solo_decode_ok [OF assms(1-9)] by blast
  define x where "x = drop 4 z"
  have z: "z = take 4 z @ x" and x4: "length x = 4" and z4: "length (take 4 z) = 4" using p1(2) by (simp_all add: x_def)
  have zr: "take 4 z @ x @ r = z @ r" for r by (simp add: x_def flip: append_assoc)
  let ?L = "of_nat (length (?P @ z @ ?S @ [y])) :: u8"
  let ?A = "scriptsig_header_bin @ ?L # ?P"
  let ?B = "x @ ?S @ [y] @ replicate 4 0xff @ ?n # le64_bytes ?v @ 25 # ?pk @ outputs wo @ replicate 4 0"
  have "length (?L # ?P @ z @ ?S @ [y]) = np_n1_len p1" using p1(2) f(1) by simp
  from setup_bytes [OF co this _ _ p1(3)] have set_up: "setup_gbt_solo_locked p1 = Inr (p1\<lparr>np_coinbase := Some (?A @ take 4 z @ ?B)\<rparr>)"
    using assms(10) f(5) zr by simp
  let ?p2 = "p1\<lparr>np_coinbase := Some (?A @ take 4 z @ ?B)\<rparr>"
  have lcb: "length (?A @ take 4 z @ ?B) = length (the (np_coinbase p1))"
    using assms(10) x4 z4 p1(2) by (simp add: co scriptsig_header_bin_length)
  obtain w' p3 where w': "solo_work e ?p2 w = Inr (w', p3)"
    "flip80 (w_data w') = tmpl_header t (tree_root dsha (dsha (?A @ replicate 4 0 @ ?B) # tm_ids t))"
    "w_coinbase w' = Some (hex_text (?A @ replicate 4 0 @ ?B))" "sw_gbt_txns w' = t_transactions ?p2 + 1"
    "t_txn_data p3 = t_txn_data ?p2" "\<not> gp_locked p3"
    using solo_work_ok [of ?p2 ?A "take 4 z" ?B t res e w] z4 f p1(3,4) len lcb hdr assms(1,2,11)
    by (auto simp: scriptsig_header_bin_length gbt_branch_def)
  let ?cb = "solo_tx e p ?h flags ?v wo (replicate 4 0) x y"
  have "length (?P @ z @ ?S @ [y]) = length (?P @ replicate 4 0 @ x @ ?S @ [y])" using p1(2) x4 by simp
  then have cb: "?A @ replicate 4 0 @ ?B = ?cb" by (simp add: solo_tx_def Let_def)
  note wc = w' [unfolded cb]
  have lc: "length ?cb \<le> 300" using lcb len(2) z4 unfolding cb [symmetric] by simp
  let ?header = "tmpl_header t (tree_root dsha (dsha ?cb # tm_ids t))"
  note l = describes_lengths [OF assms(1)]
  have lh: "length ?header = 80" using l length_tree_root [OF l(4), of ?cb] by (simp add: tmpl_header_def)
  have tx: "hex_text (flip80 (w_data w')) @ block_varint (sw_gbt_txns w') @ hex_text ?cb =
      hex_text (?header @ compact_size (length (tm_ids t) + 1) @ ?cb)"
    using wc(2,4) p1(5) by (simp add: block_varint_hex hex_text_append)
  have "length (bytes_of ''{\"id\": 0, \"method\": \"submitblock\", \"params\": [\"'') = 47" by (simp add: bytes_of_def)
  then have "\<not> 1024 \<le> length (bytes_of ''{\"id\": 0, \"method\": \"submitblock\", \"params\": [\"'') +
      length (hex_text (?header @ compact_size (length (tm_ids t) + 1) @ ?cb))"
    using lh lc compact_size_length [of "length (tm_ids t) + 1"] by simp
  then have "submit_block_text False p3 w' = Inr (hex_text (?header @ compact_size (length (tm_ids t) + 1) @ ?cb) @
      (case t_txn_data p3 of None \<Rightarrow> [] | Some txns \<Rightarrow> txns))"
    using wc(3,6) tx by (simp only: submit_block_text_def option.case Let_def if_False)
  then have "submit_block_text False p3 w' = Inr (hex_text (?header @ compact_size (length (tm_ids t) + 1) @ ?cb) @
      concat (map (\<lambda>i. the (txn_string (key res ''transactions'') i ''data'')) [0..<length (tm_ids t)]))"
    using wc(5) p1(6) by simp
  then show ?thesis using p1(1) set_up wc(1,2) x4 unfolding Let_def by blast
qed

theorem solo_block_witness:
  "\<exists>p1 p2 w' p3. gbt_solo_decode demo_tmpl_env demo_gpool demo_res = Inr (True, p1) \<and> setup_gbt_solo_locked p1 = Inr p2 \<and>
    solo_work demo_tmpl_env p2 zero_swork = Inr (w', p3) \<and> \<not> isl (submit_block_text False p3 w')"
proof -
  have aux: "str_key (key demo_res ''coinbaseaux'') ''flags'' = Some (bytes_of ''0062'')"
    and fl: "hex2bin (bytes_of ''0062'') (length [0 :: u8, 0x62]) = (True, [0, 0x62])"
    and "\<not> insert_witness (key demo_res ''rules'')" by code_simp+
  then have w: "solo_witness demo_tmpl_env demo_res (key demo_res ''transactions'') = Inr (Some None)" by (simp add: solo_witness_def)
  have sizes: "length [0 :: u8, 0x62] \<le> 30" "length (gp_scriptsig_base demo_gpool) = 100" "length (np_header_bin demo_gpool) = 128"
    "25 \<le> length (gp_script_pubkey demo_gpool)"
    by (simp_all add: demo_gpool_def npool.extend_def gpool.fields_def demo_npool_def)
  from solo_block [OF demo_describes demo_tmpl_env_ok demo_gpool_ok aux fl sizes(1) w sizes(2-4) zero_swork_data]
  show ?thesis unfolding Let_def by (metis sum.disc(2))
qed

text \<open>C38: When the witness commitment cannot be computed, or differs from the template's, decoding fails and returns without releasing the template
  lock: the next template and the next work item of the pool wait for ever.\<close>

theorem witness_failure_deadlocks:
  assumes "describes res t" and "tmpl_env_ok e" and "gpool_ok p"
    and "str_key (key res ''coinbaseaux'') ''flags'' = Some f"
    and "solo_witness e res (key res ''transactions'') = Inr None"
  shows "\<exists>p'. gbt_solo_decode e p res = Inr (False, p') \<and> gbt_solo_decode e p' res = Inl Deadlock \<and>
    (\<forall>w. solo_work e p' w = Inl Deadlock)"
proof -
  let ?arr = "key res ''transactions''"
  obtain ps ts b where s: "str_key res ''previousblockhash'' = Some ps" "str_key res ''target'' = Some ts" "str_key res ''bits'' = Some b"
    and ver: "int_key res ''version'' \<noteq> 0" "int_key res ''curtime'' \<noteq> 0"
    using assms(1) by (auto simp: describes_def shown_Some)
  have bins: "\<exists>q'. gbt_merkle_bins (ge_stack e) (te_alloc e (32 * (json_array_size ?arr + 2))) q ?arr = Inr q'"
    if "length (t_merklebin q) = 512" for q :: gpool using template_bins [OF assms(1,2) that] by blast
  have "\<exists>p'. gbt_solo_decode e p res = Inr (False, p') \<and> gp_locked p'"
  proof -
    define q where "q = p\<lparr>gp_previousblockhash := swap256 (hex_at 0 ps 32 (te_junk e)),
      np_prev_hash := mem_write 0 (bin2hex_raw (swap256 (hex_at 0 ps 32 (te_junk e)))) (np_prev_hash p),
      gp_target := swab256 (hex_at 0 ts 32 (hex_at 0 ps 32 (te_junk e))),
      np_sdiff := ge_diff e (swab256 (hex_at 0 ts 32 (hex_at 0 ps 32 (te_junk e)))),
      gp_version := be32_bytes (word_of_int (int_key res ''version'')), gp_curtime := be32_bytes (word_of_int (int_key res ''curtime'')),
      np_ntime := hex_text (be32_bytes (word_of_int (int_key res ''curtime''))),
      np_bbversion := hex_text (be32_bytes (word_of_int (int_key res ''version''))),
      np_nbit := snprintf_s 9 b, gp_bits := hex_at 0 b 4 (gp_bits p)\<rparr>"
    have "length (t_merklebin q) = 512" using assms(3) by (simp add: q_def gpool_ok_def)
    from bins [OF this] obtain q' where
      "gbt_merkle_bins (ge_stack e) (te_alloc e (32 * (json_array_size ?arr + 2))) q ?arr = Inr q'" by blast
    from this [unfolded q_def] have "gbt_solo_decode e p res = Inr (False, q'\<lparr>gp_locked := True\<rparr>)"
      using assms(3) ver by (simp add: gbt_solo_decode_def Let_def s assms(4,5) gpool_ok_def)
    then show ?thesis by (intro exI [of _ "q'\<lparr>gp_locked := True\<rparr>"]) simp
  qed
  then obtain p' where p': "gbt_solo_decode e p res = Inr (False, p')" "gp_locked p'" by blast
  have "gbt_solo_decode e p' res = Inl Deadlock"
    using p'(2) ver by (simp add: gbt_solo_decode_def Let_def s assms(4))
  moreover have "solo_work e p' w = Inl Deadlock" for w using p'(2) by (simp add: solo_work_def)
  ultimately show ?thesis using p'(1) by blast
qed

text \<open>A template that asks for the commitment and gives one too short.\<close>

definition demo_bad_res :: "json option" where
  "demo_bad_res = Some (JObject ([(bytes_of ''rules'', JArray [JString (bytes_of ''csv'')]),
     (bytes_of ''default_witness_commitment'', JString (bytes_of ''6a24''))] @ demo_entries))"

lemma demo_bad_key:
  "bytes_of name \<notin> {bytes_of ''rules'', bytes_of ''default_witness_commitment''} \<Longrightarrow> key demo_bad_res name = key demo_res name"
  by (auto simp: key_def demo_bad_res_def demo_res_def json_object_get_def)

theorem witness_failure_deadlocks_witness:
  "\<exists>p'. gbt_solo_decode demo_tmpl_env demo_gpool demo_bad_res = Inr (False, p') \<and>
    gbt_solo_decode demo_tmpl_env p' demo_bad_res = Inl Deadlock"
proof -
  have keys: "key demo_bad_res ''version'' = key demo_res ''version''" "key demo_bad_res ''curtime'' = key demo_res ''curtime''"
    "key demo_bad_res ''previousblockhash'' = key demo_res ''previousblockhash''" "key demo_bad_res ''target'' = key demo_res ''target''"
    "key demo_bad_res ''bits'' = key demo_res ''bits''" "key demo_bad_res ''transactions'' = key demo_res ''transactions''"
    "key demo_bad_res ''coinbaseaux'' = key demo_res ''coinbaseaux''"
    by (rule demo_bad_key, code_simp)+
  have d: "describes demo_bad_res demo_tmpl"
    using demo_describes unfolding describes_def int_key_def str_key_def keys .
  have aux: "str_key (key demo_bad_res ''coinbaseaux'') ''flags'' = Some (bytes_of ''0062'')"
    unfolding keys by code_simp
  have "insert_witness (key demo_bad_res ''rules'')"
    "str_key demo_bad_res ''default_witness_commitment'' = Some (bytes_of ''6a24'')" by code_simp+
  moreover have "hex_text wd \<noteq> take 72 (drop 4 (bytes_of ''6a24''))" if "length wd = 36" for wd
  proof
    assume "hex_text wd = take 72 (drop 4 (bytes_of ''6a24''))"
    then have "length (hex_text wd) = 0" by (simp add: bytes_of_def)
    with that show False by simp
  qed
  moreover have "length (bytes_of ''6a24'') = 4" by (simp add: bytes_of_def)
  ultimately have "solo_witness demo_tmpl_env demo_bad_res (key demo_bad_res ''transactions'') = Inr None"
    using demo_tmpl_env_ok witness_data_length
    by (auto simp: solo_witness_def tmpl_env_ok_def split: option.split)
  from witness_failure_deadlocks [OF d demo_tmpl_env_ok demo_gpool_ok aux this] show ?thesis by blast
qed

text \<open>The test of the rules is inverted: the rule \<open>segwit\<close> does not ask for the commitment, any other does.\<close>

lemma insert_witness_inverted:
  "\<not> insert_witness (Some (JArray [JString (bytes_of ''segwit'')]))" "\<not> insert_witness (Some (JArray [JString (bytes_of ''!segwit'')]))"
  "insert_witness (Some (JArray [JString (bytes_of ''csv'')]))"
  by code_simp+

end
