(* ===== verification/Scrypt.thy ===== *)
theory Scrypt
  imports Sha256
begin

text \<open>
  The proof of work of scrypt coins (scrypt.c): SHA-256 on words with its state rotating in place, the two
  PBKDF2 functions specialised to an 80-byte block header, the Salsa20/8 core and the memory-hard loop of 1024 blocks.  The
  reference is the key derivation function of RFC 7914 on byte strings, with HMAC and PBKDF2 as
  their standards define them.  Words lie in memory with the least significant byte first.
\<close>

section \<open>SHA-256 on words\<close>

definition htobe32 :: "u32 \<Rightarrow> u32" where
  "htobe32 x = be32 (ucast x) (ucast (drop_bit 8 x)) (ucast (drop_bit 16 x)) (ucast (drop_bit 24 x))"

definition be32enc_vect :: "u32 list \<Rightarrow> u32 list \<Rightarrow> nat \<Rightarrow> u32 list" where
  "be32enc_vect dst src len = mem_write 0 (map htobe32 (take len src)) dst"

definition Ch :: "u32 \<Rightarrow> u32 \<Rightarrow> u32 \<Rightarrow> u32" where
  "Ch x y z = (x AND (y XOR z)) XOR z"

definition Maj :: "u32 \<Rightarrow> u32 \<Rightarrow> u32 \<Rightarrow> u32" where
  "Maj x y z = (x AND (y OR z)) OR (y AND z)"

definition ROTR1 :: "u32 \<Rightarrow> nat \<Rightarrow> u32" where
  "ROTR1 x n = drop_bit n x OR push_bit (32 - n) x"

definition big_S0 :: "u32 \<Rightarrow> u32" where "big_S0 x = ROTR1 x 2 XOR ROTR1 x 13 XOR ROTR1 x 22"
definition big_S1 :: "u32 \<Rightarrow> u32" where "big_S1 x = ROTR1 x 6 XOR ROTR1 x 11 XOR ROTR1 x 25"
definition small_s0 :: "u32 \<Rightarrow> u32" where "small_s0 x = ROTR1 x 7 XOR ROTR1 x 18 XOR drop_bit 3 x"
definition small_s1 :: "u32 \<Rightarrow> u32" where "small_s1 x = ROTR1 x 17 XOR ROTR1 x 19 XOR drop_bit 10 x"

text \<open>The constants of the rounds, in the order the code calls them, which writes them in hexadecimal.\<close>

definition RND_k :: "u32 list" where
  "RND_k =
    [1116352408, 1899447441, 3049323471, 3921009573, 961987163, 1508970993, 2453635748, 2870763221,
     3624381080, 310598401, 607225278, 1426881987, 1925078388, 2162078206, 2614888103, 3248222580,
     3835390401, 4022224774, 264347078, 604807628, 770255983, 1249150122, 1555081692, 1996064986,
     2554220882, 2821834349, 2952996808, 3210313671, 3336571891, 3584528711, 113926993, 338241895,
     666307205, 773529912, 1294757372, 1396182291, 1695183700, 1986661051, 2177026350, 2456956037,
     2730485921, 2820302411, 3259730800, 3345764771, 3516065817, 3600352804, 4094571909, 275423344,
     430227734, 506948616, 659060556, 883997877, 958139571, 1322822218, 1537002063, 1747873779,
     1955562222, 2024104815, 2227730452, 2361852424, 2428436474, 2756734187, 3204031479, 3329325298]"

text \<open>The schedule grows by two words at a time.\<close>

definition sched_two :: "u32 list \<Rightarrow> u32 list" where
  "sched_two W = (let i = length W in
     W @ [small_s1 (W ! (i - 2)) + W ! (i - 7) + small_s0 (W ! (i - 15)) + W ! (i - 16),
          small_s1 (W ! (i - 1)) + W ! (i - 6) + small_s0 (W ! (i - 14)) + W ! (i - 15)])"

text \<open>
  A round changes two of the eight words where they are; which ones play the parts of the working
  variables rotates with the round.
\<close>

definition RNDr :: "u32 list \<Rightarrow> nat \<Rightarrow> u32 list \<Rightarrow> u32 list" where
  "RNDr W i S =
     (let a = S ! ((64 - i) mod 8); b = S ! ((65 - i) mod 8); c = S ! ((66 - i) mod 8); d = S ! ((67 - i) mod 8);
          e = S ! ((68 - i) mod 8); f = S ! ((69 - i) mod 8); g = S ! ((70 - i) mod 8); h = S ! ((71 - i) mod 8);
          t0 = h + big_S1 e + Ch e f g + (W ! i + RND_k ! i);
          t1 = big_S0 a + Maj a b c
      in S[(67 - i) mod 8 := d + t0, (71 - i) mod 8 := t0 + t1])"

definition SHA256_Transform :: "u32 list \<Rightarrow> u32 list \<Rightarrow> bool \<Rightarrow> u32 list" where
  "SHA256_Transform state block swap =
     (let W = (sched_two ^^ 24) (if swap then map htobe32 (take 16 block) else take 16 block);
          S = fold (RNDr W) [0..<64] state
      in map2 (+) state S)"

definition SHA256_InitState :: "u32 list" where
  "SHA256_InitState = [0x6A09E667, 0xBB67AE85, 0x3C6EF372, 0xA54FF53A, 0x510E527F, 0x9B05688C, 0x1F83D9AB, 0x5BE0CD19]"

section \<open>PBKDF2 of a block header\<close>

definition passwdpad :: "u32 list" where
  "passwdpad = [0x00000080, 0, 0, 0, 0, 0, 0, 0, 0, 0, 0, 0x80020000]"

definition outerpad :: "u32 list" where
  "outerpad = [0x80000000, 0, 0, 0, 0, 0, 0, 0x00000300]"

definition innerpad :: "u32 list" where
  "innerpad = [0x00000080, 0, 0, 0, 0, 0, 0, 0, 0, 0, 0xa0040000]"

definition ihash_finalblk :: "u32 list" where
  "ihash_finalblk = [0x00000001, 0x80000000, 0, 0, 0, 0, 0, 0, 0, 0, 0, 0, 0, 0, 0, 0x00000620]"

text \<open>The key of 20 words is longer than a block, so its hash stands for it.\<close>

definition key_hash :: "u32 list \<Rightarrow> u32 list" where
  "key_hash passwd = SHA256_Transform (SHA256_Transform SHA256_InitState passwd True)
     (take 4 (drop 16 passwd) @ passwdpad) True"

definition pad_with :: "u32 \<Rightarrow> u32 list \<Rightarrow> u32 list" where
  "pad_with c ihash = map (\<lambda>x. x XOR c) ihash @ replicate 8 c"

definition PBKDF2_SHA256_80_128 :: "u32 list \<Rightarrow> u32 list" where
  "PBKDF2_SHA256_80_128 passwd =
     (let ihash = key_hash passwd;
          PShictx = SHA256_Transform (SHA256_Transform SHA256_InitState (pad_with 0x36363636 ihash) False) passwd True;
          buf = be32enc_vect (replicate 16 0) (drop 16 passwd) 4;
          buf = mem_write 5 (be32enc_vect (replicate 11 0) innerpad 11) buf;
          PShoctx = SHA256_Transform SHA256_InitState (pad_with 0x5c5c5c5c ihash) False
      in concat (map (\<lambda>i.
           let istate = SHA256_Transform PShictx (buf[4 := of_nat (i + 1)]) False;
               ostate = SHA256_Transform PShoctx (istate @ outerpad) False
           in map htobe32 ostate) [0..<4]))"

definition PBKDF2_SHA256_80_128_32 :: "u32 list \<Rightarrow> u32 list \<Rightarrow> u32 list" where
  "PBKDF2_SHA256_80_128_32 passwd salt =
     (let ihash = key_hash passwd;
          ostate = SHA256_Transform SHA256_InitState (pad_with 0x5c5c5c5c ihash) False;
          tstate = SHA256_Transform SHA256_InitState (pad_with 0x36363636 ihash) False;
          tstate = SHA256_Transform tstate salt True;
          tstate = SHA256_Transform tstate (drop 16 salt) True;
          tstate = SHA256_Transform tstate ihash_finalblk False
      in SHA256_Transform ostate (tstate @ outerpad) False)"

section \<open>The Salsa20/8 core and the memory-hard loop\<close>

definition R_rot :: "u32 \<Rightarrow> nat \<Rightarrow> u32" where
  "R_rot a b = push_bit b a OR drop_bit (32 - b) a"

text \<open>One assignment \<open>x[a] ^= R(x[b] + x[c], n)\<close>, and the assignments of the column and the row round in their order.\<close>

definition salsa_xor :: "nat \<times> nat \<times> nat \<times> nat \<Rightarrow> u32 list \<Rightarrow> u32 list" where
  "salsa_xor q x = (case q of (a, b, c, n) \<Rightarrow> x[a := x ! a XOR R_rot (x ! b + x ! c) n])"

definition salsa_columns :: "(nat \<times> nat \<times> nat \<times> nat) list" where
  "salsa_columns =
    [(4, 0, 12, 7), (9, 5, 1, 7), (14, 10, 6, 7), (3, 15, 11, 7),
     (8, 4, 0, 9), (13, 9, 5, 9), (2, 14, 10, 9), (7, 3, 15, 9),
     (12, 8, 4, 13), (1, 13, 9, 13), (6, 2, 14, 13), (11, 7, 3, 13),
     (0, 12, 8, 18), (5, 1, 13, 18), (10, 6, 2, 18), (15, 11, 7, 18)]"

definition salsa_rows :: "(nat \<times> nat \<times> nat \<times> nat) list" where
  "salsa_rows =
    [(1, 0, 3, 7), (6, 5, 4, 7), (11, 10, 9, 7), (12, 15, 14, 7),
     (2, 1, 0, 9), (7, 6, 5, 9), (8, 11, 10, 9), (13, 12, 15, 9),
     (3, 2, 1, 13), (4, 7, 6, 13), (9, 8, 11, 13), (14, 13, 12, 13),
     (0, 3, 2, 18), (5, 4, 7, 18), (10, 9, 8, 18), (15, 14, 13, 18)]"

definition salsa20_8 :: "u32 list \<Rightarrow> u32 list \<Rightarrow> u32 list" where
  "salsa20_8 B Bx =
     (let B = map2 (XOR) B Bx;
          x = fold (\<lambda>_ x. fold salsa_xor salsa_rows (fold salsa_xor salsa_columns x)) [0..<4] B
      in map2 (+) B x)"

text \<open>Both halves of the block, the second with the new first one.\<close>

definition mix_pair :: "u32 list \<Rightarrow> u32 list" where
  "mix_pair X = (let X0 = salsa20_8 (take 16 X) (drop 16 X); X1 = salsa20_8 (drop 16 X) X0 in X0 @ X1)"

definition fill_two :: "nat \<Rightarrow> u32 list \<times> u32 list \<Rightarrow> u32 list \<times> u32 list" where
  "fill_two k st = (case st of (V, X) \<Rightarrow>
     let i = 2 * k;
         V = mem_write (i * 32) X V; X = mix_pair X;
         V = mem_write ((i + 1) * 32) X V; X = mix_pair X
     in (V, X))"

definition mix_from :: "u32 list \<Rightarrow> u32 list \<Rightarrow> u32 list" where
  "mix_from V X = (let j = unat (X ! 16 AND 1023) in mix_pair (map2 (XOR) X (take 32 (drop (j * 32) V))))"

text \<open>\<open>V\<close> is the scratch memory from its first aligned word on, with whatever it holds.\<close>

definition scrypt_1024_1_1_256_sp :: "u32 list \<Rightarrow> u32 list \<Rightarrow> u32 list" where
  "scrypt_1024_1_1_256_sp input V =
     (let X = PBKDF2_SHA256_80_128 input;
          (V, X) = fold fill_two [0..<512] (V, X);
          X = fold (\<lambda>_ X. mix_from V (mix_from V X)) [0..<512] X
      in PBKDF2_SHA256_80_128_32 input X)"

text \<open>The first aligned address at or after the start of the memory.\<close>

definition align64 :: "u64 \<Rightarrow> u64" where
  "align64 scratchpad = (scratchpad + 63) AND NOT 63"

definition SCRATCHBUF_SIZE :: nat where
  "SCRATCHBUF_SIZE = 131584 * 2"

section \<open>The reference\<close>

text \<open>HMAC of RFC 2104 and PBKDF2 of RFC 8018, on SHA-256.\<close>

definition hmac_key :: "u8 list \<Rightarrow> u8 list" where
  "hmac_key K = (let K' = (if 64 < length K then fips_sha256 K else K) in K' @ replicate (64 - length K') 0)"

definition hmac_sha256 :: "u8 list \<Rightarrow> u8 list \<Rightarrow> u8 list" where
  "hmac_sha256 K text = fips_sha256 (map (\<lambda>b. b XOR 0x5c) (hmac_key K) @
     fips_sha256 (map (\<lambda>b. b XOR 0x36) (hmac_key K) @ text))"

fun pbkdf2_U :: "u8 list \<Rightarrow> u8 list \<Rightarrow> nat \<Rightarrow> nat \<Rightarrow> u8 list" where
  "pbkdf2_U P S i 0 = hmac_sha256 P (S @ be_nat_bytes 4 i)"
| "pbkdf2_U P S i (Suc k) = hmac_sha256 P (pbkdf2_U P S i k)"

definition pbkdf2_F :: "u8 list \<Rightarrow> u8 list \<Rightarrow> nat \<Rightarrow> nat \<Rightarrow> u8 list" where
  "pbkdf2_F P S c i = fold (\<lambda>k acc. map2 (XOR) acc (pbkdf2_U P S i k)) [1..<c] (pbkdf2_U P S i 0)"

definition pbkdf2 :: "u8 list \<Rightarrow> u8 list \<Rightarrow> nat \<Rightarrow> nat \<Rightarrow> u8 list" where
  "pbkdf2 P S c dkLen = take dkLen (concat (map (pbkdf2_F P S c) [1..<(dkLen + 31) div 32 + 1]))"

text \<open>Salsa20 with eight rounds: quarter rounds on the rows and the columns of a square of words.\<close>

definition quarterround :: "u32 \<times> u32 \<times> u32 \<times> u32 \<Rightarrow> u32 \<times> u32 \<times> u32 \<times> u32" where
  "quarterround y = (case y of (y0, y1, y2, y3) \<Rightarrow>
     let z1 = y1 XOR word_rotl 7 (y0 + y3);
         z2 = y2 XOR word_rotl 9 (z1 + y0);
         z3 = y3 XOR word_rotl 13 (z2 + z1);
         z0 = y0 XOR word_rotl 18 (z3 + z2)
     in (z0, z1, z2, z3))"

definition rowround :: "u32 list \<Rightarrow> u32 list" where
  "rowround y =
     (let (z0, z1, z2, z3) = quarterround (y ! 0, y ! 1, y ! 2, y ! 3);
          (z5, z6, z7, z4) = quarterround (y ! 5, y ! 6, y ! 7, y ! 4);
          (z10, z11, z8, z9) = quarterround (y ! 10, y ! 11, y ! 8, y ! 9);
          (z15, z12, z13, z14) = quarterround (y ! 15, y ! 12, y ! 13, y ! 14)
      in [z0, z1, z2, z3, z4, z5, z6, z7, z8, z9, z10, z11, z12, z13, z14, z15])"

definition columnround :: "u32 list \<Rightarrow> u32 list" where
  "columnround x =
     (let (y0, y4, y8, y12) = quarterround (x ! 0, x ! 4, x ! 8, x ! 12);
          (y5, y9, y13, y1) = quarterround (x ! 5, x ! 9, x ! 13, x ! 1);
          (y10, y14, y2, y6) = quarterround (x ! 10, x ! 14, x ! 2, x ! 6);
          (y15, y3, y7, y11) = quarterround (x ! 15, x ! 3, x ! 7, x ! 11)
      in [y0, y1, y2, y3, y4, y5, y6, y7, y8, y9, y10, y11, y12, y13, y14, y15])"

fun le_words :: "u8 list \<Rightarrow> u32 list" where
  "le_words (a # b # c # d # r) = be32 d c b a # le_words r"
| "le_words r = []"

definition mem_of :: "u32 list \<Rightarrow> u8 list" where
  "mem_of ws = concat (map le32_bytes ws)"

definition salsa20_8_ref :: "u8 list \<Rightarrow> u8 list" where
  "salsa20_8_ref B = (let x = le_words B in mem_of (map2 (+) x (((\<lambda>x. rowround (columnround x)) ^^ 4) x)))"

text \<open>RFC 7914: the block mix of \<open>2 r\<close> pieces, the loop over \<open>N\<close> blocks, and the whole function.\<close>

definition block_mix :: "nat \<Rightarrow> u8 list \<Rightarrow> u8 list" where
  "block_mix r B =
     (let bs = map (\<lambda>i. take 64 (drop (64 * i) B)) [0..<2 * r];
          ys = snd (fold (\<lambda>b (x, ys). let y = salsa20_8_ref (map2 (XOR) x b) in (y, ys @ [y])) bs (last bs, []))
      in concat (map (\<lambda>i. ys ! (2 * i)) [0..<r] @ map (\<lambda>i. ys ! (2 * i + 1)) [0..<r]))"

definition integerify :: "nat \<Rightarrow> u8 list \<Rightarrow> nat" where
  "integerify r B = le_val (drop (64 * (2 * r - 1)) B)"

definition ro_mix :: "nat \<Rightarrow> nat \<Rightarrow> u8 list \<Rightarrow> u8 list" where
  "ro_mix r N B =
     (let V = map (\<lambda>i. (block_mix r ^^ i) B) [0..<N]
      in fold (\<lambda>_ X. block_mix r (map2 (XOR) X (V ! (integerify r X mod N)))) [0..<N] ((block_mix r ^^ N) B))"

definition rfc_scrypt :: "u8 list \<Rightarrow> u8 list \<Rightarrow> nat \<Rightarrow> nat \<Rightarrow> nat \<Rightarrow> nat \<Rightarrow> u8 list" where
  "rfc_scrypt P S N r p dkLen =
     (let B = pbkdf2 P S 1 (p * 128 * r);
          B' = concat (map (\<lambda>i. ro_mix r N (take (128 * r) (drop (128 * r * i) B))) [0..<p])
      in pbkdf2 P B' 1 dkLen)"

section \<open>SHA-256 on words against the reference\<close>

lemma be_bytes_htobe32 [simp]: "be32_bytes (htobe32 x) = le32_bytes x"
  by (simp add: htobe32_def be32_inject_bytes le32_bytes_def)

lemma Ch_eq: "Ch x y z = CH x y z"
  by (rule bit_word_eqI) (auto simp: Ch_def CH_def bit_simps)

lemma Maj_eq: "Maj x y z = MAJ x y z"
  by (rule bit_word_eqI) (auto simp: Maj_def MAJ_def bit_simps)

lemma ROTR1_eq: "ROTR1 = ROTR"
  by (simp add: fun_eq_iff ROTR1_def ROTR_def)

lemma scrypt_funs: "Ch = CH" "Maj = MAJ" "big_S0 = SHA256_F1" "big_S1 = SHA256_F2" "small_s0 = SHA256_F3"
    "small_s1 = SHA256_F4"
  by (simp_all add: fun_eq_iff Ch_eq Maj_eq ROTR1_eq big_S0_def big_S1_def small_s0_def small_s1_def
    SHA256_F1_def SHA256_F2_def SHA256_F3_def SHA256_F4_def SHFR_def)

lemma RND_k_eq: "RND_k = sha256_k"
  by (simp add: RND_k_def sha256_k_def)

lemma sched_two_SCR: "16 \<le> length W \<Longrightarrow> sched_two W = SHA256_SCR (SHA256_SCR W)"
  by (cases "W = []") (simp_all add: sched_two_def SHA256_SCR_def Let_def scrypt_funs nth_append Suc_diff_le)

lemma sched_two_run: "16 \<le> length W \<Longrightarrow> (sched_two ^^ n) W = (SHA256_SCR ^^ (2 * n)) W"
  by (induction n) (simp_all add: sched_two_SCR)

text \<open>The state as the working variables of a round see it.\<close>

definition turn :: "nat \<Rightarrow> u32 list \<Rightarrow> u32 list" where
  "turn i S = map (\<lambda>j. S ! ((64 + j - i) mod 8)) [0..<8]"

lemma turn_index:
  assumes "i < 64"
  shows "(64 + j - i) mod 8 = (8 + j - i mod 8) mod (8 :: nat)"
    and "(64 + j - Suc i) mod 8 = (7 + j - i mod 8) mod (8 :: nat)"
proof -
  have q: "i div 8 \<le> 7" using assms by simp
  have i: "i = 8 * (i div 8) + i mod 8" by simp
  have "i mod 8 < 8" by simp
  then have r: "i mod 8 \<le> 7" by linarith
  have "64 + j - i = (8 + j - i mod 8) + 8 * (7 - i div 8)" "64 + j - Suc i = (7 + j - i mod 8) + 8 * (7 - i div 8)"
    using q r by (subst i, simp add: diff_mult_distrib2)+
  then show "(64 + j - i) mod 8 = (8 + j - i mod 8) mod 8" "(64 + j - Suc i) mod 8 = (7 + j - i mod 8) mod 8"
    by (simp_all only: mod_mult_self2)
qed

lemma length_8_cases: "length xs = 8 \<longleftrightarrow> (\<exists>a b c d e f g h. xs = [a, b, c, d, e, f, g, h])"
  by (auto simp: length_Suc_conv numeral_eq_Suc)

lemma upt_8: "[0..<8] = [0, 1, 2, 3, 4, 5, 6, 7]"
  by (simp add: upt_rec)

lemma nth_turn: "j < 8 \<Longrightarrow> turn i S ! j = S ! ((64 + j - i) mod 8)"
  by (simp add: turn_def)

lemma turn_update:
  assumes "length S = 8" and "i < 64"
  shows "turn (Suc i) (S[(67 - i) mod 8 := x, (71 - i) mod 8 := y]) =
    [y, turn i S ! 0, turn i S ! 1, turn i S ! 2, x, turn i S ! 4, turn i S ! 5, turn i S ! 6]"
proof -
  obtain a b c d e f g h where S: "S = [a, b, c, d, e, f, g, h]"
    using assms(1) unfolding length_8_cases by blast
  have at: "(67 - i) mod 8 = (11 - i mod 8) mod 8" "(71 - i) mod 8 = (15 - i mod 8) mod 8"
    using turn_index(1) [OF assms(2), of 3] turn_index(1) [OF assms(2), of 7] by simp_all
  have "i mod 8 \<in> {0, 1, 2, 3, 4, 5, 6, 7}" by auto
  then show ?thesis
    unfolding S turn_def at turn_index [OF assms(2)] upt_8 by (elim insertE emptyE) simp_all
qed

lemma turn_step:
  assumes "length S = 8" and "i < 64"
  shows "turn (Suc i) (RNDr W i S) = sha_round W i (turn i S)" and "length (RNDr W i S) = 8"
proof -
  have parts: "turn i S ! 0 = S ! ((64 - i) mod 8)" "turn i S ! 1 = S ! ((65 - i) mod 8)"
    "turn i S ! 2 = S ! ((66 - i) mod 8)" "turn i S ! 3 = S ! ((67 - i) mod 8)"
    "turn i S ! 4 = S ! ((68 - i) mod 8)" "turn i S ! 5 = S ! ((69 - i) mod 8)"
    "turn i S ! 6 = S ! ((70 - i) mod 8)" "turn i S ! 7 = S ! ((71 - i) mod 8)"
    by (simp_all add: nth_turn)
  have sum: "x + (W ! i + sha256_k ! i) = x + sha256_k ! i + W ! i" for x
    by (simp add: add_ac)
  show "turn (Suc i) (RNDr W i S) = sha_round W i (turn i S)"
    unfolding RNDr_def sha_round_def Let_def turn_update [OF assms] scrypt_funs RND_k_eq sum parts ..
  show "length (RNDr W i S) = 8" using assms(1) by (simp add: RNDr_def Let_def)
qed

lemma turn_ends: "length S = 8 \<Longrightarrow> turn 0 S = S" "length S = 8 \<Longrightarrow> turn 64 S = S"
  unfolding length_8_cases turn_def upt_8 by auto

lemma turn_rounds:
  assumes "length S = 8" and "n \<le> 64"
  shows "turn n (fold (RNDr W) [0..<n] S) = fold (sha_round W) [0..<n] S \<and> length (fold (RNDr W) [0..<n] S) = 8"
  using assms(2)
proof (induction n)
  case 0
  show ?case using assms(1) by (simp add: turn_ends)
next
  case (Suc n)
  then show ?case using turn_step [of "fold (RNDr W) [0..<n] S" n W] by simp
qed

text \<open>The bytes of a block of words, swapped or not.\<close>

definition be_mem :: "u32 list \<Rightarrow> u8 list" where
  "be_mem ws = concat (map be32_bytes ws)"

lemma be_mem_simps [simp]: "be_mem [] = []" "be_mem (x # xs) = be32_bytes x @ be_mem xs"
    "be_mem (xs @ ys) = be_mem xs @ be_mem ys" "length (be_mem xs) = 4 * length xs"
  by (simp_all add: be_mem_def length_concat comp_def sum_list_triv)

lemma mem_of_simps [simp]: "mem_of [] = []" "mem_of (x # xs) = le32_bytes x @ mem_of xs"
    "mem_of (xs @ ys) = mem_of xs @ mem_of ys" "length (mem_of xs) = 4 * length xs"
  by (simp_all add: mem_of_def length_concat comp_def sum_list_triv)

lemma be_mem_htobe32 [simp]: "be_mem (map htobe32 ws) = mem_of ws"
  by (simp add: be_mem_def mem_of_def comp_def)

lemma drop_be_mem: "drop (4 * n) (be_mem ws) = be_mem (drop n ws)"
  by (induction n arbitrary: ws) (simp, case_tac ws, simp_all)

lemma PACK32_be_mem: "n < length ws \<Longrightarrow> PACK32 (drop (4 * n) (be_mem ws)) = ws ! n"
proof -
  assume n: "n < length ws"
  have "drop (4 * n) (be_mem ws) = be32_bytes (ws ! n) @ be_mem (drop (Suc n) ws)"
    unfolding drop_be_mem using n by (simp flip: Cons_nth_drop_Suc)
  then show ?thesis by (simp add: PACK32_def be32_bytes_def be32_be32_bytes)
qed

lemma SHA256_Transform_eq:
  assumes "16 \<le> length block"
  shows "SHA256_Transform (vars_of v) block swap =
    vars_of (fips_compress ((if swap then mem_of else be_mem) (take 16 block)) v)"
proof -
  let ?W = "if swap then map htobe32 (take 16 block) else take 16 block"
  have W: "length ?W = 16" using assms by simp
  have M: "(if swap then mem_of else be_mem) (take 16 block) = be_mem ?W" by simp
  have "map (\<lambda>j. PACK32 (drop (4 * j) (be_mem ?W))) [0..<16] = ?W"
    by (rule nth_equalityI) (use W in \<open>simp_all only: length_map length_upt nth_map nth_upt PACK32_be_mem diff_zero add_0\<close>)
  then have "sha_schedule (be_mem ?W) = (sched_two ^^ 24) ?W"
    unfolding sha_schedule_def by (subst sched_two_run) (use W in simp_all)
  moreover have "fold (RNDr ((sched_two ^^ 24) ?W)) [0..<64] (vars_of v) =
      fold (sha_round ((sched_two ^^ 24) ?W)) [0..<64] (vars_of v)"
    using turn_rounds [of "vars_of v" 64 "(sched_two ^^ 24) ?W"] turn_ends(2) by (metis length_vars order_refl)
  moreover have "sha_block (be_mem ?W) (vars_of v) = vars_of (fips_compress (be_mem ?W) v)"
    by (rule sha_block_vars) (simp only: be_mem_simps W)
  ultimately show ?thesis
    unfolding SHA256_Transform_def Let_def M sha_block_def by simp
qed

section \<open>PBKDF2 against the reference\<close>

lemma vars_of_ex: "length S = 8 \<Longrightarrow> \<exists>v. S = vars_of v"
  unfolding length_8_cases by (elim exE) (metis vars_of.simps)

lemma length_Transform [simp]: "length S = 8 \<Longrightarrow> 16 \<le> length block \<Longrightarrow> length (SHA256_Transform S block swap) = 8"
  using vars_of_ex [of S] SHA256_Transform_eq [of block] by auto

lemma InitState_vars: "SHA256_InitState = vars_of fips_init"
  by (simp add: SHA256_InitState_def fips_init_def sha256_h0_def)

lemma length_InitState [simp]: "length SHA256_InitState = 8"
  by (simp add: InitState_vars)

lemma Transform_swap: "16 \<le> length b \<Longrightarrow> SHA256_Transform S b True = SHA256_Transform S (map htobe32 (take 16 b)) False"
  by (simp add: SHA256_Transform_def)

lemma Transform_take: "SHA256_Transform S (take 16 b) swap = SHA256_Transform S b swap"
  by (simp add: SHA256_Transform_def)

definition hash_blocks :: "u32 list list \<Rightarrow> u32 list \<Rightarrow> u32 list" where
  "hash_blocks bs S = fold (\<lambda>b S. SHA256_Transform S b False) bs S"

lemma length_hash_blocks [simp]:
  "length S = 8 \<Longrightarrow> \<forall>b \<in> set bs. length b = 16 \<Longrightarrow> length (hash_blocks bs S) = 8"
  by (induction bs arbitrary: S) (simp_all add: hash_blocks_def)

lemma take_64_be_mem: "length b = 16 \<Longrightarrow> take 64 (be_mem b @ r) = be_mem b" "length b = 16 \<Longrightarrow> drop 64 (be_mem b @ r) = r"
  by simp_all

lemma fips_blocks_words:
  "\<forall>b \<in> set bs. length b = 16 \<Longrightarrow>
     vars_of (fips_blocks (length bs) (be_mem (concat bs)) v) = hash_blocks bs (vars_of v)"
proof (induction bs arbitrary: v)
  case (Cons b bs)
  then show ?case
    using SHA256_Transform_eq [of b v False] by (simp add: hash_blocks_def)
qed (simp add: hash_blocks_def)

lemma fips_bytes_be_mem: "fips_bytes v = be_mem (vars_of v)"
  by (simp add: fips_bytes_vars be_mem_def UNPACK32_def [abs_def])

text \<open>The hash of whole words: the padding is whole words too.\<close>

definition word_pad :: "nat \<Rightarrow> nat \<Rightarrow> u32 list" where
  "word_pad n k = 0x80000000 # replicate k 0 @ [0, word_of_nat (32 * n)]"

lemma be_bytes_80: "be32_bytes 0x80000000 = [0x80, 0, 0, 0]" "be32_bytes 0 = [0, 0, 0, 0]"
  by code_simp+

lemma replicate_4: "replicate (4 + n) x = x # x # x # x # replicate n x"
  by (simp add: numeral_eq_Suc)

lemma be_mem_zeros: "be_mem (replicate k 0) = replicate (4 * k) 0"
  by (induction k) (simp_all add: be_bytes_80 replicate_4)

lemma fips_pad_words:
  assumes "(length ws + k + 3) mod 16 = 0" and "k < 16" and "length ws < 2 ^ 26"
  shows "fips_pad (be_mem ws) = be_mem (ws @ word_pad (length ws) k)"
proof -
  have z: "(119 - (4 * length ws) mod 64) mod 64 = 3 + 4 * k"
  proof -
    have m: "(4 * length ws) mod 64 = 4 * (length ws mod 16)"
      using mult_mod_right [of 4 "length ws" 16] by simp
    have "(length ws mod 16 + (k + 3)) mod 16 = 0"
      unfolding mod_add_left_eq using assms(1) by (simp add: add.assoc)
    then obtain q where q: "length ws mod 16 + (k + 3) = 16 * q" by auto
    have "length ws mod 16 < 16" by simp
    with q assms(2) have "0 < q" "q < 3" by linarith+
    then have "q = 1 \<or> q = 2" by linarith
    then have "length ws mod 16 + k + 3 = 16 \<or> length ws mod 16 + k + 3 = 32"
      using q by auto
    then have "4 * (length ws mod 16) = 64 - 4 * k - 12 \<or> 4 * (length ws mod 16) = 128 - 4 * k - 12" by linarith
    moreover have "(119 - (64 - 4 * k - 12)) mod 64 = 3 + 4 * k" if "4 * k + 12 \<le> 64"
    proof -
      have "119 - (64 - 4 * k - 12) = (3 + 4 * k) + 64" using that by linarith
      then show ?thesis using assms(2) by (simp only: mod_add_self2) simp
    qed
    moreover have "(119 - (128 - 4 * k - 12)) mod 64 = 3 + 4 * k"
      using assms(2) by simp
    ultimately show ?thesis unfolding m using \<open>length ws mod 16 + k + 3 = 16 \<or> _\<close> by auto
  qed
  have len: "be_nat_bytes 8 (8 * (4 * length ws)) = replicate 4 0 @ UNPACK32 (word_of_nat (8 * (4 * length ws)))"
    by (rule length_field) (use assms(3) in simp)
  have "fips_pad (be_mem ws) = be_mem ws @ 0x80 # replicate (3 + 4 * k) 0 @ replicate 4 0 @
      UNPACK32 (word_of_nat (8 * (4 * length ws)))"
    unfolding fips_pad_def be_mem_simps z len by simp
  also have "8 * (4 * length ws) = 32 * length ws" by simp
  finally show ?thesis
    unfolding word_pad_def
    by (simp add: be_bytes_80 be_mem_zeros replicate_add UNPACK32_def numeral_eq_Suc del: of_nat_mult)
qed

lemma sha_words:
  assumes "\<forall>b \<in> set bs. length b = 16" and "concat bs = ws @ word_pad (length ws) k"
    and "k < 16" and "length ws < 2 ^ 26"
  shows "fips_sha256 (be_mem ws) = be_mem (hash_blocks bs SHA256_InitState)"
proof -
  have n: "length (concat bs) = 16 * length bs"
    using assms(1) by (induction bs) simp_all
  then have "length ws + k + 3 = 16 * length bs" unfolding assms(2) by (simp add: word_pad_def)
  then have "(length ws + k + 3) mod 16 = 0" by simp
  note pad = fips_pad_words [OF this assms(3,4), folded assms(2)]
  have "length (fips_pad (be_mem ws)) div 64 = length bs" unfolding pad be_mem_simps n by simp
  then show ?thesis
    unfolding fips_sha256_def pad fips_bytes_be_mem InitState_vars using fips_blocks_words [OF assms(1), of fips_init]
    by simp
qed

lemma le_bytes_htobe32: "le32_bytes (htobe32 x) = be32_bytes x"
  using be_bytes_htobe32 [of x] unfolding be32_bytes_rev by (metis rev_rev_ident)

lemma mem_of_htobe32: "mem_of (map htobe32 ws) = be_mem ws"
  by (simp add: be_mem_def mem_of_def comp_def le_bytes_htobe32)

lemma be32_bytes_xor: "be32_bytes (x XOR y) = map2 (XOR) (be32_bytes x) (be32_bytes y)"
  by (auto simp: be32_bytes_def bit_simps intro!: bit_word_eqI)

lemma be_mem_xor_const:
  assumes "be32_bytes c = [b, b, b, b]"
  shows "map (\<lambda>x. x XOR b) (be_mem ws) = be_mem (map (\<lambda>x. x XOR c) ws)"
proof (induction ws)
  case (Cons w ws)
  have "map (\<lambda>x. x XOR b) (be32_bytes w) = be32_bytes (w XOR c)"
    unfolding be32_bytes_xor assms by (simp add: be32_bytes_def)
  with Cons show ?case by simp
qed simp

text \<open>The key of a header, and HMAC on words with it.\<close>

lemma InitState_hash: "SHA256_Transform SHA256_InitState b False = hash_blocks [b] SHA256_InitState"
  by (simp add: hash_blocks_def)

lemma key_hash_sha:
  assumes "length input = 20"
  shows "fips_sha256 (mem_of input) = be_mem (key_hash input)" and "length (key_hash input) = 8"
proof -
  let ?ws = "map htobe32 input"
  have split: "?ws = map htobe32 (take 16 input) @ map htobe32 (drop 16 input)"
    by (simp flip: map_append)
  have last: "map htobe32 (take 4 (drop 16 input) @ passwdpad) = map htobe32 (drop 16 input) @ word_pad 20 9"
  proof -
    have "map htobe32 passwdpad = word_pad 20 9" by code_simp
    then show ?thesis using assms by simp
  qed
  have pp: "length passwdpad = 12" by (simp add: passwdpad_def)
  have "fips_sha256 (be_mem ?ws) =
      be_mem (hash_blocks [map htobe32 (take 16 input), map htobe32 (drop 16 input) @ word_pad 20 9] SHA256_InitState)"
    by (rule sha_words [where k = 9]) (use assms split in \<open>simp_all add: word_pad_def\<close>)
  also have "hash_blocks [map htobe32 (take 16 input), map htobe32 (drop 16 input) @ word_pad 20 9] SHA256_InitState = key_hash input"
    unfolding key_hash_def hash_blocks_def using assms pp
    by (simp add: Transform_swap flip: last)
  finally show "fips_sha256 (mem_of input) = be_mem (key_hash input)" by simp
  show "length (key_hash input) = 8" using assms pp by (simp add: key_hash_def)
qed

lemma hmac_key_words:
  assumes "length input = 20"
  shows "hmac_key (mem_of input) = be_mem (key_hash input @ replicate 8 0)"
  using key_hash_sha [OF assms] assms by (simp add: hmac_key_def Let_def be_mem_zeros)

lemma pad_with_bytes:
  assumes "length input = 20"
  shows "map (\<lambda>b. b XOR 0x36) (hmac_key (mem_of input)) = be_mem (pad_with 0x36363636 (key_hash input))"
    and "map (\<lambda>b. b XOR 0x5c) (hmac_key (mem_of input)) = be_mem (pad_with 0x5c5c5c5c (key_hash input))"
proof -
  have "be32_bytes 0x36363636 = [0x36, 0x36, 0x36, 0x36]" "be32_bytes 0x5c5c5c5c = [0x5c, 0x5c, 0x5c, 0x5c]"
    by code_simp+
  from this [THEN be_mem_xor_const] show
    "map (\<lambda>b. b XOR 0x36) (hmac_key (mem_of input)) = be_mem (pad_with 0x36363636 (key_hash input))"
    "map (\<lambda>b. b XOR 0x5c) (hmac_key (mem_of input)) = be_mem (pad_with 0x5c5c5c5c (key_hash input))"
    by (simp_all add: hmac_key_words [OF assms] pad_with_def)
qed

lemma length_pad_with [simp]: "length (pad_with c ws) = length ws + 8"
  by (simp add: pad_with_def)

lemma outerpad_word_pad: "outerpad = word_pad 24 5"
  by code_simp

lemma length_word_pad: "length (word_pad n k) = k + 3"
  by (simp add: word_pad_def)

lemma hmac_words:
  assumes "length input = 20" and "concat bs = t @ word_pad (length t + 16) k" and "\<forall>b \<in> set bs. length b = 16"
    and "k < 16" and "length t < 2 ^ 25"
  shows "hmac_sha256 (mem_of input) (be_mem t) =
    be_mem (SHA256_Transform (SHA256_Transform SHA256_InitState (pad_with 0x5c5c5c5c (key_hash input)) False)
      (hash_blocks bs (SHA256_Transform SHA256_InitState (pad_with 0x36363636 (key_hash input)) False) @ outerpad) False)"
proof -
  let ?i = "pad_with 0x36363636 (key_hash input)" and ?o = "pad_with 0x5c5c5c5c (key_hash input)"
  note key = key_hash_sha(2) [OF assms(1)]
  have inner: "fips_sha256 (be_mem (?i @ t)) = be_mem (hash_blocks (?i # bs) SHA256_InitState)"
    by (rule sha_words [where k = k]) (use assms key in \<open>simp_all add: add.commute\<close>)
  have "length (hash_blocks (?i # bs) SHA256_InitState) = 8"
    by (rule length_hash_blocks) (use assms(3) key in simp_all)
  then have outer: "fips_sha256 (be_mem (?o @ hash_blocks (?i # bs) SHA256_InitState)) =
      be_mem (hash_blocks [?o, hash_blocks (?i # bs) SHA256_InitState @ outerpad] SHA256_InitState)"
    by (intro sha_words [where k = 5]) (use key in \<open>simp_all add: outerpad_word_pad length_word_pad\<close>)
  show ?thesis
    unfolding hmac_sha256_def pad_with_bytes [OF assms(1)] be_mem_simps(3) [symmetric] inner outer
    by (simp add: hash_blocks_def)
qed

lemma be_nat_bytes_word: "n < 2 ^ 32 \<Longrightarrow> be_nat_bytes 4 n = be32_bytes (word_of_nat n)"
  using be_nat_bytes_unat [of "word_of_nat n"] by (simp add: UNPACK32_def unat32_of_nat)

lemma pbkdf2_F_once: "pbkdf2_F P S 1 i = hmac_sha256 P (S @ be_nat_bytes 4 i)"
  by (simp add: pbkdf2_F_def)

lemma inner_buf:
  assumes "length t = 4"
  shows "(mem_write 5 (be32enc_vect (replicate 11 0) innerpad 11) (be32enc_vect (replicate 16 0) t 4))[4 := x] =
    map htobe32 t @ [x] @ map htobe32 innerpad"
proof -
  obtain a b c d where "t = [a, b, c, d]" using assms by (auto simp: length_4_cases)
  then show ?thesis
    by (simp add: be32enc_vect_def mem_write_def innerpad_def numeral_eq_Suc)
qed

lemma innerpad_word_pad: "map htobe32 innerpad = word_pad 37 8" "ihash_finalblk = 1 # word_pad 49 12"
  by code_simp+

lemma PBKDF2_80_128_block:
  assumes "length input = 20" and "i < 4"
  shows "hmac_sha256 (mem_of input) (mem_of input @ be_nat_bytes 4 (i + 1)) =
    be_mem (SHA256_Transform (SHA256_Transform SHA256_InitState (pad_with 0x5c5c5c5c (key_hash input)) False)
      (SHA256_Transform (SHA256_Transform (SHA256_Transform SHA256_InitState (pad_with 0x36363636 (key_hash input)) False) input True)
        (map htobe32 (drop 16 input) @ [of_nat (i + 1)] @ map htobe32 innerpad) False @ outerpad) False)"
proof -
  let ?t = "map htobe32 input @ [word_of_nat (i + 1)]"
  let ?bs = "[map htobe32 (take 16 input), map htobe32 (drop 16 input) @ [word_of_nat (i + 1)] @ word_pad 37 8]"
  have "mem_of input @ be_nat_bytes 4 (i + 1) = be_mem ?t"
    using assms(2) by (subst be_nat_bytes_word) (simp_all del: of_nat_add of_nat_Suc)
  moreover have "hmac_sha256 (mem_of input) (be_mem ?t) =
    be_mem (SHA256_Transform (SHA256_Transform SHA256_InitState (pad_with 0x5c5c5c5c (key_hash input)) False)
      (hash_blocks ?bs (SHA256_Transform SHA256_InitState (pad_with 0x36363636 (key_hash input)) False) @ outerpad) False)"
  proof (rule hmac_words [where k = 8])
    have "map htobe32 (take 16 input) @ map htobe32 (drop 16 input) = map htobe32 input"
      by (simp flip: map_append)
    then show "concat ?bs = ?t @ word_pad (length ?t + 16) 8" using assms(1) by simp
  qed (use assms(1) in \<open>simp_all add: length_word_pad\<close>)
  moreover have "hash_blocks ?bs S = SHA256_Transform (SHA256_Transform S input True)
      (map htobe32 (drop 16 input) @ [word_of_nat (i + 1)] @ map htobe32 innerpad) False" for S
    using assms(1) by (simp add: hash_blocks_def Transform_swap innerpad_word_pad)
  ultimately show ?thesis by simp
qed

lemma PBKDF2_80_128:
  assumes "length input = 20"
  shows "mem_of (PBKDF2_SHA256_80_128 input) = pbkdf2 (mem_of input) (mem_of input) 1 128"
    and "length (PBKDF2_SHA256_80_128 input) = 32"
proof -
  let ?o = "\<lambda>i. SHA256_Transform (SHA256_Transform SHA256_InitState (pad_with 0x5c5c5c5c (key_hash input)) False)
      (SHA256_Transform (SHA256_Transform (SHA256_Transform SHA256_InitState (pad_with 0x36363636 (key_hash input)) False) input True)
        (map htobe32 (drop 16 input) @ [of_nat (i + 1)] @ map htobe32 innerpad) False @ outerpad) False"
  have buf: "length (drop 16 input) = 4" using assms by simp
  have code: "PBKDF2_SHA256_80_128 input = concat (map (\<lambda>i. map htobe32 (?o i)) [0..<4])"
    unfolding PBKDF2_SHA256_80_128_def Let_def inner_buf [OF buf] ..
  have len: "length (?o i) = 8" for i
    using key_hash_sha(2) [OF assms] assms by (simp add: outerpad_word_pad length_word_pad innerpad_word_pad)
  show "length (PBKDF2_SHA256_80_128 input) = 32"
    unfolding code length_concat map_map comp_def length_map len by (simp add: upt_rec)
  have "mem_of (concat (map (\<lambda>i. map htobe32 (?o i)) is)) = concat (map (\<lambda>i. be_mem (?o i)) is)" for "is" :: "nat list"
    by (induction "is") (simp_all only: list.map concat.simps mem_of_simps mem_of_htobe32)
  moreover have "map (\<lambda>i. be_mem (?o i)) [0..<4] =
      map (\<lambda>i. hmac_sha256 (mem_of input) (mem_of input @ be_nat_bytes 4 (i + 1))) [0..<4]"
    by (rule map_cong) (simp_all only: set_upt atLeastLessThan_iff PBKDF2_80_128_block [OF assms])
  ultimately have all: "mem_of (PBKDF2_SHA256_80_128 input) =
      concat (map (\<lambda>i. hmac_sha256 (mem_of input) (mem_of input @ be_nat_bytes 4 (i + 1))) [0..<4])"
    unfolding code by (simp only:)
  have "[1..<(128 + 31) div 32 + 1] = map (\<lambda>i. i + 1) [0..<4]" by (simp add: upt_rec)
  then have "pbkdf2 (mem_of input) (mem_of input) 1 128 = take 128 (mem_of (PBKDF2_SHA256_80_128 input))"
    unfolding pbkdf2_def all by (simp only: map_map comp_def pbkdf2_F_once)
  then show "mem_of (PBKDF2_SHA256_80_128 input) = pbkdf2 (mem_of input) (mem_of input) 1 128"
    using \<open>length (PBKDF2_SHA256_80_128 input) = 32\<close> by simp
qed

lemma PBKDF2_80_128_32:
  assumes "length input = 20" and "length salt = 32"
  shows "be_mem (PBKDF2_SHA256_80_128_32 input salt) = pbkdf2 (mem_of input) (mem_of salt) 1 32"
    and "length (PBKDF2_SHA256_80_128_32 input salt) = 8"
proof -
  let ?t = "map htobe32 salt @ [1]"
  let ?bs = "[map htobe32 (take 16 salt), map htobe32 (drop 16 salt), 1 # word_pad 49 12]"
  have "mem_of salt @ be_nat_bytes 4 1 = be_mem ?t" by (subst be_nat_bytes_word) simp_all
  moreover have "hmac_sha256 (mem_of input) (be_mem ?t) =
    be_mem (SHA256_Transform (SHA256_Transform SHA256_InitState (pad_with 0x5c5c5c5c (key_hash input)) False)
      (hash_blocks ?bs (SHA256_Transform SHA256_InitState (pad_with 0x36363636 (key_hash input)) False) @ outerpad) False)"
  proof (rule hmac_words [where k = 12])
    have "map htobe32 (take 16 salt) @ map htobe32 (drop 16 salt) = map htobe32 salt"
      by (simp flip: map_append)
    then show "concat ?bs = ?t @ word_pad (length ?t + 16) 12" using assms by simp
  qed (use assms in \<open>simp_all add: length_word_pad\<close>)
  moreover have "hash_blocks ?bs S = SHA256_Transform (SHA256_Transform (SHA256_Transform S salt True) (drop 16 salt) True)
      ihash_finalblk False" for S
    using assms by (simp add: hash_blocks_def Transform_swap innerpad_word_pad)
  moreover have "[1..<(32 + 31) div 32 + 1] = [1 :: nat]" by (simp add: upt_rec)
  moreover show len: "length (PBKDF2_SHA256_80_128_32 input salt) = 8"
    unfolding PBKDF2_SHA256_80_128_32_def Let_def using key_hash_sha(2) [OF assms(1)] assms
    by (simp add: outerpad_word_pad length_word_pad innerpad_word_pad)
  ultimately show "be_mem (PBKDF2_SHA256_80_128_32 input salt) = pbkdf2 (mem_of input) (mem_of salt) 1 32"
    unfolding pbkdf2_def PBKDF2_SHA256_80_128_32_def Let_def by (simp add: pbkdf2_F_once [unfolded One_nat_def])
qed

section \<open>The core and the loop against the reference\<close>

lemma le32_bytes_be32: "le32_bytes (be32 d c b a) = [a, b, c, d]"
  using be32_inject_bytes [of d c b a] unfolding be32_bytes_rev by simp

lemma be32_le32_bytes: "le32_bytes x = [a, b, c, d] \<Longrightarrow> be32 d c b a = x"
  using be32_be32_bytes [of x] by (auto simp: le32_bytes_def)

lemma le_words_mem_of [simp]: "le_words (mem_of ws) = ws"
proof (induction ws)
  case (Cons w ws)
  obtain a b c d where "le32_bytes w = [a, b, c, d]" using length_4_cases [of "le32_bytes w"] by auto
  with Cons be32_le32_bytes [OF this] show ?case by simp
qed simp

lemma R_rot_rotl: "0 < n \<Longrightarrow> n < 32 \<Longrightarrow> R_rot x n = word_rotl n x"
proof -
  assume n: "0 < n" "n < 32"
  have "R_rot x n = ROTR x (32 - n)" using n by (simp add: R_rot_def ROTR_def or.commute)
  also have "\<dots> = word_rotr (32 - n) x" using n by (intro ROTR_rotr) simp_all
  also have "\<dots> = word_rotl n x"
    using n by (intro bit_word_eqI) (auto simp: bit_simps mod_if)
  finally show ?thesis .
qed

lemma length_16_ex: "length xs = 16 \<longleftrightarrow> (\<exists>a0 a1 a2 a3 a4 a5 a6 a7 a8 a9 a10 a11 a12 a13 a14 a15.
    xs = [a0, a1, a2, a3, a4, a5, a6, a7, a8, a9, a10, a11, a12, a13, a14, a15])"
  by (auto simp: length_Suc_conv numeral_eq_Suc)

lemma salsa_columns_round: "length x = 16 \<Longrightarrow> fold salsa_xor salsa_columns x = columnround x"
  unfolding length_16_ex
  by (elim exE) (simp add: salsa_columns_def salsa_xor_def columnround_def quarterround_def Let_def R_rot_rotl)

lemma salsa_rows_round: "length x = 16 \<Longrightarrow> fold salsa_xor salsa_rows x = rowround x"
  unfolding length_16_ex
  by (elim exE) (simp add: salsa_rows_def salsa_xor_def rowround_def quarterround_def Let_def R_rot_rotl)

lemma length_double_rounds [simp]: "length (rowround x) = 16" "length (columnround x) = 16"
  by (simp_all add: rowround_def columnround_def split_def Let_def)

lemma mem_of_xor: "length a = length b \<Longrightarrow> mem_of (map2 (XOR) a b) = map2 (XOR) (mem_of a) (mem_of b)"
proof (induction a b rule: list_induct2)
  case (Cons x xs y ys)
  have "le32_bytes (x XOR y) = map2 (XOR) (le32_bytes x) (le32_bytes y)"
    by (auto simp: le32_bytes_def bit_simps intro!: bit_word_eqI)
  with Cons show ?case by (simp add: zip_append)
qed simp

lemma double_round: "length x = 16 \<Longrightarrow>
    fold salsa_xor salsa_rows (fold salsa_xor salsa_columns x) = rowround (columnround x)"
  by (simp add: salsa_columns_round salsa_rows_round)

lemma length_salsa [simp]: "length B = 16 \<Longrightarrow> length Bx = 16 \<Longrightarrow> length (salsa20_8 B Bx) = 16"
  by (simp add: salsa20_8_def Let_def upt_rec double_round)

lemma salsa20_8_spec:
  assumes "length B = 16" and "length Bx = 16"
  shows "mem_of (salsa20_8 B Bx) = salsa20_8_ref (map2 (XOR) (mem_of B) (mem_of Bx))"
proof -
  have "map2 (XOR) (mem_of B) (mem_of Bx) = mem_of (map2 (XOR) B Bx)"
    using assms by (simp add: mem_of_xor)
  then show ?thesis
    using assms by (simp add: salsa20_8_ref_def salsa20_8_def Let_def upt_rec double_round numeral_eq_Suc)
qed

lemma xor_commute_lists: "map2 (XOR) a b = map2 (XOR) b (a :: 'a::len word list)"
  by (induction a arbitrary: b) (simp, case_tac b, simp_all add: xor.commute)

lemma mem_of_split: "mem_of (take n X) = take (4 * n) (mem_of X)" "mem_of (drop n X) = drop (4 * n) (mem_of X)"
proof -
  show d: "mem_of (drop n X) = drop (4 * n) (mem_of X)" for X
    by (induction n arbitrary: X) (simp, case_tac X, simp_all)
  have "mem_of X = mem_of (take n X) @ mem_of (drop n X)" by (simp flip: mem_of_simps(3))
  then show "mem_of (take n X) = take (4 * n) (mem_of X)"
    by (cases "n \<le> length X") (simp_all add: take_all)
qed

lemma length_mix_pair [simp]: "length X = 32 \<Longrightarrow> length (mix_pair X) = 32"
  by (simp add: mix_pair_def Let_def)

lemma mix_pair_block_mix:
  assumes "length X = 32"
  shows "mem_of (mix_pair X) = block_mix 1 (mem_of X)"
proof -
  have "[0..<2 * 1] = [0, 1 :: nat]" by (simp add: upt_rec)
  then show ?thesis
    using assms mem_of_split [of 16 X]
    by (simp add: mix_pair_def block_mix_def Let_def salsa20_8_spec xor_commute_lists [of "drop 64 _"])
qed

text \<open>The loops a step at a time.\<close>

definition fill_one :: "nat \<Rightarrow> u32 list \<times> u32 list \<Rightarrow> u32 list \<times> u32 list" where
  "fill_one i st = (mem_write (i * 32) (snd st) (fst st), mix_pair (snd st))"

lemma fold_fill_two: "fold fill_two [0..<n] st = fold fill_one [0..<2 * n] st"
  by (induction n) (simp_all add: fill_two_def fill_one_def Let_def split_def)

lemma fold_const_run: "fold (\<lambda>_. g) [0..<n] x = (g ^^ n) x"
  by (induction n) simp_all

lemma read_mem_write:
  "off \<le> length mem \<Longrightarrow> take (length Y) (drop off (mem_write off Y mem)) = Y"
  "a + l \<le> off \<Longrightarrow> off \<le> length mem \<Longrightarrow> take l (drop a (mem_write off Y mem)) = take l (drop a mem)"
  by (simp_all add: mem_write_def drop_take)

lemma fill_spec:
  assumes "length X = 32" and "32 * n \<le> length V"
  shows "\<exists>V'. fold fill_one [0..<n] (V, X) = (V', (mix_pair ^^ n) X) \<and> length V' = length V \<and>
    (\<forall>i < n. take 32 (drop (i * 32) V') = (mix_pair ^^ i) X) \<and> length ((mix_pair ^^ n) X) = 32"
  using assms(2)
proof (induction n)
  case 0
  show ?case using assms(1) by simp
next
  case (Suc n)
  then obtain V' where V': "fold fill_one [0..<n] (V, X) = (V', (mix_pair ^^ n) X)" "length V' = length V"
      "\<forall>i < n. take 32 (drop (i * 32) V') = (mix_pair ^^ i) X" and len: "length ((mix_pair ^^ n) X) = 32"
    by auto
  let ?V = "mem_write (n * 32) ((mix_pair ^^ n) X) V'"
  have "take 32 (drop (i * 32) ?V) = (mix_pair ^^ i) X" if "i < Suc n" for i
  proof (cases "i = n")
    case True
    then show ?thesis using read_mem_write(1) [of "n * 32" V' "(mix_pair ^^ n) X"] len V'(2) Suc.prems by simp
  next
    case False
    with that have "i * 32 + 32 \<le> n * 32" by simp
    with False that V'(2,3) Suc.prems show ?thesis by (simp add: read_mem_write(2))
  qed
  moreover have "length ?V = length V" using V'(2) len Suc.prems by simp
  moreover have "fold fill_one [0..<Suc n] (V, X) = fill_one n (fold fill_one [0..<n] (V, X))" by simp
  then have "fold fill_one [0..<Suc n] (V, X) = (?V, (mix_pair ^^ Suc n) X)"
    unfolding V'(1) by (simp add: fill_one_def)
  ultimately show ?case using len by simp
qed

lemma integerify_word:
  assumes "length X = 32"
  shows "integerify 1 (mem_of X) mod 1024 = unat (X ! 16 AND 1023)"
proof -
  have "drop 16 X = X ! 16 # drop 17 X" using Cons_nth_drop_Suc [of 16 X] assms by simp
  then have "drop 64 (mem_of X) = le32_bytes (X ! 16) @ mem_of (drop 17 X)"
    using mem_of_split(2) [of 16 X] by simp
  then have "integerify 1 (mem_of X) mod 1024 = (unat (X ! 16) + 4294967296 * le_val (mem_of (drop 17 X))) mod 1024"
    by (simp add: integerify_def le_val_append)
  also have "\<dots> = (unat (X ! 16) + 1024 * (4194304 * le_val (mem_of (drop 17 X)))) mod 1024" by (simp only: mult.assoc [symmetric]) simp
  also have "\<dots> = unat (X ! 16) mod 1024" by (simp only: mod_mult_self2)
  also have "\<dots> = unat (X ! 16 AND mask 10)" by (simp add: take_bit_eq_mod unat_mod_distrib flip: take_bit_eq_mask)
  finally show ?thesis by (simp add: mask_eq_exp_minus_1)
qed

lemma length_mix_run [simp]: "length X = 32 \<Longrightarrow> length ((mix_pair ^^ n) X) = 32"
  by (induction n) simp_all

lemma mem_of_mix_run: "length X = 32 \<Longrightarrow> mem_of ((mix_pair ^^ n) X) = (block_mix 1 ^^ n) (mem_of X)"
  by (induction n) (simp_all add: mix_pair_block_mix [unfolded One_nat_def])

lemma ro_mix_spec:
  assumes X: "length X = 32" and V: "32 * 1024 \<le> length V"
  shows "mem_of (let (V, X) = fold fill_two [0..<512] (V, X)
      in fold (\<lambda>_ X. mix_from V (mix_from V X)) [0..<512] X) = ro_mix 1 1024 (mem_of X)"
    and "length (let (V, X) = fold fill_two [0..<512] (V, X)
      in fold (\<lambda>_ X. mix_from V (mix_from V X)) [0..<512] X) = 32"
proof -
  obtain V' where V': "fold fill_one [0..<1024] (V, X) = (V', (mix_pair ^^ 1024) X)"
      and cell: "\<And>i. i < 1024 \<Longrightarrow> take 32 (drop (i * 32) V') = (mix_pair ^^ i) X"
    using fill_spec [OF X, of 1024 V] V by auto
  have fill: "fold fill_two [0..<512] (V, X) = (V', (mix_pair ^^ 1024) X)"
    using fold_fill_two [of 512 "(V, X)"] V' by simp
  let ?W = "map (\<lambda>i. (block_mix 1 ^^ i) (mem_of X)) [0..<1024]"
  let ?g = "\<lambda>B. block_mix 1 (map2 (XOR) B (?W ! (integerify 1 B mod 1024)))"
  have step: "mem_of (mix_from V' Y) = ?g (mem_of Y) \<and> length (mix_from V' Y) = 32" if Y: "length Y = 32" for Y
  proof -
    let ?j = "unat (Y ! 16 AND 1023)"
    have j: "?j = integerify 1 (mem_of Y) mod 1024" using integerify_word [OF Y] by simp
    then have "?j < 1024" by simp
    then have "?W ! ?j = mem_of (take 32 (drop (?j * 32) V'))" by (simp add: cell mem_of_mix_run [OF X])
    then show ?thesis
      unfolding mix_from_def Let_def j [symmetric] using Y cell [OF \<open>?j < 1024\<close>] X
      by (simp add: mix_pair_block_mix [unfolded One_nat_def] mem_of_xor)
  qed
  have run: "mem_of ((mix_from V' ^^ n) Y) = (?g ^^ n) (mem_of Y) \<and> length ((mix_from V' ^^ n) Y) = 32"
    if "length Y = 32" for n Y
    using that by (induction n) (simp_all add: step del: One_nat_def)
  have two: "fold (\<lambda>_ X. mix_from V' (mix_from V' X)) [0..<512] Y = (mix_from V' ^^ 1024) Y" for Y
  proof -
    have "((\<lambda>X. mix_from V' (mix_from V' X)) ^^ n) Y = (mix_from V' ^^ (2 * n)) Y" for n
      by (induction n) simp_all
    from this [of 512] show ?thesis unfolding fold_const_run by simp
  qed
  have "ro_mix 1 1024 (mem_of X) = (?g ^^ 1024) ((block_mix 1 ^^ 1024) (mem_of X))"
    unfolding ro_mix_def Let_def fold_const_run ..
  also have "\<dots> = mem_of ((mix_from V' ^^ 1024) ((mix_pair ^^ 1024) X))"
    using run [of "(mix_pair ^^ 1024) X" 1024] X by (simp only: mem_of_mix_run length_mix_run)
  finally show "mem_of (let (V, X) = fold fill_two [0..<512] (V, X)
      in fold (\<lambda>_ X. mix_from V (mix_from V X)) [0..<512] X) = ro_mix 1 1024 (mem_of X)"
    unfolding fill Let_def by (simp only: prod.case two)
  show "length (let (V, X) = fold fill_two [0..<512] (V, X)
      in fold (\<lambda>_ X. mix_from V (mix_from V X)) [0..<512] X) = 32"
    unfolding fill Let_def using run [of "(mix_pair ^^ 1024) X" 1024] X by (simp only: prod.case two length_mix_run)
qed

text \<open>Aligned within the memory allocated, the blocks fit.\<close>

lemma align64_val: "unat a + 63 < 2 ^ 64 \<Longrightarrow> unat (align64 a) = (unat a + 63) div 64 * 64"
proof -
  assume a: "unat a + 63 < 2 ^ 64"
  then have u: "unat (a + 63) = unat a + 63" by (subst unat_word_ariths) simp
  have "align64 a = (a + 63) AND NOT (mask 6)" by (simp add: align64_def mask_eq_exp_minus_1)
  also have "x AND NOT (mask 6) = push_bit 6 (drop_bit 6 x)" for x :: u64
    by (rule bit_word_eqI) (auto simp: bit_simps)
  finally have "align64 a = push_bit 6 (drop_bit 6 (a + 63))" .
  then have "unat (align64 a) = (unat (drop_bit 6 (a + 63)) * 64) mod 2 ^ 64"
    by (simp add: push_bit_eq_mult unat_word_ariths)
  moreover have "unat (drop_bit 6 (a + 63)) = (unat a + 63) div 64" by (simp add: unat_drop_bit_div u)
  moreover have "(unat a + 63) div 64 * 64 < 2 ^ 64" using a by (rule le_less_trans [OF div_times_less_eq_dividend])
  ultimately show ?thesis by simp
qed

lemma scratch_fits:
  assumes "unat a + SCRATCHBUF_SIZE < 2 ^ 64"
  shows "unat a \<le> unat (align64 a) \<and> unat (align64 a) + 4 * (32 * 1024) \<le> unat a + SCRATCHBUF_SIZE"
proof -
  have "unat (align64 a) = (unat a + 63) div 64 * 64" by (rule align64_val) (use assms in \<open>simp add: SCRATCHBUF_SIZE_def\<close>)
  moreover have "(unat a + 63) div 64 * 64 + (unat a + 63) mod 64 = unat a + 63" by (rule div_mult_mod_eq)
  moreover have "(unat a + 63) mod 64 < 64" by simp
  ultimately show ?thesis unfolding SCRATCHBUF_SIZE_def by linarith
qed

section \<open>Properties\<close>

lemma scrypt_rfc:
  assumes "length input = 20" and "32 * 1024 \<le> length V"
  shows "be_mem (scrypt_1024_1_1_256_sp input V) = rfc_scrypt (mem_of input) (mem_of input) 1024 1 1 32"
    and "length (scrypt_1024_1_1_256_sp input V) = 8"
proof -
  let ?X = "PBKDF2_SHA256_80_128 input"
  define Y where "Y = (let (V, X) = fold fill_two [0..<512] (V, ?X) in fold (\<lambda>_ X. mix_from V (mix_from V X)) [0..<512] X)"
  note X = PBKDF2_80_128 [OF assms(1)]
  note Y = ro_mix_spec [OF X(2) assms(2), folded Y_def]
  have code: "scrypt_1024_1_1_256_sp input V = PBKDF2_SHA256_80_128_32 input Y"
    by (simp add: scrypt_1024_1_1_256_sp_def Y_def Let_def split_def)
  show "length (scrypt_1024_1_1_256_sp input V) = 8"
    unfolding code by (rule PBKDF2_80_128_32 [OF assms(1) Y(2)])
  have "length (mem_of ?X) = 128" using X(2) by simp
  then have "take (128 * 1) (drop (128 * 1 * 0) (mem_of ?X)) = mem_of ?X" by simp
  then show "be_mem (scrypt_1024_1_1_256_sp input V) = rfc_scrypt (mem_of input) (mem_of input) 1024 1 1 32"
    unfolding code PBKDF2_80_128_32(1) [OF assms(1) Y(2)] rfc_scrypt_def Let_def Y(1) using X(1) by simp
qed

text \<open>C1: the specialised and unrolled computation is the scrypt function of RFC 7914 with its parameters 1024, 1 and 1, the 80
  bytes of the block header being both password and salt, whatever the scratch memory held before.\<close>

theorem scrypt_is_rfc7914:
  assumes "length input = 20" and "32 * 1024 \<le> length V"
  shows "be_mem (scrypt_1024_1_1_256_sp input V) = rfc_scrypt (mem_of input) (mem_of input) 1024 1 1 32"
  by (rule scrypt_rfc(1) [OF assms])

theorem scrypt_is_rfc7914_witness:
  "be_mem (scrypt_1024_1_1_256_sp (map of_nat [0..<20]) (replicate 32784 7)) =
     rfc_scrypt (mem_of (map of_nat [0..<20])) (mem_of (map of_nat [0..<20])) 1024 1 1 32"
  by (rule scrypt_is_rfc7914) simp_all

text \<open>Published values of the quarter round.\<close>

lemma quarterround_vectors:
  "quarterround (0, 0, 0, 0) = (0, 0, 0, 0)"
  "quarterround (1, 0, 0, 0) = (0x08008145, 0x00000080, 0x00010200, 0x20500000)"
  "quarterround (0xd3917c5b, 0x55f1c407, 0x52a58a7a, 0x8f887a3b) = (0x3e2f308c, 0xd90a8f36, 0x6ab2a923, 0x2883524c)"
  by code_simp+

end
