(* ===== verification/Nonces.thy ===== *)
theory Nonces
  imports Scrypt Shares Merkle
begin

text \<open>
  From a nonce to a share (cgminer.c, scrypt.c): putting the nonce into the header, hashing the header, the test of the hash, and
  what submitting a nonce does.  Which hash is computed depends on the board the program is built for; built for neither,
  \<open>test_nonce\<close> has no return statement.  Also the search for a nonce with scrypt in software.
\<close>

section \<open>Hashing the header of an item\<close>

datatype chip_def = CHIP_A5 | CHIP_A6

datatype nonce_err = Work work_err | NoReturnValue

definition workR :: "work_err + 'a \<Rightarrow> nonce_err + 'a" where
  "workR r = map_sum Work id r"

text \<open>The memory the hash functions find: the scratch memory, if it can be had, and the context on the stack.\<close>

record hash_env =
  he_scratch :: "u32 list option"
  he_stack :: sha256_ctx

text \<open>The words of the header, each with its bytes reversed, the nonce apart.\<close>

definition header_words :: "u8 list \<Rightarrow> u32 list" where
  "header_words pdata = be32enc_vect (replicate 20 0) (le_words (take 80 pdata)) 19"

definition scrypt_regenhash :: "u32 list option \<Rightarrow> 'a gwork_scheme \<Rightarrow> 'a gwork_scheme" where
  "scrypt_regenhash scratch w =
     (let data = header_words (w_data w); data = data[19 := htobe32 (le_words (take 80 (w_data w)) ! 19)]
      in case scratch of None \<Rightarrow> w
         | Some V \<Rightarrow> w\<lparr>w_hash := flip32 (mem_of (scrypt_1024_1_1_256_sp data V))\<rparr>)"

definition regen_hash :: "sha256_ctx \<Rightarrow> 'a gwork_scheme \<Rightarrow> 'a gwork_scheme" where
  "regen_hash stack w =
     (let swap = flip80 (w_data w); hash1 = sha256 stack swap in w\<lparr>w_hash := sha256 stack hash1\<rparr>)"

definition rebuild_nonce :: "chip_def option \<Rightarrow> hash_env \<Rightarrow> 'a gwork_scheme \<Rightarrow> u32 \<Rightarrow> 'a gwork_scheme" where
  "rebuild_nonce chip e w nonce =
     (let w = w\<lparr>w_data := mem_write 76 (le32_bytes nonce) (w_data w)\<rparr>
      in case chip of None \<Rightarrow> w
         | Some CHIP_A6 \<Rightarrow> scrypt_regenhash (he_scratch e) w
         | Some CHIP_A5 \<Rightarrow> regen_hash (he_stack e) w)"

definition test_nonce :: "chip_def option \<Rightarrow> hash_env \<Rightarrow> 'a gwork_scheme \<Rightarrow> u32 \<Rightarrow> nonce_err + (bool \<times> 'a gwork_scheme)" where
  "test_nonce chip e w nonce =
     (case chip of None \<Rightarrow> Inl NoReturnValue
      | Some CHIP_A6 \<Rightarrow> let w = rebuild_nonce chip e w nonce in Inr (le_val (take 2 (drop 30 (w_hash w))) = 0, w)
      | Some CHIP_A5 \<Rightarrow> let w = rebuild_nonce chip e w nonce in Inr (le_val (take 4 (drop 28 (w_hash w))) = 0, w))"

text \<open>\<open>quot\<close> is the quotient of \<open>0xffff0000\<close> and the difficulty, a floating-point division.\<close>

definition test_nonce_diff ::
  "chip_def option \<Rightarrow> hash_env \<Rightarrow> ('d \<Rightarrow> u64) \<Rightarrow> 'a gwork_scheme \<Rightarrow> u32 \<Rightarrow> 'd \<Rightarrow> bool \<times> 'a gwork_scheme" where
  "test_nonce_diff chip e quot w nonce diff =
     (let w = rebuild_nonce chip e w nonce in (le_val (take 8 (drop 24 (w_hash w))) \<le> unat (quot diff), w))"

section \<open>Submitting a nonce\<close>

record nonce_dev =
  dv_last_nonce :: u32
  dv_hw_errors :: int
  total_hw_errors :: int

definition new_nonce :: "nonce_dev \<Rightarrow> u32 \<Rightarrow> bool \<times> nonce_dev" where
  "new_nonce d nonce = (if dv_last_nonce d = nonce then (False, d) else (True, d\<lparr>dv_last_nonce := nonce\<rparr>))"

definition inc_hw_errors :: "nonce_dev \<Rightarrow> nonce_dev" where
  "inc_hw_errors d = d\<lparr>total_hw_errors := total_hw_errors d + 1, dv_hw_errors := dv_hw_errors d + 1\<rparr>"

record nonce_env =
  ne_chip :: "chip_def option"
  ne_hash :: hash_env
  ne_cfg :: cfg
  ne_diff :: "u8 list \<Rightarrow> rat"

definition submit_nonce :: "nonce_env \<Rightarrow> nonce_dev \<Rightarrow> mem \<Rightarrow> int \<Rightarrow> u32 \<Rightarrow> nonce_err + (bool \<times> nonce_dev \<times> mem)" where
  "submit_nonce e d s p nonce =
     (case new_nonce d nonce of (fresh, d) \<Rightarrow>
        if \<not> fresh then Inr (False, inc_hw_errors d, s)
        else bindR (workR (at_work s p)) (\<lambda>w.
          bindR (test_nonce (ne_chip e) (ne_hash e) w nonce) (\<lambda>(ok, w).
          let s = put_work s p w
          in if ok then bindR (workR (submit_tested_work (ne_cfg e) (ne_diff e) s p)) (\<lambda>s. Inr (True, d, s))
             else Inr (False, inc_hw_errors d, s))))"

definition submit_noffset_nonce ::
  "nonce_env \<Rightarrow> nonce_dev \<Rightarrow> mem \<Rightarrow> int \<Rightarrow> u32 \<Rightarrow> int \<Rightarrow> nonce_err + (bool \<times> nonce_dev \<times> mem)" where
  "submit_noffset_nonce e d s work_in nonce noffset =
     bindR (workR (copy_work_noffset s work_in noffset)) (\<lambda>(p, s).
     bindR (workR (at_work s p)) (\<lambda>w.
     bindR (test_nonce (ne_chip e) (ne_hash e) w nonce) (\<lambda>(ok, w).
     let s = put_work s p w
     in if \<not> ok then bindR (workR (free_work s (Some p))) (\<lambda>s. Inr (False, inc_hw_errors d, s))
        else bindR (workR (update_work_stats (ne_cfg e) (ne_diff e) s p)) (\<lambda>s.
          if \<not> fulltest (w_hash w) (w_target w) then bindR (workR (free_work s (Some p))) (\<lambda>s. Inr (True, d, s))
          else bindR (workR (submit_work_async (ne_cfg e) s p)) (\<lambda>s. Inr (True, d, s))))))"

section \<open>Searching in software\<close>

text \<open>The top word of a hash, as the tests of scrypt.c read it, for a value of the nonce.\<close>

definition hash7 :: "u32 list \<Rightarrow> u32 list \<Rightarrow> u32 \<Rightarrow> u32" where
  "hash7 data V nonce = htobe32 (scrypt_1024_1_1_256_sp (data[19 := htobe32 nonce]) V ! 7)"

definition diff1targ :: u32 where
  "diff1targ = 0x0000ffff"

definition scrypt_test :: "u32 list \<Rightarrow> u8 list \<Rightarrow> u8 list \<Rightarrow> u32 \<Rightarrow> int" where
  "scrypt_test V pdata ptarget nonce =
     (let Htarg = le32_at ptarget 7; tmp_hash7 = hash7 (header_words pdata) V nonce
      in if tmp_hash7 > diff1targ then -1 else if tmp_hash7 > Htarg then 0 else 1)"

text \<open>
  What the loop finds each time: the scratch memory as the hash before left it, and the request to restart.
\<close>

record scan_env =
  sn_scratch :: "nat \<Rightarrow> u32 list"
  sn_restart :: "nat \<Rightarrow> bool"

definition scan_left :: "u32 \<Rightarrow> u32 \<Rightarrow> nat" where
  "scan_left max_nonce n = (if n < max_nonce then unat max_nonce - unat n else 2 ^ 32)"

lemma scan_left_less:
  assumes "n + 1 < max_nonce"
  shows "scan_left max_nonce (n + 1) < scan_left max_nonce n"
proof -
  have m: "unat max_nonce < 2 ^ 32" using unat_lt_size [of max_nonce] by simp
  show ?thesis
  proof (cases "n < max_nonce")
    case True
    then have "unat n < unat max_nonce" by (simp add: word_less_nat_alt)
    with m have "unat (n + 1) = unat n + 1" by (subst unat_word_ariths) simp
    with assms True show ?thesis by (simp add: scan_left_def word_less_nat_alt)
  next
    case False
    then show ?thesis using assms m by (simp add: scan_left_def)
  qed
qed

function scan_loop :: "scan_env \<Rightarrow> u32 list \<Rightarrow> u32 \<Rightarrow> u32 \<Rightarrow> u32 \<Rightarrow> nat \<Rightarrow> u8 list \<Rightarrow> bool \<times> u32 \<times> u8 list" where
  "scan_loop e data Htarg max_nonce n k pdata =
     (let n = n + 1; pdata = mem_write 76 (le32_bytes n) pdata;
          tmp_hash7 = hash7 data (sn_scratch e k) n
      in if tmp_hash7 \<le> Htarg then (True, n, mem_write 76 (be32_bytes n) pdata)
         else if max_nonce \<le> n \<or> sn_restart e k then (False, n, pdata)
         else scan_loop e data Htarg max_nonce n (k + 1) pdata)"
  by pat_completeness auto

termination
  by (relation "measure (\<lambda>(_, _, _, max_nonce, n, _, _). scan_left max_nonce n)") (auto intro: scan_left_less)

declare scan_loop.simps [simp del]

text \<open>The result, the last nonce tried, and the header; without memory nothing is tried.\<close>

definition scanhash_scrypt ::
  "scan_env option \<Rightarrow> u8 list \<Rightarrow> u8 list \<Rightarrow> u32 \<Rightarrow> u32 \<Rightarrow> bool \<times> u32 option \<times> u8 list" where
  "scanhash_scrypt alloc pdata ptarget max_nonce n =
     (case alloc of None \<Rightarrow> (False, None, pdata)
      | Some e \<Rightarrow>
          (case scan_loop e (header_words pdata) (le32_at ptarget 7) max_nonce n 0 pdata of
             (ret, last_nonce, pdata) \<Rightarrow> (ret, Some last_nonce, pdata)))"

section \<open>The header and its hash\<close>

lemma flip_words_le: "be_mem (le_words x) = flip_words x"
  by (induction x rule: le_words.induct) (simp_all add: flip_words_def be32_inject_bytes)

lemma le_words_append: "length x = 4 * n \<Longrightarrow> le_words (x @ y) = le_words x @ le_words y"
proof (induction n arbitrary: x)
  case (Suc n)
  then obtain a b c d r where "x = a # b # c # d # r" by (cases x rule: words_of.cases) auto
  with Suc show ?case by simp
qed simp

lemma length_le_words: "length x = 4 * n \<Longrightarrow> length (le_words x) = n"
proof (induction n arbitrary: x)
  case (Suc n)
  then obtain a b c d r where "x = a # b # c # d # r" by (cases x rule: words_of.cases) auto
  with Suc show ?case by simp
qed simp

lemma flip32_mem_of: "length ws = 8 \<Longrightarrow> flip32 (mem_of ws) = be_mem ws"
  by (simp add: flip_words_eqs flip: flip_words_le)

lemma header_words_split:
  assumes "80 \<le> length d"
  shows "header_words d = map htobe32 (le_words (take 76 d)) @ [0]" and "length (header_words d) = 20"
    and "le_words (take 80 d) = le_words (take 76 d) @ le_words (take 4 (drop 76 d))"
proof -
  have "take 80 d = take 76 d @ take 4 (drop 76 d)" using take_add [of 76 4 d] by simp
  then show w: "le_words (take 80 d) = le_words (take 76 d) @ le_words (take 4 (drop 76 d))"
    using le_words_append [of "take 76 d" 19] assms by simp
  have n: "length (le_words (take 76 d)) = 19" using length_le_words [of "take 76 d" 19] assms by simp
  show "header_words d = map htobe32 (le_words (take 76 d)) @ [0]"
    unfolding header_words_def be32enc_vect_def w using n by (simp add: mem_write_def numeral_eq_Suc)
  with n show "length (header_words d) = 20" by simp
qed

lemma header_words_all:
  assumes "80 \<le> length d"
  shows "(header_words d)[19 := htobe32 (le_words (take 80 d) ! 19)] = map htobe32 (le_words (take 80 d))"
proof -
  have n: "length (le_words (take 76 d)) = 19" using length_le_words [of "take 76 d" 19] assms by simp
  have "length (le_words (take 4 (drop 76 d))) = 1" using length_le_words [of "take 4 (drop 76 d)" 1] assms by simp
  then obtain x where "le_words (take 4 (drop 76 d)) = [x]" by (auto simp: length_Suc_conv)
  then show ?thesis
    unfolding header_words_split [OF assms] using n by (simp add: list_update_append nth_append)
qed

text \<open>The header with a nonce in it, in the order of the protocol.\<close>

definition nonce_header :: "u32 \<Rightarrow> u8 list \<Rightarrow> u8 list" where
  "nonce_header nonce d = flip80 (mem_write 76 (le32_bytes nonce) d)"

lemma header_words_nonce:
  assumes "80 \<le> length d"
  shows "mem_of ((header_words d)[19 := htobe32 nonce]) = nonce_header nonce d"
    and "length ((header_words d)[19 := htobe32 nonce]) = 20"
proof -
  let ?d = "mem_write 76 (le32_bytes nonce) d"
  have l: "80 \<le> length ?d" using assms by simp
  have t: "take 76 ?d = take 76 d" "take 4 (drop 76 ?d) = le32_bytes nonce"
    using assms by (simp_all add: mem_write_def)
  have "le_words (le32_bytes nonce) = [nonce]" using le_words_mem_of [of "[nonce]"] by simp
  moreover have "length (le_words (take 76 d)) = 19" using length_le_words [of "take 76 d" 19] assms by simp
  ultimately have n: "le_words (take 80 ?d) ! 19 = nonce" unfolding header_words_split(3) [OF l] t by (simp add: nth_append)
  have same: "header_words d = header_words ?d" unfolding header_words_split(1) [OF l] header_words_split(1) [OF assms] t ..
  show "mem_of ((header_words d)[19 := htobe32 nonce]) = nonce_header nonce d"
    unfolding same using header_words_all [OF l] unfolding n by (simp add: nonce_header_def flip_words_eqs flip_words_le mem_of_htobe32)
  show "length ((header_words d)[19 := htobe32 nonce]) = 20" by (simp add: header_words_split(2) [OF assms])
qed

text \<open>The proof of work of the two boards, and the bits the simple test leaves open.\<close>

definition scrypt_hash :: "u8 list \<Rightarrow> u8 list" where
  "scrypt_hash hdr = rfc_scrypt hdr hdr 1024 1 1 32"

fun pow_hash :: "chip_def \<Rightarrow> u8 list \<Rightarrow> u8 list" where
  "pow_hash CHIP_A6 hdr = scrypt_hash hdr"
| "pow_hash CHIP_A5 hdr = dsha hdr"

fun pow_bits :: "chip_def \<Rightarrow> nat" where
  "pow_bits CHIP_A6 = 240"
| "pow_bits CHIP_A5 = 224"

definition hash_env_ok :: "hash_env \<Rightarrow> bool" where
  "hash_env_ok e \<longleftrightarrow> (\<exists>V. he_scratch e = Some V \<and> 32 * 1024 \<le> length V) \<and> length (ctx_block (he_stack e)) = 128"

lemma le_val_zero_high: "le_val (drop k h) = 0 \<longleftrightarrow> le_val h < 256 ^ k" if "k \<le> length h"
proof -
  have "le_val h = le_val (take k h) + 256 ^ k * le_val (drop k h)"
    using le_val_append [of "take k h" "drop k h"] that by (simp add: min_absorb2)
  moreover have "le_val (take k h) < 256 ^ k" using le_val_less [of "take k h"] that by (simp add: min_absorb2)
  ultimately show ?thesis by (cases "le_val (drop k h)") auto
qed

lemma length_nonce_header: "80 \<le> length d \<Longrightarrow> length (nonce_header nonce d) = 80"
  using flip_words_length [of "take 80 (mem_write 76 (le32_bytes nonce) d)" 20]
  by (simp add: nonce_header_def flip_words_eqs)

lemma pow_hash_length:
  assumes "length hdr = 80"
  shows "length (pow_hash chip hdr) = 32"
proof (cases chip)
  case CHIP_A6
  have "length (pbkdf2 P S 1 32) = 32" for P S
  proof -
    have "[1..<(32 + 31) div 32 + 1] = [1 :: nat]" by (simp add: upt_rec)
    then show ?thesis unfolding pbkdf2_def by (simp add: pbkdf2_F_def hmac_sha256_def)
  qed
  then show ?thesis by (simp add: CHIP_A6 scrypt_hash_def rfc_scrypt_def Let_def)
qed (simp add: dsha_def)

lemma rebuild_nonce_spec:
  assumes "hash_env_ok e" and "80 \<le> length (w_data w)"
  shows "rebuild_nonce (Some chip) e w nonce =
    w\<lparr>w_data := mem_write 76 (le32_bytes nonce) (w_data w), w_hash := pow_hash chip (nonce_header nonce (w_data w))\<rparr>"
proof (cases chip)
  case CHIP_A6
  obtain V where V: "he_scratch e = Some V" "32 * 1024 \<le> length V" using assms(1) by (auto simp: hash_env_ok_def)
  let ?d = "mem_write 76 (le32_bytes nonce) (w_data w)"
  have d: "80 \<le> length ?d" using assms(2) by simp
  let ?i = "(header_words ?d)[19 := htobe32 (le_words (take 80 ?d) ! 19)]"
  have i: "length ?i = 20" by (simp add: header_words_split(2) [OF d])
  have m: "mem_of ?i = nonce_header nonce (w_data w)"
    unfolding header_words_all [OF d] by (simp add: nonce_header_def flip_words_eqs flip_words_le mem_of_htobe32)
  have "flip32 (mem_of (scrypt_1024_1_1_256_sp ?i V)) = scrypt_hash (nonce_header nonce (w_data w))"
    unfolding flip32_mem_of [OF scrypt_rfc(2) [OF i V(2)]] scrypt_rfc(1) [OF i V(2)] m scrypt_hash_def ..
  then show ?thesis using V(1) by (simp add: CHIP_A6 rebuild_nonce_def scrypt_regenhash_def Let_def)
next
  case CHIP_A5
  have "length (ctx_block (he_stack e)) = 128" using assms(1) by (simp add: hash_env_ok_def)
  note sha = sha256_fips [OF this]
  show ?thesis
    using length_nonce_header [OF assms(2), of nonce]
    by (simp add: CHIP_A5 rebuild_nonce_def regen_hash_def Let_def sha dsha_def flip: nonce_header_def)
qed

lemma test_nonce_spec:
  assumes "hash_env_ok e" and "80 \<le> length (w_data w)"
  shows "test_nonce (Some chip) e w nonce =
    Inr (le_val (pow_hash chip (nonce_header nonce (w_data w))) < 2 ^ pow_bits chip,
      w\<lparr>w_data := mem_write 76 (le32_bytes nonce) (w_data w), w_hash := pow_hash chip (nonce_header nonce (w_data w))\<rparr>)"
proof -
  let ?h = "pow_hash chip (nonce_header nonce (w_data w))"
  have l: "length ?h = 32" by (rule pow_hash_length [OF length_nonce_header [OF assms(2)]])
  have "256 ^ 30 = (2 :: nat) ^ 240" "256 ^ 28 = (2 :: nat) ^ 224" by simp_all
  then have "le_val (take 2 (drop 30 ?h)) = 0 \<longleftrightarrow> le_val ?h < 2 ^ 240" "le_val (take 4 (drop 28 ?h)) = 0 \<longleftrightarrow> le_val ?h < 2 ^ 224"
    using le_val_zero_high [of 30 ?h] le_val_zero_high [of 28 ?h] l by simp_all
  then show ?thesis
    by (cases chip) (simp_all add: test_nonce_def Let_def rebuild_nonce_spec [OF assms] del: pow_hash.simps)
qed

section \<open>The search\<close>

definition scan_env_ok :: "scan_env \<Rightarrow> bool" where
  "scan_env_ok e \<longleftrightarrow> (\<forall>k. 32 * 1024 \<le> length (sn_scratch e k))"

lemma drop_28_be_mem: "length ws = 8 \<Longrightarrow> drop 28 (be_mem ws) = be32_bytes (ws ! 7)"
  using drop_be_mem [of 7 ws] by (simp flip: Cons_nth_drop_Suc)

lemma hash7_spec:
  assumes "80 \<le> length d" and "32 * 1024 \<le> length V"
  shows "unat (hash7 (header_words d) V nonce) = le_val (scrypt_hash (nonce_header nonce d)) div 2 ^ 224"
proof -
  let ?o = "scrypt_1024_1_1_256_sp ((header_words d)[19 := htobe32 nonce]) V"
  have rfc: "be_mem ?o = scrypt_hash (nonce_header nonce d)" "length ?o = 8"
    using scrypt_rfc [OF header_words_nonce(2) [OF assms(1)] assms(2)] unfolding header_words_nonce(1) [OF assms(1)]
    by (simp_all add: scrypt_hash_def)
  have "le_val (drop 28 (be_mem ?o)) = unat (hash7 (header_words d) V nonce)"
    unfolding drop_28_be_mem [OF rfc(2)] hash7_def by (simp flip: le_bytes_htobe32)
  moreover have "le_val (be_mem ?o) = le_val (take 28 (be_mem ?o)) + 256 ^ 28 * le_val (drop 28 (be_mem ?o))"
    using le_val_append [of "take 28 (be_mem ?o)" "drop 28 (be_mem ?o)"] rfc(2) by (simp add: min_absorb2)
  moreover have "le_val (take 28 (be_mem ?o)) < 256 ^ 28" using le_val_less [of "take 28 (be_mem ?o)"] rfc(2) by (simp add: min_absorb2)
  moreover have "256 ^ 28 = (2 :: nat) ^ 224" by simp
  ultimately show ?thesis unfolding rfc(1) by simp
qed

text \<open>The top word of the hash of a header, the nonce in it.\<close>

definition top_word :: "u8 list \<Rightarrow> u32 \<Rightarrow> nat" where
  "top_word d nonce = le_val (scrypt_hash (nonce_header nonce d)) div 2 ^ 224"

lemma mem_write_again: "length xs = length ys \<Longrightarrow> off + length xs \<le> length d \<Longrightarrow>
    mem_write off ys (mem_write off xs d) = mem_write off ys d"
  by (simp add: mem_write_def)

text \<open>
  A search after the number \<open>from\<close> ends at the first nonce whose top word is small enough, or at \<open>mx\<close>; a nonce found is
  left in the header with its bytes reversed.
\<close>

definition first_found :: "u8 list \<Rightarrow> u32 \<Rightarrow> u32 \<Rightarrow> nat \<Rightarrow> bool \<times> u32 \<times> u8 list \<Rightarrow> bool" where
  "first_found d Htarg mx from r = (case r of (ret, m, p') \<Rightarrow>
    from < unat m \<and> unat m \<le> unat mx \<and> (\<forall>j. from < j \<and> j < unat m \<longrightarrow> unat Htarg < top_word d (word_of_nat j)) \<and>
    (ret \<longleftrightarrow> top_word d m \<le> unat Htarg) \<and> (\<not> ret \<longrightarrow> m = mx) \<and>
    p' = mem_write 76 ((if ret then be32_bytes else le32_bytes) m) d)"

lemma first_found_step:
  assumes "first_found d Htarg mx (Suc from) r" and "unat Htarg < top_word d (word_of_nat (Suc from))"
  shows "first_found d Htarg mx from r"
proof (cases r)
  case (fields ret m p')
  have "unat Htarg < top_word d (word_of_nat j)" if j: "from < j" "j < unat m" for j
  proof (cases "j = Suc from")
    case True
    show ?thesis unfolding True by (rule assms(2))
  next
    case False
    with j assms(1) show ?thesis unfolding fields first_found_def by simp
  qed
  with assms(1) show ?thesis unfolding fields first_found_def by (simp del: of_nat_Suc)
qed

lemma scan_loop_spec:
  assumes "scan_env_ok e" and "\<forall>k. \<not> sn_restart e k" and "80 \<le> length d" and "unat n < unat max_nonce" and "length p = length d"
    and "take 76 p = take 76 d" and "drop 80 p = drop 80 d"
  shows "first_found d Htarg max_nonce (unat n) (scan_loop e (header_words d) Htarg max_nonce n k p)"
  using assms(4-7)
proof (induction "unat max_nonce - unat n" arbitrary: n k p rule: less_induct)
  case less
  let ?n = "n + 1" and ?p = "mem_write 76 (le32_bytes (n + 1)) p"
  have un: "unat ?n = unat n + 1"
    using less.prems(1) unat_lt_size [of max_nonce] by (subst unat_word_ariths) simp
  have wr: "mem_write 76 xs p = mem_write 76 xs d" if "length xs = 4" for xs :: "u8 list"
    using less.prems that by (simp add: mem_write_def)
  have h7: "hash7 (header_words d) (sn_scratch e k) ?n \<le> Htarg \<longleftrightarrow> top_word d ?n \<le> unat Htarg"
    unfolding word_le_nat_alt top_word_def using assms(1)
    by (subst hash7_spec [OF assms(3)]) (simp_all add: scan_env_ok_def)
  show ?case
  proof (cases "top_word d ?n \<le> unat Htarg")
    case True
    then have "scan_loop e (header_words d) Htarg max_nonce n k p = (True, ?n, mem_write 76 (be32_bytes ?n) d)"
      using h7 assms(3) less.prems by (simp add: scan_loop.simps [of _ _ _ _ n] Let_def mem_write_again wr)
    with True show ?thesis using un less.prems(1) by (simp add: first_found_def)
  next
    case no: False
    show ?thesis
    proof (cases "unat max_nonce \<le> unat n + 1")
      case True
      then have m: "?n = max_nonce" using less.prems(1) un by (simp add: word_unat_eq_iff)
      have "scan_loop e (header_words d) Htarg max_nonce n k p = (False, ?n, mem_write 76 (le32_bytes ?n) d)"
        using h7 no assms(2) m by (simp add: scan_loop.simps [of _ _ _ _ n] Let_def wr)
      with no show ?thesis using un less.prems(1) m by (simp add: first_found_def)
    next
      case False
      then have lt: "unat ?n < unat max_nonce" unfolding un by simp
      have "scan_loop e (header_words d) Htarg max_nonce n k p =
          scan_loop e (header_words d) Htarg max_nonce ?n (k + 1) ?p"
        using h7 no assms(2) lt
        by (subst scan_loop.simps) (simp add: Let_def word_le_nat_alt)
      moreover have "first_found d Htarg max_nonce (unat ?n) (scan_loop e (header_words d) Htarg max_nonce ?n (k + 1) ?p)"
      proof (rule less.hyps)
        show "unat max_nonce - unat ?n < unat max_nonce - unat n" unfolding un using less.prems(1) by simp
        show "unat ?n < unat max_nonce" by (rule lt)
        show "length ?p = length d" "take 76 ?p = take 76 d" "drop 80 ?p = drop 80 d"
          using less.prems assms(3) by (simp_all add: mem_write_def)
      qed
      moreover have "word_of_nat (Suc (unat n)) = ?n" by simp
      ultimately show ?thesis
        using no first_found_step [of d Htarg max_nonce "unat n"] un by (simp add: add.commute)
    qed
  qed
qed

section \<open>Properties\<close>


definition demo_nonce_env :: nonce_env where
  "demo_nonce_env = \<lparr>ne_chip = Some CHIP_A6, ne_hash = \<lparr>he_scratch = Some (replicate 32768 1), he_stack = wit_stack\<rparr>,
     ne_cfg = demo_cfg, ne_diff = (\<lambda>_. 0)\<rparr>"


text \<open>C35: The search in software always ends.  Asked to start after \<open>n\<close> below \<open>max_nonce\<close> and not told to restart, it finds the first
  nonce up to \<open>max_nonce\<close> whose scrypt hash has a top word not above the target's, and says so; the test of one nonce tells a hash
  below difficulty 1, one above the target and a share apart.  A nonce found is left in the header with its bytes reversed.\<close>

theorem scanhash_finds_first:
  assumes "scan_env_ok e" and "\<forall>k. \<not> sn_restart e k" and "80 \<le> length pdata" and "unat n < unat max_nonce"
  shows "(\<exists>ret m p'. scanhash_scrypt (Some e) pdata ptarget max_nonce n = (ret, Some m, p') \<and>
      first_found pdata (le32_at ptarget 7) max_nonce (unat n) (ret, m, p')) \<and>
    scrypt_test (sn_scratch e 0) pdata ptarget n =
      (if 0xffff < top_word pdata n then -1 else if unat (le32_at ptarget 7) < top_word pdata n then 0 else 1)"
proof
  obtain ret m p' where r: "scan_loop e (header_words pdata) (le32_at ptarget 7) max_nonce n 0 pdata = (ret, m, p')"
    by (metis prod_cases3)
  have "first_found pdata (le32_at ptarget 7) max_nonce (unat n) (ret, m, p')"
    using scan_loop_spec [OF assms(1-4) refl refl refl, of "le32_at ptarget 7" 0] unfolding r .
  then show "\<exists>ret m p'. scanhash_scrypt (Some e) pdata ptarget max_nonce n = (ret, Some m, p') \<and>
      first_found pdata (le32_at ptarget 7) max_nonce (unat n) (ret, m, p')"
    by (auto simp: scanhash_scrypt_def r)
  have "32 * 1024 \<le> length (sn_scratch e 0)" using assms(1) by (simp add: scan_env_ok_def)
  from hash7_spec [OF assms(3) this, of n] have "unat (hash7 (header_words pdata) (sn_scratch e 0) n) = top_word pdata n"
    unfolding top_word_def .
  moreover have "unat diff1targ = 0xffff" by (simp add: diff1targ_def)
  ultimately show "scrypt_test (sn_scratch e 0) pdata ptarget n =
      (if 0xffff < top_word pdata n then -1 else if unat (le32_at ptarget 7) < top_word pdata n then 0 else 1)"
    by (simp add: scrypt_test_def Let_def word_less_nat_alt)
qed

theorem scanhash_finds_first_witness:
  "\<exists>ret m p'. scanhash_scrypt (Some \<lparr>sn_scratch = (\<lambda>_. replicate 32768 0), sn_restart = (\<lambda>_. False)\<rparr>)
      (replicate 80 1) (replicate 32 0xff) 9 3 = (ret, Some m, p') \<and> 3 < unat m \<and> unat m \<le> 9"
proof -
  let ?e = "\<lparr>sn_scratch = (\<lambda>_. replicate 32768 0), sn_restart = (\<lambda>_. False)\<rparr>"
  have "scan_env_ok ?e" by (simp add: scan_env_ok_def)
  from scanhash_finds_first [OF this, of "replicate 80 1" 3 9 "replicate 32 0xff"] show ?thesis
    by (auto simp: first_found_def)
qed

end
