(* ===== verification/Net.thy ===== *)
theory Net
  imports Stratum
begin

text \<open>
  The connection of a stratum pool (util.c): reading lines from the socket, taking an address apart, the request to
  reconnect elsewhere, the messages of the pool, subscribing and authorising.  The socket does not block: it is a sequence of
  events, what each \<open>recv\<close> gets with the whole seconds waited until then, and nothing comes after the last one.  Whether sending
  works, and reading JSON text, are arguments.
\<close>

section \<open>State\<close>

text \<open>
  \<open>Got\<close> are bytes; \<open>Retry\<close> is an error after which more became readable in time, \<open>Timeout\<close> one after which
  nothing did (and what \<open>select\<close> reports), \<open>Broken\<close> any other error, \<open>Closed\<close> the end of the connection.
\<close>

datatype recv_event = Got "u8 list" int | Retry int | Timeout | Broken | Closed

record conn =
  cn_pool :: npool
  cn_sockaddr_url :: cstr
  cn_stratum_url :: "cstr option"
  cn_stratum_port :: "cstr option"
  cn_active :: bool
  cn_notify :: bool
  cn_sock :: bool
  cn_sockbuf :: cstr
  cn_sockbuf_size :: nat
  cn_events :: "recv_event list"
  cn_times_received :: int
  cn_bytes_received :: int
  cn_sent :: "cstr list"
  cn_swork_id :: u32
  cn_probed :: bool

definition RBUFSIZE :: nat where
  "RBUFSIZE = 8192"

definition DEFAULT_SOCKWAIT :: int where
  "DEFAULT_SOCKWAIT = 60"

definition clear_sockbuf :: "conn \<Rightarrow> conn" where
  "clear_sockbuf c = c\<lparr>cn_sockbuf := []\<rparr>"

definition suspend_stratum :: "conn \<Rightarrow> conn" where
  "suspend_stratum c = (clear_sockbuf c)\<lparr>cn_active := False, cn_notify := False, cn_sock := False\<rparr>"

section \<open>Lines\<close>

text \<open>The size of the buffer always exceeds what it holds.\<close>

definition recalloc_sock :: "nat \<Rightarrow> conn \<Rightarrow> conn" where
  "recalloc_sock len c =
     (let old = length (cn_sockbuf c); new = old + len + 1
      in if new < cn_sockbuf_size c then c else c\<lparr>cn_sockbuf_size := new + (RBUFSIZE - new mod RBUFSIZE)\<rparr>)"

text \<open>Whether a \<open>select\<close> finds the socket readable.\<close>

definition socket_full :: "conn \<Rightarrow> bool \<times> conn" where
  "socket_full c = (case cn_events c of [] \<Rightarrow> (False, c)
     | Timeout # evs \<Rightarrow> (False, c\<lparr>cn_events := evs\<rparr>)
     | _ \<Rightarrow> (True, c))"

text \<open>Reading until there is a line, the time is up or the connection fails; a NUL hides the rest of what was read.\<close>

fun recv_loop :: "recv_event list \<Rightarrow> conn \<Rightarrow> conn" where
  "recv_loop (Got bs waited # evs) c =
     (let s = cstr_of bs; c = recalloc_sock (length s) c; c = c\<lparr>cn_sockbuf := cn_sockbuf c @ s\<rparr>
      in if waited < DEFAULT_SOCKWAIT \<and> 10 \<notin> set (cn_sockbuf c) then recv_loop evs c
      else c\<lparr>cn_events := evs\<rparr>)"
| "recv_loop (Retry waited # evs) c =
     (if waited < DEFAULT_SOCKWAIT \<and> 10 \<notin> set (cn_sockbuf c) then recv_loop evs c
      else c\<lparr>cn_events := evs\<rparr>)"
| "recv_loop (_ # evs) c = (suspend_stratum c)\<lparr>cn_events := evs\<rparr>"
| "recv_loop [] c = (suspend_stratum c)\<lparr>cn_events := []\<rparr>"

text \<open>Reading away what is there.\<close>

definition clear_sock :: "conn \<Rightarrow> conn" where
  "clear_sock c =
     (let evs = (if cn_sock c then dropWhile (\<lambda>ev. case ev of Got _ _ \<Rightarrow> True | _ \<Rightarrow> False) (cn_events c) else cn_events c)
      in clear_sockbuf (c\<lparr>cn_events := evs\<rparr>))"

text \<open>
  \<open>strtok\<close> skips the line ends in front of the first token and overwrites the one behind it; the rest is moved
  down by the length of the token and one more.
\<close>

definition next_token :: "cstr \<Rightarrow> (cstr \<times> cstr) option" where
  "next_token buf =
     (let lead = takeWhile (\<lambda>b. b = 10) buf; tok = takeWhile (\<lambda>b. b \<noteq> 10) (drop (length lead) buf);
          mem = (buf @ [0])[length lead + length tok := 0]
      in if tok = [] then None
      else Some (tok, if length tok + 1 < length buf then cstr_of (drop (length tok + 1) mem) else []))"

definition parse_line :: "conn \<Rightarrow> cstr option \<times> conn" where
  "parse_line c = (case next_token (cn_sockbuf c) of None \<Rightarrow> (None, clear_sock c)
     | Some (tok, rest) \<Rightarrow> (Some tok, c\<lparr>cn_sockbuf := rest, cn_times_received := cn_times_received c + 1,
         cn_bytes_received := cn_bytes_received c + int (length tok)\<rparr>))"

definition recv_line :: "conn \<Rightarrow> cstr option \<times> conn" where
  "recv_line c =
     (if 10 \<in> set (cn_sockbuf c) then parse_line c
      else (case socket_full c of (ready, c) \<Rightarrow>
        if \<not> ready then (None, clear_sock c) else parse_line (recv_loop (cn_events c) c)))"

section \<open>Addresses\<close>

text \<open>Where a string begins in another.\<close>

fun strstr :: "cstr \<Rightarrow> cstr \<Rightarrow> nat option" where
  "strstr [] needle = (if needle = [] then Some 0 else None)"
| "strstr (b # s) needle = (if take (length needle) (b # s) = needle then Some 0 else map_option Suc (strstr s needle))"

definition strchr :: "cstr \<Rightarrow> u8 \<Rightarrow> cstr option" where
  "strchr s ch = map_option (\<lambda>i. drop i s) (strstr s [ch])"

text \<open>The host and the port of an address: nothing before a double slash counts, and colons in brackets are part of the host.\<close>

definition extract_sockaddr :: "cstr \<Rightarrow> (cstr \<times> cstr) option" where
  "extract_sockaddr url =
     (let url_begin = (case strstr url (bytes_of ''//'') of None \<Rightarrow> url | Some i \<Rightarrow> drop (i + 2) url);
          ipv6 = (case (strstr url_begin (bytes_of ''[''), strstr url_begin (bytes_of '']'')) of
                    (Some b, Some e) \<Rightarrow> if b < e then Some e else None | _ \<Rightarrow> None);
          url_end = (case ipv6 of Some e \<Rightarrow> map_option (\<lambda>i. e + i) (strstr (drop e url_begin) (bytes_of '':''))
                     | None \<Rightarrow> strstr url_begin (bytes_of '':''));
          url_len = (case url_end of Some i \<Rightarrow> i | None \<Rightarrow> length url_begin);
          port_len = (case url_end of Some i \<Rightarrow> length url_begin - i - 1 | None \<Rightarrow> 0)
      in if url_end \<noteq> None \<and> port_len < 1 then None
      else if url_len < 1 then None
      else
        let address = (if ipv6 \<noteq> None then take (url_len - 2) (tl url_begin) else take url_len url_begin);
            url_address = snprintf_s 254 address;
            port = (if port_len \<noteq> 0 then takeWhile (\<lambda>b. b \<noteq> 47) (snprintf_s 6 (drop (url_len + 1) url_begin))
                    else bytes_of ''80'')
        in Some (url_address, port))"

section \<open>Messages of the pool\<close>

text \<open>A decimal number, as \<open>%d\<close> prints it.\<close>

fun nat_text :: "nat \<Rightarrow> cstr" where
  "nat_text n = (if n < 10 then [48 + of_nat n] else nat_text (n div 10) @ [48 + of_nat (n mod 10)])"

declare nat_text.simps [simp del]

definition int_text :: "int \<Rightarrow> cstr" where
  "int_text i = (if i < 0 then 45 # nat_text (nat (- i)) else nat_text (nat i))"

text \<open>\<open>ok\<close> tells whether the socket takes the text; nothing ends it.\<close>

definition stratum_send :: "bool \<Rightarrow> cstr \<Rightarrow> conn \<Rightarrow> bool \<times> conn" where
  "stratum_send ok s c =
     (if \<not> cn_active c then (False, c)
      else if ok then (True, c\<lparr>cn_sent := cn_sent c @ [s]\<rparr>)
      else (False, suspend_stratum c))"

definition send_version :: "bool \<Rightarrow> json option \<Rightarrow> cstr \<Rightarrow> conn \<Rightarrow> bool \<times> conn" where
  "send_version ok val agent c =
     (case json_object_get val (bytes_of ''id'') of None \<Rightarrow> (False, c)
      | Some i \<Rightarrow> stratum_send ok (bytes_of ''{\"id\": '' @ int_text (c_int (json_integer_value (Some i))) @
          bytes_of '', \"result\": \"'' @ agent @ bytes_of ''\", \"error\": null}'') c)"

definition send_pong :: "bool \<Rightarrow> json option \<Rightarrow> conn \<Rightarrow> bool \<times> conn" where
  "send_pong ok val c =
     (case json_object_get val (bytes_of ''id'') of None \<Rightarrow> (False, c)
      | Some i \<Rightarrow> stratum_send ok (bytes_of ''{\"id\": '' @ int_text (c_int (json_integer_value (Some i))) @
          bytes_of '', \"result\": \"pong\", \"error\": null}'') c)"

definition show_message :: "json option \<Rightarrow> bool" where
  "show_message val = (json_is_array val \<and> json_string_value (json_array_get val 0) \<noteq> None)"

text \<open>Where a request to reconnect leads: nowhere, or to an address.\<close>

definition reconnect_target :: "conn \<Rightarrow> json option \<Rightarrow> net_err + (cstr \<times> cstr) option" where
  "reconnect_target c val =
     (let url_val = json_string_value (json_array_get val 0);
          denied = (case url_val of None \<Rightarrow> False
            | Some url \<Rightarrow> (case (strchr (cn_sockaddr_url c) 46, strchr url 46) of
                (Some dot_pool, Some dot_reconnect) \<Rightarrow> dot_pool \<noteq> dot_reconnect | _ \<Rightarrow> True));
          url = (case url_val of None \<Rightarrow> cn_sockaddr_url c | Some url \<Rightarrow> url);
          port_no = c_int (json_integer_value (json_array_get val 1));
          port = (if port_no \<noteq> 0 then Some (int_text port_no)
                  else (case json_string_value (json_array_get val 1) of None \<Rightarrow> cn_stratum_port c | Some p \<Rightarrow> Some p))
      in if denied then Inr None
      else (case port of None \<Rightarrow> Inl NullString
        | Some port \<Rightarrow> Inr (extract_sockaddr (snprintf_s 254 (url @ [58] @ port)))))"

text \<open>
  From here on functions may not return: \<open>None\<close>.  \<open>restart\<close> is \<open>restart_stratum\<close>; the work of the pool is discarded before.
\<close>

definition bindO :: "(net_err + 'a) option \<Rightarrow> ('a \<Rightarrow> (net_err + 'b) option) \<Rightarrow> (net_err + 'b) option" where
  "bindO m f = (case m of None \<Rightarrow> None | Some (Inl e) \<Rightarrow> Some (Inl e) | Some (Inr x) \<Rightarrow> f x)"

type_synonym step = "(net_err + (bool \<times> conn)) option"

definition parse_reconnect :: "(conn \<Rightarrow> step) \<Rightarrow> conn \<Rightarrow> json option \<Rightarrow> step" where
  "parse_reconnect restart c val =
     bindO (Some (reconnect_target c val)) (\<lambda>t. case t of None \<Rightarrow> Some (Inr (False, c))
       | Some (url, port) \<Rightarrow>
           restart ((suspend_stratum c)\<lparr>cn_sockaddr_url := url, cn_stratum_url := Some url, cn_stratum_port := Some port\<rparr>))"

text \<open>\<open>strncasecmp\<close> with the name of a method, up to its length.\<close>

definition lower :: "u8 \<Rightarrow> u8" where
  "lower b = (if 65 \<le> b \<and> b \<le> 90 then b + 32 else b)"

definition is_method :: "string \<Rightarrow> cstr \<Rightarrow> bool" where
  "is_method name buf = (map lower (take (length name) buf) = map lower (bytes_of name))"

text \<open>
  What the messages depend on: reading JSON, whether this is the current pool, whether the socket takes what is sent, the
  name of the program; and for subscribing the connections that can be made and what comes in on them.
\<close>

record net_env =
  ne_loads :: "cstr \<Rightarrow> json option"
  ne_current :: bool
  ne_send_ok :: bool
  ne_agent :: cstr
  ne_suggest_diff :: int
  ne_user :: cstr
  ne_pass :: cstr
  ne_connect :: "nat \<Rightarrow> recv_event list option"

definition parse_method :: "net_env \<Rightarrow> (conn \<Rightarrow> step) \<Rightarrow> conn \<Rightarrow> cstr \<Rightarrow> step" where
  "parse_method e restart c s =
     (case ne_loads e s of None \<Rightarrow> Some (Inr (False, c))
      | Some v \<Rightarrow>
          let val = Some v; err_val = json_object_get val (bytes_of ''error''); params = json_object_get val (bytes_of ''params'')
          in case json_string_value (json_object_get val (bytes_of ''method'')) of None \<Rightarrow> Some (Inr (False, c))
          | Some buf \<Rightarrow>
              if err_val \<noteq> None \<and> \<not> json_is_null err_val then Some (Inr (False, c))
              else if is_method ''mining.notify'' buf then
                bindO (Some (parse_notify (ne_current e) (cn_pool c) params))
                  (\<lambda>(ret, p). Some (Inr (ret, c\<lparr>cn_pool := p, cn_notify := ret\<rparr>)))
              else if is_method ''mining.set_difficulty'' buf then
                (case parse_diff (cn_pool c) params of (ret, p) \<Rightarrow> Some (Inr (ret, c\<lparr>cn_pool := p\<rparr>)))
              else if is_method ''client.reconnect'' buf then parse_reconnect restart c params
              else if is_method ''client.get_version'' buf then Some (Inr (send_version (ne_send_ok e) val (ne_agent e) c))
              else if is_method ''client.show_message'' buf then Some (Inr (show_message params, c))
              else if is_method ''mining.ping'' buf then Some (Inr (send_pong (ne_send_ok e) val c))
              else Some (Inr (False, c)))"

section \<open>Subscribing and authorising\<close>

text \<open>The session the pool names, in the pairs of its answer.\<close>

fun session_of :: "json option \<Rightarrow> nat list \<Rightarrow> cstr option" where
  "session_of arr_val [] = None"
| "session_of arr_val (i # is) =
     (let arr = json_array_get arr_val i
      in if arr = None \<or> \<not> json_is_array arr then None
      else (case raw_array_string arr 0 of None \<Rightarrow> session_of arr_val is
        | Some notify \<Rightarrow> if is_method ''mining.notify'' notify then json_array_string arr 1 else session_of arr_val is))"

definition get_sessionid :: "json option \<Rightarrow> cstr option" where
  "get_sessionid val =
     (let arr_val = json_array_get val 0
      in if arr_val = None \<or> \<not> json_is_array arr_val then None else session_of arr_val [0..<json_array_size arr_val])"

definition subscribe_text :: "bool \<Rightarrow> net_env \<Rightarrow> conn \<Rightarrow> cstr" where
  "subscribe_text recvd e c =
     bytes_of ''{\"id\": '' @ int_text (sint (cn_swork_id c)) @ bytes_of '', \"method\": \"mining.subscribe\", \"params\": ['' @
     (if recvd then [] else bytes_of ''\"'' @ ne_agent e @ bytes_of ''\"'' @
        (case np_sessionid (cn_pool c) of None \<Rightarrow> [] | Some sid \<Rightarrow> bytes_of '', \"'' @ sid @ bytes_of ''\"'')) @
     bytes_of '']}''"

text \<open>The answer to the subscription, stored when it has a first nonce and a size for the second.\<close>

definition subscribed :: "json option \<Rightarrow> npool \<Rightarrow> npool option" where
  "subscribed val p =
     (let res_val = json_object_get val (bytes_of ''result''); err_val = json_object_get val (bytes_of ''error'')
      in if res_val = None \<or> json_is_null res_val \<or> err_val \<noteq> None \<and> \<not> json_is_null err_val then None
      else
        let nonce1 = json_array_string res_val 1; n2size = c_int (json_integer_value (json_array_get res_val 2))
        in if \<not> valid_hex nonce1 \<or> n2size < 2 \<or> 16 < n2size then None
        else (case nonce1 of None \<Rightarrow> None | Some n1 \<Rightarrow>
          Some (p\<lparr>np_sessionid := get_sessionid res_val, np_nonce1 := Some n1, np_n1_len := length n1 div 2,
                  np_nonce1bin := snd (hex2bin n1 (length n1 div 2)), np_n2size := nat n2size\<rparr>)))"

text \<open>
  One attempt, the \<open>k\<close>-th: whether it succeeded, whether a socket was set up, what reading the answer gave, if there was one.
  The request is printed into a buffer of \<open>RBUFSIZE\<close> bytes, with the session the pool named last.
\<close>

definition attempt :: "net_env \<Rightarrow> nat \<Rightarrow> conn \<Rightarrow> net_err + (bool \<times> bool \<times> json option option \<times> conn)" where
  "attempt e k c =
     (let c = c\<lparr>cn_active := False, cn_sock := False\<rparr> in
      case ne_connect e k of None \<Rightarrow> Inr (False, False, None, c)
      | Some evs \<Rightarrow>
          let c = c\<lparr>cn_sock := True, cn_events := evs, cn_sockbuf_size := (if cn_sockbuf_size c = 0 then RBUFSIZE else cn_sockbuf_size c)\<rparr>;
              c = (if 0 < k then clear_sock c else c);
              s = subscribe_text (0 < k) e c; c = c\<lparr>cn_swork_id := cn_swork_id c + 1\<rparr>
          in if RBUFSIZE \<le> length s then Inl BufferOverflow
          else if \<not> ne_send_ok e then Inr (False, True, None, c)
          else
            let c = c\<lparr>cn_sent := cn_sent c @ [s]\<rparr>; (ready, c) = socket_full c
            in if \<not> ready then Inr (False, True, None, c)
            else (case recv_line c of (None, c) \<Rightarrow> Inr (False, True, None, c)
              | (Some sret, c) \<Rightarrow>
                  let val = ne_loads e sret
                  in case subscribed val (cn_pool c) of None \<Rightarrow> Inr (False, True, Some val, c)
                  | Some p \<Rightarrow> Inr (True, True, Some val, c\<lparr>cn_pool := p\<rparr>)))"

definition confirm :: "conn \<Rightarrow> conn" where
  "confirm c = c\<lparr>cn_stratum_url := (case cn_stratum_url c of None \<Rightarrow> Some (cn_sockaddr_url c) | Some u \<Rightarrow> Some u), cn_active := True,
     cn_pool := (cn_pool c)\<lparr>np_next_diff := 0, np_diff_after := 0, np_sdiff := 1\<rparr>\<rparr>"

text \<open>
  A second attempt without the session, when there was an answer to the first.  The answer is released before, and
  again at the end unless another one took its place.
\<close>

definition initiate_stratum :: "net_env \<Rightarrow> conn \<Rightarrow> net_err + (bool \<times> conn)" where
  "initiate_stratum e c =
     bindR (attempt e 0 c) (\<lambda>(ret, sockd, v, c).
        if ret then Inr (True, confirm c)
        else if v = None then Inr (False, if sockd then suspend_stratum c else c)
        else
          let c = c\<lparr>cn_pool := (cn_pool c)\<lparr>np_sessionid := None, np_nonce1 := None\<rparr>\<rparr>
          in bindR (attempt e 1 c) (\<lambda>(ret, sockd, v', c).
            if ret then Inr (True, confirm c)
            else if v' = None \<and> v \<noteq> Some None then Inl UseAfterFree
            else Inr (False, if sockd then suspend_stratum c else c)))"

text \<open>Messages are handled until a line is none; it should be the answer.\<close>

partial_function (option) auth_loop :: "net_env \<Rightarrow> (conn \<Rightarrow> step) \<Rightarrow> conn \<Rightarrow> (net_err + (cstr option \<times> conn)) option" where
  "auth_loop e restart c =
     (case recv_line c of (None, c) \<Rightarrow> Some (Inr (None, c))
      | (Some sret, c) \<Rightarrow>
          (case parse_method e restart c sret of None \<Rightarrow> None
           | Some r \<Rightarrow> (case r of Inl err \<Rightarrow> Some (Inl err)
               | Inr (ok, c) \<Rightarrow> if ok then auth_loop e restart c else Some (Inr (Some sret, c)))))"

definition auth_stratum :: "net_env \<Rightarrow> (conn \<Rightarrow> step) \<Rightarrow> conn \<Rightarrow> step" where
  "auth_stratum e restart c =
     (let s = bytes_of ''{\"id\": '' @ int_text (sint (cn_swork_id c)) @ bytes_of '', \"method\": \"mining.authorize\", \"params\": [\"'' @
            ne_user e @ bytes_of ''\", \"'' @ ne_pass e @ bytes_of ''\"]}'';
          (ok, c) = stratum_send (ne_send_ok e) s (c\<lparr>cn_swork_id := cn_swork_id c + 1\<rparr>)
      in if RBUFSIZE \<le> length s then Some (Inl BufferOverflow)
      else if \<not> ok then Some (Inr (False, c))
      else bindO (auth_loop e restart c) (\<lambda>(line, c). case line of None \<Rightarrow> Some (Inr (False, c))
        | Some sret \<Rightarrow>
            let val = ne_loads e sret; res_val = json_object_get val (bytes_of ''result''); err_val = json_object_get val (bytes_of ''error'')
            in if res_val = None \<or> json_is_false res_val \<or> err_val \<noteq> None \<and> \<not> json_is_null err_val
            then Some (Inr (False, suspend_stratum c))
            else
              let c = c\<lparr>cn_probed := True\<rparr>
              in if ne_suggest_diff e = 0 then Some (Inr (True, c))
              else
                let s = bytes_of ''{\"id\": '' @ int_text (sint (cn_swork_id c)) @ bytes_of '', \"method\": \"mining.suggest_difficulty\", \"params\": ['' @
                      int_text (ne_suggest_diff e) @ bytes_of '']}''
                in Some (Inr (True, snd (stratum_send (ne_send_ok e) s (c\<lparr>cn_swork_id := cn_swork_id c + 1\<rparr>))))))"

text \<open>A request to reconnect may arrive while authorising: \<open>n\<close> bounds how deep they nest.\<close>

fun restart_stratum :: "net_env \<Rightarrow> nat \<Rightarrow> conn \<Rightarrow> step" where
  "restart_stratum e 0 c = None"
| "restart_stratum e (Suc n) c =
     (let c = (if cn_active c then suspend_stratum c else c)
      in bindO (Some (initiate_stratum e c)) (\<lambda>(ok, c).
         if \<not> ok then Some (Inr (False, c)) else auth_stratum e (restart_stratum e n) c))"

definition demo_conn :: "recv_event list \<Rightarrow> conn" where
  "demo_conn evs = \<lparr>cn_pool = demo_npool, cn_sockaddr_url = bytes_of ''stratum.pool.com'', cn_stratum_url = None,
     cn_stratum_port = Some (bytes_of ''3333''), cn_active = True, cn_notify = False, cn_sock = True, cn_sockbuf = [],
     cn_sockbuf_size = RBUFSIZE, cn_events = evs, cn_times_received = 0, cn_bytes_received = 0, cn_sent = [],
     cn_swork_id = 0, cn_probed = False\<rparr>"

section \<open>Lines come out as they went in\<close>

text \<open>The bytes still to be read: those in the buffer and those before the next event that is none.\<close>

fun wire :: "recv_event list \<Rightarrow> u8 list" where
  "wire (Got bs waited # evs) = bs @ wire evs"
| "wire _ = []"

definition unread :: "conn \<Rightarrow> u8 list" where
  "unread c = cn_sockbuf c @ wire (cn_events c)"

text \<open>Nothing that arrives has a NUL in it or is late, and the buffer has room for what it holds.\<close>

fun timely :: "recv_event list \<Rightarrow> bool" where
  "timely (Got bs waited # evs) = (0 \<notin> set bs \<and> waited < DEFAULT_SOCKWAIT \<and> timely evs)"
| "timely _ = True"

definition receiving :: "conn \<Rightarrow> bool" where
  "receiving c \<longleftrightarrow> timely (cn_events c) \<and> 0 \<notin> set (cn_sockbuf c) \<and> length (cn_sockbuf c) < cn_sockbuf_size c"

definition unterminated :: "u8 list \<Rightarrow> bool" where
  "unterminated l \<longleftrightarrow> l \<noteq> [] \<and> 10 \<notin> set l"

lemma cstr_of_id: "0 \<notin> set s \<Longrightarrow> cstr_of s = s"
  by (induction s) (auto simp: cstr_of_def)

lemma recalloc_sock_size:
  "length (cn_sockbuf c) + len + 1 \<le> cn_sockbuf_size (recalloc_sock len c) \<and>
   cn_sockbuf (recalloc_sock len c) = cn_sockbuf c \<and> cn_times_received (recalloc_sock len c) = cn_times_received c"
  by (simp add: recalloc_sock_def Let_def)

lemma recv_loop_step:
  assumes "receiving (c\<lparr>cn_events := Got bs waited # evs\<rparr>)"
  shows "recv_loop (Got bs waited # evs) c =
           (let c' = (recalloc_sock (length bs) c)\<lparr>cn_sockbuf := cn_sockbuf c @ bs\<rparr>
            in if 10 \<notin> set (cn_sockbuf c @ bs) then recv_loop evs c' else c'\<lparr>cn_events := evs\<rparr>)"
  using assms by (simp add: receiving_def cstr_of_id recalloc_sock_size Let_def)

lemma recv_loop_unread:
  "receiving (c\<lparr>cn_events := evs\<rparr>) \<Longrightarrow> 10 \<in> set (cn_sockbuf c @ wire evs) \<Longrightarrow> 10 \<notin> set (cn_sockbuf c) \<Longrightarrow>
   receiving (recv_loop evs c) \<and> 10 \<in> set (cn_sockbuf (recv_loop evs c)) \<and>
   unread (recv_loop evs c) = cn_sockbuf c @ wire evs \<and> cn_times_received (recv_loop evs c) = cn_times_received c"
proof (induction evs arbitrary: c)
  case (Cons ev evs)
  obtain bs waited where ev: "ev = Got bs waited"
    using Cons.prems by (cases ev) auto
  define c' where "c' = (recalloc_sock (length bs) c)\<lparr>cn_sockbuf := cn_sockbuf c @ bs\<rparr>"
  have step: "recv_loop (ev # evs) c = (if 10 \<notin> set (cn_sockbuf c') then recv_loop evs c' else c'\<lparr>cn_events := evs\<rparr>)"
    using recv_loop_step [where c = c and bs = bs and waited = waited and evs = evs] Cons.prems(1) by (simp add: ev c'_def Let_def)
  have c': "cn_sockbuf c' = cn_sockbuf c @ bs" "cn_times_received c' = cn_times_received c"
    "length (cn_sockbuf c @ bs) < cn_sockbuf_size c'"
    using recalloc_sock_size [of c "length bs"] by (simp_all add: c'_def)
  have rec: "receiving (c'\<lparr>cn_events := evs\<rparr>)"
    using Cons.prems(1) c' by (simp add: receiving_def ev)
  show ?case
  proof (cases "10 \<in> set (cn_sockbuf c')")
    case True
    then show ?thesis using rec c' by (simp only: step if_False not_not) (simp add: unread_def ev)
  next
    case False
    have "10 \<in> set (cn_sockbuf c' @ wire evs)" using Cons.prems(2) c' by (simp add: ev)
    from Cons.IH [OF rec this False] False c' show ?thesis by (simp only: step if_True) (simp add: ev)
  qed
qed simp

lemma next_token_at:
  assumes "unterminated l"
  shows "next_token (replicate k 10 @ l @ 10 # rest) =
           Some (l, cstr_of (drop (length l + 1) (replicate k 10 @ l @ 0 # rest @ [0])))"
proof -
  let ?nl = "replicate k (10 :: u8)"
  let ?buf = "?nl @ l @ 10 # rest"
  obtain b l' where l: "l = b # l'" "b \<noteq> 10" using assms by (cases l) (auto simp: unterminated_def)
  have lead: "takeWhile (\<lambda>b. b = 10) ?buf = ?nl"
    unfolding l(1) by (subst takeWhile_append2) (use l(2) in auto)
  have tok: "takeWhile (\<lambda>b. b \<noteq> 10) (drop (length ?nl) ?buf) = l"
    using assms by (simp, subst takeWhile_append2) (auto simp: unterminated_def)
  have "?buf @ [0] = (?nl @ l) @ 10 # rest @ [0]" by simp
  then have mem: "(?buf @ [0])[length ?nl + length l := 0] = ?nl @ l @ 0 # rest @ [0]"
    using list_update_length [of "?nl @ l" 10 "rest @ [0]" 0] by (simp only: length_append append_assoc)
  have short: "\<not> length l + 1 < length ?buf \<Longrightarrow> k = 0 \<and> rest = []" by simp
  show ?thesis
    unfolding next_token_def Let_def lead tok mem using l(1) short by (auto simp: cstr_of_def)
qed

lemma next_token_line: "unterminated l \<Longrightarrow> 0 \<notin> set rest \<Longrightarrow> next_token (l @ 10 # rest) = Some (l, rest)"
  using next_token_at [of l 0 rest] by (simp add: cstr_of_nul)

lemma split_at_line:
  assumes "buf @ back = l @ 10 # rest" "10 \<in> set buf" "10 \<notin> set l"
  obtains r where "buf = l @ 10 # r" "rest = r @ back"
proof -
  from assms(1) consider us where "buf = l @ us" "us @ back = 10 # rest" | us where "l = buf @ us"
    by (auto simp: append_eq_append_conv2)
  then show thesis
  proof cases
    case 1
    then show ?thesis using assms(2,3) that by (cases us) auto
  qed (use assms(2,3) in auto)
qed

lemma parse_line_unread:
  assumes "receiving c" "10 \<in> set (cn_sockbuf c)" "unterminated l" "unread c = l @ 10 # rest"
  obtains c' where "parse_line c = (Some l, c')" "receiving c'" "unread c' = rest"
    "cn_times_received c' = cn_times_received c + 1"
proof -
  obtain r where r: "cn_sockbuf c = l @ 10 # r" "rest = r @ wire (cn_events c)"
    using split_at_line [of "cn_sockbuf c" "wire (cn_events c)" l rest] assms(2-4)
    by (auto simp: unread_def unterminated_def)
  have "next_token (cn_sockbuf c) = Some (l, r)"
    using next_token_line [OF assms(3), of r] assms(1) r(1) by (simp add: receiving_def)
  then show thesis
    using that assms(1) r by (simp add: parse_line_def receiving_def unread_def)
qed

lemma recv_line_unread:
  assumes "receiving c" "unterminated l" "unread c = l @ 10 # rest"
  obtains c' where "recv_line c = (Some l, c')" "receiving c'" "unread c' = rest"
    "cn_times_received c' = cn_times_received c + 1"
proof (cases "10 \<in> set (cn_sockbuf c)")
  case True
  then show ?thesis using parse_line_unread [OF assms(1) True assms(2,3)] that by (auto simp: recv_line_def)
next
  case False
  have nl: "10 \<in> set (cn_sockbuf c @ wire (cn_events c))" using assms(3) by (simp add: unread_def)
  then have ready: "socket_full c = (True, c)"
    using False by (auto simp: socket_full_def split: list.splits recv_event.splits)
  have "receiving (c\<lparr>cn_events := cn_events c\<rparr>)" using assms(1) by simp
  from recv_loop_unread [OF this nl False]
  show ?thesis
    using parse_line_unread [of "recv_loop (cn_events c) c" l rest] assms(2,3) that False ready
    by (auto simp: recv_line_def unread_def)
qed

fun recv_lines :: "nat \<Rightarrow> conn \<Rightarrow> cstr option list \<times> conn" where
  "recv_lines 0 c = ([], c)"
| "recv_lines (Suc n) c = (case recv_line c of (l, c) \<Rightarrow> case recv_lines n c of (ls, c) \<Rightarrow> (l # ls, c))"

text \<open>C14: However the bytes of lines are cut into what the socket delivers, reading line after line gives the lines in
  order, each once and whole, and leaves exactly the bytes behind them to be read; each line counts, and the
  buffer always has room for its string.  The lines are not empty, free of NUL and arrive within the minute.
\<close>

theorem recv_lines_stream:
  assumes "receiving c" "\<forall>l \<in> set ls. unterminated l" "unread c = concat (map (\<lambda>l. l @ [10]) ls) @ rest"
  shows "fst (recv_lines (length ls) c) = map Some ls \<and>
         (let c' = snd (recv_lines (length ls) c) in
          unread c' = rest \<and> cn_times_received c' = cn_times_received c + int (length ls) \<and>
          length (cn_sockbuf c') < cn_sockbuf_size c')"
  using assms
proof (induction ls arbitrary: c)
  case (Cons l ls)
  from Cons.prems obtain c' where c': "recv_line c = (Some l, c')" "receiving c'"
    "unread c' = concat (map (\<lambda>l. l @ [10]) ls) @ rest" "cn_times_received c' = cn_times_received c + 1"
    using recv_line_unread [of c l "concat (map (\<lambda>l. l @ [10]) ls) @ rest"] by auto
  have "\<forall>l \<in> set ls. unterminated l" using Cons.prems(2) by simp
  from Cons.IH [OF c'(2) this c'(3)] c'(1,4) show ?case
    by (cases "recv_lines (length ls) c'") (simp add: Let_def)
qed (simp add: receiving_def)

text \<open>Line ends in front of a line: it is read, and what was received behind it never is.\<close>

lemma blank_line_loses_rest:
  assumes "unterminated l" "0 \<notin> set l" "cn_sockbuf c = replicate (Suc k) 10 @ l @ 10 # rest"
  shows "fst (recv_line c) = Some l \<and>
         cn_sockbuf (snd (recv_line c)) = drop (length l + 1) (replicate (Suc k) 10 @ l)"
proof -
  let ?nl = "replicate (Suc k) (10 :: u8)"
  have "0 \<notin> set (drop (length l + 1) (?nl @ l))"
    using assms(2) by (auto dest!: in_set_dropD simp del: replicate_Suc split: if_splits)
  then have "cstr_of (drop (length l + 1) (?nl @ l @ 0 # rest @ [0])) = drop (length l + 1) (?nl @ l)"
    using cstr_of_nul [of "drop (length l + 1) (?nl @ l)" "rest @ [0]"] by (simp del: replicate_Suc)
  with next_token_at [OF assms(1), of "Suc k" rest] show ?thesis
    using assms(3) by (simp add: recv_line_def parse_line_def del: replicate_Suc)
qed

lemma recv_lines_stream_witness:
  "fst (recv_lines 2 (demo_conn [Got (bytes_of ''{}'') 0, Got [10, 91] 1, Got [93, 10, 32] 1])) =
     [Some (bytes_of ''{}''), Some (bytes_of ''[]'')]"
proof -
  let ?c = "demo_conn [Got (bytes_of ''{}'') 0, Got [10, 91] 1, Got [93, 10, 32] 1]"
  let ?ls = "[bytes_of ''{}'', bytes_of ''[]'']"
  have "receiving ?c" by (simp add: demo_conn_def receiving_def DEFAULT_SOCKWAIT_def RBUFSIZE_def bytes_of_def)
  moreover have "\<forall>l \<in> set ?ls. unterminated l" by (simp add: unterminated_def bytes_of_def)
  moreover have "unread ?c = concat (map (\<lambda>l. l @ [10]) ?ls) @ [32]" by (simp add: demo_conn_def unread_def bytes_of_def)
  ultimately show ?thesis using recv_lines_stream [of ?c ?ls "[32]"] by (simp add: numeral_2_eq_2)
qed

section \<open>Where a pool may send us\<close>

lemma strstr_absent: "ch \<notin> set s \<Longrightarrow> strstr s (ch # needle) = None"
  by (induction s) auto

lemma strstr_char: "ch \<notin> set a \<Longrightarrow> strstr (a @ ch # s) [ch] = Some (length a)"
  by (induction a) auto

lemma extract_host_port:
  assumes "h \<noteq> []" "port \<noteq> []" "length h < 254" "length port < 6"
    "58 \<notin> set h" "47 \<notin> set h" "91 \<notin> set h" "47 \<notin> set port" "91 \<notin> set port"
  shows "extract_sockaddr (h @ 58 # port) = Some (h, port)"
proof -
  have "strstr (h @ 58 # port) [47, 47] = None" "strstr (h @ 58 # port) [91] = None"
    using assms(6-9) by (auto intro!: strstr_absent)
  moreover have "takeWhile (\<lambda>b. b \<noteq> 47) port = port"
    using assms(8) by (simp add: takeWhile_eq_all_conv) blast
  ultimately show ?thesis
    using assms(1-5) by (simp add: extract_sockaddr_def bytes_of_def strstr_char Let_def snprintf_s_def)
qed

lemma digit_text: "d < 10 \<Longrightarrow> 48 \<le> (48 + of_nat d :: u8) \<and> (48 + of_nat d :: u8) \<le> 57"
  by (simp add: word_le_nat_alt unat_word_ariths unat_of_nat)

lemma nat_text_digits: "b \<in> set (nat_text n) \<Longrightarrow> 48 \<le> b \<and> b \<le> 57"
proof (induction n rule: nat_text.induct)
  case (1 n)
  have digit: "48 \<le> (48 + of_nat (n mod 10) :: u8) \<and> (48 + of_nat (n mod 10) :: u8) \<le> 57"
    by (simp add: digit_text)
  show ?case
    using 1 digit by (cases "n < 10") (auto simp: nat_text.simps [of n] mod_less split: if_splits)
qed

lemma nat_text_length: "n < 10 ^ Suc k \<Longrightarrow> length (nat_text n) \<le> Suc k \<and> nat_text n \<noteq> []"
proof (induction k arbitrary: n)
  case 0
  then show ?case by (simp add: nat_text.simps)
next
  case (Suc k)
  have "n div 10 < 10 ^ Suc k" using Suc.prems by (simp add: less_mult_imp_div_less)
  then show ?case using Suc.IH [of "n div 10"] by (simp add: nat_text.simps [of n])
qed

definition same_domain :: "cstr \<Rightarrow> cstr \<Rightarrow> bool" where
  "same_domain a b \<longleftrightarrow> strchr a 46 \<noteq> None \<and> strchr a 46 = strchr b 46"

lemma reconnect_target_host:
  assumes "json_string_value (json_array_get val 0) = Some h" "{47, 58, 91} \<inter> set h = {}" "length h \<le> 240"
    "port_no = c_int (json_integer_value (json_array_get val 1))" "0 < port_no" "port_no < 65536"
  shows "reconnect_target c val = Inr (if same_domain (cn_sockaddr_url c) h then Some (h, int_text port_no) else None)"
proof -
  have port: "int_text port_no = nat_text (nat port_no)" using assms(5) by (simp add: int_text_def)
  have small: "nat port_no < 100000" using assms(6) by arith
  have len: "length (nat_text (nat port_no)) < 6" "nat_text (nat port_no) \<noteq> []"
    using nat_text_length [of "nat port_no" 4] small by auto
  have digits: "47 \<notin> set (nat_text (nat port_no))" "91 \<notin> set (nat_text (nat port_no))"
    using nat_text_digits [of 47 "nat port_no"] nat_text_digits [of 91 "nat port_no"] by auto
  have whole: "snprintf_s 254 (h @ 58 # nat_text (nat port_no)) = h @ 58 # nat_text (nat port_no)"
    using assms(3) len(1) by (simp add: snprintf_s_def)
  have "same_domain (cn_sockaddr_url c) h \<Longrightarrow> h \<noteq> []" by (auto simp: same_domain_def strchr_def)
  then have target: "same_domain (cn_sockaddr_url c) h \<Longrightarrow>
      extract_sockaddr (h @ 58 # nat_text (nat port_no)) = Some (h, nat_text (nat port_no))"
    using assms(2,3) len digits by (intro extract_host_port) auto
  have "port_no \<noteq> 0" using assms(5) by simp
  then show ?thesis
    using whole target
    by (cases "strchr (cn_sockaddr_url c) 46"; cases "strchr h 46")
      (auto simp: reconnect_target_def same_domain_def assms(1) assms(4) [simplified, symmetric] port Let_def)
qed

text \<open>C27: A pool that asks to reconnect to a host name without colon, slash or bracket, and a port, is followed exactly
  when what comes from the first dot on is the same in the new name and in the present one: then the connection is
  closed, with what the buffer holds and the notification, and the restart happens on the new host and port.
  Otherwise nothing changes.
\<close>

theorem parse_reconnect_policy:
  assumes "json_string_value (json_array_get val 0) = Some h" "{47, 58, 91} \<inter> set h = {}" "length h \<le> 240"
    "port_no = c_int (json_integer_value (json_array_get val 1))" "0 < port_no" "port_no < 65536"
  shows "parse_reconnect restart c val =
     (if same_domain (cn_sockaddr_url c) h
      then restart (c\<lparr>cn_sockbuf := [], cn_active := False, cn_notify := False, cn_sock := False,
             cn_sockaddr_url := h, cn_stratum_url := Some h, cn_stratum_port := Some (int_text port_no)\<rparr>)
      else Some (Inr (False, c)))"
  using reconnect_target_host [OF assms]
  by (simp add: parse_reconnect_def bindO_def suspend_stratum_def clear_sockbuf_def)

lemma parse_reconnect_policy_witness:
  "parse_reconnect (\<lambda>c. Some (Inr (True, c))) (demo_conn [])
     (Some (JArray [JString (bytes_of ''evil.com''), JInteger 3333])) = Some (Inr (False, demo_conn []))"
proof -
  let ?val = "Some (JArray [JString (bytes_of ''evil.com''), JInteger 3333])"
  have "json_string_value (json_array_get ?val 0) = Some (bytes_of ''evil.com'')" by (simp add: json_defs)
  moreover have "{47, 58, 91} \<inter> set (bytes_of ''evil.com'') = {}" by (simp add: bytes_of_def)
  moreover have "length (bytes_of ''evil.com'') \<le> 240" by (simp add: bytes_of_def)
  moreover have "3333 = c_int (json_integer_value (json_array_get ?val 1))" by (simp add: json_defs c_int_small)
  moreover have "\<not> same_domain (cn_sockaddr_url (demo_conn [])) (bytes_of ''evil.com'')"
    by (simp add: same_domain_def strchr_def demo_conn_def bytes_of_def)
  ultimately show ?thesis using parse_reconnect_policy [of ?val "bytes_of ''evil.com''" 3333] by simp
qed

text \<open>A host without a dot gets past the comparison when the domain stands where the port is cut.\<close>

lemma reconnect_elsewhere:
  "reconnect_target (demo_conn []) (Some (JArray [JString (bytes_of ''2130706433:80/.pool.com''), JInteger 3333])) =
     Inr (Some (bytes_of ''2130706433'', bytes_of ''80''))"
  by code_simp

section \<open>Subscribing\<close>

lemma hex2bin_valid_length:
  "list_all (\<lambda>c. \<not> hex2bin_tbl ! unat c < 0) s \<Longrightarrow> length (snd (hex2bin s (length s div 2))) = length s div 2"
  by (induction s "length s div 2" rule: hex2bin.induct) (auto simp: Let_def split: prod.splits)

text \<open>A pool that may be mined on: the first nonce is there in text and bytes, the size of the second in its range.\<close>

definition subscription_ok :: "npool \<Rightarrow> bool" where
  "subscription_ok p \<longleftrightarrow> valid_hex (np_nonce1 p) \<and> length (np_nonce1bin p) = np_n1_len p \<and>
     np_n1_len p = length (the (np_nonce1 p)) div 2 \<and> 2 \<le> np_n2size p \<and> np_n2size p \<le> 16"

lemma subscribed_ok: "subscribed val p = Some p' \<Longrightarrow> subscription_ok p'"
  by (auto simp: subscribed_def subscription_ok_def Let_def valid_hex_def hex2bin_valid_length nat_le_iff
      split: option.splits if_splits)

lemma recv_loop_inactive: "\<not> cn_active c \<Longrightarrow> \<not> cn_active (recv_loop evs c)"
proof (induction evs arbitrary: c)
  case (Cons ev evs)
  then show ?case
    by (cases ev) (auto simp: Let_def suspend_stratum_def recalloc_sock_def)
qed (simp add: suspend_stratum_def)

lemma parse_line_active [simp]: "cn_active (snd (parse_line c)) = cn_active c"
  by (simp add: parse_line_def clear_sock_def clear_sockbuf_def Let_def split: option.split)

lemma socket_full_active: "socket_full c = (ready, c') \<Longrightarrow> cn_active c' = cn_active c"
  by (auto simp: socket_full_def split: list.splits recv_event.splits)

lemma recv_line_inactive: "\<not> cn_active c \<Longrightarrow> \<not> cn_active (snd (recv_line c))"
  by (auto simp: recv_line_def clear_sock_def clear_sockbuf_def recv_loop_inactive Let_def
      dest: socket_full_active split: prod.split)

lemma attempt_eq:
  assumes "ne_connect e k = Some evs"
    "c1 = c\<lparr>cn_active := False, cn_sock := True, cn_events := evs,
       cn_sockbuf_size := (if cn_sockbuf_size c = 0 then RBUFSIZE else cn_sockbuf_size c)\<rparr>"
    "c2 = (if 0 < k then clear_sock c1 else c1)"
    "c3 = c2\<lparr>cn_swork_id := cn_swork_id c2 + 1\<rparr>"
    "c4 = c3\<lparr>cn_sent := cn_sent c3 @ [subscribe_text (0 < k) e c]\<rparr>"
  shows "attempt e k c =
     (if RBUFSIZE \<le> length (subscribe_text (0 < k) e c) then Inl BufferOverflow
      else if \<not> ne_send_ok e then Inr (False, True, None, c3)
      else case socket_full c4 of (ready, c5) \<Rightarrow> if \<not> ready then Inr (False, True, None, c5)
      else (case recv_line c5 of (None, c6) \<Rightarrow> Inr (False, True, None, c6)
        | (Some sret, c6) \<Rightarrow> (case subscribed (ne_loads e sret) (cn_pool c6) of
            None \<Rightarrow> Inr (False, True, Some (ne_loads e sret), c6)
          | Some p \<Rightarrow> Inr (True, True, Some (ne_loads e sret), c6\<lparr>cn_pool := p\<rparr>))))"
proof -
  have same: "subscribe_text (0 < k) e c2 = subscribe_text (0 < k) e c"
    by (simp add: assms(2,3) subscribe_text_def clear_sock_def clear_sockbuf_def Let_def)
  show ?thesis
    unfolding same [symmetric] unfolding attempt_def assms(1) unfolding assms(5) same [symmetric]
    unfolding assms(4) assms(3) assms(2) Let_def by simp
qed

lemma attempt_outcome:
  assumes "attempt e k c = Inr (ret, sockd, v, c')"
  shows "\<not> cn_active c' \<and> (\<not> sockd \<longrightarrow> \<not> cn_sock c') \<and> (ret \<longrightarrow> subscription_ok (cn_pool c') \<and> sockd \<and> v \<noteq> None)"
proof (cases "ne_connect e k")
  case None
  then show ?thesis using assms by (auto simp: attempt_def)
next
  case (Some evs)
  define c1 where "c1 = c\<lparr>cn_active := False, cn_sock := True, cn_events := evs,
     cn_sockbuf_size := (if cn_sockbuf_size c = 0 then RBUFSIZE else cn_sockbuf_size c)\<rparr>"
  define c2 where "c2 = (if 0 < k then clear_sock c1 else c1)"
  define c3 where "c3 = c2\<lparr>cn_swork_id := cn_swork_id c2 + 1\<rparr>"
  define c4 where "c4 = c3\<lparr>cn_sent := cn_sent c3 @ [subscribe_text (0 < k) e c]\<rparr>"
  have off: "\<not> cn_active c3" "\<not> cn_active c4"
    by (simp_all add: c1_def c2_def c3_def c4_def clear_sock_def clear_sockbuf_def Let_def)
  have full: "socket_full c4 = (ready, c5) \<Longrightarrow> \<not> cn_active c5" for ready c5
    using off socket_full_active by blast
  have line: "recv_line c5 = (l, c6) \<Longrightarrow> \<not> cn_active c5 \<Longrightarrow> \<not> cn_active c6" for l c5 c6
    using recv_line_inactive [of c5] by simp
  show ?thesis
    using assms off full line unfolding attempt_eq [OF Some c1_def c2_def c3_def c4_def]
    by (auto split: if_splits prod.splits option.splits dest: subscribed_ok)
qed

lemma int_text_length: "length (int_text (sint (w :: u32))) \<le> 11"
proof -
  have "- (2 ^ 31) \<le> sint w" "sint w < 2 ^ 31"
    using sint_ge [of w] sint_lt [of w] by simp_all
  then have "nat (sint w) < 10 ^ Suc 9" "nat (- sint w) < 10 ^ Suc 9" by simp_all
  from this [THEN nat_text_length] show ?thesis by (auto simp: int_text_def)
qed

lemma attempt_overflow:
  assumes "attempt e k c = Inl err"
  shows "err = BufferOverflow \<and> k = 0 \<and> RBUFSIZE \<le> length (subscribe_text False e c)"
proof (cases "ne_connect e k")
  case (Some evs)
  have long: "err = BufferOverflow \<and> RBUFSIZE \<le> length (subscribe_text (0 < k) e c)"
    using assms unfolding attempt_eq [OF Some refl refl refl refl]
    by (simp split: if_splits prod.splits option.splits)
  have "length (subscribe_text True e c) < RBUFSIZE"
    using int_text_length [of "cn_swork_id c"] by (simp add: subscribe_text_def bytes_of_def RBUFSIZE_def)
  then show ?thesis using long by (cases "k = 0") auto
qed (use assms in \<open>simp add: attempt_def\<close>)

text \<open>C29: Subscribing leaves the connection active, the difficulty one with none queued, and a pool whose nonce in text and
  bytes agree and whose second nonce has 2 to 16 bytes; or it leaves it closed and inactive; or it goes wrong, in one of
  two ways: the session to resume makes the request too long for its buffer, or the first answer is JSON
  but refused, the second attempt gets no answer, and the first answer is released a second time.
\<close>

theorem initiate_stratum_outcome:
  "case initiate_stratum e c of
     Inr (True, c') \<Rightarrow> cn_active c' \<and> cn_stratum_url c' \<noteq> None \<and> subscription_ok (cn_pool c') \<and>
       np_sdiff (cn_pool c') = 1 \<and> np_next_diff (cn_pool c') = 0 \<and> np_diff_after (cn_pool c') = 0
   | Inr (False, c') \<Rightarrow> \<not> cn_active c' \<and> \<not> cn_sock c'
   | Inl err \<Rightarrow> err = BufferOverflow \<and> RBUFSIZE \<le> length (subscribe_text False e c) \<or>
       err = UseAfterFree \<and>
       (\<exists>sockd val c1 sockd' c2. attempt e 0 c = Inr (False, sockd, Some (Some val), c1) \<and>
          attempt e 1 (c1\<lparr>cn_pool := (cn_pool c1)\<lparr>np_sessionid := None, np_nonce1 := None\<rparr>\<rparr>) = Inr (False, sockd', None, c2))"
proof (cases "attempt e 0 c")
  case (Inl err)
  then show ?thesis using attempt_overflow [OF Inl] by (simp add: initiate_stratum_def)
next
  case (Inr r)
  obtain ret sockd v c1 where one: "attempt e 0 c = Inr (ret, sockd, v, c1)" using Inr by (metis prod_cases4)
  let ?c1 = "c1\<lparr>cn_pool := (cn_pool c1)\<lparr>np_sessionid := None, np_nonce1 := None\<rparr>\<rparr>"
  have "\<not> isl (attempt e 1 ?c1)" using attempt_overflow [of e 1 ?c1] by (cases "attempt e 1 ?c1") auto
  then obtain ret' sockd' v' c2 where two: "attempt e 1 ?c1 = Inr (ret', sockd', v', c2)"
    by (metis isl_def prod_cases4 sum.exhaust_sel)
  show ?thesis
    using attempt_outcome [OF one] attempt_outcome [OF two] one two
    by (auto simp: initiate_stratum_def confirm_def subscription_ok_def suspend_stratum_def clear_sockbuf_def Let_def
        split: option.splits)
qed

text \<open>A pool that once named a session longer than the buffer.\<close>

lemma initiate_overflow:
  assumes "ne_connect e 0 = Some evs" "np_sessionid (cn_pool c) = Some sid" "RBUFSIZE \<le> length sid"
  shows "initiate_stratum e c = Inl BufferOverflow"
proof -
  have "RBUFSIZE \<le> length (subscribe_text False e c)" using assms(2,3) by (simp add: subscribe_text_def)
  then show ?thesis
    using attempt_eq [OF assms(1) refl refl refl refl, of c] by (simp add: initiate_stratum_def)
qed

text \<open>Such a pair of attempts: an empty object, and then no connection.\<close>

lemma initiate_releases_twice:
  "initiate_stratum \<lparr>ne_loads = (\<lambda>s. if s = [123, 125] then Some (JObject []) else None), ne_current = True, ne_send_ok = True,
     ne_agent = [], ne_suggest_diff = 0, ne_user = [], ne_pass = [],
     ne_connect = (\<lambda>k. if k = 0 then Some [Got [123, 125, 10] 0] else None)\<rparr> (demo_conn []) = Inl UseAfterFree"
  by code_simp

section \<open>Authorising returns\<close>

text \<open>What there is still to read, with the events themselves.\<close>

fun event_cost :: "recv_event \<Rightarrow> nat" where
  "event_cost (Got bs waited) = length bs + 1"
| "event_cost _ = 1"

definition backlog :: "conn \<Rightarrow> nat" where
  "backlog c = length (cn_sockbuf c) + sum_list (map event_cost (cn_events c))"

lemma cstr_of_length: "length (cstr_of s) \<le> length s"
  by (simp add: cstr_of_def length_takeWhile_le)

lemma recv_loop_backlog:
  "backlog (recv_loop evs c) \<le> length (cn_sockbuf c) + sum_list (map event_cost evs)"
proof (induction evs arbitrary: c)
  case (Cons ev evs)
  show ?case
  proof (cases ev)
    case (Got bs waited)
    define c' where "c' = (recalloc_sock (length (cstr_of bs)) c)\<lparr>cn_sockbuf := cn_sockbuf c @ cstr_of bs\<rparr>"
    have step: "recv_loop (ev # evs) c =
        (if waited < DEFAULT_SOCKWAIT \<and> 10 \<notin> set (cn_sockbuf c') then recv_loop evs c' else c'\<lparr>cn_events := evs\<rparr>)"
      using recalloc_sock_size [of c] by (simp add: Got c'_def Let_def)
    have "length (cn_sockbuf c') \<le> length (cn_sockbuf c) + length bs"
      using cstr_of_length [of bs] by (simp add: c'_def)
    then show ?thesis
      using Cons.IH [of c'] by (simp only: step) (simp add: Got backlog_def)
  next
    case (Retry waited)
    then show ?thesis using Cons.IH [of c] by (simp add: backlog_def)
  qed (simp_all add: backlog_def suspend_stratum_def clear_sockbuf_def)
qed (simp add: backlog_def suspend_stratum_def clear_sockbuf_def)

lemma next_token_shorter:
  assumes "next_token buf = Some (tok, rest)"
  shows "length rest < length buf"
proof -
  have "tok \<noteq> []" "buf \<noteq> []" using assms by (auto simp: next_token_def Let_def split: if_splits)
  from assms consider "rest = []" | k where "rest = cstr_of (drop (length tok + 1) ((buf @ [0])[k := 0]))"
    by (auto simp: next_token_def Let_def split: if_splits)
  then show ?thesis
  proof cases
    case (2 k)
    have "length rest \<le> length buf + 1 - (length tok + 1)"
      using cstr_of_length [of "drop (length tok + 1) ((buf @ [0])[k := 0])"] by (simp add: 2)
    moreover have "0 < length tok" "0 < length buf" using \<open>tok \<noteq> []\<close> \<open>buf \<noteq> []\<close> by simp_all
    ultimately show ?thesis by linarith
  qed (use \<open>buf \<noteq> []\<close> in simp)
qed

lemma parse_line_backlog: "parse_line c = (Some l, c') \<Longrightarrow> backlog c' < backlog c"
  by (auto simp: parse_line_def backlog_def split: option.splits prod.splits dest: next_token_shorter)

lemma socket_full_backlog: "socket_full c = (ready, c') \<Longrightarrow> backlog c' \<le> backlog c"
  by (auto simp: socket_full_def backlog_def split: list.splits recv_event.splits)

lemma recv_line_backlog: "recv_line c = (Some l, c') \<Longrightarrow> backlog c' < backlog c"
proof -
  assume recv: "recv_line c = (Some l, c')"
  obtain ready d where d: "socket_full c = (ready, d)" by fastforce
  have "backlog (recv_loop (cn_events d) d) \<le> backlog c"
    using recv_loop_backlog [of "cn_events d" d] socket_full_backlog [OF d] by (simp add: backlog_def)
  then show ?thesis
    using recv d parse_line_backlog by (fastforce simp: recv_line_def split: if_splits)
qed

lemma stratum_send_backlog: "stratum_send ok s c = (ret, c') \<Longrightarrow> backlog c' \<le> backlog c"
  by (auto simp: stratum_send_def backlog_def suspend_stratum_def clear_sockbuf_def split: if_splits)

text \<open>A step that returns, and does not go on with more to read than before.\<close>

definition goes_on :: "nat \<Rightarrow> step \<Rightarrow> bool" where
  "goes_on n r = (case r of None \<Rightarrow> False | Some (Inl err) \<Rightarrow> True | Some (Inr (ok, c)) \<Rightarrow> ok \<longrightarrow> backlog c \<le> n)"

lemma goes_on_simps [simp]:
  "goes_on n (Some (Inl err))" "goes_on n (Some (Inr (False, c)))"
  "goes_on n (Some (Inr (True, c))) \<longleftrightarrow> backlog c \<le> n"
  by (simp_all add: goes_on_def)

lemma goes_on_send: "goes_on (backlog c) (Some (Inr (stratum_send ok s c)))"
  using stratum_send_backlog by (cases "stratum_send ok s c") (auto simp: goes_on_def)

lemma goes_on_notify:
  "goes_on (backlog c) (bindO (Some r) (\<lambda>(ret, p). Some (Inr (ret, c\<lparr>cn_pool := p, cn_notify := ret\<rparr>))))"
  by (auto simp: bindO_def goes_on_def backlog_def split: sum.split prod.split)

definition restart_fails :: "(conn \<Rightarrow> step) \<Rightarrow> bool" where
  "restart_fails restart \<longleftrightarrow> (\<forall>c. restart c \<noteq> None \<and> (\<forall>c'. restart c \<noteq> Some (Inr (True, c'))))"

lemma goes_on_reconnect:
  assumes "restart_fails restart"
  shows "goes_on n (parse_reconnect restart c val)"
proof -
  have "goes_on n (restart d)" for d
    using assms [unfolded restart_fails_def, THEN spec, of d] by (auto simp: goes_on_def split: option.split sum.split)
  then show ?thesis
    by (simp add: parse_reconnect_def bindO_def split: sum.split option.split)
qed

lemma goes_on_method:
  assumes "restart_fails restart"
  shows "goes_on (backlog c) (parse_method e restart c s)"
proof -
  have reconnect: "goes_on (backlog c) (parse_reconnect restart c val)" for val
    using assms by (rule goes_on_reconnect)
  have diff: "goes_on (backlog c) (case parse_diff (cn_pool c) params of (ret, p) \<Rightarrow> Some (Inr (ret, c\<lparr>cn_pool := p\<rparr>)))" for params
    by (auto simp: goes_on_def backlog_def split: prod.split)
  have message: "goes_on (backlog c) (Some (Inr (show_message params, c)))" for params
    by (cases "show_message params") simp_all
  have version: "goes_on (backlog c) (Some (Inr (send_version (ne_send_ok e) val (ne_agent e) c)))" for val
    using goes_on_send by (simp add: send_version_def split: option.split)
  have pong: "goes_on (backlog c) (Some (Inr (send_pong (ne_send_ok e) val c)))" for val
    using goes_on_send by (simp add: send_pong_def split: option.split)
  show ?thesis
    unfolding parse_method_def Let_def
    using reconnect diff message version pong goes_on_notify by (simp split: option.split)
qed

lemma auth_loop_returns:
  assumes "restart_fails restart"
  shows "auth_loop e restart c \<noteq> None"
proof (induction "backlog c" arbitrary: c rule: less_induct)
  case less
  show ?case
  proof (cases "recv_line c")
    case (Pair l c1)
    show ?thesis
    proof (cases l)
      case None
      then show ?thesis by (simp add: auth_loop.simps [of e restart c] Pair)
    next
      case (Some sret)
      have shorter: "backlog c1 < backlog c" using recv_line_backlog Pair Some by blast
      have goes: "goes_on (backlog c1) (parse_method e restart c1 sret)" using assms by (rule goes_on_method)
      then consider err where "parse_method e restart c1 sret = Some (Inl err)"
        | c2 where "parse_method e restart c1 sret = Some (Inr (False, c2))"
        | c2 where "parse_method e restart c1 sret = Some (Inr (True, c2))" "backlog c2 \<le> backlog c1"
        by (auto simp: goes_on_def split: option.splits sum.splits)
      then show ?thesis
        using less shorter by cases (simp_all add: auth_loop.simps [of e restart c] Pair Some)
    qed
  qed
qed

text \<open>Authorising returns, however many messages come first and however they are cut, when every request to reconnect
  among them fails: each line read is taken from what is left to read, and no message puts any back.
\<close>

theorem auth_stratum_returns:
  assumes "restart_fails restart"
  shows "auth_stratum e restart c \<noteq> None"
proof -
  have loop: "bindO (auth_loop e restart c') f \<noteq> None" if "\<And>x. f x \<noteq> None" for c' and f :: "_ \<Rightarrow> step"
    using auth_loop_returns [OF assms, of e c'] that by (auto simp: bindO_def split: sum.split)
  show ?thesis
    unfolding auth_stratum_def Let_def
    by (simp split: prod.split del: not_None_eq, intro allI impI loop) (simp split: prod.split option.split)
qed

lemma auth_stratum_returns_witness:
  "\<forall>e. auth_stratum e (\<lambda>c. Some (Inr (False, c))) (demo_conn [Got [123, 125, 10] 0]) \<noteq> None"
  using auth_stratum_returns [of "\<lambda>c. Some (Inr (False, c))"] by (simp add: restart_fails_def)

end
