(* ===== verification/Staged.thy ===== *)
theory Staged
  imports Shares "HOL-Library.Multiset"
begin

text \<open>
  Staged work (cgminer.c): the items made for all devices, in the order of the second they were staged, from which
  \<open>get_work\<close> takes the next.  Waiting for an item is a change of the state by other threads, and may not end.
\<close>

section \<open>State\<close>

text \<open>\<open>staged_work\<close> is the hash table in the order it is iterated, \<open>tv_staged\<close> the second an item was staged.\<close>

record stg =
  sg_mem :: mem
  staged_work :: "int list"
  staged_rollable :: int
  tv_staged :: "int \<Rightarrow> int"
  getq_frozen :: bool
  no_work :: bool
  work_emptied :: bool

section \<open>Operations\<close>

definition work_rollable :: "gwork \<Rightarrow> bool" where
  "work_rollable w = (\<not> w_clone w \<and> w_rolltime w \<noteq> 0)"

definition total_staged :: "stg \<Rightarrow> nat" where
  "total_staged s = length (staged_work s)"

text \<open>The sort is stable.\<close>

definition hash_push :: "stg \<Rightarrow> int \<Rightarrow> work_err + (bool \<times> stg)" where
  "hash_push s p =
     bindR (at_work (sg_mem s) p) (\<lambda>w.
     let s = (if work_rollable w then s\<lparr>staged_rollable := staged_rollable s + 1\<rparr> else s)
     in if getq_frozen s then Inr (False, s)
     else if p \<in> set (staged_work s) then Inl LinkedTwice
     else Inr (True, s\<lparr>staged_work := sort_key (tv_staged s) (staged_work s @ [p])\<rparr>))"

text \<open>\<open>others\<close> is what happens during one wait, with whether it timed out.\<close>

partial_function (option) await_work :: "(stg \<Rightarrow> bool \<times> stg) \<Rightarrow> stg \<Rightarrow> stg option" where
  "await_work others s =
     (if staged_work s \<noteq> [] then Some s
      else let r = others s in await_work others (if fst r then (snd r)\<lparr>no_work := True\<rparr> else snd r))"

text \<open>The first item that is not rollable, when the count says there is one.\<close>

definition pick_staged :: "stg \<Rightarrow> work_err + int" where
  "pick_staged s =
     bindR (if staged_rollable s < int (length (staged_work s))
            then find_first (\<lambda>w. \<not> work_rollable w) (sg_mem s) (staged_work s)
            else Inr (case staged_work s of [] \<Rightarrow> None | p # ps \<Rightarrow> Some p))
       (\<lambda>r. case r of None \<Rightarrow> Inl NullWork | Some p \<Rightarrow> Inr p)"

definition take_staged :: "stg \<Rightarrow> work_err + (int option \<times> stg)" where
  "take_staged s =
     (let s = s\<lparr>no_work := False\<rparr> in
      bindR (pick_staged s) (\<lambda>p.
      let s = s\<lparr>staged_work := remove1 p (staged_work s)\<rparr> in
      bindR (at_work (sg_mem s) p) (\<lambda>w.
      Inr (Some p, if work_rollable w then s\<lparr>staged_rollable := staged_rollable s - 1\<rparr> else s))))"

definition hash_pop :: "bool \<Rightarrow> (stg \<Rightarrow> bool \<times> stg) \<Rightarrow> stg \<Rightarrow> (work_err + (int option \<times> stg)) option" where
  "hash_pop blocking others s =
     (if staged_work s = [] then
        (let s = s\<lparr>work_emptied := True\<rparr>
         in if \<not> blocking then Some (Inr (None, s)) else map_option take_staged (await_work others s))
      else Some (take_staged s))"

fun drop_stale :: "cfg \<Rightarrow> int list \<Rightarrow> stg \<Rightarrow> work_err + stg" where
  "drop_stale g [] s = Inr s"
| "drop_stale g (p # ps) s =
     bindR (stale_work g (sg_mem s) p False) (\<lambda>stale.
     if stale then bindR (discard_work (sg_mem s) (Some p)) (\<lambda>m.
       drop_stale g ps (s\<lparr>sg_mem := m, staged_work := remove1 p (staged_work s)\<rparr>))
     else drop_stale g ps s)"

definition discard_stale :: "cfg \<Rightarrow> stg \<Rightarrow> work_err + stg" where
  "discard_stale g s = drop_stale g (staged_work s) s"

fun drop_pool :: "nat \<Rightarrow> int list \<Rightarrow> stg \<Rightarrow> work_err + stg" where
  "drop_pool n [] s = Inr s"
| "drop_pool n (p # ps) s =
     bindR (at_work (sg_mem s) p) (\<lambda>w.
     if w_pool w = Some n then bindR (free_work (sg_mem s) (Some p)) (\<lambda>m.
       drop_pool n ps (s\<lparr>sg_mem := m, staged_work := remove1 p (staged_work s)\<rparr>))
     else drop_pool n ps s)"

definition clear_pool_work :: "nat \<Rightarrow> stg \<Rightarrow> work_err + stg" where
  "clear_pool_work n s = drop_pool n (staged_work s) s"

text \<open>What \<open>get_work\<close> depends on: the settings, the other threads, the limits of the driver, and the header a benchmark uses.\<close>

record get_env =
  sv_cfg :: cfg
  sv_others :: "stg \<Rightarrow> bool \<times> stg"
  sv_min_diff :: rat
  sv_max_diff :: rat
  sv_bench :: "gwork \<Rightarrow> gwork"

definition hand_out :: "get_env \<Rightarrow> stg \<Rightarrow> int \<Rightarrow> work_err + (int \<times> stg)" where
  "hand_out e s p =
     bindR (at_work (sg_mem s) p) (\<lambda>w.
     let w = (if opt_benchmark (sv_cfg e) then sv_bench e w else w);
         w = w\<lparr>w_mined := True, w_device_diff := max (sv_min_diff e) (min (sv_max_diff e) (w_work_difficulty w))\<rparr>
     in Inr (p, s\<lparr>sg_mem := put_work (sg_mem s) p w\<rparr>))"

text \<open>One round: an item, handed out or, when it is stale, discarded.\<close>

definition get_round :: "get_env \<Rightarrow> stg \<Rightarrow> (work_err + (int option \<times> stg)) option" where
  "get_round e s = map_option (\<lambda>r. bindR r (\<lambda>(po, s). case po of None \<Rightarrow> Inl NullWork
     | Some p \<Rightarrow> bindR (stale_work (sv_cfg e) (sg_mem s) p False) (\<lambda>stale.
         if stale then bindR (discard_work (sg_mem s) (Some p)) (\<lambda>m. Inr (None, s\<lparr>sg_mem := m\<rparr>))
         else bindR (hand_out e s p) (\<lambda>(p, s). Inr (Some p, s))))) (hash_pop True (sv_others e) s)"

partial_function (option) get_work :: "get_env \<Rightarrow> stg \<Rightarrow> (work_err + (int \<times> stg)) option" where
  "get_work e s =
     (case get_round e s of None \<Rightarrow> None
      | Some r \<Rightarrow> (case r of Inl err \<Rightarrow> Some (Inl err)
          | Inr x \<Rightarrow> (case fst x of None \<Rightarrow> get_work e (snd x) | Some p \<Rightarrow> Some (Inr (p, snd x)))))"

section \<open>What the table keeps\<close>

text \<open>
  The items are allocated, in no other queue, and no more of them are rollable than the count says.  (Discarding and
  clearing do not count down, so it may say too many.)
\<close>

definition stg_ok :: "stg \<Rightarrow> bool" where
  "stg_ok s \<longleftrightarrow> mem_ok (sg_mem s) \<and> distinct (staged_work s) \<and> set (staged_work s) \<subseteq> dom (works (sg_mem s)) \<and>
     set (staged_work s) \<inter> set (queued_work (sg_mem s)) = {} \<and>
     (\<forall>p. unqueued_work (sg_mem s) = Some p \<longrightarrow> p \<notin> set (staged_work s)) \<and>
     int (length (filter (\<lambda>p. work_rollable (the (works (sg_mem s) p))) (staged_work s))) \<le> staged_rollable s"

abbreviation item :: "stg \<Rightarrow> int \<Rightarrow> gwork" where
  "item s p \<equiv> the (works (sg_mem s) p)"

lemma stg_okD:
  assumes "stg_ok s"
  shows "mem_ok (sg_mem s)" "distinct (staged_work s)" "set (staged_work s) \<subseteq> dom (works (sg_mem s))"
    "int (length (filter (\<lambda>p. work_rollable (item s p)) (staged_work s))) \<le> staged_rollable s"
  using assms by (simp_all add: stg_ok_def)

lemma staged_apart:
  assumes "stg_ok s" and "p \<in> set (staged_work s)"
  shows "p \<in> dom (works (sg_mem s))" "p \<notin> set (queued_work (sg_mem s))" "unqueued_work (sg_mem s) \<noteq> Some p"
  using assms by (auto simp: stg_ok_def)

lemma staged_item:
  assumes "stg_ok s" and "p \<in> set (staged_work s)"
  obtains w n where "works (sg_mem s) p = Some w" "w_pool w = Some n" "at_work (sg_mem s) p = Inr w"
proof -
  obtain w where w: "works (sg_mem s) p = Some w" using staged_apart(1) [OF assms] by blast
  have "w_pool w \<noteq> None" using w stg_okD(1) [OF assms(1)] unfolding mem_ok_def by blast
  then show thesis using that w by (auto simp: at_work_def)
qed

lemma find_exists: "x \<in> set xs \<Longrightarrow> P x \<Longrightarrow> \<exists>y. find P xs = Some y \<and> y \<in> set xs \<and> P y"
  by (induction xs) auto

text \<open>The count never lets a search fail.\<close>

lemma pick_staged_ok:
  assumes ok: "stg_ok s" and ne: "staged_work s \<noteq> []"
  shows "\<exists>p \<in> set (staged_work s). pick_staged s = Inr p"
proof (cases "staged_rollable s < int (length (staged_work s))")
  case True
  let ?P = "\<lambda>p. \<not> work_rollable (item s p)"
  have "length (filter (\<lambda>p. work_rollable (item s p)) (staged_work s)) < length (staged_work s)"
    using True stg_okD(4) [OF ok] by linarith
  then have "\<exists>p \<in> set (staged_work s). ?P p"
    using filter_True [of "staged_work s" "\<lambda>p. work_rollable (item s p)"] by (metis less_irrefl)
  then obtain p where "find ?P (staged_work s) = Some p" "p \<in> set (staged_work s)" using find_exists [of _ _ ?P] by meson
  then show ?thesis using True find_first_ok [OF stg_okD(3) [OF ok]] by (auto simp: pick_staged_def)
next
  case False
  then show ?thesis using ne by (cases "staged_work s") (auto simp: pick_staged_def)
qed

lemma length_filter_remove1:
  "distinct xs \<Longrightarrow> x \<in> set xs \<Longrightarrow> length (filter P (remove1 x xs)) + (if P x then 1 else 0) = length (filter P xs)"
  by (induction xs) auto

lemma remove_staged_ok:
  assumes ok: "stg_ok s" and p: "p \<in> set (staged_work s)"
    and k: "k = (if work_rollable (item s p) then staged_rollable s - 1 else staged_rollable s)"
  shows "stg_ok (s\<lparr>staged_work := remove1 p (staged_work s), staged_rollable := k, no_work := b\<rparr>)"
proof -
  have d: "distinct (staged_work s)" using ok by (simp add: stg_ok_def)
  have "int (length (filter (\<lambda>p. work_rollable (item s p)) (remove1 p (staged_work s)))) \<le> k"
    using length_filter_remove1 [OF d p, of "\<lambda>p. work_rollable (item s p)"] stg_okD(4) [OF ok] k by (simp split: if_splits)
  then show ?thesis using ok by (auto simp: stg_ok_def dest: notin_set_remove1)
qed

lemma take_staged_ok:
  assumes ok: "stg_ok s" and ne: "staged_work s \<noteq> []"
  obtains p s' where "take_staged s = Inr (Some p, s')" "p \<in> set (staged_work s)" "staged_work s' = remove1 p (staged_work s)"
    "sg_mem s' = sg_mem s" "stg_ok s'" "pick_staged s = Inr p"
    "\<not> work_rollable (item s p) \<Longrightarrow> staged_rollable s' = staged_rollable s"
proof -
  obtain p where p: "p \<in> set (staged_work s)" "pick_staged s = Inr p" using pick_staged_ok [OF assms] by blast
  obtain w where w: "works (sg_mem s) p = Some w" "at_work (sg_mem s) p = Inr w" using staged_item [OF ok p(1)] by blast
  let ?k = "if work_rollable w then staged_rollable s - 1 else staged_rollable s"
  let ?s = "s\<lparr>staged_work := remove1 p (staged_work s), staged_rollable := ?k, no_work := False\<rparr>"
  have "pick_staged (s\<lparr>no_work := False\<rparr>) = pick_staged s" by (simp add: pick_staged_def)
  then have "pick_staged (s\<lparr>no_work := False\<rparr>) = Inr p" using p(2) by simp
  then have "take_staged s = Inr (Some p, ?s)" using w(2) by (simp add: take_staged_def)
  moreover have "stg_ok ?s" using remove_staged_ok [OF ok p(1)] w(1) by simp
  ultimately show thesis using that [of p ?s] p w(1) by simp
qed

lemma hash_push_ok:
  assumes ok: "stg_ok s" and "p \<in> dom (works (sg_mem s))" "p \<notin> set (staged_work s)" "p \<notin> set (queued_work (sg_mem s))"
    "unqueued_work (sg_mem s) \<noteq> Some p"
  obtains s' where "hash_push s p = Inr (\<not> getq_frozen s, s')" "stg_ok s'" "sg_mem s' = sg_mem s"
    "staged_work s' = (if getq_frozen s then staged_work s else sort_key (tv_staged s) (staged_work s @ [p]))"
proof -
  obtain w where w: "works (sg_mem s) p = Some w" using assms(2) by blast
  let ?s = "if work_rollable w then s\<lparr>staged_rollable := staged_rollable s + 1\<rparr> else s"
  let ?t = "?s\<lparr>staged_work := sort_key (tv_staged s) (staged_work s @ [p])\<rparr>"
  have push: "hash_push s p = Inr (\<not> getq_frozen s, if getq_frozen s then ?s else ?t)"
    using w assms(3) by (auto simp: hash_push_def at_work_def Let_def)
  have count: "length (filter P (sort_key f xs)) = length (filter P xs)" for P and f :: "int \<Rightarrow> int" and xs
    by (simp add: filter_sort)
  have "stg_ok ?s" using ok by (auto simp: stg_ok_def)
  moreover have "stg_ok ?t"
    using ok assms(2-5) w by (auto simp: stg_ok_def count distinct_insort)
  ultimately show thesis using that push by simp
qed

section \<open>Stale items go, the others stay\<close>

definition stale_now :: "cfg \<Rightarrow> mem \<Rightarrow> int \<Rightarrow> bool" where
  "stale_now g m p = (stale_work g m p False = Inr True)"

text \<open>What the test of an item reads of its pool.\<close>

definition same_pools :: "mem \<Rightarrow> mem \<Rightarrow> bool" where
  "same_pools m m' \<longleftrightarrow> (\<forall>n. p_has_stratum (pools m' n) = p_has_stratum (pools m n) \<and>
     p_stratum_active (pools m' n) = p_stratum_active (pools m n) \<and> p_stratum_notify (pools m' n) = p_stratum_notify (pools m n))"

lemma same_pools_refl [simp]: "same_pools m m"
  by (simp add: same_pools_def)

lemma same_pools_trans: "same_pools m m' \<Longrightarrow> same_pools m' m'' \<Longrightarrow> same_pools m m''"
  by (simp add: same_pools_def)

lemma stale_now_cong: "same_pools m m' \<Longrightarrow> works m' p = works m p \<Longrightarrow> stale_now g m' p = stale_now g m p"
  by (auto simp: stale_now_def stale_work_def same_pools_def at_work_def at_pool_def Let_def split: option.split)

text \<open>Freeing a staged item, after it was counted or not.\<close>

lemma discard_same_pools: "discard_work m (Some p) = Inr m' \<Longrightarrow> same_pools m m'"
  by (auto simp: discard_work_def same_pools_def free_work_def clean_work_def at_work_def pool_upd_def put_work_def Let_def
      split: option.splits if_splits)

lemma free_staged_ok:
  assumes ok: "stg_ok s" and p: "p \<in> set (staged_work s)"
    and m: "m = (sg_mem s)\<lparr>pools := pls, total_discarded := n, works := (works (sg_mem s))(p := None)\<rparr>"
  shows "stg_ok (s\<lparr>sg_mem := m, staged_work := remove1 p (staged_work s)\<rparr>)"
proof -
  have d: "distinct (staged_work s)" using ok by (simp add: stg_ok_def)
  let ?m = "(sg_mem s)\<lparr>pools := pls, total_discarded := n\<rparr>"
  have "mem_ok ?m" using stg_okD(1) [OF ok] by (simp add: mem_ok_pools)
  then have "mem_ok m" using free_ok [of ?m p] staged_apart [OF ok p] unfolding m by simp
  moreover have "filter (\<lambda>q. work_rollable (the (works m q))) (remove1 p (staged_work s)) =
      filter (\<lambda>q. work_rollable (item s q)) (remove1 p (staged_work s))"
    using d by (intro filter_cong) (auto simp: m)
  moreover have "length (filter (\<lambda>q. work_rollable (item s q)) (remove1 p (staged_work s)))
      \<le> length (filter (\<lambda>q. work_rollable (item s q)) (staged_work s))"
    using length_filter_remove1 [OF d p, of "\<lambda>q. work_rollable (item s q)"] by linarith
  ultimately show ?thesis using ok p d by (auto simp: stg_ok_def m)
qed

lemma discard_staged:
  assumes "stg_ok s" and "p \<in> set (staged_work s)"
  obtains m where "discard_work (sg_mem s) (Some p) = Inr m" "same_pools (sg_mem s) m"
    "works m = (works (sg_mem s))(p := None)" "stg_ok (s\<lparr>sg_mem := m, staged_work := remove1 p (staged_work s)\<rparr>)"
proof -
  obtain pls n where d: "discard_work (sg_mem s) (Some p) =
      Inr ((sg_mem s)\<lparr>pools := pls, total_discarded := n, works := (works (sg_mem s))(p := None)\<rparr>)"
    using discard_work_eq [OF staged_apart(1) [OF assms]] by blast
  show thesis using that [OF d discard_same_pools [OF d]] free_staged_ok [OF assms refl] by simp
qed

lemma stale_staged:
  assumes "stg_ok s" and "p \<in> set (staged_work s)"
  shows "stale_work g (sg_mem s) p False = Inr (stale_now g (sg_mem s) p)"
proof -
  obtain b where "stale_work g (sg_mem s) p False = Inr b"
    using stale_work_ok [OF stg_okD(1) [OF assms(1)] staged_apart(1) [OF assms]] .
  then show ?thesis by (simp add: stale_now_def)
qed

lemma drop_stale_ok:
  assumes "stg_ok s" and "distinct ps" and "set ps \<subseteq> set (staged_work s)"
  shows "\<exists>s'. drop_stale g ps s = Inr s' \<and> stg_ok s' \<and>
    staged_work s' = filter (\<lambda>p. p \<notin> set ps \<or> \<not> stale_now g (sg_mem s) p) (staged_work s) \<and>
    (\<forall>q. works (sg_mem s') q = (if q \<in> set ps \<and> stale_now g (sg_mem s) q then None else works (sg_mem s) q))"
  using assms
proof (induction ps arbitrary: s)
  case Nil
  then show ?case by simp
next
  case (Cons p ps)
  have p: "p \<in> set (staged_work s)" "p \<notin> set ps" using Cons.prems by auto
  note stale = stale_staged [OF Cons.prems(1) p(1), of g]
  show ?case
  proof (cases "stale_now g (sg_mem s) p")
    case False
    obtain s' where "drop_stale g ps s = Inr s'" "stg_ok s'"
        "staged_work s' = filter (\<lambda>q. q \<notin> set ps \<or> \<not> stale_now g (sg_mem s) q) (staged_work s)"
        "\<forall>q. works (sg_mem s') q = (if q \<in> set ps \<and> stale_now g (sg_mem s) q then None else works (sg_mem s) q)"
      using Cons.IH [of s] Cons.prems by auto
    then show ?thesis using False stale by (auto intro!: filter_cong)
  next
    case True
    obtain m where m: "discard_work (sg_mem s) (Some p) = Inr m" "same_pools (sg_mem s) m"
        "works m = (works (sg_mem s))(p := None)" "stg_ok (s\<lparr>sg_mem := m, staged_work := remove1 p (staged_work s)\<rparr>)"
      using discard_staged [OF Cons.prems(1) p(1)] .
    let ?s = "s\<lparr>sg_mem := m, staged_work := remove1 p (staged_work s)\<rparr>"
    have d: "distinct (staged_work s)" using Cons.prems(1) by (simp add: stg_ok_def)
    have same: "q \<noteq> p \<Longrightarrow> stale_now g m q = stale_now g (sg_mem s) q" for q
      using stale_now_cong [OF m(2), of q g] m(3) by simp
    have "set ps \<subseteq> set (staged_work ?s)" using Cons.prems(3) p(2) d by auto
    with Cons.IH [of ?s] m(4) Cons.prems(2) obtain s' where s': "drop_stale g ps ?s = Inr s'" "stg_ok s'"
        "staged_work s' = filter (\<lambda>q. q \<notin> set ps \<or> \<not> stale_now g m q) (remove1 p (staged_work s))"
        "\<forall>q. works (sg_mem s') q = (if q \<in> set ps \<and> stale_now g m q then None else works m q)" by auto
    have "remove1 p (staged_work s) = filter (\<lambda>q. q \<noteq> p) (staged_work s)"
      using d by (auto simp: distinct_remove1_removeAll removeAll_filter_not_eq intro!: filter_cong)
    then have "staged_work s' = filter (\<lambda>q. q \<notin> set (p # ps) \<or> \<not> stale_now g (sg_mem s) q) (staged_work s)"
      using same True p(2) by (fastforce simp: s'(3) intro: filter_cong)
    moreover have "\<forall>q. works (sg_mem s') q = (if q \<in> set (p # ps) \<and> stale_now g (sg_mem s) q then None else works (sg_mem s) q)"
      using s'(4) same True p(2) m(3) by auto
    ultimately show ?thesis using s'(1,2) stale True m(1) by auto
  qed
qed

lemma drop_pool_ok:
  assumes "stg_ok s" and "distinct ps" and "set ps \<subseteq> set (staged_work s)"
  shows "\<exists>s'. drop_pool n ps s = Inr s' \<and> stg_ok s' \<and>
    staged_work s' = filter (\<lambda>p. p \<notin> set ps \<or> w_pool (item s p) \<noteq> Some n) (staged_work s) \<and>
    (\<forall>q. works (sg_mem s') q = (if q \<in> set ps \<and> w_pool (item s q) = Some n then None else works (sg_mem s) q))"
  using assms
proof (induction ps arbitrary: s)
  case Nil
  then show ?case by simp
next
  case (Cons p ps)
  have p: "p \<in> set (staged_work s)" "p \<notin> set ps" using Cons.prems by auto
  obtain w where w: "works (sg_mem s) p = Some w" "at_work (sg_mem s) p = Inr w" using staged_item [OF Cons.prems(1) p(1)] by blast
  show ?case
  proof (cases "w_pool w = Some n")
    case False
    obtain s' where "drop_pool n ps s = Inr s'" "stg_ok s'"
        "staged_work s' = filter (\<lambda>q. q \<notin> set ps \<or> w_pool (item s q) \<noteq> Some n) (staged_work s)"
        "\<forall>q. works (sg_mem s') q = (if q \<in> set ps \<and> w_pool (item s q) = Some n then None else works (sg_mem s) q)"
      using Cons.IH [of s] Cons.prems by auto
    then show ?thesis using False w by (auto intro!: filter_cong)
  next
    case True
    let ?m = "(sg_mem s)\<lparr>works := (works (sg_mem s))(p := None)\<rparr>"
    let ?s = "s\<lparr>sg_mem := ?m, staged_work := remove1 p (staged_work s)\<rparr>"
    have free: "free_work (sg_mem s) (Some p) = Inr ?m" using free_work_eq [OF staged_apart(1) [OF Cons.prems(1) p(1)]] .
    have ok: "stg_ok ?s" using free_staged_ok [OF Cons.prems(1) p(1), where m = ?m and pls = "pools (sg_mem s)" and n = "total_discarded (sg_mem s)"] by simp
    have d: "distinct (staged_work s)" using Cons.prems(1) by (simp add: stg_ok_def)
    have "set ps \<subseteq> set (staged_work ?s)" using Cons.prems(3) p(2) d by auto
    with Cons.IH [of ?s] ok Cons.prems(2) obtain s' where s': "drop_pool n ps ?s = Inr s'" "stg_ok s'"
        "staged_work s' = filter (\<lambda>q. q \<notin> set ps \<or> w_pool (item ?s q) \<noteq> Some n) (remove1 p (staged_work s))"
        "\<forall>q. works (sg_mem s') q = (if q \<in> set ps \<and> w_pool (item ?s q) = Some n then None else works ?m q)" by auto
    have "remove1 p (staged_work s) = filter (\<lambda>q. q \<noteq> p) (staged_work s)"
      using d by (auto simp: distinct_remove1_removeAll removeAll_filter_not_eq intro!: filter_cong)
    then have "staged_work s' = filter (\<lambda>q. q \<notin> set (p # ps) \<or> w_pool (item s q) \<noteq> Some n) (staged_work s)"
      using True w by (auto simp: s'(3) intro!: filter_cong)
    moreover have "\<forall>q. works (sg_mem s') q = (if q \<in> set (p # ps) \<and> w_pool (item s q) = Some n then None else works (sg_mem s) q)"
      using s'(4) True w p(2) by auto
    ultimately show ?thesis using s'(1,2) True w free by auto
  qed
qed

section \<open>The next item\<close>

definition no_rollable :: "stg \<Rightarrow> bool" where
  "no_rollable s \<longleftrightarrow> (\<forall>p \<in> set (staged_work s). \<not> work_rollable (item s p))"

lemma pick_first:
  assumes "stg_ok s" and "no_rollable s" and "staged_work s = p # ps"
  shows "pick_staged s = Inr p"
proof -
  have "find_first (\<lambda>w. \<not> work_rollable w) (sg_mem s) (staged_work s) = Inr (Some p)"
    using find_first_ok [OF stg_okD(3) [OF assms(1)]] assms(2,3) by (simp add: no_rollable_def)
  then show ?thesis using assms(3) by (simp add: pick_staged_def)
qed

lemma get_round_first:
  assumes ok: "stg_ok s" and nr: "no_rollable s" and st: "staged_work s = p # ps" and nb: "\<not> opt_benchmark (sv_cfg e)"
  obtains s' where "stg_ok s'" "no_rollable s'" "staged_work s' = ps" "same_pools (sg_mem s) (sg_mem s')"
    "stale_now (sv_cfg e) (sg_mem s) p \<Longrightarrow> get_round e s = Some (Inr (None, s')) \<and> works (sg_mem s') = (works (sg_mem s))(p := None)"
    "\<not> stale_now (sv_cfg e) (sg_mem s) p \<Longrightarrow> get_round e s = Some (Inr (Some p, s')) \<and>
       works (sg_mem s') = (works (sg_mem s))(p \<mapsto> (item s p)\<lparr>w_mined := True,
         w_device_diff := max (sv_min_diff e) (min (sv_max_diff e) (w_work_difficulty (item s p)))\<rparr>)"
proof -
  have p: "p \<in> set (staged_work s)" and np: "p \<notin> set ps" using ok st by (auto simp: stg_ok_def)
  obtain w n where w: "works (sg_mem s) p = Some w" "w_pool w = Some n" using staged_item [OF ok p] by blast
  have "\<not> work_rollable (item s p)" using nr st by (simp add: no_rollable_def)
  then obtain s1 where s1: "take_staged s = Inr (Some p, s1)" "staged_work s1 = ps" "sg_mem s1 = sg_mem s" "stg_ok s1"
      "staged_rollable s1 = staged_rollable s"
    using take_staged_ok [OF ok] pick_first [OF ok nr st] st by (metis Inr_inject list.distinct(1) remove1.simps(2))
  have round: "get_round e s = Some (bindR (Inr (Some p, s1)) (\<lambda>(po, s). case po of None \<Rightarrow> Inl NullWork
     | Some p \<Rightarrow> bindR (stale_work (sv_cfg e) (sg_mem s) p False) (\<lambda>stale.
         if stale then bindR (discard_work (sg_mem s) (Some p)) (\<lambda>m. Inr (None, s\<lparr>sg_mem := m\<rparr>))
         else bindR (hand_out e s p) (\<lambda>(p, s). Inr (Some p, s)))))"
    using s1(1) st by (simp add: get_round_def hash_pop_def)
  note stale = stale_staged [OF ok p, of "sv_cfg e"]
  have nr1: "\<forall>q \<in> set ps. \<not> work_rollable (item s q)" using nr st by (simp add: no_rollable_def)
  show thesis
  proof (cases "stale_now (sv_cfg e) (sg_mem s) p")
    case True
    obtain m where m: "discard_work (sg_mem s) (Some p) = Inr m" "same_pools (sg_mem s) m"
        "works m = (works (sg_mem s))(p := None)" "stg_ok (s\<lparr>sg_mem := m, staged_work := remove1 p (staged_work s)\<rparr>)"
      using discard_staged [OF ok p] .
    let ?s = "s1\<lparr>sg_mem := m\<rparr>"
    have "stg_ok ?s" using m(4) s1(2,5) st by (simp add: stg_ok_def)
    moreover have "no_rollable ?s" using nr1 np by (auto simp: no_rollable_def s1(2) m(3))
    moreover have "get_round e s = Some (Inr (None, ?s))" using round s1(3) stale True m(1) by simp
    ultimately show ?thesis using that [of ?s] True m(2,3) s1(2) by simp
  next
    case False
    let ?w = "w\<lparr>w_mined := True, w_device_diff := max (sv_min_diff e) (min (sv_max_diff e) (w_work_difficulty w))\<rparr>"
    let ?s = "s1\<lparr>sg_mem := put_work (sg_mem s) p ?w\<rparr>"
    have "mem_ok (put_work (sg_mem s) p ?w)" using stg_okD(1) [OF ok] w by (intro mem_ok_put) auto
    moreover have "filter (\<lambda>q. work_rollable (the (((works (sg_mem s))(p \<mapsto> ?w)) q))) ps = filter (\<lambda>q. work_rollable (item s q)) ps"
      using np by (intro filter_cong) auto
    ultimately have "stg_ok ?s" using s1 by (auto simp: stg_ok_def)
    moreover have "no_rollable ?s" using nr1 np by (auto simp: no_rollable_def s1(2))
    moreover have "get_round e s = Some (Inr (Some p, ?s))"
      using round s1(3) stale False w nb by (simp add: hand_out_def at_work_def)
    moreover have "same_pools (sg_mem s) (sg_mem ?s)" by (simp add: same_pools_def)
    ultimately show ?thesis using that [of ?s] False w s1(2) by simp
  qed
qed

text \<open>
  What \<open>get_work\<close> makes of the item it hands out.
\<close>

definition handed :: "get_env \<Rightarrow> gwork \<Rightarrow> gwork" where
  "handed e w = w\<lparr>w_mined := True, w_device_diff := max (sv_min_diff e) (min (sv_max_diff e) (w_work_difficulty w))\<rparr>"

lemma get_work_first:
  assumes "stg_ok s" and "no_rollable s" and "staged_work s = old @ p # rest" and "\<not> opt_benchmark (sv_cfg e)"
    and "\<forall>q \<in> set old. stale_now (sv_cfg e) (sg_mem s) q" and "\<not> stale_now (sv_cfg e) (sg_mem s) p"
  shows "\<exists>s'. get_work e s = Some (Inr (p, s')) \<and> staged_work s' = rest \<and> stg_ok s' \<and>
     works (sg_mem s') = (\<lambda>q. if q \<in> set old then None else works (sg_mem s) q)(p \<mapsto> handed e (item s p))"
  using assms
proof (induction old arbitrary: s)
  case Nil
  obtain s' where "get_round e s = Some (Inr (Some p, s'))" "stg_ok s'" "staged_work s' = rest"
      "works (sg_mem s') = (works (sg_mem s))(p \<mapsto> handed e (item s p))"
    using get_round_first [OF Nil(1,2) _ Nil(4), of p rest] Nil(3,6) by (auto simp: handed_def)
  then show ?case by (subst get_work.simps) simp
next
  case (Cons q old)
  have st: "staged_work s = q # old @ p # rest" using Cons.prems(3) by simp
  have np: "p \<noteq> q" "q \<notin> set old" "p \<notin> set old" using Cons.prems(1) st by (auto simp: stg_ok_def)
  obtain s1 where s1: "stg_ok s1" "no_rollable s1" "staged_work s1 = old @ p # rest" "same_pools (sg_mem s) (sg_mem s1)"
      "get_round e s = Some (Inr (None, s1))" "works (sg_mem s1) = (works (sg_mem s))(q := None)"
    using get_round_first [OF Cons.prems(1,2) st Cons.prems(4)] Cons.prems(5) by (metis list.set_intros(1))
  have same: "stale_now (sv_cfg e) (sg_mem s1) r = stale_now (sv_cfg e) (sg_mem s) r" if "r \<noteq> q" for r
    using stale_now_cong [OF s1(4), of r "sv_cfg e"] that s1(6) by simp
  have "\<forall>r \<in> set old. stale_now (sv_cfg e) (sg_mem s1) r" using Cons.prems(5) np(2) same by fastforce
  moreover have "\<not> stale_now (sv_cfg e) (sg_mem s1) p" using Cons.prems(6) np(1) same by simp
  ultimately obtain s' where s': "get_work e s1 = Some (Inr (p, s'))" "staged_work s' = rest" "stg_ok s'"
      "works (sg_mem s') = (\<lambda>q. if q \<in> set old then None else works (sg_mem s1) q)(p \<mapsto> handed e (item s1 p))"
    using Cons.IH [OF s1(1,2,3) Cons.prems(4)] by blast
  have "get_work e s = get_work e s1" by (subst get_work.simps) (simp add: s1(5))
  moreover have "works (sg_mem s') = (\<lambda>r. if r \<in> set (q # old) then None else works (sg_mem s) r)(p \<mapsto> handed e (item s p))"
    using np(1) by (auto simp: s'(4) s1(6) fun_eq_iff)
  ultimately show ?case using s'(1-3) by auto
qed

section \<open>The order of the table\<close>

text \<open>The table is in the order of the seconds, and within a second in the order of staging; \<open>push_all\<close> stages several items, one
  after the other.\<close>

definition staged_sorted :: "stg \<Rightarrow> bool" where
  "staged_sorted s \<longleftrightarrow> sorted (map (tv_staged s) (staged_work s))"

fun push_all :: "int list \<Rightarrow> stg \<Rightarrow> work_err + stg" where
  "push_all [] s = Inr s"
| "push_all (q # qs) s = bindR (hash_push s q) (\<lambda>(_, s). push_all qs s)"

definition can_stage :: "stg \<Rightarrow> int \<Rightarrow> bool" where
  "can_stage s q \<longleftrightarrow> q \<in> dom (works (sg_mem s)) \<and> q \<notin> set (staged_work s) \<and> q \<notin> set (queued_work (sg_mem s)) \<and>
     unqueued_work (sg_mem s) \<noteq> Some q"

lemma hash_push_keeps: "hash_push s q = Inr (b, s') \<Longrightarrow> tv_staged s' = tv_staged s \<and> getq_frozen s' = getq_frozen s"
  by (auto simp: hash_push_def at_work_def Let_def split: option.splits if_splits)

lemma sort_key_sorted_prefix: "sort_key f (sort_key f xs @ ys) = sort_key f (xs @ ys)"
proof (rule properties_for_sort_key)
  fix k
  have eq: "(\<lambda>x. f k = f x) = (\<lambda>x. f x = f k)" by auto
  show "filter (\<lambda>x. f k = f x) (sort_key f (xs @ ys)) = filter (\<lambda>x. f k = f x) (sort_key f xs @ ys)"
    unfolding eq filter_append sort_key_stable ..
qed simp_all

lemma push_all_ok:
  assumes "stg_ok s" and "\<not> getq_frozen s" and "distinct qs" and "\<forall>q \<in> set qs. can_stage s q" and "staged_sorted s"
  shows "\<exists>t. push_all qs s = Inr t \<and> stg_ok t \<and> sg_mem t = sg_mem s \<and> staged_work t = sort_key (tv_staged s) (staged_work s @ qs)"
  using assms
proof (induction qs arbitrary: s)
  case Nil
  then show ?case by (simp add: staged_sorted_def sort_key_id_if_sorted)
next
  case (Cons q qs)
  have q: "q \<in> dom (works (sg_mem s))" "q \<notin> set (staged_work s)" "q \<notin> set (queued_work (sg_mem s))" "unqueued_work (sg_mem s) \<noteq> Some q"
    using Cons.prems(4) by (simp_all add: can_stage_def)
  obtain s1 where s1: "hash_push s q = Inr (\<not> getq_frozen s, s1)" "stg_ok s1" "sg_mem s1 = sg_mem s"
      "staged_work s1 = sort_key (tv_staged s) (staged_work s @ [q])"
    using hash_push_ok [OF Cons.prems(1) q] Cons.prems(2) by metis
  note keep = hash_push_keeps [OF s1(1)]
  have "\<forall>p \<in> set qs. can_stage s1 p" using Cons.prems(3,4) by (auto simp: can_stage_def s1(3,4))
  moreover have "staged_sorted s1" using keep by (simp add: staged_sorted_def s1(4))
  ultimately obtain t where "push_all qs s1 = Inr t" "stg_ok t" "sg_mem t = sg_mem s1"
      "staged_work t = sort_key (tv_staged s1) (staged_work s1 @ qs)"
    using Cons.IH [OF s1(2)] Cons.prems(2,3) keep by auto
  then show ?case using s1(1,3) keep by (simp add: s1(4) sort_key_sorted_prefix)
qed

text \<open>C20: Items staged in any order on a table that is in the order of time leave it in that order; when none of them is rollable,
  \<open>get_work\<close> then returns: it hands out the item of the earliest second among those that are not stale, of several the one staged
  first, marked as mined and with its difficulty in the limits of the driver; the stale ones before it are freed, those behind it stay
  staged in order, and no other item changes.  (With rollable items about, the code prefers one that is not.)\<close>

theorem get_work_oldest:
  assumes "stg_ok s" and "staged_sorted s" and "\<not> getq_frozen s" and "distinct qs" and "\<forall>q \<in> set qs. can_stage s q"
    and "\<forall>q \<in> set (staged_work s @ qs). \<not> work_rollable (item s q)" and "\<not> opt_benchmark (sv_cfg e)"
    and "sort_key (tv_staged s) (staged_work s @ qs) = old @ p # rest"
    and "\<forall>q \<in> set old. stale_now (sv_cfg e) (sg_mem s) q" and "\<not> stale_now (sv_cfg e) (sg_mem s) p"
  shows "(\<exists>t s'. push_all qs s = Inr t \<and> get_work e t = Some (Inr (p, s')) \<and> staged_work s' = rest \<and> stg_ok s' \<and>
      works (sg_mem s') = (\<lambda>q. if q \<in> set old then None else works (sg_mem s) q)(p \<mapsto> handed e (item s p))) \<and>
    (\<forall>q \<in> set (staged_work s @ qs). \<not> stale_now (sv_cfg e) (sg_mem s) q \<longrightarrow> tv_staged s p \<le> tv_staged s q)"
proof
  obtain t where t: "push_all qs s = Inr t" "stg_ok t" "sg_mem t = sg_mem s" "staged_work t = old @ p # rest"
    using push_all_ok [OF assms(1,3,4,5,2)] assms(8) by auto
  have set: "set (old @ p # rest) = set (staged_work s @ qs)" using arg_cong [OF assms(8), of set] by simp
  have "no_rollable t" using assms(6) unfolding no_rollable_def t(3,4) set .
  from get_work_first [OF t(2) this t(4) assms(7), unfolded t(3)] assms(9,10) t(1) show "\<exists>t s'. push_all qs s = Inr t \<and>
      get_work e t = Some (Inr (p, s')) \<and> staged_work s' = rest \<and> stg_ok s' \<and>
      works (sg_mem s') = (\<lambda>q. if q \<in> set old then None else works (sg_mem s) q)(p \<mapsto> handed e (item s p))" by blast
  have "sorted (map (tv_staged s) (old @ p # rest))" unfolding assms(8) [symmetric] by simp
  then show "\<forall>q \<in> set (staged_work s @ qs). \<not> stale_now (sv_cfg e) (sg_mem s) q \<longrightarrow> tv_staged s p \<le> tv_staged s q"
    using assms(9) unfolding set [symmetric] by (auto simp: sorted_append)
qed

definition demo_staged :: stg where
  "demo_staged = \<lparr>sg_mem = demo_mem\<lparr>works := (works demo_mem)(3 \<mapsto> zero_work\<lparr>w_pool := Some 0, w_work_block := 1\<rparr>,
       4 \<mapsto> zero_work\<lparr>w_pool := Some 0, w_work_difficulty := 50\<rparr>), next_ptr := 5\<rparr>,
     staged_work = [3, 4], staged_rollable = 0, tv_staged = (\<lambda>_. 0), getq_frozen = False, no_work = False, work_emptied = False\<rparr>"

lemma demo_staged_ok: "stg_ok demo_staged"
  by (auto simp: stg_ok_def demo_staged_def mem_ok_def demo_mem_def work_rollable_def zero_work_def split: if_splits)

text \<open>One item of second 9 is staged; one of second 7 comes, and then a stale one of second 5.\<close>

definition late_staged :: stg where
  "late_staged = demo_staged\<lparr>sg_mem := (sg_mem demo_staged)\<lparr>works := (works (sg_mem demo_staged))(5 \<mapsto> zero_work\<lparr>w_pool := Some 0\<rparr>), next_ptr := 6\<rparr>,
     staged_work := [4], tv_staged := (\<lambda>q. if q = 3 then 5 else if q = 5 then 7 else 9)\<rparr>"

lemma get_work_oldest_witness:
  "\<exists>t s'. push_all [5, 3] late_staged = Inr t \<and>
     get_work \<lparr>sv_cfg = demo_cfg, sv_others = (\<lambda>s. (True, s)), sv_min_diff = 1, sv_max_diff = 10, sv_bench = id\<rparr> t = Some (Inr (5, s')) \<and>
     staged_work s' = [4]"
proof -
  let ?e = "\<lparr>sv_cfg = demo_cfg, sv_others = (\<lambda>s. (True, s)), sv_min_diff = 1, sv_max_diff = 10, sv_bench = id\<rparr>"
  note d = late_staged_def demo_staged_def demo_mem_def zero_work_def
  have "stg_ok late_staged" by (auto simp: stg_ok_def d mem_ok_def work_rollable_def split: if_splits)
  moreover have "staged_sorted late_staged" "\<not> getq_frozen late_staged" "distinct [5, 3 :: int]" by (simp_all add: staged_sorted_def d)
  moreover have "\<forall>q \<in> set [5, 3]. can_stage late_staged q" by (simp add: can_stage_def d)
  moreover have "\<forall>q \<in> set (staged_work late_staged @ [5, 3]). \<not> work_rollable (item late_staged q)" by (simp add: work_rollable_def d)
  moreover have "\<not> opt_benchmark (sv_cfg ?e)" by (simp add: demo_cfg_def)
  moreover have "sort_key (tv_staged late_staged) (staged_work late_staged @ [5, 3]) = [3] @ 5 # [4]" by (simp add: d)
  moreover have "\<forall>q \<in> set [3]. stale_now (sv_cfg ?e) (sg_mem late_staged) q"
    by (simp add: stale_now_def stale_work_def demo_cfg_def d at_work_def)
  moreover have "\<not> stale_now (sv_cfg ?e) (sg_mem late_staged) 5"
    by (simp add: stale_now_def stale_work_def demo_cfg_def d demo_pool_def at_work_def at_pool_def)
  ultimately show ?thesis using get_work_oldest [of late_staged "[5, 3]" ?e "[3]" 5 "[4]"] by blast
qed

text \<open>A change of the current block, and the loss of a pool, empty the table of what they concern.\<close>

lemma discard_stale_spec:
  assumes "stg_ok s"
  shows "\<exists>s'. discard_stale g s = Inr s' \<and> stg_ok s' \<and> staged_work s' = filter (\<lambda>p. \<not> stale_now g (sg_mem s) p) (staged_work s)"
  using drop_stale_ok [OF assms stg_okD(2) [OF assms] subset_refl, of g] by (auto simp: discard_stale_def intro!: filter_cong)

lemma clear_pool_work_spec:
  assumes "stg_ok s"
  shows "\<exists>s'. clear_pool_work n s = Inr s' \<and> stg_ok s' \<and> staged_work s' = filter (\<lambda>p. w_pool (item s p) \<noteq> Some n) (staged_work s)"
  using drop_pool_ok [OF assms stg_okD(2) [OF assms] subset_refl, of n] by (auto simp: clear_pool_work_def intro!: filter_cong)

end
