(* ===== verification/Getwork.thy ===== *)
theory Getwork
  imports Net Staged
begin

text \<open>
  The protocol between the T4 miner and its pools (getwork.c): logging in, jobs made into items for every
  device, results written into submissions, and the answers counted as accepted or rejected.  The table of
  shares and the staged items are shared by all pools.  What lies in memory behind a string,
  the quotient that gives a difficulty (floating point) and the seconds the clock shows are arguments.
\<close>

section \<open>State\<close>

text \<open>The fields of a pool that are not those of Works.\<close>

record spool =
  sp_rejected :: int
  sp_seq_rejects :: int
  sp_sshares :: int
  sp_diff_rejected :: rat
  sp_getwork_requested :: int
  sp_sdiff :: rat
  sp_nicehash :: bool
  sp_nonce1 :: "cstr option"
  sp_submit_fail :: bool
  sp_remotefail :: int
  sp_last_share_diff :: rat
  sp_stratum_init :: bool
  sp_getfail :: int

record sshare =
  ss_id :: u32
  ss_work :: int

text \<open>
  \<open>stratum_shares\<close> is the hash table, \<open>rpc2_id\<close> the three rows of 64 bytes, \<open>restarts\<close> the calls of \<open>restart_threads\<close>.
\<close>

record gw =
  gw_stg :: stg
  gw_pools :: "nat \<Rightarrow> spool"
  rpc2_id :: "u8 list"
  rpc2_blob :: "u8 list option"
  rpc2_target :: u32
  rpc2_job_id :: "cstr option"
  stratum_diff :: rat
  stratum_shares :: "sshare list"
  swork_id :: u32
  total_getworks :: int
  local_work :: int
  total_rejected :: int
  total_diff_rejected :: rat
  cgpu_rejected :: int
  cgpu_diff_rejected :: rat
  cgpu_last_share_pool :: nat
  cgpu_last_share_diff :: rat
  total_ro :: int
  total_go :: int
  restarts :: nat

datatype gw_err = NullStr | PastArray | TextOverflow | ItemErr work_err

definition itemE :: "work_err + 'a \<Rightarrow> gw_err + 'a" where
  "itemE r = map_sum ItemErr id r"

lemma itemE_eq: "itemE r = Inr x \<longleftrightarrow> r = Inr x"
  by (cases r) (simp_all add: itemE_def)

abbreviation gw_mem :: "gw \<Rightarrow> mem" where
  "gw_mem s \<equiv> sg_mem (gw_stg s)"

definition set_mem :: "gw \<Rightarrow> mem \<Rightarrow> gw" where
  "set_mem s m = s\<lparr>gw_stg := (gw_stg s)\<lparr>sg_mem := m\<rparr>\<rparr>"

definition sp_upd :: "gw \<Rightarrow> nat \<Rightarrow> (spool \<Rightarrow> spool) \<Rightarrow> gw" where
  "sp_upd s n f = s\<lparr>gw_pools := (gw_pools s)(n := f (gw_pools s n))\<rparr>"

record gv_env =
  gv_devices :: nat
  gv_now :: "nat \<Rightarrow> int"
  gv_diff :: "u32 \<Rightarrow> rat"
  gv_behind :: "cstr \<Rightarrow> u8 list"

section \<open>Jobs\<close>

text \<open>Bytes in hexadecimal under a key: whether all were there, and those written.\<close>

definition jobj_binary :: "json option \<Rightarrow> string \<Rightarrow> nat \<Rightarrow> bool \<times> u8 list" where
  "jobj_binary obj key buflen =
     (case json_string_value (json_object_get obj (bytes_of key)) of None \<Rightarrow> (False, [])
      | Some hexstr \<Rightarrow> hex2bin hexstr buflen)"

definition blob_length_ok :: "cstr \<Rightarrow> bool" where
  "blob_length_ok hexblob =
     (let blobLen = length hexblob
      in \<not> (blobLen mod 2 \<noteq> 0 \<or> blobLen div 2 < 40 \<and> blobLen \<noteq> 0 \<or> 128 < blobLen div 2))"

text \<open>The job is kept; the result has the target as it stands in the job, least significant byte first.\<close>

definition store_job :: "gv_env \<Rightarrow> json option \<Rightarrow> u8 list \<Rightarrow> cstr option \<Rightarrow> gw \<Rightarrow> gw_err + (u8 list \<times> gw)" where
  "store_job e job blob job_id s =
     (let t = mem_write 0 (snd (jobj_binary job ''target'' 4)) (replicate 4 0); target = le32_at t 0;
          s = s\<lparr>rpc2_blob := Some blob\<rparr>;
          s = (if rpc2_target s \<noteq> target then s\<lparr>stratum_diff := gv_diff e target, rpc2_target := target\<rparr> else s)
      in case job_id of None \<Rightarrow> Inl NullStr | Some i \<Rightarrow> Inr (t, s\<lparr>rpc2_job_id := Some i\<rparr>))"

definition fill_item :: "u8 list \<Rightarrow> int \<Rightarrow> gw \<Rightarrow> gw_err + (bool \<times> gw)" where
  "fill_item t p s =
     (case rpc2_blob s of None \<Rightarrow> Inr (False, s)
      | Some blob \<Rightarrow>
          bindR (itemE (at_work (gw_mem s) p)) (\<lambda>w.
          case rpc2_job_id s of None \<Rightarrow> Inl NullStr
          | Some i \<Rightarrow> Inr (True, set_mem s (put_work (gw_mem s) p (w\<lparr>w_data := mem_write 0 blob (w_data w),
              w_target := mem_write 28 t (replicate 32 255), w_job_id := Some i, w_work_difficulty := stratum_diff s\<rparr>)))))"

definition rpc2_job_decode :: "gv_env \<Rightarrow> json option \<Rightarrow> int option \<Rightarrow> gw \<Rightarrow> gw_err + (bool \<times> gw)" where
  "rpc2_job_decode e job work s =
     (case (json_object_get job (bytes_of ''job_id''), json_object_get job (bytes_of ''blob'')) of
        (Some tmp, Some tmp') \<Rightarrow>
          let job_id = json_string_value (Some tmp)
          in case json_string_value (Some tmp') of None \<Rightarrow> Inl NullStr
          | Some hexblob \<Rightarrow>
              if \<not> blob_length_ok hexblob then Inr (False, s)
              else
                bindR (if hexblob = [] then Inr (Some (replicate 4 0), s)
                       else case hex2bin hexblob (length hexblob div 2) of (ok, blob) \<Rightarrow>
                         if \<not> ok then Inr (None, s)
                         else bindR (store_job e job blob job_id s) (\<lambda>(t, s). Inr (Some t, s)))
                  (\<lambda>(t, s). case t of None \<Rightarrow> Inr (False, s)
                    | Some t \<Rightarrow> (case work of None \<Rightarrow> Inr (True, s) | Some p \<Rightarrow> fill_item t p s))
      | _ \<Rightarrow> Inr (False, s))"

text \<open>Where the nonce of the first chip starts: the byte that tells the devices apart, and its step.\<close>

definition start_nonce_gap :: "nat \<Rightarrow> nat" where
  "start_nonce_gap total_devices = (256 + total_devices - 1) div total_devices"

definition nonce_byte :: "bool \<Rightarrow> nat" where
  "nonce_byte is_nicehash = (if is_nicehash then 41 else 42)"

text \<open>One device: a copy of the item, staged now.\<close>

definition stage_one :: "gv_env \<Rightarrow> nat \<Rightarrow> int \<Rightarrow> gw \<Rightarrow> nat \<Rightarrow> gw_err + gw" where
  "stage_one e n p s i =
     bindR (itemE (copy_work_noffset (gw_mem s) p 0)) (\<lambda>(q, m).
     let s = (set_mem s m)\<lparr>local_work := local_work s + 1\<rparr> in
     bindR (itemE (at_work m q)) (\<lambda>w.
     let d = (w_data w)[nonce_byte (sp_nicehash (gw_pools s n)) := of_nat (start_nonce_gap (gv_devices e) * i)];
         s = set_mem s (put_work m q (w\<lparr>w_data := d\<rparr>));
         stg = (gw_stg s)\<lparr>tv_staged := (tv_staged (gw_stg s))(q := gv_now e i)\<rparr>
     in bindR (itemE (hash_push stg q)) (\<lambda>(_, stg). Inr (s\<lparr>gw_stg := stg\<rparr>))))"

fun stage_all :: "gv_env \<Rightarrow> nat \<Rightarrow> int \<Rightarrow> nat list \<Rightarrow> gw \<Rightarrow> gw_err + gw" where
  "stage_all e n p [] s = Inr s"
| "stage_all e n p (i # is) s = bindR (stage_one e n p s i) (stage_all e n p is)"

text \<open>Whether the job could be decoded is not looked at; the item it was decoded into is freed in the end.\<close>

definition gen_getwork_work :: "gv_env \<Rightarrow> nat \<Rightarrow> json option \<Rightarrow> gw \<Rightarrow> gw_err + gw" where
  "gen_getwork_work e n job s =
     (let (p, m) = make_work (gw_mem s) in
      bindR (itemE (at_work m p)) (\<lambda>w.
      let s = set_mem s (put_work m p (w\<lparr>w_pool := Some n, w_stratum := True, w_nonce := 0\<rparr>)) in
      bindR (rpc2_job_decode e job (Some p) s) (\<lambda>(_, s).
      let s = set_mem s (pool_upd (gw_mem s) n (\<lambda>pl. pl\<lparr>p_works := p_works pl + 1\<rparr>));
          s = (sp_upd s n (\<lambda>pl. pl\<lparr>sp_getwork_requested := sp_getwork_requested pl + 1\<rparr>))\<lparr>total_getworks := total_getworks s + 1\<rparr>
      in bindR (stage_all e n p [0..<gv_devices e] s) (\<lambda>s.
         Inr (set_mem s ((gw_mem s)\<lparr>works := (works (gw_mem s))(p := None)\<rparr>))))))"

section \<open>Shares\<close>

definition count_accepted :: "nat \<Rightarrow> rat \<Rightarrow> gw \<Rightarrow> gw" where
  "count_accepted n d s =
     (let m = gw_mem s in set_mem s ((pool_upd m n (\<lambda>pl. pl\<lparr>p_accepted := p_accepted pl + 1, p_diff_accepted := p_diff_accepted pl + d\<rparr>))
        \<lparr>total_accepted := total_accepted m + 1, total_diff_accepted := total_diff_accepted m + d\<rparr>))"

definition count_rejected :: "nat \<Rightarrow> rat \<Rightarrow> gw \<Rightarrow> gw" where
  "count_rejected n d s =
     (sp_upd s n (\<lambda>pl. pl\<lparr>sp_rejected := sp_rejected pl + 1, sp_diff_rejected := sp_diff_rejected pl + d\<rparr>))
       \<lparr>total_rejected := total_rejected s + 1, total_diff_rejected := total_diff_rejected s + d\<rparr>"

text \<open>The answer to a share that was found in the table; the share counts for the pool of its item.\<close>

definition share_getwork_result :: "json option \<Rightarrow> int \<Rightarrow> gw \<Rightarrow> gw_err + gw" where
  "share_getwork_result val p s =
     bindR (itemE (at_work (gw_mem s) p)) (\<lambda>w.
     bindR (itemE (at_pool (gw_mem s) w)) (\<lambda>n.
     let d = w_work_difficulty w in
     if json_object_get val (bytes_of ''result'') \<noteq> None then
       let s = count_accepted n d s; m = gw_mem s;
           s = set_mem s (m\<lparr>cgpu_accepted := cgpu_accepted m + 1, cgpu_diff_accepted := cgpu_diff_accepted m + d\<rparr>);
           s = (sp_upd s n (\<lambda>pl. pl\<lparr>sp_seq_rejects := 0, sp_last_share_diff := d\<rparr>))\<lparr>cgpu_last_share_pool := n, cgpu_last_share_diff := d\<rparr>
       in Inr (if w_block w then s\<lparr>restarts := restarts s + 1\<rparr> else s)
     else
       Inr ((sp_upd (count_rejected n d s) n (\<lambda>pl. pl\<lparr>sp_seq_rejects := sp_seq_rejects pl + 1\<rparr>))
         \<lparr>cgpu_rejected := cgpu_rejected s + 1, cgpu_diff_rejected := cgpu_diff_rejected s + d\<rparr>)))"

definition answer_id :: "json option \<Rightarrow> u32" where
  "answer_id val = word_of_int (json_integer_value (json_object_get val (bytes_of ''id'')))"

definition parse_getwork_response :: "nat \<Rightarrow> json option \<Rightarrow> gw \<Rightarrow> gw_err + (bool \<times> gw)" where
  "parse_getwork_response n val s =
     (case find (\<lambda>ss. ss_id ss = answer_id val) (stratum_shares s) of
        Some ss \<Rightarrow>
          let s = (sp_upd s n (\<lambda>pl. pl\<lparr>sp_sshares := sp_sshares pl - 1\<rparr>))\<lparr>stratum_shares := remove1 ss (stratum_shares s)\<rparr>
          in bindR (share_getwork_result val (ss_work ss) s) (\<lambda>s. Inr (True, s))
      | None \<Rightarrow>
          let pool_diff = sp_sdiff (gw_pools s n)
          in Inr (False, if json_object_get val (bytes_of ''result'') \<noteq> None then count_accepted n pool_diff s
                         else count_rejected n pool_diff s))"

fun lose_shares :: "nat \<Rightarrow> sshare list \<Rightarrow> int \<times> rat \<Rightarrow> gw \<Rightarrow> gw_err + (int \<times> rat \<times> gw)" where
  "lose_shares n [] (cleared, diff) s = Inr (cleared, diff, s)"
| "lose_shares n (ss # sss) (cleared, diff) s =
     bindR (itemE (at_work (gw_mem s) (ss_work ss))) (\<lambda>w.
     if w_pool w = Some n then
       bindR (itemE (free_work (gw_mem s) (Some (ss_work ss)))) (\<lambda>m.
       lose_shares n sss (cleared + 1, diff + w_work_difficulty w)
         ((sp_upd (set_mem s m) n (\<lambda>pl. pl\<lparr>sp_sshares := sp_sshares pl - 1\<rparr>))\<lparr>stratum_shares := remove1 ss (stratum_shares s)\<rparr>))
     else lose_shares n sss (cleared, diff) s)"

definition clear_stratum_shares :: "nat \<Rightarrow> gw \<Rightarrow> gw_err + gw" where
  "clear_stratum_shares n s =
     bindR (lose_shares n (stratum_shares s) (0, 0) s) (\<lambda>(cleared, diff, s).
     if cleared = 0 then Inr s
     else let m = gw_mem s in
       Inr (set_mem s ((pool_upd m n (\<lambda>pl. pl\<lparr>p_stale_shares := p_stale_shares pl + cleared, p_diff_stale := p_diff_stale pl + diff\<rparr>))
         \<lparr>total_stale := total_stale m + cleared, total_diff_stale := total_diff_stale m + diff\<rparr>)))"

section \<open>Submitting\<close>

text \<open>A row of the identifiers, read up to its NUL or on into the next rows.\<close>

definition login_id :: "gw \<Rightarrow> nat \<Rightarrow> gw_err + cstr" where
  "login_id s n = (let row = drop (64 * n) (rpc2_id s)
     in if 0 \<in> set row then Inr (cstr_of row) else Inl PastArray)"

definition submit_text :: "gw \<Rightarrow> nat \<Rightarrow> gwork \<Rightarrow> u32 \<Rightarrow> gw_err + cstr" where
  "submit_text s n w i =
     bindR (login_id s n) (\<lambda>lid.
     case w_job_id w of None \<Rightarrow> Inl NullStr
     | Some job_id \<Rightarrow>
         let t = bytes_of (if sp_nicehash (gw_pools s n) then ''{\"method\": \"submit\",  \"jsonrpc\": \"2.0\", \"params\": ''
                           else ''{\"method\": \"submit\", \"params\": '') @
               bytes_of ''{\"id\": \"'' @ lid @ bytes_of ''\", \"job_id\": \"'' @ job_id @ bytes_of ''\", \"nonce\": \"'' @
               hex_text (le32_bytes (w_nonce w)) @ bytes_of ''\", \"result\": \"'' @ hex_text (w_hash w) @
               bytes_of ''\"},\"id\":'' @ int_text (sint i) @ bytes_of ''}'' @ [10]
         in if 1024 \<le> length t then Inl TextOverflow else Inr t)"

text \<open>The attempts within two minutes: whether each was sent, and whether the connection was needed.\<close>

fun submit_tries :: "nat \<Rightarrow> sshare \<Rightarrow> bool \<Rightarrow> (bool \<times> bool) list \<Rightarrow> gw \<Rightarrow> gw_err + (bool \<times> gw)" where
  "submit_tries n ss lowmem [] s = Inr (False, s)"
| "submit_tries n ss lowmem ((sent, needed) # tries) s =
     (if sent then Inr (True, (sp_upd s n (\<lambda>pl. pl\<lparr>sp_sshares := sp_sshares pl + 1, sp_submit_fail := False\<rparr>))
        \<lparr>stratum_shares := stratum_shares s @ [ss]\<rparr>)
      else
        let pl = gw_pools s n;
            s = (if \<not> sp_submit_fail pl \<and> needed
                 then (sp_upd s n (\<lambda>pl. pl\<lparr>sp_remotefail := sp_remotefail pl + 1\<rparr>))\<lparr>total_ro := total_ro s + 1\<rparr> else s);
            s = sp_upd s n (\<lambda>pl. pl\<lparr>sp_submit_fail := True\<rparr>)
        in if lowmem then Inr (False, s)
        else bindR (itemE (at_work (gw_mem s) (ss_work ss))) (\<lambda>w.
          case sp_nonce1 pl of None \<Rightarrow> Inr (False, s)
          | Some n1 \<Rightarrow> (case w_nonce1 w of None \<Rightarrow> Inl NullStr
              | Some m1 \<Rightarrow> if m1 = n1 then submit_tries n ss lowmem tries s else Inr (False, s))))"

text \<open>One item of the queue of a pool.\<close>

definition submit_share :: "nat \<Rightarrow> bool \<Rightarrow> (bool \<times> bool) list \<Rightarrow> int \<Rightarrow> gw \<Rightarrow> gw_err + (bool \<times> cstr \<times> gw)" where
  "submit_share n lowmem tries p s =
     bindR (itemE (at_work (gw_mem s) p)) (\<lambda>w.
     let ss = \<lparr>ss_id = swork_id s, ss_work = p\<rparr>; s = s\<lparr>swork_id := swork_id s + 1\<rparr> in
     bindR (submit_text s n w (ss_id ss)) (\<lambda>t.
     bindR (submit_tries n ss lowmem tries s) (\<lambda>(submitted, s).
     if submitted then Inr (True, t, s)
     else bindR (itemE (free_work (gw_mem s) (Some p))) (\<lambda>m.
       Inr (False, t, set_mem s ((pool_upd m n (\<lambda>pl. pl\<lparr>p_stale_shares := p_stale_shares pl + 1\<rparr>))
         \<lparr>total_stale := total_stale m + 1\<rparr>))))))"

section \<open>Connecting and receiving\<close>

definition initiate_getwork :: "recv_event list option \<Rightarrow> conn \<Rightarrow> bool \<times> conn" where
  "initiate_getwork setup_socket c =
     (let c = c\<lparr>cn_active := False, cn_sock := False\<rparr> in
      case setup_socket of None \<Rightarrow> (False, c\<lparr>cn_active := False, cn_notify := False\<rparr>)
      | Some evs \<Rightarrow> (True, c\<lparr>cn_sock := True, cn_events := evs,
          cn_sockbuf_size := (if cn_sockbuf_size c = 0 then RBUFSIZE else cn_sockbuf_size c), cn_active := True, cn_notify := True\<rparr>))"

definition login_text :: "bool \<Rightarrow> net_env \<Rightarrow> cstr" where
  "login_text is_nicehash ne =
     bytes_of (if is_nicehash then ''{\"method\": \"login\", \"jsonrpc\": \"2.0\", \"params\": {'' else ''{\"method\": \"login\", \"params\": {'') @
     bytes_of ''\"login\": \"'' @ ne_user ne @ bytes_of ''\", \"pass\": \"'' @ ne_pass ne @ bytes_of ''\", \"agent\": \"'' @
     bytes_of (if is_nicehash then ''XMRig/2.5.2'' else ''cpuminer-opt/3.6.5'') @ bytes_of ''\"}, \"id\": 1}'' @ [10]"

text \<open>Always 64 bytes are copied, of the identifier and what lies behind it.\<close>

definition keep_id :: "gv_env \<Rightarrow> nat \<Rightarrow> cstr \<Rightarrow> gw \<Rightarrow> gw_err + gw" where
  "keep_id e n i s = (if 3 \<le> n then Inl PastArray
     else Inr (s\<lparr>rpc2_id := mem_write (64 * n) (take 64 (i @ 0 # gv_behind e i)) (mem_write (64 * n) (replicate 64 0) (rpc2_id s))\<rparr>))"

definition login_answer :: "gv_env \<Rightarrow> nat \<Rightarrow> json option \<Rightarrow> gw \<Rightarrow> gw_err + (bool \<times> gw)" where
  "login_answer e n val s =
     (let result_val = json_object_get val (bytes_of ''result'') in
      if val = None \<or> result_val = None then Inr (False, s)
      else (case json_string_value (json_object_get result_val (bytes_of ''id'')) of None \<Rightarrow> Inr (False, s)
        | Some i \<Rightarrow> bindR (keep_id e n i s) (\<lambda>s.
            let job_val = json_object_get result_val (bytes_of ''job'')
            in if job_val = None then Inr (True, s) else bindR (gen_getwork_work e n job_val s) (\<lambda>s. Inr (True, s)))))"

definition login_getwork :: "net_env \<Rightarrow> gv_env \<Rightarrow> nat \<Rightarrow> conn \<times> gw \<Rightarrow> gw_err + (bool \<times> conn \<times> gw)" where
  "login_getwork ne e n = (\<lambda>(c, s).
     case stratum_send (ne_send_ok ne) (login_text (sp_nicehash (gw_pools s n)) ne) c of (ok, c) \<Rightarrow>
       if \<not> ok then Inr (False, c, s)
       else (case recv_line c of (None, c) \<Rightarrow> Inr (False, c, s)
         | (Some sret, c) \<Rightarrow> bindR (login_answer e n (ne_loads ne sret) s) (\<lambda>(ok, s). Inr (ok, c, s))))"

definition restart_getwork ::
  "net_env \<Rightarrow> gv_env \<Rightarrow> recv_event list option \<Rightarrow> nat \<Rightarrow> conn \<times> gw \<Rightarrow> gw_err + (bool \<times> conn \<times> gw)" where
  "restart_getwork ne e setup_socket n = (\<lambda>(c, s).
     let c = (if cn_active c then suspend_stratum c else c)
     in case initiate_getwork setup_socket c of (ok, c) \<Rightarrow>
       if \<not> ok then Inr (False, c, s) else login_getwork ne e n (c, s))"

text \<open>The first use of a pool; its threads run from then on.  A connection that cannot be made does not keep it from logging in.\<close>

definition pool_active_getwork ::
  "net_env \<Rightarrow> gv_env \<Rightarrow> recv_event list option \<times> cstr \<Rightarrow> nat \<Rightarrow> conn \<times> gw \<Rightarrow> gw_err + (bool \<times> conn \<times> gw)" where
  "pool_active_getwork ne e su n = (\<lambda>(c, s).
     let init = sp_stratum_init (gw_pools s n); s = sp_upd s n (\<lambda>pl. pl\<lparr>sp_stratum_init := True\<rparr>)
     in if init then Inr (cn_active c, c, s)
     else
       let c = snd (initiate_getwork (fst su) c);
           s = sp_upd s n (\<lambda>pl. pl\<lparr>sp_nicehash := (strstr (snd su) (bytes_of ''nicehash.com:'') \<noteq> None)\<rparr>)
       in bindR (login_getwork ne e n (c, s)) (\<lambda>(ret, c, s).
         Inr (ret, c, if ret then s else sp_upd s n (\<lambda>pl. pl\<lparr>sp_stratum_init := False\<rparr>))))"

text \<open>A line of the pool, when it is JSON: a job, a job in a result, or else the answer to a share.\<close>

definition getwork_message :: "gv_env \<Rightarrow> nat \<Rightarrow> json option \<Rightarrow> gw \<Rightarrow> gw_err + gw" where
  "getwork_message e n val s =
     (let method_val = json_object_get val (bytes_of ''method'');
          result_val = json_object_get val (bytes_of ''result''); job_val = json_object_get result_val (bytes_of ''job'')
      in if method_val \<noteq> None \<and> json_string_value method_val = None then Inl NullStr
      else if json_string_value method_val = Some (bytes_of ''job'')
        then gen_getwork_work e n (json_object_get val (bytes_of ''params'')) s
      else if result_val \<noteq> None \<and> job_val \<noteq> None then gen_getwork_work e n job_val s
      else bindR (parse_getwork_response n val s) (\<lambda>(_, s). Inr s))"

definition getwork_line :: "net_env \<Rightarrow> gv_env \<Rightarrow> nat \<Rightarrow> cstr \<Rightarrow> gw \<Rightarrow> gw_err + gw" where
  "getwork_line ne e n sret s = (case ne_loads ne sret of None \<Rightarrow> Inr s | Some v \<Rightarrow> getwork_message e n (Some v) s)"

text \<open>When the connection is lost, before it is made again.\<close>

definition getwork_interrupted :: "bool \<times> bool \<Rightarrow> nat \<Rightarrow> gw \<Rightarrow> gw_err + gw" where
  "getwork_interrupted kc n s =
     (let (keep_shares, is_current) = kc;
          s = (sp_upd s n (\<lambda>pl. pl\<lparr>sp_getfail := sp_getfail pl + 1\<rparr>))\<lparr>total_go := total_go s + 1\<rparr> in
      bindR (if keep_shares then Inr s else clear_stratum_shares n s) (\<lambda>s.
      bindR (itemE (clear_pool_work n (gw_stg s))) (\<lambda>stg.
      Inr (s\<lparr>gw_stg := stg, restarts := (if is_current then restarts s + 1 else restarts s)\<rparr>))))"

section \<open>Disguised lines\<close>

text \<open>The head, two bytes made of the length, and the complement of every byte; a \<open>char\<close> is unsigned, as on the boards.\<close>

definition gen_getwork_sendata :: "cstr \<Rightarrow> u8 list" where
  "gen_getwork_sendata s =
     (let len = NOT (word_of_nat (length s) * 29 :: u32)
      in [254, 124, ucast (drop_bit 8 len), ucast len] @ map NOT s)"

definition gen_getwork_revdata :: "u8 list \<Rightarrow> u8 list option" where
  "gen_getwork_revdata buf =
     (if take 2 buf \<noteq> [254, 124] then None else Some (map NOT (cstr_of (drop 4 buf))))"

section \<open>What staging a job does\<close>

lemma itemE_simps [simp]: "itemE (Inr x) = Inr x" "itemE (Inl err) = Inl (ItemErr err)"
  by (simp_all add: itemE_def)

lemma set_mem_simps [simp]:
  "gw_mem (set_mem s m) = m" "staged_work (gw_stg (set_mem s m)) = staged_work (gw_stg s)" "tv_staged (gw_stg (set_mem s m)) = tv_staged (gw_stg s)"
  "getq_frozen (gw_stg (set_mem s m)) = getq_frozen (gw_stg s)" "staged_rollable (gw_stg (set_mem s m)) = staged_rollable (gw_stg s)"
  "gw_pools (set_mem s m) = gw_pools s" "stratum_shares (set_mem s m) = stratum_shares s" "gw_stg (sp_upd s n f) = gw_stg s"
  "gw_pools (sp_upd s n f) = (gw_pools s)(n := f (gw_pools s n))" "stratum_shares (sp_upd s n f) = stratum_shares s"
  "rpc2_blob (set_mem s m) = rpc2_blob s" "rpc2_job_id (set_mem s m) = rpc2_job_id s" "stratum_diff (set_mem s m) = stratum_diff s"
  "rpc2_target (set_mem s m) = rpc2_target s" "total_rejected (set_mem s m) = total_rejected s" "total_rejected (sp_upd s n f) = total_rejected s"
  by (simp_all add: set_mem_def sp_upd_def)

text \<open>The item for the \<open>i\<close>-th device, made from \<open>w\<close>.\<close>

definition device_data :: "gv_env \<Rightarrow> bool \<Rightarrow> u8 list \<Rightarrow> nat \<Rightarrow> u8 list" where
  "device_data e is_nicehash d i = d[nonce_byte is_nicehash := of_nat (start_nonce_gap (gv_devices e) * i)]"

lemma stg_ok_new:
  assumes ok: "stg_ok s" and w: "w_pool w \<noteq> None"
    and m: "m = (sg_mem s)\<lparr>works := (works (sg_mem s))(next_ptr (sg_mem s) \<mapsto> w), next_ptr := next_ptr (sg_mem s) + 1, total_work := k\<rparr>"
  shows "stg_ok (s\<lparr>sg_mem := m\<rparr>)" "next_ptr (sg_mem s) \<notin> set (staged_work s)" "next_ptr (sg_mem s) \<notin> set (queued_work m)"
    "unqueued_work m \<noteq> Some (next_ptr (sg_mem s))"
proof -
  let ?q = "next_ptr (sg_mem s)"
  have "?q \<notin> dom (works (sg_mem s))" using stg_okD(1) [OF ok] by (auto simp: mem_ok_def)
  then show fresh: "?q \<notin> set (staged_work s)" "?q \<notin> set (queued_work m)" "unqueued_work m \<noteq> Some ?q"
    using ok by (auto simp: stg_ok_def mem_ok_def m)
  have "mem_ok m" unfolding m using mem_ok_new [OF stg_okD(1) [OF ok] w] by simp
  moreover have "filter (\<lambda>p. work_rollable (the (works m p))) (staged_work s) = filter (\<lambda>p. work_rollable (item s p)) (staged_work s)"
    using fresh(1) by (intro filter_cong) (auto simp: m)
  ultimately show "stg_ok (s\<lparr>sg_mem := m\<rparr>)" using ok by (auto simp: stg_ok_def m)
qed

lemma stage_one_ok:
  assumes ok: "stg_ok (gw_stg s)" and sorted: "staged_sorted (gw_stg s)" and open_q: "\<not> getq_frozen (gw_stg s)"
    and w: "works (gw_mem s) p = Some w" and late: "\<forall>q \<in> set (staged_work (gw_stg s)). tv_staged (gw_stg s) q \<le> gv_now e i"
  obtains s' where "stage_one e n p s i = Inr s'" "stg_ok (gw_stg s')" "staged_sorted (gw_stg s')" "\<not> getq_frozen (gw_stg s')"
    "works (gw_mem s') = (works (gw_mem s))(next_ptr (gw_mem s) \<mapsto> w\<lparr>w_id := word_of_int (total_work (gw_mem s)),
       w_data := device_data e (sp_nicehash (gw_pools s n)) (w_data w) i\<rparr>)"
    "staged_work (gw_stg s') = staged_work (gw_stg s) @ [next_ptr (gw_mem s)]" "next_ptr (gw_mem s') = next_ptr (gw_mem s) + 1"
    "tv_staged (gw_stg s') = (tv_staged (gw_stg s))(next_ptr (gw_mem s) := gv_now e i)" "gw_pools s' = gw_pools s"
    "queued_work (gw_mem s') = queued_work (gw_mem s)" "unqueued_work (gw_mem s') = unqueued_work (gw_mem s)"
proof -
  let ?m = "gw_mem s" and ?q = "next_ptr (gw_mem s)"
  let ?w = "w\<lparr>w_id := word_of_int (total_work ?m)\<rparr>"
  let ?v = "?w\<lparr>w_data := device_data e (sp_nicehash (gw_pools s n)) (w_data w) i\<rparr>"
  let ?m1 = "?m\<lparr>works := (works ?m)(?q \<mapsto> ?w), next_ptr := ?q + 1, total_work := total_work ?m + 1\<rparr>"
  let ?m2 = "?m\<lparr>works := (works ?m)(?q \<mapsto> ?v), next_ptr := ?q + 1, total_work := total_work ?m + 1\<rparr>"
  let ?t = "(gw_stg s)\<lparr>sg_mem := ?m2, tv_staged := (tv_staged (gw_stg s))(?q := gv_now e i)\<rparr>"
  have put: "put_work ?m1 ?q ?v = ?m2" by (rule mem.equality) (simp_all add: put_work_def)
  have memok: "mem_ok ?m" using ok by (rule stg_okD)
  have pool: "w_pool ?v \<noteq> None" using memok w unfolding mem_ok_def by simp
  note new = stg_ok_new [OF ok pool, of ?m2 "total_work ?m + 1", OF refl]
  have "stg_ok ?t" using new(1) by (simp add: stg_ok_def)
  moreover have "?q \<in> dom (works (sg_mem ?t))" by simp
  moreover have "?q \<notin> set (staged_work ?t)" "?q \<notin> set (queued_work (sg_mem ?t))" "unqueued_work (sg_mem ?t) \<noteq> Some ?q"
    using new(2-4) by simp_all
  ultimately obtain t where t: "hash_push ?t ?q = Inr (\<not> getq_frozen ?t, t)" "stg_ok t" "sg_mem t = sg_mem ?t"
      "staged_work t = (if getq_frozen ?t then staged_work ?t else sort_key (tv_staged ?t) (staged_work ?t @ [?q]))"
    using hash_push_ok by blast
  have in_order: "sorted (map (tv_staged ?t) (staged_work ?t @ [?q]))"
  proof -
    have "map (tv_staged ?t) (staged_work (gw_stg s)) = map (tv_staged (gw_stg s)) (staged_work (gw_stg s))"
      using new(2) by (intro map_cong) auto
    then show ?thesis using sorted late new(2) by (auto simp: sorted_append staged_sorted_def simp del: map_eq_conv)
  qed
  have st: "staged_work t = staged_work (gw_stg s) @ [?q]"
    using t(4) open_q sort_key_id_if_sorted [OF in_order] by simp
  have same: "tv_staged t = tv_staged ?t \<and> getq_frozen t = getq_frozen ?t"
    using t(1) by (auto simp: hash_push_def at_work_def Let_def split: option.splits if_splits)
  have "stage_one e n p s i = bindR (itemE (hash_push ?t ?q)) (\<lambda>(_, stg). Inr ((set_mem s ?m2)\<lparr>local_work := local_work s + 1, gw_stg := stg\<rparr>))"
    using copy_work_eq [OF memok w] put
    by (simp add: stage_one_def at_work_def device_data_def set_mem_def Let_def)
  then have one: "stage_one e n p s i = Inr ((set_mem s ?m2)\<lparr>local_work := local_work s + 1, gw_stg := t\<rparr>)" using t(1) by simp
  have "staged_sorted t" using in_order st same by (simp add: staged_sorted_def)
  then show thesis using that [OF one] t(2,3) st same open_q by simp
qed

text \<open>What is staged for the devices \<open>is\<close>, one address after the other.\<close>

definition staged_for :: "gv_env \<Rightarrow> bool \<Rightarrow> gwork \<Rightarrow> gwork option \<Rightarrow> nat \<Rightarrow> bool" where
  "staged_for e is_nicehash w wo i \<longleftrightarrow>
     (\<exists>j. wo = Some (w\<lparr>w_id := j, w_data := device_data e is_nicehash (w_data w) i\<rparr>))"

lemma stage_all_ok:
  assumes "stg_ok (gw_stg s)" "staged_sorted (gw_stg s)" "\<not> getq_frozen (gw_stg s)" "works (gw_mem s) p = Some w"
    "sorted (map (gv_now e) is)" "\<forall>i \<in> set is. \<forall>q \<in> set (staged_work (gw_stg s)). tv_staged (gw_stg s) q \<le> gv_now e i"
  shows "\<exists>s'. stage_all e n p is s = Inr s' \<and> stg_ok (gw_stg s') \<and>
     staged_work (gw_stg s') = staged_work (gw_stg s) @ map (\<lambda>j. next_ptr (gw_mem s) + int j) [0..<length is] \<and>
     (\<forall>j < length is. staged_for e (sp_nicehash (gw_pools s n)) w (works (gw_mem s') (next_ptr (gw_mem s) + int j)) (is ! j)) \<and>
     (\<forall>q < next_ptr (gw_mem s). works (gw_mem s') q = works (gw_mem s) q) \<and>
     queued_work (gw_mem s') = queued_work (gw_mem s) \<and> unqueued_work (gw_mem s') = unqueued_work (gw_mem s)"
  using assms
proof (induction "is" arbitrary: s)
  case Nil
  then show ?case by simp
next
  case (Cons i "is")
  let ?q = "next_ptr (gw_mem s)"
  have late: "\<forall>q \<in> set (staged_work (gw_stg s)). tv_staged (gw_stg s) q \<le> gv_now e i" using Cons.prems(6) by simp
  obtain s1 where s1: "stage_one e n p s i = Inr s1" "stg_ok (gw_stg s1)" "staged_sorted (gw_stg s1)" "\<not> getq_frozen (gw_stg s1)"
      "works (gw_mem s1) = (works (gw_mem s))(?q \<mapsto> w\<lparr>w_id := word_of_int (total_work (gw_mem s)),
         w_data := device_data e (sp_nicehash (gw_pools s n)) (w_data w) i\<rparr>)"
      "staged_work (gw_stg s1) = staged_work (gw_stg s) @ [?q]" "next_ptr (gw_mem s1) = ?q + 1"
      "tv_staged (gw_stg s1) = (tv_staged (gw_stg s))(?q := gv_now e i)" "gw_pools s1 = gw_pools s"
      "queued_work (gw_mem s1) = queued_work (gw_mem s)" "unqueued_work (gw_mem s1) = unqueued_work (gw_mem s)"
    using stage_one_ok [OF Cons.prems(1-4) late] .
  have fresh: "?q \<notin> dom (works (gw_mem s))" using stg_okD(1) [OF Cons.prems(1)] by (auto simp: mem_ok_def)
  then have "works (gw_mem s1) p = Some w" using Cons.prems(4) by (auto simp: s1(5))
  moreover have "\<forall>i' \<in> set is. \<forall>q \<in> set (staged_work (gw_stg s1)). tv_staged (gw_stg s1) q \<le> gv_now e i'"
    using Cons.prems(5,6) by (simp add: s1(6,8))
  moreover have "sorted (map (gv_now e) is)" using Cons.prems(5) by simp
  ultimately obtain s' where s': "stage_all e n p is s1 = Inr s'" "stg_ok (gw_stg s')"
      "staged_work (gw_stg s') = staged_work (gw_stg s1) @ map (\<lambda>j. ?q + 1 + int j) [0..<length is]"
      "\<forall>j < length is. staged_for e (sp_nicehash (gw_pools s n)) w (works (gw_mem s') (?q + 1 + int j)) (is ! j)"
      "\<forall>q < ?q + 1. works (gw_mem s') q = works (gw_mem s1) q"
      "queued_work (gw_mem s') = queued_work (gw_mem s)" "unqueued_work (gw_mem s') = unqueued_work (gw_mem s)"
    using Cons.IH [OF s1(2-4)] by (auto simp: s1(7,9-11))
  have "map (\<lambda>j. ?q + int j) [0..<length (i # is)] = ?q # map (\<lambda>j. ?q + 1 + int j) [0..<length is]"
    by (simp add: upt_conv_Cons map_Suc_upt [symmetric] del: upt_Suc)
  then have staged: "staged_work (gw_stg s') = staged_work (gw_stg s) @ map (\<lambda>j. ?q + int j) [0..<length (i # is)]"
    by (simp add: s'(3) s1(6))
  have all: "staged_for e (sp_nicehash (gw_pools s n)) w (works (gw_mem s') (?q + int j)) ((i # is) ! j)" if j: "j < length (i # is)" for j
  proof (cases j)
    case 0
    then show ?thesis using s'(5) by (auto simp: s1(5) staged_for_def)
  next
    case (Suc k)
    then show ?thesis using s'(4) j by (simp add: add.assoc)
  qed
  have "\<forall>q < ?q. works (gw_mem s') q = works (gw_mem s) q" using s'(5) by (simp add: s1(5))
  then show ?case using s1(1) s'(1,2,6,7) staged all by auto
qed

section \<open>A job reaches every device\<close>

text \<open>A job as a pool should send it: an identifier, a blob of 40 to 128 bytes and a target of four.\<close>

definition job_has :: "json option \<Rightarrow> cstr \<Rightarrow> u8 list \<Rightarrow> u8 list \<Rightarrow> bool" where
  "job_has job i blob t \<longleftrightarrow> json_string_value (json_object_get job (bytes_of ''job_id'')) = Some i \<and>
     (\<exists>hb. json_string_value (json_object_get job (bytes_of ''blob'')) = Some hb \<and> hex2bin hb (length blob) = (True, blob) \<and>
        length hb = 2 * length blob) \<and> 40 \<le> length blob \<and> length blob \<le> 128 \<and>
     jobj_binary job ''target'' 4 = (True, t) \<and> length t = 4"

lemma json_string_Some: "json_string_value j = Some x \<Longrightarrow> j = Some (JString x)"
  by (auto simp: json_string_value_def split: option.splits json.splits)

lemma rpc2_job_decode_ok:
  assumes job: "job_has job i blob t" and p: "works (gw_mem s) p = Some w"
  obtains s' where "rpc2_job_decode e job (Some p) s = Inr (True, s')" "gw_pools s' = gw_pools s"
    "gw_stg s' = (gw_stg s)\<lparr>sg_mem := put_work (gw_mem s) p (w\<lparr>w_data := mem_write 0 blob (w_data w),
       w_target := mem_write 28 t (replicate 32 255), w_job_id := Some i, w_work_difficulty := stratum_diff s'\<rparr>)\<rparr>"
proof -
  obtain hb where hb: "json_object_get job (bytes_of ''blob'') = Some (JString hb)" "hex2bin hb (length blob) = (True, blob)"
      "length hb = 2 * length blob" and job_id: "json_object_get job (bytes_of ''job_id'') = Some (JString i)"
    using job json_string_Some unfolding job_has_def by blast
  have t: "mem_write 0 t (replicate 4 0) = t" using job by (simp add: job_has_def mem_write_def)
  have "hb \<noteq> []" "blob_length_ok hb" using hb(3) job by (auto simp: job_has_def blob_length_ok_def Let_def)
  moreover obtain s1 where s1: "store_job e job blob (Some i) s = Inr (t, s1)" "gw_stg s1 = gw_stg s" "gw_pools s1 = gw_pools s"
      "rpc2_blob s1 = Some blob" "rpc2_job_id s1 = Some i"
    using job t by (simp add: store_job_def job_has_def Let_def)
  ultimately have "rpc2_job_decode e job (Some p) s = fill_item t p s1"
    using hb job_id by (simp add: rpc2_job_decode_def json_string_value_def)
  then show thesis using that s1 p by (simp add: fill_item_def at_work_def set_mem_def)
qed

text \<open>The devices start in parts of the range that do not meet, when there are no more than 16.\<close>

lemma device_starts:
  assumes "total_devices \<le> 16" and "i < total_devices"
  shows "unat (of_nat (start_nonce_gap total_devices * i) :: u8) = start_nonce_gap total_devices * i"
    "256 \<le> start_nonce_gap total_devices * total_devices"
proof -
  have "total_devices \<in> set [1..<17]" using assms by auto
  moreover have "list_all (\<lambda>n. start_nonce_gap n * (n - 1) < 256 \<and> 256 \<le> start_nonce_gap n * n) [1..<17]" by code_simp
  ultimately have gap: "start_nonce_gap total_devices * (total_devices - 1) < 256" "256 \<le> start_nonce_gap total_devices * total_devices"
    unfolding list_all_iff by blast+
  have "i \<le> total_devices - 1" using assms(2) by simp
  then have "start_nonce_gap total_devices * i \<le> start_nonce_gap total_devices * (total_devices - 1)" by (rule mult_le_mono2)
  then have "start_nonce_gap total_devices * i < 256" using gap(1) by (rule le_less_trans)
  then show "unat (of_nat (start_nonce_gap total_devices * i) :: u8) = start_nonce_gap total_devices * i" by (simp add: unat_of_nat del: of_nat_mult)
  show "256 \<le> start_nonce_gap total_devices * total_devices" by (rule gap(2))
qed

text \<open>With 17 the last device repeats the work of the first.\<close>

lemma seventeen_devices: "of_nat (start_nonce_gap 17 * 16) = (of_nat (start_nonce_gap 17 * 0) :: u8)"
  by code_simp

lemma free_unstaged_ok:
  assumes ok: "stg_ok s" and "p \<notin> set (staged_work s)" "p \<notin> set (queued_work (sg_mem s))" "unqueued_work (sg_mem s) \<noteq> Some p"
  shows "stg_ok (s\<lparr>sg_mem := (sg_mem s)\<lparr>works := (works (sg_mem s))(p := None)\<rparr>\<rparr>)"
proof -
  have "filter (\<lambda>q. work_rollable (the (((works (sg_mem s))(p := None)) q))) (staged_work s) =
      filter (\<lambda>q. work_rollable (item s q)) (staged_work s)"
    using assms(2) by (intro filter_cong) auto
  then show ?thesis using assms by (auto simp: stg_ok_def mem_ok_def split: if_splits)
qed

lemma stg_ok_pool_upd: "stg_ok (s\<lparr>sg_mem := pool_upd m n f\<rparr>) = stg_ok (s\<lparr>sg_mem := m\<rparr>)"
  by (simp add: stg_ok_def)

text \<open>The base item, before and after decoding.\<close>

definition base_item :: "nat \<Rightarrow> int \<Rightarrow> gwork" where
  "base_item n k = zero_work\<lparr>w_id := word_of_int k, w_pool := Some n, w_stratum := True, w_nonce := 0\<rparr>"

definition decoded_item :: "nat \<Rightarrow> int \<Rightarrow> cstr \<Rightarrow> u8 list \<Rightarrow> u8 list \<Rightarrow> rat \<Rightarrow> gwork" where
  "decoded_item n k i blob t d = (base_item n k)\<lparr>w_data := blob @ replicate (128 - length blob) 0,
     w_target := replicate 28 255 @ t, w_job_id := Some i, w_work_difficulty := d\<rparr>"

definition base_mem :: "nat \<Rightarrow> mem \<Rightarrow> mem" where
  "base_mem n m = m\<lparr>works := (works m)(next_ptr m \<mapsto> base_item n (total_work m)), next_ptr := next_ptr m + 1, total_work := total_work m + 1\<rparr>"

text \<open>Up to the loop over the devices, when decoding made \<open>w\<close> of the base item.\<close>

definition decodes_to :: "gv_env \<Rightarrow> nat \<Rightarrow> json option \<Rightarrow> gw \<Rightarrow> gwork \<Rightarrow> bool" where
  "decodes_to e n job s w \<longleftrightarrow> (\<exists>r s0. rpc2_job_decode e job (Some (next_ptr (gw_mem s))) (set_mem s (base_mem n (gw_mem s))) = Inr (r, s0) \<and>
     gw_pools s0 = gw_pools s \<and> w_pool w \<noteq> None \<and>
     gw_stg s0 = (gw_stg s)\<lparr>sg_mem := put_work (base_mem n (gw_mem s)) (next_ptr (gw_mem s)) w\<rparr>)"

lemma gen_getwork_prepared:
  assumes ok: "stg_ok (gw_stg s)" and dec: "decodes_to e n job s w"
  obtains s1 where "gen_getwork_work e n job s = bindR (stage_all e n (next_ptr (gw_mem s)) [0..<gv_devices e] s1)
      (\<lambda>s. Inr (set_mem s ((gw_mem s)\<lparr>works := (works (gw_mem s))(next_ptr (gw_mem s1) - 1 := None)\<rparr>)))"
    "stg_ok (gw_stg s1)" "staged_work (gw_stg s1) = staged_work (gw_stg s)" "tv_staged (gw_stg s1) = tv_staged (gw_stg s)"
    "getq_frozen (gw_stg s1) = getq_frozen (gw_stg s)" "next_ptr (gw_mem s1) = next_ptr (gw_mem s) + 1"
    "works (gw_mem s1) = (works (gw_mem s))(next_ptr (gw_mem s) \<mapsto> w)"
    "queued_work (gw_mem s1) = queued_work (gw_mem s)" "unqueued_work (gw_mem s1) = unqueued_work (gw_mem s)"
    "sp_nicehash (gw_pools s1 n) = sp_nicehash (gw_pools s n)"
proof -
  let ?p = "next_ptr (gw_mem s)" and ?k = "total_work (gw_mem s)" and ?m = "base_mem n (gw_mem s)"
  obtain r s0 where s0: "rpc2_job_decode e job (Some ?p) (set_mem s ?m) = Inr (r, s0)" "gw_pools s0 = gw_pools s" "w_pool w \<noteq> None"
    "gw_stg s0 = (gw_stg s)\<lparr>sg_mem := put_work ?m ?p w\<rparr>" using dec unfolding decodes_to_def by blast
  let ?s1 = "(sp_upd (set_mem s0 (pool_upd (gw_mem s0) n (\<lambda>pl. pl\<lparr>p_works := p_works pl + 1\<rparr>))) n
     (\<lambda>pl. pl\<lparr>sp_getwork_requested := sp_getwork_requested pl + 1\<rparr>))\<lparr>total_getworks := total_getworks s0 + 1\<rparr>"
  have make: "make_work (gw_mem s) = (?p, (gw_mem s)\<lparr>works := (works (gw_mem s))(?p \<mapsto> zero_work\<lparr>w_id := word_of_int ?k\<rparr>),
      next_ptr := ?p + 1, total_work := ?k + 1\<rparr>)"
    by (auto simp: make_work_def total_work_inc_def put_work_def Let_def intro: mem.equality)
  have base: "put_work ((gw_mem s)\<lparr>works := (works (gw_mem s))(?p \<mapsto> zero_work\<lparr>w_id := word_of_int ?k\<rparr>),
      next_ptr := ?p + 1, total_work := ?k + 1\<rparr>) ?p (base_item n ?k) = ?m"
    by (rule mem.equality) (simp_all add: put_work_def base_mem_def)
  have gen: "gen_getwork_work e n job s = bindR (stage_all e n ?p [0..<gv_devices e] ?s1)
      (\<lambda>s. Inr (set_mem s ((gw_mem s)\<lparr>works := (works (gw_mem s))(?p := None)\<rparr>)))"
    using s0(1) base by (simp add: gen_getwork_work_def make at_work_def base_item_def sp_upd_def set_mem_def)
  have "put_work ?m ?p w = (gw_mem s)\<lparr>works := (works (gw_mem s))(?p \<mapsto> w), next_ptr := ?p + 1, total_work := ?k + 1\<rparr>"
    by (rule mem.equality) (simp_all add: put_work_def base_mem_def)
  from stg_ok_new(1) [OF ok s0(3) this] have "stg_ok (gw_stg s0)" unfolding s0(4) .
  then have "stg_ok (gw_stg ?s1)" by (simp add: sp_upd_def set_mem_def stg_ok_pool_upd)
  then show thesis using that [of ?s1] gen s0(2,4) by (simp add: sp_upd_def set_mem_def base_mem_def)
qed

lemma decoded_job:
  assumes "job_has job i blob t"
  obtains d where "decodes_to e n job s (decoded_item n (total_work (gw_mem s)) i blob t d)"
proof -
  let ?m = "base_mem n (gw_mem s)" and ?p = "next_ptr (gw_mem s)" and ?w = "base_item n (total_work (gw_mem s))"
  have len: "length blob \<le> 128" "length t = 4" using assms by (simp_all add: job_has_def)
  obtain s' where s': "rpc2_job_decode e job (Some ?p) (set_mem s ?m) = Inr (True, s')" "gw_pools s' = gw_pools (set_mem s ?m)"
      "gw_stg s' = (gw_stg (set_mem s ?m))\<lparr>sg_mem := put_work (gw_mem (set_mem s ?m)) ?p (?w
         \<lparr>w_data := mem_write 0 blob (w_data ?w), w_target := mem_write 28 t (replicate 32 255),
          w_job_id := Some i, w_work_difficulty := stratum_diff s'\<rparr>)\<rparr>"
    by (rule rpc2_job_decode_ok [OF assms, of "set_mem s ?m" ?p ?w e]) (simp_all add: base_mem_def)
  have "?w\<lparr>w_data := mem_write 0 blob (w_data ?w), w_target := mem_write 28 t (replicate 32 255),
      w_job_id := Some i, w_work_difficulty := stratum_diff s'\<rparr> = decoded_item n (total_work (gw_mem s)) i blob t (stratum_diff s')"
    using len by (simp add: decoded_item_def base_item_def zero_work_def mem_write_def)
  then show thesis using s' that [of "stratum_diff s'"]
    by (simp add: decodes_to_def set_mem_def decoded_item_def base_item_def) blast
qed

lemma refused_job:
  assumes "json_object_get job (bytes_of ''job_id'') = None"
  shows "decodes_to e n job s (base_item n (total_work (gw_mem s)))"
proof -
  have "put_work (base_mem n (gw_mem s)) (next_ptr (gw_mem s)) (base_item n (total_work (gw_mem s))) = base_mem n (gw_mem s)"
    by (rule mem.equality) (simp_all add: put_work_def base_mem_def)
  then show ?thesis using assms by (simp add: decodes_to_def rpc2_job_decode_def base_item_def set_mem_def) blast
qed

text \<open>What the devices get: copies of the decoded item.\<close>

lemma gen_getwork_staged:
  assumes "stg_ok (gw_stg s)" and "staged_sorted (gw_stg s)" and "\<not> getq_frozen (gw_stg s)"
    and "decodes_to e n job s w" and "sorted (map (gv_now e) [0..<gv_devices e])"
    and "\<forall>k < gv_devices e. \<forall>q \<in> set (staged_work (gw_stg s)). tv_staged (gw_stg s) q \<le> gv_now e k"
  obtains s' where "gen_getwork_work e n job s = Inr s'" "stg_ok (gw_stg s')"
     "staged_work (gw_stg s') = staged_work (gw_stg s) @ map (\<lambda>k. next_ptr (gw_mem s) + 1 + int k) [0..<gv_devices e]"
     "\<And>k. k < gv_devices e \<Longrightarrow> staged_for e (sp_nicehash (gw_pools s n)) w (works (gw_mem s') (next_ptr (gw_mem s) + 1 + int k)) k"
     "\<And>q. q < next_ptr (gw_mem s) \<Longrightarrow> works (gw_mem s') q = works (gw_mem s) q" "works (gw_mem s') (next_ptr (gw_mem s)) = None"
proof -
  let ?p = "next_ptr (gw_mem s)" and ?nice = "sp_nicehash (gw_pools s n)"
  obtain s1 where s1: "gen_getwork_work e n job s = bindR (stage_all e n ?p [0..<gv_devices e] s1)
      (\<lambda>s. Inr (set_mem s ((gw_mem s)\<lparr>works := (works (gw_mem s))(next_ptr (gw_mem s1) - 1 := None)\<rparr>)))"
    "stg_ok (gw_stg s1)" "staged_work (gw_stg s1) = staged_work (gw_stg s)" "tv_staged (gw_stg s1) = tv_staged (gw_stg s)"
    "getq_frozen (gw_stg s1) = getq_frozen (gw_stg s)" "next_ptr (gw_mem s1) = ?p + 1"
    "works (gw_mem s1) = (works (gw_mem s))(?p \<mapsto> w)"
    "queued_work (gw_mem s1) = queued_work (gw_mem s)" "unqueued_work (gw_mem s1) = unqueued_work (gw_mem s)"
    "sp_nicehash (gw_pools s1 n) = ?nice"
    using gen_getwork_prepared [OF assms(1,4)] .
  obtain s2 where s2: "stage_all e n ?p [0..<gv_devices e] s1 = Inr s2" "stg_ok (gw_stg s2)"
      "staged_work (gw_stg s2) = staged_work (gw_stg s) @ map (\<lambda>k. ?p + 1 + int k) [0..<gv_devices e]"
      "\<forall>k < gv_devices e. staged_for e ?nice w (works (gw_mem s2) (?p + 1 + int k)) k"
      "\<forall>q < ?p + 1. works (gw_mem s2) q = works (gw_mem s1) q"
      "queued_work (gw_mem s2) = queued_work (gw_mem s)" "unqueued_work (gw_mem s2) = unqueued_work (gw_mem s)"
    using stage_all_ok [OF s1(2), of ?p w e "[0..<gv_devices e]" n] assms(2,3,5,6)
    by (auto simp: s1(3-10) staged_sorted_def)
  have "?p \<notin> dom (works (gw_mem s))" using stg_okD(1) [OF assms(1)] by (auto simp: mem_ok_def)
  then have fresh: "?p \<notin> set (staged_work (gw_stg s))" "?p \<notin> set (queued_work (gw_mem s))" "unqueued_work (gw_mem s) \<noteq> Some ?p"
    using assms(1) by (auto simp: stg_ok_def mem_ok_def)
  let ?s' = "set_mem s2 ((gw_mem s2)\<lparr>works := (works (gw_mem s2))(?p := None)\<rparr>)"
  have "?p \<notin> set (staged_work (gw_stg s2))" using fresh(1) by (auto simp: s2(3))
  then have "stg_ok (gw_stg ?s')"
    using free_unstaged_ok [OF s2(2), of ?p] fresh(2,3) s2(6,7) by (simp add: set_mem_def)
  moreover have "gen_getwork_work e n job s = Inr ?s'" using s1(1,6) s2(1) by simp
  moreover have "works (gw_mem ?s') q = works (gw_mem s) q" if "q < ?p" for q
    using s2(5) that by (simp add: s1(7))
  ultimately show thesis using that [of ?s'] s2(3,4) by simp
qed

definition job_item :: "nat \<Rightarrow> cstr \<Rightarrow> u8 list \<Rightarrow> u8 list \<Rightarrow> gwork option \<Rightarrow> bool" where
  "job_item n i d t wo \<longleftrightarrow> (\<exists>w. wo = Some w \<and> w_data w = d \<and> w_target w = replicate 28 255 @ t \<and> w_job_id w = Some i \<and>
     w_pool w = Some n \<and> w_stratum w)"

text \<open>C6: A job with an identifier, a blob and a target makes one item for each device, staged in order behind all others and read
  from the job: the blob with the byte that tells the devices apart, the target above all other bits set, the identifier, the pool.
  No earlier item changes, and the one it was decoded into is freed.  For up to 16 devices the starting bytes are the multiples
  of the step below 256, and the steps cover the range.\<close>

theorem job_reaches_devices:
  assumes "stg_ok (gw_stg s)" and "staged_sorted (gw_stg s)" and "\<not> getq_frozen (gw_stg s)"
    and "job_has job i blob t" and "sorted (map (gv_now e) [0..<gv_devices e])"
    and "\<forall>k < gv_devices e. \<forall>q \<in> set (staged_work (gw_stg s)). tv_staged (gw_stg s) q \<le> gv_now e k"
  shows "\<exists>s'. gen_getwork_work e n job s = Inr s' \<and> stg_ok (gw_stg s') \<and>
     staged_work (gw_stg s') = staged_work (gw_stg s) @ map (\<lambda>k. next_ptr (gw_mem s) + 1 + int k) [0..<gv_devices e] \<and>
     (\<forall>k < gv_devices e. job_item n i (device_data e (sp_nicehash (gw_pools s n)) (blob @ replicate (128 - length blob) 0) k) t
        (works (gw_mem s') (next_ptr (gw_mem s) + 1 + int k))) \<and>
     (\<forall>q < next_ptr (gw_mem s). works (gw_mem s') q = works (gw_mem s) q) \<and> works (gw_mem s') (next_ptr (gw_mem s)) = None \<and>
     (gv_devices e \<le> 16 \<longrightarrow> (\<forall>k < gv_devices e. \<forall>b.
        unat (device_data e b (blob @ replicate (128 - length blob) 0) k ! nonce_byte b) = start_nonce_gap (gv_devices e) * k \<and>
        256 \<le> start_nonce_gap (gv_devices e) * gv_devices e))"
proof -
  let ?p = "next_ptr (gw_mem s)" and ?d = "blob @ replicate (128 - length blob) 0" and ?nice = "sp_nicehash (gw_pools s n)"
  obtain d where "decodes_to e n job s (decoded_item n (total_work (gw_mem s)) i blob t d)"
    using decoded_job [OF assms(4)] .
  from gen_getwork_staged [OF assms(1-3) this assms(5,6)] obtain s' where s': "gen_getwork_work e n job s = Inr s'"
      "stg_ok (gw_stg s')" "staged_work (gw_stg s') = staged_work (gw_stg s) @ map (\<lambda>k. ?p + 1 + int k) [0..<gv_devices e]"
      "\<And>k. k < gv_devices e \<Longrightarrow>
         staged_for e ?nice (decoded_item n (total_work (gw_mem s)) i blob t d) (works (gw_mem s') (?p + 1 + int k)) k"
      "\<And>q. q < ?p \<Longrightarrow> works (gw_mem s') q = works (gw_mem s) q" "works (gw_mem s') ?p = None"
    by blast
  have items: "job_item n i (device_data e ?nice ?d k) t (works (gw_mem s') (?p + 1 + int k))" if "k < gv_devices e" for k
    using s'(4) [OF that] by (auto simp: staged_for_def job_item_def decoded_item_def base_item_def)
  have starts: "unat (device_data e b ?d k ! nonce_byte b) = start_nonce_gap (gv_devices e) * k \<and>
      256 \<le> start_nonce_gap (gv_devices e) * gv_devices e" if "gv_devices e \<le> 16" "k < gv_devices e" for b k
    using device_starts [OF that] assms(4) by (simp add: device_data_def job_has_def nonce_byte_def del: of_nat_mult)
  show ?thesis using s'(1-3,5,6) items starts by (intro exI [of _ s']) auto
qed

text \<open>A job without an identifier is staged as well: an empty header with a target nothing meets.\<close>

lemma refused_job_staged:
  assumes "stg_ok (gw_stg s)" and "staged_sorted (gw_stg s)" and "\<not> getq_frozen (gw_stg s)"
    and "json_object_get job (bytes_of ''job_id'') = None" and "sorted (map (gv_now e) [0..<gv_devices e])"
    and "\<forall>k < gv_devices e. \<forall>q \<in> set (staged_work (gw_stg s)). tv_staged (gw_stg s) q \<le> gv_now e k"
  shows "\<exists>s'. gen_getwork_work e n job s = Inr s' \<and>
     staged_work (gw_stg s') = staged_work (gw_stg s) @ map (\<lambda>k. next_ptr (gw_mem s) + 1 + int k) [0..<gv_devices e] \<and>
     (\<forall>k < gv_devices e. \<exists>w. works (gw_mem s') (next_ptr (gw_mem s) + 1 + int k) = Some w \<and> w_job_id w = None \<and> w_target w = replicate 32 0)"
proof -
  from gen_getwork_staged [OF assms(1-3) refused_job [OF assms(4)] assms(5,6)] obtain s' where
    "gen_getwork_work e n job s = Inr s'" and
    "staged_work (gw_stg s') = staged_work (gw_stg s) @ map (\<lambda>k. next_ptr (gw_mem s) + 1 + int k) [0..<gv_devices e]" and
    items: "\<And>k. k < gv_devices e \<Longrightarrow>
      staged_for e (sp_nicehash (gw_pools s n)) (base_item n (total_work (gw_mem s))) (works (gw_mem s') (next_ptr (gw_mem s) + 1 + int k)) k"
    by blast
  moreover have "\<exists>w. works (gw_mem s') (next_ptr (gw_mem s) + 1 + int k) = Some w \<and> w_job_id w = None \<and> w_target w = replicate 32 0"
    if "k < gv_devices e" for k
    using items [OF that] by (auto simp: staged_for_def base_item_def zero_work_def)
  ultimately show ?thesis by blast
qed

section \<open>The table of shares\<close>

text \<open>No identifier and no item is in it twice, and every item in it is allocated and has a pool.\<close>

definition shares_ok :: "gw \<Rightarrow> bool" where
  "shares_ok s \<longleftrightarrow> distinct (map ss_id (stratum_shares s)) \<and> distinct (map ss_work (stratum_shares s)) \<and>
     (\<forall>ss \<in> set (stratum_shares s). \<exists>w k. works (gw_mem s) (ss_work ss) = Some w \<and> w_pool w = Some k)"

text \<open>What the table means: the shares without an answer, each with its pool, how many answers were counted, and how many shares are stale.\<close>

definition share_pool :: "gw \<Rightarrow> sshare \<Rightarrow> nat" where
  "share_pool s ss = the (w_pool (the (works (gw_mem s) (ss_work ss))))"

definition tally :: "gw \<Rightarrow> int" where
  "tally s = total_accepted (gw_mem s) + total_rejected s"

definition share_abs :: "gw \<Rightarrow> (u32 \<times> nat) list \<times> int \<times> int" where
  "share_abs s = (map (\<lambda>ss. (ss_id ss, share_pool s ss)) (stratum_shares s), tally s, total_stale (gw_mem s))"

datatype share_event = Sent u32 nat | Unsent | Answered u32 | Lost nat

fun share_spec :: "share_event \<Rightarrow> (u32 \<times> nat) list \<times> int \<times> int \<Rightarrow> (u32 \<times> nat) list \<times> int \<times> int" where
  "share_spec (Sent i n) (open_shares, answers, stale) = (open_shares @ [(i, n)], answers, stale)"
| "share_spec Unsent (open_shares, answers, stale) = (open_shares, answers, stale + 1)"
| "share_spec (Answered i) (open_shares, answers, stale) = (filter (\<lambda>(j, _). j \<noteq> i) open_shares, answers + 1, stale)"
| "share_spec (Lost n) (open_shares, answers, stale) =
     (filter (\<lambda>(_, m). m \<noteq> n) open_shares, answers, stale + int (length (filter (\<lambda>(_, m). m = n) open_shares)))"

inductive share_step :: "gw \<Rightarrow> share_event \<Rightarrow> gw \<Rightarrow> bool" where
  sent: "submit_share n lowmem tries p s = Inr (True, t, s') \<Longrightarrow> works (gw_mem s) p = Some w \<Longrightarrow> w_pool w = Some k \<Longrightarrow>
    swork_id s \<notin> ss_id ` set (stratum_shares s) \<Longrightarrow> p \<notin> ss_work ` set (stratum_shares s) \<Longrightarrow> share_step s (Sent (swork_id s) k) s'"
| unsent: "submit_share n lowmem tries p s = Inr (False, t, s') \<Longrightarrow> works (gw_mem s) p = Some w \<Longrightarrow> w_pool w = Some k \<Longrightarrow> p \<notin> ss_work ` set (stratum_shares s) \<Longrightarrow> share_step s Unsent s'"
| answered: "parse_getwork_response n val s = Inr (r, s') \<Longrightarrow> share_step s (Answered (answer_id val)) s'"
| lost: "clear_stratum_shares n s = Inr s' \<Longrightarrow> share_step s (Lost n) s'"

lemma remove1_id:
  "distinct (map ss_id xs) \<Longrightarrow> x \<in> set xs \<Longrightarrow> remove1 x xs = filter (\<lambda>y. ss_id y \<noteq> ss_id x) xs"
proof (induction xs)
  case (Cons y ys)
  then show ?case
    by (cases "y = x") (auto simp: image_iff intro!: filter_True [symmetric])
qed simp

lemma find_id_None: "find (\<lambda>ss. ss_id ss = i) xs = None \<longleftrightarrow> i \<notin> ss_id ` set xs"
  by (auto simp: find_None_iff)

lemma filter_not_id: "i \<notin> ss_id ` set xs \<Longrightarrow> filter (\<lambda>y. ss_id y \<noteq> i) xs = xs"
  by (intro filter_True) auto

lemma count_simps [simp]:
  "works (gw_mem (count_accepted n d s)) = works (gw_mem s)" "works (gw_mem (count_rejected n d s)) = works (gw_mem s)"
  "stratum_shares (count_accepted n d s) = stratum_shares s" "stratum_shares (count_rejected n d s) = stratum_shares s"
  "tally (count_accepted n d s) = tally s + 1" "tally (count_rejected n d s) = tally s + 1"
  "total_stale (gw_mem (count_accepted n d s)) = total_stale (gw_mem s)" "total_stale (gw_mem (count_rejected n d s)) = total_stale (gw_mem s)"
  by (simp_all add: count_accepted_def count_rejected_def tally_def pool_upd_def sp_upd_def set_mem_def Let_def)

lemma share_result_ok:
  assumes "works (gw_mem s) p = Some w" "w_pool w = Some k"
  shows "\<exists>s'. share_getwork_result val p s = Inr s' \<and> works (gw_mem s') = works (gw_mem s) \<and>
    stratum_shares s' = stratum_shares s \<and> tally s' = tally s + 1 \<and> total_stale (gw_mem s') = total_stale (gw_mem s)"
  using assms
  by (simp add: share_getwork_result_def at_work_def at_pool_def count_accepted_def count_rejected_def tally_def pool_upd_def
    sp_upd_def set_mem_def Let_def)

lemma response_ok:
  assumes "shares_ok s"
  shows "\<exists>r s'. parse_getwork_response n val s = Inr (r, s') \<and> shares_ok s' \<and>
    share_abs s' = share_spec (Answered (answer_id val)) (share_abs s) \<and> (r \<longleftrightarrow> answer_id val \<in> ss_id ` set (stratum_shares s))"
proof (cases "find (\<lambda>ss. ss_id ss = answer_id val) (stratum_shares s)")
  case None
  have none: "answer_id val \<notin> ss_id ` set (stratum_shares s)" using None unfolding find_id_None .
  have sp: "share_pool (count_accepted n d s) = share_pool s" "share_pool (count_rejected n d s) = share_pool s" for d
    by (simp_all add: share_pool_def fun_eq_iff)
  have "filter (\<lambda>(j, _). j \<noteq> answer_id val) (map (\<lambda>ss. (ss_id ss, share_pool s ss)) (stratum_shares s)) =
      map (\<lambda>ss. (ss_id ss, share_pool s ss)) (stratum_shares s)"
    using none by (auto simp: filter_id_conv image_iff)
  then show ?thesis
    using assms none by (simp add: parse_getwork_response_def None Let_def shares_ok_def share_abs_def sp) blast
next
  case (Some ss)
  have ss: "ss \<in> set (stratum_shares s)" "ss_id ss = answer_id val" using Some by (auto simp: find_Some_iff)
  let ?s = "(sp_upd s n (\<lambda>pl. pl\<lparr>sp_sshares := sp_sshares pl - 1\<rparr>))\<lparr>stratum_shares := remove1 ss (stratum_shares s)\<rparr>"
  obtain w k where w: "works (gw_mem ?s) (ss_work ss) = Some w" "w_pool w = Some k"
    using assms ss(1) by (auto simp: shares_ok_def sp_upd_def)
  obtain s' where s': "share_getwork_result val (ss_work ss) ?s = Inr s'" "works (gw_mem s') = works (gw_mem ?s)"
      "stratum_shares s' = stratum_shares ?s" "tally s' = tally ?s + 1" "total_stale (gw_mem s') = total_stale (gw_mem ?s)"
    using share_result_ok [OF w] by blast
  have rest: "remove1 ss (stratum_shares s) = filter (\<lambda>y. ss_id y \<noteq> answer_id val) (stratum_shares s)"
    using remove1_id [OF _ ss(1)] assms ss(2) by (simp add: shares_ok_def)
  have same: "works (gw_mem s') = works (gw_mem s)" "tally s' = tally s + 1" "total_stale (gw_mem s') = total_stale (gw_mem s)"
    using s'(2,4,5) by (simp_all add: sp_upd_def tally_def)
  then have "share_pool s' = share_pool s" by (simp add: share_pool_def fun_eq_iff)
  then have "share_abs s' = share_spec (Answered (answer_id val)) (share_abs s)"
    using s'(3) same by (simp add: share_abs_def rest filter_map comp_def)
  moreover have "shares_ok s'" using assms same s'(3) by (auto simp: shares_ok_def distinct_map_filter rest)
  moreover have "parse_getwork_response n val s = Inr (True, s')" using s'(1) Some by (simp add: parse_getwork_response_def)
  moreover have "answer_id val \<in> ss_id ` set (stratum_shares s)" using ss by (metis imageI)
  ultimately show ?thesis by auto
qed

definition lose_one :: "gw \<Rightarrow> nat \<Rightarrow> sshare \<Rightarrow> gw" where
  "lose_one s n ss = (sp_upd (set_mem s ((gw_mem s)\<lparr>works := (works (gw_mem s))(ss_work ss := None)\<rparr>)) n
     (\<lambda>pl. pl\<lparr>sp_sshares := sp_sshares pl - 1\<rparr>))\<lparr>stratum_shares := remove1 ss (stratum_shares s)\<rparr>"

lemma lose_one_simps [simp]:
  "works (gw_mem (lose_one s n ss)) = (works (gw_mem s))(ss_work ss := None)" "stratum_shares (lose_one s n ss) = remove1 ss (stratum_shares s)"
  "tally (lose_one s n ss) = tally s" "total_stale (gw_mem (lose_one s n ss)) = total_stale (gw_mem s)"
  by (simp_all add: lose_one_def tally_def set_mem_def sp_upd_def)

lemma free_share: "works m p = Some w \<Longrightarrow> free_work m (Some p) = Inr (m\<lparr>works := (works m)(p := None)\<rparr>)"
  by (rule free_work_eq) blast

lemma lose_one_ok:
  assumes "shares_ok s" "ss \<in> set (stratum_shares s)"
  shows "shares_ok (lose_one s n ss)"
    "\<And>y. y \<in> set (stratum_shares s) \<Longrightarrow> y \<noteq> ss \<Longrightarrow> share_pool (lose_one s n ss) y = share_pool s y"
proof -
  have "ss_work y \<noteq> ss_work ss" if "y \<in> set (stratum_shares s)" "y \<noteq> ss" for y
    using assms that by (auto simp: shares_ok_def distinct_map inj_on_def)
  then show "\<And>y. y \<in> set (stratum_shares s) \<Longrightarrow> y \<noteq> ss \<Longrightarrow> share_pool (lose_one s n ss) y = share_pool s y"
    and "shares_ok (lose_one s n ss)"
    using assms by (auto simp: shares_ok_def share_pool_def distinct_map dest: notin_set_remove1 intro: inj_on_subset)
qed

lemma lose_shares_ok:
  assumes "shares_ok s" "distinct sss" "set sss \<subseteq> set (stratum_shares s)"
  shows "\<exists>d s'. lose_shares n sss (k, d0) s = Inr (k + int (length (filter (\<lambda>ss. share_pool s ss = n) sss)), d, s') \<and> shares_ok s' \<and>
    stratum_shares s' = filter (\<lambda>ss. ss \<notin> set sss \<or> share_pool s ss \<noteq> n) (stratum_shares s) \<and>
    (\<forall>ss \<in> set (stratum_shares s'). share_pool s' ss = share_pool s ss) \<and> tally s' = tally s \<and>
    total_stale (gw_mem s') = total_stale (gw_mem s)"
  using assms
proof (induction sss arbitrary: s k d0)
  case Nil
  then show ?case by simp
next
  case (Cons ss sss)
  have ss: "ss \<in> set (stratum_shares s)" "ss \<notin> set sss" using Cons.prems by auto
  obtain w m where w: "works (gw_mem s) (ss_work ss) = Some w" "w_pool w = Some m"
    using Cons.prems(1) ss(1) by (auto simp: shares_ok_def)
  have pool: "share_pool s ss = m" using w by (simp add: share_pool_def)
  have d: "distinct (stratum_shares s)" using Cons.prems(1) by (simp add: shares_ok_def distinct_map)
  show ?case
  proof (cases "m = n")
    case False
    have "lose_shares n (ss # sss) (k, d0) s = lose_shares n sss (k, d0) s" using w False by (simp add: at_work_def)
    moreover have "filter (\<lambda>x. x \<notin> set sss \<or> share_pool s x \<noteq> n) (stratum_shares s) =
        filter (\<lambda>x. x \<notin> set (ss # sss) \<or> share_pool s x \<noteq> n) (stratum_shares s)"
      using False pool by (intro filter_cong) auto
    ultimately show ?thesis using Cons.IH [of s k d0] Cons.prems False pool by simp
  next
    case True
    let ?s = "lose_one s n ss"
    note one = lose_one_ok [OF Cons.prems(1) ss(1), where n = n]
    have "lose_shares n (ss # sss) (k, d0) s = lose_shares n sss (k + 1, d0 + w_work_difficulty w) ?s"
      using w True free_share [OF w(1)] by (simp add: at_work_def lose_one_def)
    moreover have sub: "set sss \<subseteq> set (stratum_shares ?s)" using Cons.prems(3) ss(2) d by auto
    moreover have same: "filter (\<lambda>x. share_pool ?s x = n) sss = filter (\<lambda>x. share_pool s x = n) sss"
    proof (intro filter_cong refl)
      fix x assume "x \<in> set sss"
      then have "x \<in> set (stratum_shares s)" "x \<noteq> ss" using ss(2) Cons.prems(3) by auto
      then show "(share_pool ?s x = n) = (share_pool s x = n)" using one(2) by simp
    qed
    moreover obtain d1 s' where s': "lose_shares n sss (k + 1, d0 + w_work_difficulty w) ?s =
        Inr (k + 1 + int (length (filter (\<lambda>x. share_pool ?s x = n) sss)), d1, s')" "shares_ok s'"
        "stratum_shares s' = filter (\<lambda>x. x \<notin> set sss \<or> share_pool ?s x \<noteq> n) (stratum_shares ?s)"
        "\<forall>x \<in> set (stratum_shares s'). share_pool s' x = share_pool ?s x" "tally s' = tally s" "total_stale (gw_mem s') = total_stale (gw_mem s)"
      using Cons.IH [OF one(1) _ sub, of "k + 1" "d0 + w_work_difficulty w"] Cons.prems(2) by auto
    moreover have rest: "stratum_shares s' = filter (\<lambda>x. x \<notin> set (ss # sss) \<or> share_pool s x \<noteq> n) (stratum_shares s)"
    proof -
      have "stratum_shares ?s = filter (\<lambda>x. x \<noteq> ss) (stratum_shares s)"
        using d by (simp add: distinct_remove1_removeAll removeAll_filter_not_eq) (rule filter_cong, auto)
      then have "stratum_shares s' = filter (\<lambda>x. (x \<notin> set sss \<or> share_pool ?s x \<noteq> n) \<and> x \<noteq> ss) (stratum_shares s)"
        by (simp add: s'(3) conj_commute)
      also have "\<dots> = filter (\<lambda>x. x \<notin> set (ss # sss) \<or> share_pool s x \<noteq> n) (stratum_shares s)"
      proof (intro filter_cong refl)
        fix x assume "x \<in> set (stratum_shares s)"
        then show "((x \<notin> set sss \<or> share_pool ?s x \<noteq> n) \<and> x \<noteq> ss) = (x \<notin> set (ss # sss) \<or> share_pool s x \<noteq> n)"
          using one(2) [of x] True pool by (cases "x = ss") simp_all
      qed
      finally show ?thesis .
    qed
    moreover have "\<forall>x \<in> set (stratum_shares s'). share_pool s' x = share_pool s x"
      using s'(4) one(2) True pool by (auto simp: rest)
    ultimately show ?thesis using True pool by (auto simp: add.assoc)
  qed
qed

lemma lost_ok:
  assumes "shares_ok s"
  shows "\<exists>s'. clear_stratum_shares n s = Inr s' \<and> shares_ok s' \<and> share_abs s' = share_spec (Lost n) (share_abs s)"
proof -
  have "distinct (stratum_shares s)" using assms by (simp add: shares_ok_def distinct_map)
  then obtain d s1 where s1: "lose_shares n (stratum_shares s) (0, 0) s =
      Inr (int (length (filter (\<lambda>ss. share_pool s ss = n) (stratum_shares s))), d, s1)" "shares_ok s1"
      "stratum_shares s1 = filter (\<lambda>ss. ss \<notin> set (stratum_shares s) \<or> share_pool s ss \<noteq> n) (stratum_shares s)"
      "\<forall>ss \<in> set (stratum_shares s1). share_pool s1 ss = share_pool s ss" "tally s1 = tally s" "total_stale (gw_mem s1) = total_stale (gw_mem s)"
    using lose_shares_ok [OF assms _ subset_refl, of n 0 0] by auto
  let ?c = "int (length (filter (\<lambda>ss. share_pool s ss = n) (stratum_shares s)))"
  have rest: "stratum_shares s1 = filter (\<lambda>ss. share_pool s ss \<noteq> n) (stratum_shares s)"
    unfolding s1(3) by (intro filter_cong) auto
  have open_shares: "map (\<lambda>ss. (ss_id ss, share_pool s1 ss)) (stratum_shares s1) =
      filter (\<lambda>(_, m). m \<noteq> n) (map (\<lambda>ss. (ss_id ss, share_pool s ss)) (stratum_shares s))"
    using s1(4) by (simp add: rest filter_map comp_def)
  have count: "length (filter (\<lambda>(_, m). m = n) (map (\<lambda>ss. (ss_id ss, share_pool s ss)) (stratum_shares s))) =
      length (filter (\<lambda>ss. share_pool s ss = n) (stratum_shares s))"
    by (simp add: filter_map comp_def)
  show ?thesis
  proof (cases "?c = 0")
    case True
    then have "clear_stratum_shares n s = Inr s1" using s1(1) by (simp add: clear_stratum_shares_def)
    then show ?thesis using s1(2,5,6) open_shares count True by (simp add: share_abs_def)
  next
    case False
    let ?m = "(pool_upd (gw_mem s1) n (\<lambda>pl. pl\<lparr>p_stale_shares := p_stale_shares pl + ?c, p_diff_stale := p_diff_stale pl + d\<rparr>))
       \<lparr>total_stale := total_stale (gw_mem s1) + ?c, total_diff_stale := total_diff_stale (gw_mem s1) + d\<rparr>"
    have "clear_stratum_shares n s = Inr (set_mem s1 ?m)" using s1(1) False by (simp add: clear_stratum_shares_def Let_def)
    moreover have "shares_ok (set_mem s1 ?m)" using s1(2) by (simp add: shares_ok_def)
    moreover have "share_abs (set_mem s1 ?m) = share_spec (Lost n) (share_abs s)"
      using s1(5,6) open_shares count by (simp add: share_abs_def share_pool_def tally_def pool_upd_def)
    ultimately show ?thesis by blast
  qed
qed

lemma submit_tries_frame:
  "submit_tries n ss lowmem tries s = Inr (b, s') \<Longrightarrow> gw_stg s' = gw_stg s \<and> total_rejected s' = total_rejected s \<and>
   stratum_shares s' = stratum_shares s @ (if b then [ss] else [])"
proof (induction tries arbitrary: s)
  case (Cons a tries)
  obtain sent needed where a: "a = (sent, needed)" by fastforce
  let ?pl = "gw_pools s n"
  let ?s = "if \<not> sp_submit_fail ?pl \<and> needed
     then (sp_upd s n (\<lambda>pl. pl\<lparr>sp_remotefail := sp_remotefail pl + 1\<rparr>))\<lparr>total_ro := total_ro s + 1\<rparr> else s"
  let ?t = "sp_upd ?s n (\<lambda>pl. pl\<lparr>sp_submit_fail := True\<rparr>)"
  have t: "gw_stg ?t = gw_stg s" "total_rejected ?t = total_rejected s" "stratum_shares ?t = stratum_shares s"
    by (simp_all add: sp_upd_def)
  show ?case
  proof (cases sent)
    case True
    then show ?thesis using Cons.prems a by (auto simp: sp_upd_def)
  next
    case False
    from Cons.prems a False have "(\<not> b \<and> s' = ?t) \<or> submit_tries n ss lowmem tries ?t = Inr (b, s')"
      by (auto simp: Let_def bindR_eq_Inr split: if_splits option.splits)
    then show ?thesis using Cons.IH [of ?t] t by auto
  qed
qed simp

lemma submit_share_ok:
  assumes "submit_share n lowmem tries p s = Inr (b, t, s')" "shares_ok s" "works (gw_mem s) p = Some w" "w_pool w = Some k"
    "b \<Longrightarrow> swork_id s \<notin> ss_id ` set (stratum_shares s)" "p \<notin> ss_work ` set (stratum_shares s)"
  shows "shares_ok s'" "share_abs s' = share_spec (if b then Sent (swork_id s) k else Unsent) (share_abs s)"
proof -
  let ?ss = "\<lparr>ss_id = swork_id s, ss_work = p\<rparr>" and ?s = "s\<lparr>swork_id := swork_id s + 1\<rparr>"
  obtain s1 where s1: "submit_tries n ?ss lowmem tries ?s = Inr (b, s1)"
    and fin: "if b then s' = s1 else (\<exists>m. free_work (gw_mem s1) (Some p) = Inr m \<and>
       s' = set_mem s1 ((pool_upd m n (\<lambda>pl. pl\<lparr>p_stale_shares := p_stale_shares pl + 1\<rparr>))\<lparr>total_stale := total_stale m + 1\<rparr>))"
    using assms(1,3) by (auto simp: submit_share_def at_work_def Let_def bindR_eq_Inr itemE_eq split: if_splits)
  have frame: "gw_stg s1 = gw_stg s" "total_rejected s1 = total_rejected s" "stratum_shares s1 = stratum_shares s @ (if b then [?ss] else [])"
    using submit_tries_frame [OF s1] by simp_all
  have free: "free_work (gw_mem s) (Some p) = Inr ((gw_mem s)\<lparr>works := (works (gw_mem s))(p := None)\<rparr>)"
    using free_share [OF assms(3)] .
  have pools: "share_pool s1 = share_pool s" by (simp add: share_pool_def fun_eq_iff frame(1))
  show "shares_ok s'"
  proof (cases b)
    case True
    then show ?thesis using fin frame assms(2-6) by (simp add: shares_ok_def)
  next
    case False
    have "works (gw_mem s') = (works (gw_mem s))(p := None)" "stratum_shares s' = stratum_shares s"
      using fin frame free False by (auto simp: pool_upd_def)
    then show ?thesis using assms(2,6) by (auto simp: shares_ok_def image_iff)
  qed
  show "share_abs s' = share_spec (if b then Sent (swork_id s) k else Unsent) (share_abs s)"
  proof (cases b)
    case True
    then show ?thesis using fin frame pools assms(3,4) by (simp add: share_abs_def tally_def) (simp add: share_pool_def)
  next
    case False
    have s': "works (gw_mem s') = (works (gw_mem s))(p := None)" "stratum_shares s' = stratum_shares s" "tally s' = tally s"
      "total_stale (gw_mem s') = total_stale (gw_mem s) + 1"
      using fin frame free False by (auto simp: pool_upd_def tally_def)
    have "map (\<lambda>ss. (ss_id ss, share_pool s' ss)) (stratum_shares s) = map (\<lambda>ss. (ss_id ss, share_pool s ss)) (stratum_shares s)"
      using assms(6) by (intro map_cong) (auto simp: share_pool_def s'(1) image_iff)
    then show ?thesis using s' False by (simp add: share_abs_def)
  qed
qed

lemma share_step_ok:
  assumes "share_step s ev s'" "shares_ok s"
  shows "shares_ok s' \<and> share_abs s' = share_spec ev (share_abs s)"
  using assms(1)
proof cases
  case (sent n lowmem tries p t w k)
  then show ?thesis using submit_share_ok [OF sent(2) assms(2) sent(3,4)] by simp
next
  case (unsent n lowmem tries p t w k)
  then show ?thesis using submit_share_ok [OF unsent(2) assms(2) unsent(3,4)] by simp
next
  case (answered n val r)
  then show ?thesis using response_ok [OF assms(2), of n val] by auto
next
  case (lost n)
  then show ?thesis using lost_ok [OF assms(2), of n] by auto
qed

inductive share_steps :: "gw \<Rightarrow> share_event list \<Rightarrow> gw \<Rightarrow> bool" where
  none: "share_steps s [] s"
| more: "share_step s ev s1 \<Longrightarrow> share_steps s1 evs s' \<Longrightarrow> share_steps s (ev # evs) s'"

text \<open>C10: Whatever sequence of submissions, answers and lost connections runs, the table of shares refines a list of open shares with their
  pools: a submission adds one, an answer removes the one it names and counts exactly once, and a lost connection turns
  those of its pool into as many stale ones.  In every state so reached the next answer and the next lost connection are handled
  without touching a freed item.\<close>

theorem share_table_refines:
  assumes "share_steps s evs s'" and "shares_ok s"
  shows "share_abs s' = fold share_spec evs (share_abs s) \<and>
     \<not> isl (parse_getwork_response n val s') \<and> \<not> isl (clear_stratum_shares n s')"
proof -
  from assms have "shares_ok s' \<and> share_abs s' = fold share_spec evs (share_abs s)"
    by (induction rule: share_steps.induct) (auto dest: share_step_ok)
  then show ?thesis using response_ok [of s' n val] lost_ok [of s' n] by auto
qed

section \<open>Examples, and what they show\<close>

definition demo_spool :: spool where
  "demo_spool = \<lparr>sp_rejected = 0, sp_seq_rejects = 0, sp_sshares = 1, sp_diff_rejected = 0, sp_getwork_requested = 0, sp_sdiff = 1,
     sp_nicehash = False, sp_nonce1 = None, sp_submit_fail = False, sp_remotefail = 0, sp_last_share_diff = 0, sp_stratum_init = True,
     sp_getfail = 0\<rparr>"

definition demo_gw :: gw where
  "demo_gw = \<lparr>gw_stg = demo_staged, gw_pools = (\<lambda>_. demo_spool), rpc2_id = replicate 192 0, rpc2_blob = None, rpc2_target = 0,
     rpc2_job_id = None, stratum_diff = 0, stratum_shares = [\<lparr>ss_id = 7, ss_work = 1\<rparr>], swork_id = 8, total_getworks = 0, local_work = 0,
     total_rejected = 0, total_diff_rejected = 0, cgpu_rejected = 0, cgpu_diff_rejected = 0, cgpu_last_share_pool = 0,
     cgpu_last_share_diff = 0, total_ro = 0, total_go = 0, restarts = 0\<rparr>"

definition demo_gv :: gv_env where
  "demo_gv = \<lparr>gv_devices = 3, gv_now = int, gv_diff = (\<lambda>_. 1), gv_behind = (\<lambda>_. replicate 64 0)\<rparr>"

definition demo_getwork_job :: json where
  "demo_getwork_job = JObject [(bytes_of ''job_id'', JString (bytes_of ''a7'')), (bytes_of ''blob'', JString (replicate 80 48)),
     (bytes_of ''target'', JString (bytes_of ''b88d0600''))]"

lemma demo_shares_ok: "shares_ok demo_gw"
  by (simp add: shares_ok_def demo_gw_def demo_staged_def demo_mem_def)

lemma share_table_refines_witness:
  "share_steps demo_gw [Lost 0] (projr (clear_stratum_shares 0 demo_gw)) \<and>
   share_abs (projr (clear_stratum_shares 0 demo_gw)) = ([], 0, 1)"
proof -
  let ?s = "projr (clear_stratum_shares 0 demo_gw)"
  have "clear_stratum_shares 0 demo_gw = Inr ?s" using lost_ok [OF demo_shares_ok, of 0] by auto
  then have run: "share_steps demo_gw [Lost 0] ?s" by (blast intro: share_steps.intros share_step.intros)
  have "share_abs demo_gw = ([(7, 0)], 0, 0)"
    by (simp add: share_abs_def share_pool_def tally_def demo_gw_def demo_staged_def demo_mem_def)
  then show ?thesis using run share_table_refines [OF run demo_shares_ok, of 0 None] by simp
qed

lemma zeros_hex: "hex2bin (replicate 80 48) 40 = (True, replicate 40 0)"
  by code_simp

lemma demo_getwork_job_has: "job_has (Some demo_getwork_job) (bytes_of ''a7'') (replicate 40 0) [184, 141, 6, 0]"
proof -
  have "jobj_binary (Some demo_getwork_job) ''target'' 4 = (True, [184, 141, 6, 0])" by code_simp
  moreover have "json_string_value (json_object_get (Some demo_getwork_job) (bytes_of ''job_id'')) = Some (bytes_of ''a7'')" by code_simp
  moreover have "json_string_value (json_object_get (Some demo_getwork_job) (bytes_of ''blob'')) = Some (replicate 80 48)" by code_simp
  ultimately show ?thesis using zeros_hex by (simp add: job_has_def)
qed

lemma job_reaches_devices_witness:
  "\<exists>s'. gen_getwork_work demo_gv 0 (Some demo_getwork_job) demo_gw = Inr s' \<and> staged_work (gw_stg s') = [3, 4, 6, 7, 8]"
proof -
  have "stg_ok (gw_stg demo_gw)" by (simp add: demo_gw_def demo_staged_ok)
  moreover have "staged_sorted (gw_stg demo_gw)" "\<not> getq_frozen (gw_stg demo_gw)"
    by (simp_all add: staged_sorted_def demo_gw_def demo_staged_def)
  moreover have "sorted (map (gv_now demo_gv) [0..<gv_devices demo_gv])" by (simp add: demo_gv_def upt_rec)
  moreover have "\<forall>k < gv_devices demo_gv. \<forall>q \<in> set (staged_work (gw_stg demo_gw)). tv_staged (gw_stg demo_gw) q \<le> gv_now demo_gv k"
    by (simp add: demo_gv_def demo_gw_def demo_staged_def)
  moreover note job_reaches_devices [of demo_gw "Some demo_getwork_job" "bytes_of ''a7''" "replicate 40 0" "[184, 141, 6, 0]" demo_gv 0]
  ultimately obtain s' where "gen_getwork_work demo_gv 0 (Some demo_getwork_job) demo_gw = Inr s'"
      "staged_work (gw_stg s') = staged_work (gw_stg demo_gw) @
         map (\<lambda>k. next_ptr (gw_mem demo_gw) + 1 + int k) [0..<gv_devices demo_gv]"
    using demo_getwork_job_has by blast
  then show ?thesis by (simp add: demo_gw_def demo_staged_def demo_gv_def upt_rec)
qed

text \<open>An error with a null result counts as accepted.\<close>

lemma null_result_accepted:
  "answer_id (Some (JObject [(bytes_of ''id'', JInteger 9), (bytes_of ''result'', JNull), (bytes_of ''error'', JString e)])) = 9 \<and>
   parse_getwork_response 0 (Some (JObject [(bytes_of ''id'', JInteger 9), (bytes_of ''result'', JNull), (bytes_of ''error'', JString e)])) demo_gw =
     Inr (False, count_accepted 0 1 demo_gw)"
proof -
  let ?v = "Some (JObject [(bytes_of ''id'', JInteger 9), (bytes_of ''result'', JNull), (bytes_of ''error'', JString e)])"
  have i: "answer_id ?v = 9" by (simp add: answer_id_def json_defs bytes_of_def)
  have "json_object_get ?v (bytes_of ''result'') = Some JNull" by (simp add: json_defs bytes_of_def)
  then show ?thesis using i by (simp add: parse_getwork_response_def demo_gw_def demo_spool_def Let_def)
qed

text \<open>A method that is not known counts as a rejected share.\<close>

lemma unknown_method_rejected:
  "getwork_message demo_gv 0 (Some (JObject [(bytes_of ''method'', JString (bytes_of ''ping''))])) demo_gw =
     Inr (count_rejected 0 1 demo_gw)"
  by (simp add: getwork_message_def parse_getwork_response_def answer_id_def json_defs bytes_of_def demo_gw_def demo_spool_def Let_def)

text \<open>An empty blob is taken for the job before, with a target of zero.\<close>

lemma empty_blob_target:
  assumes "rpc2_blob s = Some blob" "rpc2_job_id s = Some i" "works (gw_mem s) p = Some w"
    "json_object_get job (bytes_of ''job_id'') = Some j" "json_object_get job (bytes_of ''blob'') = Some (JString [])"
  shows "\<exists>s' w'. rpc2_job_decode e job (Some p) s = Inr (True, s') \<and> works (gw_mem s') p = Some w' \<and>
    w_target w' = replicate 28 255 @ replicate 4 0 \<and> w_job_id w' = Some i"
  using assms by (simp add: rpc2_job_decode_def blob_length_ok_def json_string_value_def fill_item_def at_work_def set_mem_def put_work_def
    mem_write_def)

section \<open>Disguised lines read back\<close>

text \<open>What was disguised is read, unless a byte of it is the complement of NUL.\<close>

lemma not_eq_zero: "NOT (b :: u8) = 0 \<longleftrightarrow> b = 255"
proof -
  have "NOT b = 0 \<longleftrightarrow> b = NOT 0" by (metis bit.double_compl)
  moreover have "(- 1 :: u8) = 255" by code_simp
  ultimately show ?thesis by simp
qed

lemma disguise_roundtrip:
  assumes "255 \<notin> set s"
  shows "gen_getwork_revdata (gen_getwork_sendata s) = Some s"
proof -
  have "0 \<notin> set (map NOT s)" using assms not_eq_zero by force
  then have "cstr_of (map NOT s) = map NOT s" by (rule cstr_of_id)
  then show ?thesis by (simp add: gen_getwork_revdata_def gen_getwork_sendata_def Let_def comp_def)
qed

text \<open>
  It is sent as a string, so a length byte that is zero ends it: a line of 203 bytes, or of any number that leaves the same remainder,
  is cut to its first bytes.
\<close>

lemma disguise_cut:
  assumes "length s mod 256 = 203"
  shows "length (cstr_of (gen_getwork_sendata s)) \<le> 3"
proof -
  let ?n = "int (length s)" and ?len = "NOT (word_of_nat (length s) * 29 :: u32)"
  obtain q where "length s = 256 * q + 203" using assms by (metis mult_div_mod_eq)
  then have "NOT (?n * 29) = 256 * (- (29 * int q) - 23)" by (simp add: not_int_def)
  then have low: "take_bit 8 (NOT (?n * 29)) = 0" by (simp add: take_bit_eq_mod)
  have "?len = word_of_int (NOT (?n * 29))" by (simp add: not_int_def not_eq_complement)
  then have "ucast ?len = (word_of_int (take_bit 32 (NOT (?n * 29))) :: u8)" by (simp add: unsigned_of_int)
  also have "\<dots> = word_of_int (take_bit 8 (take_bit 32 (NOT (?n * 29))))" by (simp add: of_int_take_bit take_bit_word_eq_self)
  also have "\<dots> = 0" using low by (simp add: min_def)
  finally have "ucast ?len = (0 :: u8)" .
  then show ?thesis by (simp add: gen_getwork_sendata_def cstr_of_def Let_def)
qed

end
