(* ===== verification/Spec2Isabelle.thy ===== *)
theory Spec2Isabelle
  imports Hexcode Scriptser Klist Timeval NonceDup Sha256 AesT4 Crc T4Config T4Driver Pools Gbt Nonces Getwork
begin

text \<open>
  \<^bold>\<open>cgminer with the T4 driver: a verification development.\<close>

  cgminer takes work from mining pools, gives it to chips that search for a nonce, and submits what they
  find.  This repository builds it for the machines of the T4 board: chains of ASIC chips on an SPI bus behind a vendor library.
  Work enters at a pool connection (src/util.c), becomes items (src/cgminer.c), waits in the queue of a device,
  is cut into jobs for the chips (src/t4_common.c) by the driver (src/driver-SPI-bitmine-t4.c), and comes back as
  nonces that are tested and submitted (src/cgminer.c, src/util.c, src/getwork.c).  The theories follow that path.  Every
  definition is the C function of its name unless its comment says otherwise, a loop of a function has a
  definition of its own, and definitions named after nothing in the C sources are specifications.

  \<^bold>\<open>Vocabulary.\<close>  Prelude has the machine integers (u8 to u64 are words, so they wrap), C strings and buffers as
  byte lists, results as sums with the error on the left, and two interfaces as locales: codec (what is encoded
  is decoded) and fifo (a queue read through a representation relation).  Codecs are instantiated for hexadecimal text, script
  strings and frames of results; queues for the item lists, the queue of a chain and the thread queue.

  \<^bold>\<open>Data and libraries.\<close>
  \<^item> Hexcode (src/util.c: bin2hex, hex2bin, _valid_hex, _valid_ascii): the table of digits and both directions, inverse.
  \<^item> Scriptser (src/util.c: b58tobin, address_to_pubkeyhash, ser_number, ser_string): values of base58 strings,
    script numbers and strings read back.
  \<^item> Timeval (src/util.c: the conversions, sums, differences and comparisons of times).
  \<^item> Klist (src/klist.c, src/klist.h): doubly linked lists and stores on a heap of items, every operation with
    its fatal checks.  The operations simulate a machine over lists of addresses.
  \<^item> NonceDup (src/noncedup.c): which nonces were seen lately; its pointer loops are partial functions, shown to
    return; the check refines a list of pairs with times.
  \<^item> Json (the accessors of jansson, with __json_array_string and json_array_string of src/util.c).

  \<^bold>\<open>Hashes, ciphers and checksums.\<close>
  \<^item> Sha256 (src/sha2.c): the incremental context against FIPS 180 on the whole message, up to the 32 bits of its length.
  \<^item> Scrypt (src/scrypt.c): the specialised SHA-256, PBKDF2 and Salsa20/8 against RFC 7914; the buffer SCRATCHBUF_SIZE
    suffices wherever it is aligned.
  \<^item> AesTables, AesT4 (src/mcompat_aes.c): tables, rounds, key schedule and block loops against FIPS 197, and decryption undoing
    encryption through the locale block_cipher.
  \<^item> Crc (src/crc16.c, src/t4_cmd.c): both checksums against division bit by bit, and the locale checksum for what a receiver
    concludes.

  \<^bold>\<open>The T4 board.\<close>
  \<^item> T4Hw: the vendor library.  It is not in the repository, so it is an environment that answers each command from the history
    of commands and answers; the theorems hold for every environment.
  \<^item> T4Clock (src/t4_clock.c): the tables of frequencies agree, and setting the clock issues the levels one by one.
  \<^item> T4Job (src/t4_common.c: create_job and its parts): the frame of a job read back, and the ranges of nonces of the
    chips of a chain, which do not meet.
  \<^item> T4Chain (src/t4_common.c): the state of a chain (A1_chain, A1_chip), set_work, get_result, check_chip and the steps down from a failing
    chip to a disabled one, detection and reset.  Its step relation t4_step has an invariant and never revives a chip given up.
  \<^item> T4Config (src/t4_common.c: the encrypted file of pools and the file of the hardware version).
  \<^item> T4Driver (src/driver-SPI-bitmine-t4.c): chain detection, the loop over results, dispatch, the queue filler A1_queue_full, A1_scanwork
    and A1_flush_work.  It joins T4Chain and Works: no run of the entry points uses a freed item or leaves an array, and what
    a chip works on is still allocated.

  \<^bold>\<open>Work.\<close>
  \<^item> Queues (src/driver-SPI-bitmine-t4.c, src/util.c): the queue of a chain and the thread queue are queues.
  \<^item> Works (src/cgminer.c): make_work, copy_work, free_work, stale_work, and the queue of a device, on a heap in which items can be freed.
  \<^item> Pools (src/cgminer.c, src/api.c): the array of pools, priorities, strategies, quotas, switching, and the commands that change them.
    Its runs keep a strict order of priority; load balancing serves every pool in each round.
  \<^item> Merkle (src/cgminer.c): the branch of a template and the witness tree, computed in one buffer, against the
    recursive tree (locale tree_hash).
  \<^item> Stratum (src/util.c: parse_notify, parse_diff; src/cgminer.c: gen_stratum_work): allocated, freed and unset memory is explicit,
    so that the refused notification that leaves freed pointers behind is a theorem.
  \<^item> Gbt (src/cgminer.c: gbt_decode, gbt_solo_decode, gen_gbt_work, gen_solo_work and the text of a block): the work is the header of the block of the
    template with the transactions in it.
  \<^item> Net (src/util.c: recv_line, parse_method, parse_reconnect, initiate_stratum, auth_stratum): the stream of lines,
    requests to reconnect, subscribing.
  \<^item> Staged (src/cgminer.c: hash_push, hash_pop, get_work, discard_stale, clear_pool_work): the table of staged items, over the
    heap of Works; get_work hands out the oldest item that is not stale.
  \<^item> Getwork (src/getwork.c): the protocol in use on the T4 boards, since opt_getwork is on by default.  Logging in, a job staged as one
    item for every device, submissions and the table of shares, which refines the list of shares not answered, and
    the disguise of lines.  Its state contains that of Staged; its connection is that of Net.

  \<^bold>\<open>Results.\<close>
  \<^item> Shares (src/util.c, src/cgminer.c, src/getwork.c): the test of a hash, its statistics and the copy that is queued.
  \<^item> Nonces (src/cgminer.c, src/scrypt.c): test_nonce, submit_nonce, and the search in software, which ends at the first nonce.

  \<^bold>\<open>What the lemmas show.\<close>  For data: that decoding undoes encoding, and that optimised code equals a reference written from its
  standard.  For state: an invariant of each component, kept by every operation (wf_chain and t4_inv of a chain, ordered of
  the pools, pool_ok of a stratum pool, kq_ok of lists, receiving of a connection, stg_ok of the staged items, shares_ok of the shares), and what each operation does on every branch.  For
  runs: reachability relations (t4_step, pool_step, share_steps, the steps of the driver) with the invariant by rule induction.  Where a
  function misbehaves, a lemma states it at an input that is possible, and the properties have the condition that excludes it.

  \<^bold>\<open>Loops and bounds.\<close>  Structural and measured loops are total.  The pointer loops of NonceDup and the loops of the driver, of
  authorising and of get_work are partial functions in which not returning is None, with theorems that they return.  restart_stratum has
  a bound on how deep requests to reconnect nest while authorising; each level is a connection of its own, and no property
  depends on it.  Difficulties are rational; quotients of floating-point
  numbers are arguments.  Lengths of lists are below 2 ^ 31 wherever the code keeps them in an int.

  \<^bold>\<open>Not modelled.\<close>  Locks are taken as given: an operation under its lock is one step, and the interleaving of
  threads is the order of steps.  Left out: option tables, the screen, the watchdog and the
  creation of threads in src/cgminer.c; remote calls through curl, name resolution and proxies in src/util.c; the text of the
  replies of src/api.c; the USB layer (src/usbutils.c) and serial ports, whose code is calls of the operating system; the
  drivers of other boards (the other src/driver-*.c), which the build for the T4 does not compile; fan control and factory
  tests of the T4; logging; the variant of the stratum protocol with disguised
  lines, which src/miner.h switches off (A8_PROTOCOL_ENCRYPT), though the disguise itself is in Getwork; the endless loops of the threads, of
  which each round is a definition; and the vendored
  libraries under src/compat, of which the accessors of JSON values are modelled.
\<close>

end
